(* ===== verification/Prelude.thy ===== *)
theory Prelude
  imports Main "HOL-Library.Word"
begin

text \<open>
  Shared vocabulary of the development: the machine integers of the C sources, the
  collections of simplification rules the component theories extend, and the generic
  facts on lists, words and bounded arithmetic that several components use.
\<close>

unbundle bit_operations_syntax

section \<open>Machine integers\<close>

type_synonym u8 = "8 word"
type_synonym u16 = "16 word"
type_synonym u32 = "32 word"
type_synonym u64 = "64 word"

text \<open>A C byte buffer.\<close>

type_synonym bytes = "u8 list"

section \<open>Collections\<close>

text \<open>
  \<open>defs\<close> holds the definitions that component proofs unfold, \<open>inv_simps\<close> the
  unfoldings of the representation invariants.
\<close>

named_theorems defs \<open>operation definitions unfolded by component proofs\<close>
named_theorems inv_simps \<open>representation invariants unfolded by component proofs\<close>

section \<open>Lists\<close>

lemma nth_list_update_if:
  "i < length xs \<Longrightarrow> xs[i := x] ! j = (if i = j then x else xs ! j)"
  by (cases "i = j") auto

lemma sum_list_update_add:
  fixes xs :: "'a::ab_group_add list"
  assumes "i < length xs"
  shows "sum_list (xs[i := xs ! i + d]) = sum_list xs + d"
  using assms
proof (induction xs arbitrary: i)
  case (Cons x xs)
  then show ?case by (cases i) (auto simp: algebra_simps)
qed simp

lemma list_all_nth_iff: "list_all P xs \<longleftrightarrow> (\<forall>i<length xs. P (xs ! i))"
  by (simp add: list_all_length)

lemma foldl_invariant:
  assumes "I s" and "\<And>s x. I s \<Longrightarrow> x \<in> set xs \<Longrightarrow> I (f s x)"
  shows "I (foldl f s xs)"
  using assms by (induction xs arbitrary: s) auto

section \<open>Buffers\<close>

text \<open>\<open>buf_write off d b\<close> is \<^verbatim>\<open>memcpy(b + off, d, |d|)\<close> inside the buffer \<open>b\<close>.\<close>

definition buf_write :: "nat \<Rightarrow> 'a list \<Rightarrow> 'a list \<Rightarrow> 'a list" where
  "buf_write off d b = take off b @ d @ drop (off + length d) b"

lemma length_buf_write [simp]:
  "off + length d \<le> length b \<Longrightarrow> length (buf_write off d b) = length b"
  by (simp add: buf_write_def)

lemma nth_buf_write:
  "off + length d \<le> length b \<Longrightarrow>
     buf_write off d b ! i = (if off \<le> i \<and> i < off + length d then d ! (i - off) else b ! i)"
  by (auto simp: buf_write_def nth_append not_less)

lemma buf_write_slice:
  "off + length d \<le> length b \<Longrightarrow> take (length d) (drop off (buf_write off d b)) = d"
  by (simp add: buf_write_def)

lemma buf_write_slice_other:
  assumes "off + length d \<le> length b" "o' + n \<le> off \<or> off + length d \<le> o'"
  shows "take n (drop o' (buf_write off d b)) = take n (drop o' b)"
  using assms by (intro nth_equalityI) (auto simp: nth_buf_write)

lemma take_buf_write_0: "length d \<le> n \<Longrightarrow> n \<le> length b \<Longrightarrow>
    take n (buf_write 0 d b) = buf_write 0 d (take n b)"
  by (simp add: buf_write_def min_def take_drop)

section \<open>Words\<close>

lemma unat_u8_less: "unat (b :: u8) < 256"
  using unsigned_less [of b, where ?'a = nat] by simp

lemma word_xor_eq_0_iff: "(a :: 'a::len word) XOR b = 0 \<longleftrightarrow> a = b"
  by (auto dest: arg_cong [of _ _ "\<lambda>x. x XOR b"] simp: xor.assoc)


lemma word_xor_cancel [simp]: "(x :: 'a::len word) XOR c = y XOR c \<longleftrightarrow> x = y"
  by (metis word_xor_eq_0_iff xor.assoc xor.commute xor.right_neutral xor_self_eq)

end
