(* ===== verification/MessageQueue.thy ===== *)
theory MessageQueue
  imports Prelude
begin

text \<open>
  The message queue of the browser module (\<^verbatim>\<open>src/queue.c\<close>): a ring of
  \<^verbatim>\<open>MAX_QUEUE_SIZE\<close> slots filled by the main thread and drained by the worker. Every
  operation runs under the queue mutex, so an operation is one atomic step of the model.
  The interface the handlers rely on is the locale \<open>bounded_fifo\<close>; the ring is an
  interpretation of it.
\<close>

section \<open>The interface: a bounded first-in first-out channel\<close>

text \<open>
  A schedule interleaves producers (\<open>Inl m\<close>) and consumers (\<open>Inr ()\<close>); a producer
  whose message is refused drops it, a consumer that meets an empty queue waits, which
  leaves the state unchanged. The run returns the accepted, the dropped and the delivered
  messages and the last state.
\<close>

fun fifo_run :: "('q \<Rightarrow> 'm \<Rightarrow> 'q option) \<Rightarrow> ('q \<Rightarrow> ('m \<times> 'q) option) \<Rightarrow> 'q \<Rightarrow>
    ('m + unit) list \<Rightarrow> 'm list \<times> 'm list \<times> 'm list \<times> 'q" where
  "fifo_run enq deq q [] = ([], [], [], q)"
| "fifo_run enq deq q (Inl m # es) =
     (case enq q m of
        None \<Rightarrow> (let (a, x, d, r) = fifo_run enq deq q es in (a, m # x, d, r))
      | Some q' \<Rightarrow> (let (a, x, d, r) = fifo_run enq deq q' es in (m # a, x, d, r)))"
| "fifo_run enq deq q (Inr u # es) =
     (case deq q of
        None \<Rightarrow> fifo_run enq deq q es
      | Some (m, q') \<Rightarrow> (let (a, x, d, r) = fifo_run enq deq q' es in (a, x, m # d, r)))"

text \<open>
  What a channel of capacity \<open>cap\<close> promises, over a plain list and with no slots or
  counters: a message is refused exactly when \<open>cap\<close> messages are waiting, and the oldest
  waiting message is delivered first.
\<close>

fun fifo_spec :: "nat \<Rightarrow> 'm list \<Rightarrow> ('m + unit) list \<Rightarrow>
    'm list \<times> 'm list \<times> 'm list \<times> 'm list" where
  "fifo_spec cap ws [] = ([], [], [], ws)"
| "fifo_spec cap ws (Inl m # es) =
     (if length ws < cap
      then let (a, x, d, r) = fifo_spec cap (ws @ [m]) es in (m # a, x, d, r)
      else let (a, x, d, r) = fifo_spec cap ws es in (a, m # x, d, r))"
| "fifo_spec cap [] (Inr u # es) = fifo_spec cap [] es"
| "fifo_spec cap (w # ws) (Inr u # es) =
     (let (a, x, d, r) = fifo_spec cap ws es in (a, x, w # d, r))"

lemma fifo_spec_order:
  "fifo_spec cap ws es = (acc, drp, del, r) \<Longrightarrow> ws @ acc = del @ r"
  by (induction cap ws es arbitrary: acc drp del r rule: fifo_spec.induct)
     (auto split: if_splits prod.splits)

locale bounded_fifo =
  fixes enq :: "'q \<Rightarrow> 'm \<Rightarrow> 'q option"
    and deq :: "'q \<Rightarrow> ('m \<times> 'q) option"
    and contents :: "'q \<Rightarrow> 'm list"
    and invar :: "'q \<Rightarrow> bool"
    and capacity :: nat
  assumes enq_full: "invar q \<Longrightarrow> enq q m = None \<longleftrightarrow> length (contents q) = capacity"
    and enq_some: "invar q \<Longrightarrow> enq q m = Some q' \<Longrightarrow> invar q' \<and> contents q' = contents q @ [m]"
    and deq_empty: "invar q \<Longrightarrow> deq q = None \<longleftrightarrow> contents q = []"
    and deq_some: "invar q \<Longrightarrow> deq q = Some (m, q') \<Longrightarrow> invar q' \<and> contents q = m # contents q'"
    and bounded: "invar q \<Longrightarrow> length (contents q) \<le> capacity"
begin

lemma enq_accepts: "invar q \<Longrightarrow> length (contents q) < capacity \<Longrightarrow> \<exists>q'. enq q m = Some q'"
  using enq_full [of q m] by (cases "enq q m") auto

lemma enq_refuses: "invar q \<Longrightarrow> \<not> length (contents q) < capacity \<Longrightarrow> enq q m = None"
  using enq_full [of q m] bounded [of q] by simp

text \<open>Every run of the operations is the run of the specification on the contents.\<close>

lemma run_refines:
  "invar q \<Longrightarrow> fifo_run enq deq q es = (acc, drp, del, r) \<Longrightarrow>
     invar r \<and> fifo_spec capacity (contents q) es = (acc, drp, del, contents r)"
proof (induction es arbitrary: q acc drp del r)
  case (Cons e es)
  note run = Cons.prems(2)
  show ?case
  proof (cases e)
    case (Inl m)
    show ?thesis
    proof (cases "length (contents q) < capacity")
      case False
      from enq_refuses [OF Cons.prems(1) False] have none: "enq q m = None" .
      obtain a x d s where r: "fifo_run enq deq q es = (a, x, d, s)" by (metis prod_cases4)
      with Cons.IH [OF Cons.prems(1) r] run none False Inl show ?thesis by auto
    next
      case True
      from enq_accepts [OF Cons.prems(1) True] obtain q' where some: "enq q m = Some q'" by blast
      obtain a x d s where r: "fifo_run enq deq q' es = (a, x, d, s)" by (metis prod_cases4)
      from enq_some [OF Cons.prems(1) some] have "invar q'" "contents q' = contents q @ [m]" by auto
      with Cons.IH [OF _ r] r run some True Inl show ?thesis by auto
    qed
  next
    case (Inr u)
    show ?thesis
    proof (cases "deq q")
      case None
      then have e: "contents q = []" using deq_empty [OF Cons.prems(1)] by simp
      from Cons.IH [OF Cons.prems(1)] run Inr None
      have "invar r \<and> fifo_spec capacity (contents q) es = (acc, drp, del, contents r)" by simp
      then show ?thesis using Inr by (simp add: e)
    next
      case (Some mq)
      obtain m q' where mq: "mq = (m, q')" by (cases mq)
      obtain a x d s where r: "fifo_run enq deq q' es = (a, x, d, s)" by (metis prod_cases4)
      from deq_some [OF Cons.prems(1), of m q'] Some mq
      have "invar q'" "contents q = m # contents q'" by auto
      with Cons.IH [OF _ r] r run Some mq Inr show ?thesis by auto
    qed
  qed
qed simp

lemma run_bounded:
  "invar q \<Longrightarrow> fifo_run enq deq q es = (acc, drp, del, r) \<Longrightarrow> length (contents r) \<le> capacity"
  using run_refines bounded by blast

end

section \<open>The ring buffer\<close>

definition MAX_QUEUE_SIZE :: nat where
  "MAX_QUEUE_SIZE = 256"

text \<open>
  The file-scope variables \<^verbatim>\<open>g_queue\<close>, \<^verbatim>\<open>g_queue_start\<close>,
  \<^verbatim>\<open>g_queue_end\<close> and \<^verbatim>\<open>g_queue_size\<close>.
\<close>

record 'm message_queue =
  g_queue :: "'m list"
  g_queue_start :: nat
  g_queue_end :: nat
  g_queue_size :: nat

definition IsQueueEmpty :: "'m message_queue \<Rightarrow> bool" where
  "IsQueueEmpty q \<longleftrightarrow> g_queue_size q = 0"

definition IsQueueFull :: "'m message_queue \<Rightarrow> bool" where
  "IsQueueFull q \<longleftrightarrow> g_queue_size q = MAX_QUEUE_SIZE"

text \<open>Statically zero-initialised storage; \<open>z\<close> is the zero message.\<close>

definition initial_queue :: "'m \<Rightarrow> 'm message_queue" where
  "initial_queue z = \<lparr>g_queue = replicate MAX_QUEUE_SIZE z, g_queue_start = 0, g_queue_end = 0,
     g_queue_size = 0\<rparr>"

text \<open>\<open>None\<close> is the return value 0: the queue is full and the message is dropped.\<close>

definition EnqueueMessage :: "'m message_queue \<Rightarrow> 'm \<Rightarrow> 'm message_queue option" where
  "EnqueueMessage q message =
     (if IsQueueFull q then None
      else Some (q\<lparr>g_queue := (g_queue q)[g_queue_end q := message],
                   g_queue_end := (g_queue_end q + 1) mod MAX_QUEUE_SIZE,
                   g_queue_size := g_queue_size q + 1\<rparr>))"

text \<open>\<open>None\<close> is the wait on the condition variable: the caller is blocked.\<close>

definition DequeueMessage :: "'m message_queue \<Rightarrow> ('m \<times> 'm message_queue) option" where
  "DequeueMessage q =
     (if IsQueueEmpty q then None
      else Some (g_queue q ! g_queue_start q,
                 q\<lparr>g_queue_start := (g_queue_start q + 1) mod MAX_QUEUE_SIZE,
                   g_queue_size := g_queue_size q - 1\<rparr>))"

lemmas queue_defs = EnqueueMessage_def DequeueMessage_def IsQueueEmpty_def IsQueueFull_def

section \<open>Abstraction and invariant\<close>

text \<open>The valid elements, in the order the comment above \<^verbatim>\<open>g_queue\<close> gives them.\<close>

definition queue_contents :: "'m message_queue \<Rightarrow> 'm list" where
  "queue_contents q =
     map (\<lambda>i. g_queue q ! ((g_queue_start q + i) mod MAX_QUEUE_SIZE)) [0..<g_queue_size q]"

definition queue_invar :: "'m message_queue \<Rightarrow> bool" where
  "queue_invar q \<longleftrightarrow> length (g_queue q) = MAX_QUEUE_SIZE \<and> g_queue_start q < MAX_QUEUE_SIZE
     \<and> g_queue_size q \<le> MAX_QUEUE_SIZE
     \<and> g_queue_end q = (g_queue_start q + g_queue_size q) mod MAX_QUEUE_SIZE"

lemma MAX_QUEUE_SIZE_pos [simp]: "0 < MAX_QUEUE_SIZE"
  by (simp add: MAX_QUEUE_SIZE_def)

lemma length_queue_contents [simp]: "length (queue_contents q) = g_queue_size q"
  by (simp add: queue_contents_def)

lemma queue_contents_nth:
  "i < g_queue_size q \<Longrightarrow>
     queue_contents q ! i = g_queue q ! ((g_queue_start q + i) mod MAX_QUEUE_SIZE)"
  by (simp add: queue_contents_def)

text \<open>Two distinct offsets below the capacity name distinct slots.\<close>

lemma ring_slot_inj:
  assumes "i < n" "j < n" "(s + i) mod n = (s + j) mod (n::nat)"
  shows "i = j"
proof (rule ccontr)
  assume ne: "i \<noteq> j"
  have "int n dvd int (s + i) - int (s + j)"
    using assms(3) by (metis mod_eq_dvd_iff of_nat_mod)
  then have "int n dvd int i - int j" by simp
  moreover have "\<bar>int i - int j\<bar> < int n" "int i - int j \<noteq> 0" using assms(1,2) ne by auto
  ultimately show False by (meson dvd_imp_le_int not_le abs_of_nat dvd_abs_iff zdvd_not_zless zero_less_abs_iff)
qed

lemma enqueue_contents:
  assumes inv: "queue_invar q" and ret: "EnqueueMessage q m = Some q'"
  shows "queue_contents q' = queue_contents q @ [m]"
proof (rule nth_equalityI)
  from ret have notfull: "g_queue_size q \<noteq> MAX_QUEUE_SIZE"
    and q': "q' = q\<lparr>g_queue := (g_queue q)[g_queue_end q := m],
                   g_queue_end := (g_queue_end q + 1) mod MAX_QUEUE_SIZE,
                   g_queue_size := g_queue_size q + 1\<rparr>"
    by (auto simp: queue_defs split: if_splits)
  then show "length (queue_contents q') = length (queue_contents q @ [m])" by simp
  fix i assume "i < length (queue_contents q')"
  then have i: "i < g_queue_size q + 1" by (simp add: q')
  from inv notfull have sz: "g_queue_size q < MAX_QUEUE_SIZE"
    and e: "g_queue_end q = (g_queue_start q + g_queue_size q) mod MAX_QUEUE_SIZE"
    and len: "length (g_queue q) = MAX_QUEUE_SIZE" by (auto simp: queue_invar_def)
  have lt: "g_queue_end q < length (g_queue q)" by (simp add: e len)
  have eq: "g_queue_end q = (g_queue_start q + i) mod MAX_QUEUE_SIZE \<longleftrightarrow> g_queue_size q = i"
    using ring_slot_inj [of "g_queue_size q" MAX_QUEUE_SIZE i "g_queue_start q"] i sz by (auto simp: e)
  have "queue_contents q' ! i = g_queue q' ! ((g_queue_start q + i) mod MAX_QUEUE_SIZE)"
    using i by (simp add: queue_contents_nth q')
  also have "\<dots> = (if g_queue_size q = i then m
       else g_queue q ! ((g_queue_start q + i) mod MAX_QUEUE_SIZE))"
    using lt by (simp add: q' nth_list_update_if eq)
  also have "\<dots> = (queue_contents q @ [m]) ! i"
    using i by (auto simp: nth_append queue_contents_nth)
  finally show "queue_contents q' ! i = (queue_contents q @ [m]) ! i" .
qed

lemma dequeue_contents:
  assumes inv: "queue_invar q" and ret: "DequeueMessage q = Some (m, q')"
  shows "queue_contents q = m # queue_contents q'"
proof (rule nth_equalityI)
  from ret have ne: "g_queue_size q \<noteq> 0" and m: "m = g_queue q ! g_queue_start q"
    and q': "q' = q\<lparr>g_queue_start := (g_queue_start q + 1) mod MAX_QUEUE_SIZE,
                   g_queue_size := g_queue_size q - 1\<rparr>"
    by (auto simp: queue_defs split: if_splits)
  then show "length (queue_contents q) = length (m # queue_contents q')" by simp
  fix i assume "i < length (queue_contents q)"
  then have i: "i < g_queue_size q" by simp
  show "queue_contents q ! i = (m # queue_contents q') ! i"
  proof (cases i)
    case 0
    with i inv show ?thesis by (simp add: queue_contents_nth m queue_invar_def)
  next
    case (Suc k)
    with i have "queue_contents q' ! k
        = g_queue q ! (((g_queue_start q + 1) mod MAX_QUEUE_SIZE + k) mod MAX_QUEUE_SIZE)"
      by (simp add: queue_contents_nth q')
    also have "\<dots> = g_queue q ! ((g_queue_start q + i) mod MAX_QUEUE_SIZE)"
      by (simp add: Suc mod_simps)
    finally show ?thesis using i by (simp add: Suc queue_contents_nth)
  qed
qed

lemma enqueue_invar: "queue_invar q \<Longrightarrow> EnqueueMessage q m = Some q' \<Longrightarrow> queue_invar q'"
  by (auto simp: queue_invar_def queue_defs mod_simps split: if_splits)

lemma dequeue_invar: "queue_invar q \<Longrightarrow> DequeueMessage q = Some (m, q') \<Longrightarrow> queue_invar q'"
proof -
  assume inv: "queue_invar q" and ret: "DequeueMessage q = Some (m, q')"
  from ret obtain k where k: "g_queue_size q = Suc k"
    by (cases "g_queue_size q") (auto simp: queue_defs)
  then have "(Suc (g_queue_start q) mod MAX_QUEUE_SIZE + k) mod MAX_QUEUE_SIZE
      = (g_queue_start q + Suc k) mod MAX_QUEUE_SIZE"
    by (simp add: mod_simps)
  with inv ret k show "queue_invar q'"
    by (auto simp: queue_invar_def queue_defs split: if_splits)
qed

lemma initial_queue_invar [simp]: "queue_invar (initial_queue z)"
  by (simp add: queue_invar_def initial_queue_def)

interpretation ring: bounded_fifo EnqueueMessage DequeueMessage queue_contents queue_invar
  MAX_QUEUE_SIZE
proof
  fix q :: "'a message_queue" and q' m
  assume inv: "queue_invar q"
  show "EnqueueMessage q m = None \<longleftrightarrow> length (queue_contents q) = MAX_QUEUE_SIZE"
    by (simp add: queue_defs)
  show "DequeueMessage q = None \<longleftrightarrow> queue_contents q = []"
    by (simp add: queue_defs flip: length_0_conv)
  show "length (queue_contents q) \<le> MAX_QUEUE_SIZE"
    using inv by (simp add: queue_invar_def)
  assume "EnqueueMessage q m = Some q'"
  with inv show "queue_invar q' \<and> queue_contents q' = queue_contents q @ [m]"
    by (simp add: enqueue_contents enqueue_invar)
next
  fix q :: "'a message_queue" and q' m
  assume inv: "queue_invar q" and "DequeueMessage q = Some (m, q')"
  then show "queue_invar q' \<and> queue_contents q = m # queue_contents q'"
    by (simp add: dequeue_contents dequeue_invar)
qed

section \<open>Properties\<close>

text \<open>
  C20. Whatever the interleaving of producers and consumers, the ring of 256 slots behaves
  as the plain queue of capacity 256: it accepts, drops and delivers exactly the messages
  the specification does, so \<^verbatim>\<open>EnqueueMessage\<close> refuses a message exactly when 256
  messages are waiting; the accepted messages are those delivered by
  \<^verbatim>\<open>DequeueMessage\<close>, in order, followed by the ones still in the ring, and the ring
  never holds more than 256 of them.
\<close>

theorem message_queue_fifo:
  "case fifo_run EnqueueMessage DequeueMessage (initial_queue z) es of
     (accepted, dropped, delivered, q) \<Rightarrow>
       queue_invar q
       \<and> fifo_spec 256 [] es = (accepted, dropped, delivered, queue_contents q)
       \<and> accepted = delivered @ queue_contents q
       \<and> length (queue_contents q) \<le> 256"
proof -
  obtain a x d q where r: "fifo_run EnqueueMessage DequeueMessage (initial_queue z) es = (a, x, d, q)"
    by (metis prod_cases4)
  have "queue_contents (initial_queue z) = []"
    by (simp add: queue_contents_def initial_queue_def)
  with ring.run_refines [OF initial_queue_invar r] ring.run_bounded [OF initial_queue_invar r] r
    fifo_spec_order [of 256 "[]" es a x d "queue_contents q"]
  show ?thesis by (simp add: MAX_QUEUE_SIZE_def)
qed

end
