(* ===== verification/Huffstream.thy ===== *)
theory Huffstream
  imports Prelude "HOL-Library.Monad_Syntax"
begin

text \<open>
  The bit stream of \<^verbatim>\<open>src/plugins/utils/huffstream.c\<close> and the variable length integer
  codes written on it. The stream is the C structure: a byte buffer, the byte pointer and bit
  index at which the next access happens, the same position counted in bits, and the end of
  what was written. An access outside the buffer is the result \<open>None\<close>.
\<close>

section \<open>Bit streams\<close>

text \<open>Repeated bit accesses, for any stream.\<close>

fun put_all :: "('s \<Rightarrow> bool \<Rightarrow> ('s \<times> int) option) \<Rightarrow> 's \<Rightarrow> bool list \<Rightarrow> 's option" where
  "put_all put s [] = Some s"
| "put_all put s (b # bs) = do { (s, r) \<leftarrow> put s b; put_all put s bs }"

fun get_all :: "('s \<Rightarrow> ('s \<times> int) option) \<Rightarrow> 's \<Rightarrow> nat \<Rightarrow> ('s \<times> int list) option" where
  "get_all get s 0 = Some (s, [])"
| "get_all get s (Suc n) = do { (s, b) \<leftarrow> get s; (s, bs) \<leftarrow> get_all get s n; Some (s, b # bs) }"

lemma put_all_append: "put_all put s (xs @ ys) = do { s \<leftarrow> put_all put s xs; put_all put s ys }"
  by (induction put s xs rule: put_all.induct) (auto split: Option.bind_split)

text \<open>The cells from \<open>p\<close> on hold the bits \<open>bs\<close>.\<close>

definition spells :: "(nat \<Rightarrow> bool) \<Rightarrow> nat \<Rightarrow> bool list \<Rightarrow> bool" where
  "spells c p bs \<longleftrightarrow> (\<forall>i<length bs. c (p + i) = bs ! i)"

lemma spells_Nil [simp]: "spells c p []"
  by (simp add: spells_def)

lemma spells_Cons [simp]: "spells c p (b # bs) \<longleftrightarrow> c p = b \<and> spells c (Suc p) bs"
  unfolding spells_def by (auto simp: less_Suc_eq_0_disj)

lemma spells_append: "spells c p (xs @ ys) \<longleftrightarrow> spells c p xs \<and> spells c (p + length xs) ys"
  by (induction xs arbitrary: p) auto

text \<open>
  What a bit stream promises: a position, a limit up to which it can be read, a capacity; a
  put sets the cell at the position and a get returns it, both moving on by one. A put into
  the last cell fails and leaves the position.
\<close>

locale bit_stream =
  fixes inv :: "'s \<Rightarrow> bool"
    and pos lim cap :: "'s \<Rightarrow> nat"
    and cell :: "'s \<Rightarrow> nat \<Rightarrow> bool"
    and put :: "'s \<Rightarrow> bool \<Rightarrow> ('s \<times> int) option"
    and get :: "'s \<Rightarrow> ('s \<times> int) option"
  assumes bounds: "inv s \<Longrightarrow> pos s \<le> lim s \<and> lim s \<le> cap s"
    and put_ok: "inv s \<Longrightarrow> pos s < cap s \<Longrightarrow>
      \<exists>s'. put s b = Some (s', if Suc (pos s) < cap s then 0 else - 1) \<and> inv s'
        \<and> pos s' = (if Suc (pos s) < cap s then Suc (pos s) else pos s)
        \<and> lim s' = max (lim s) (Suc (pos s)) \<and> cap s' = cap s
        \<and> (\<forall>k<cap s. cell s' k = (if k = pos s then b else cell s k))"
    and get_ok: "inv s \<Longrightarrow> pos s < lim s \<Longrightarrow>
      \<exists>s'. get s = Some (s', if cell s (pos s) then 1 else 0) \<and> inv s'
        \<and> pos s' = Suc (pos s) \<and> lim s' = lim s \<and> cap s' = cap s \<and> cell s' = cell s"
begin

lemma put_all_ok:
  "inv s \<Longrightarrow> pos s + length bs < cap s \<Longrightarrow>
     \<exists>s'. put_all put s bs = Some s' \<and> inv s' \<and> pos s' = pos s + length bs
       \<and> lim s' = max (lim s) (pos s + length bs) \<and> cap s' = cap s
       \<and> spells (cell s') (pos s) bs
       \<and> (\<forall>k<cap s. k < pos s \<or> pos s + length bs \<le> k \<longrightarrow> cell s' k = cell s k)"
proof (induction bs arbitrary: s)
  case Nil
  then show ?case using bounds [OF Nil(1)] by (simp add: max_absorb1)
next
  case (Cons b bs)
  from put_ok [OF Cons(2), of b] Cons(3) obtain s1 where s1: "put s b = Some (s1, 0)" "inv s1"
    "pos s1 = Suc (pos s)" "lim s1 = max (lim s) (Suc (pos s))" "cap s1 = cap s"
    "\<forall>k<cap s. cell s1 k = (if k = pos s then b else cell s k)" by auto
  from Cons.IH [OF s1(2)] Cons(3) s1(3,5) obtain s2 where s2: "put_all put s1 bs = Some s2" "inv s2"
    "pos s2 = pos s1 + length bs" "lim s2 = max (lim s1) (pos s1 + length bs)" "cap s2 = cap s1"
    "spells (cell s2) (pos s1) bs"
    "\<forall>k<cap s1. k < pos s1 \<or> pos s1 + length bs \<le> k \<longrightarrow> cell s2 k = cell s1 k" by auto
  have "cell s2 (pos s) = b" using s2(7) s1(3,5,6) Cons(3) by auto
  moreover have "\<forall>k<cap s. k < pos s \<or> pos s + length (b # bs) \<le> k \<longrightarrow> cell s2 k = cell s k"
    using s2(7) s1(3,5,6) by auto
  ultimately show ?case using s1 s2 by (auto simp: max_def)
qed

lemma get_all_ok:
  "inv s \<Longrightarrow> pos s + length bs \<le> lim s \<Longrightarrow> spells (cell s) (pos s) bs \<Longrightarrow>
     \<exists>s'. get_all get s (length bs) = Some (s', map (\<lambda>b. if b then 1 else 0) bs) \<and> inv s'
       \<and> pos s' = pos s + length bs \<and> lim s' = lim s \<and> cap s' = cap s \<and> cell s' = cell s"
proof (induction bs arbitrary: s)
  case (Cons b bs)
  from get_ok [OF Cons(2)] Cons(3,4) obtain s1 where s1: "get s = Some (s1, if b then 1 else 0)" "inv s1"
    "pos s1 = Suc (pos s)" "lim s1 = lim s" "cap s1 = cap s" "cell s1 = cell s" by auto
  from Cons.IH [OF s1(2)] Cons(3,4) s1 obtain s2 where
    "get_all get s1 (length bs) = Some (s2, map (\<lambda>b. if b then 1 else 0) bs)" "inv s2"
    "pos s2 = pos s1 + length bs" "lim s2 = lim s1" "cap s2 = cap s1" "cell s2 = cell s1" by auto
  then show ?case using s1 by auto
qed simp

end

section \<open>The stream\<close>

record HUFF =
  buf :: bytes
  ptr :: nat
  bitoffset :: nat
  maski :: nat
  endpos :: nat
  allocsize :: nat

datatype seek_mode = SEEK_SET | SEEK_CUR | SEEK_END

definition huffmasks :: "u8 list" where
  "huffmasks = [1, 2, 4, 8, 16, 32, 64, 128]"

definition huffoppomasks :: "u8 list" where
  "huffoppomasks = map NOT huffmasks"

definition init_HUFF :: "HUFF \<Rightarrow> nat \<Rightarrow> bytes \<Rightarrow> HUFF" where
  "init_HUFF hp sz b = hp\<lparr>buf := b, ptr := 0, allocsize := sz, bitoffset := 0\<rparr>"

definition hconv_bitlen :: "nat \<Rightarrow> nat" where
  "hconv_bitlen bitlen = (let len = bitlen div 8 in if bitlen mod 8 \<noteq> 0 then len + 1 else len)"

definition hupdate_internals :: "HUFF \<Rightarrow> HUFF \<times> int" where
  "hupdate_internals hp =
     (let (hp, retval) =
            (if bitoffset hp div 8 > allocsize hp
             then (hp\<lparr>bitoffset := (allocsize hp * 8 + (2 ^ 32 - 1)) mod 2 ^ 32\<rparr>, - 1) else (hp, 0));
          hp = (if bitoffset hp > endpos hp then hp\<lparr>endpos := bitoffset hp\<rparr> else hp)
      in (hp\<lparr>ptr := bitoffset hp div 8, maski := bitoffset hp mod 8\<rparr>, retval))"

definition hseek :: "HUFF \<Rightarrow> int \<Rightarrow> seek_mode \<Rightarrow> HUFF \<times> int" where
  "hseek hp offset mode =
     (let base = (case mode of SEEK_END \<Rightarrow> endpos hp | SEEK_SET \<Rightarrow> 0 | SEEK_CUR \<Rightarrow> bitoffset hp);
          (hp, r) = hupdate_internals (hp\<lparr>bitoffset := nat ((offset + int base) mod 2 ^ 32)\<rparr>)
      in (hp, if r < 0 then - 1 else 0))"

definition hclear :: "HUFF \<Rightarrow> bool \<Rightarrow> HUFF" where
  "hclear hp clearbuf =
     (let hp = (fst (hupdate_internals (hp\<lparr>bitoffset := 0\<rparr>)))\<lparr>endpos := 0\<rparr>
      in if clearbuf then hp\<lparr>buf := buf_write 0 (replicate (allocsize hp) 0) (buf hp)\<rparr> else hp)"

text \<open>Whether \<^verbatim>\<open>*hp->ptr\<close> and the mask tables are read inside their bounds.\<close>

definition in_buf :: "HUFF \<Rightarrow> bool" where
  "in_buf hp \<longleftrightarrow> ptr hp < length (buf hp) \<and> maski hp < 8"

text \<open>The step of pointer and bit index that reading and writing a bit share.\<close>

definition next_bit :: "HUFF \<Rightarrow> HUFF" where
  "next_bit hp =
     (if maski hp + 1 \<ge> 8 then hp\<lparr>maski := 0, ptr := ptr hp + 1\<rparr> else hp\<lparr>maski := maski hp + 1\<rparr>)
       \<lparr>bitoffset := (bitoffset hp + 1) mod 2 ^ 32\<rparr>"

definition hgetbit :: "HUFF \<Rightarrow> (HUFF \<times> int) option" where
  "hgetbit hp =
     (if bitoffset hp < endpos hp then
        if in_buf hp then
          Some (next_bit hp, if buf hp ! ptr hp AND huffmasks ! maski hp \<noteq> 0 then 1 else 0)
        else None
      else Some (hp, - 1))"

definition hputbit :: "HUFF \<Rightarrow> bool \<Rightarrow> (HUFF \<times> int) option" where
  "hputbit hp b =
     (if in_buf hp then
        let x = buf hp ! ptr hp;
            hp = hp\<lparr>buf := (buf hp)[ptr hp := if b then x OR huffmasks ! maski hp
                                                else x AND huffoppomasks ! maski hp]\<rparr>;
            hp = next_bit hp;
            hp = (if bitoffset hp > endpos hp then hp\<lparr>endpos := bitoffset hp\<rparr> else hp)
        in if bitoffset hp div 8 \<ge> allocsize hp
           then Some (fst (hupdate_internals (hp\<lparr>bitoffset := (bitoffset hp + (2 ^ 32 - 1)) mod 2 ^ 32\<rparr>)), - 1)
           else Some (hp, 0)
      else None)"

text \<open>Bits are written from the lowest one and read into the highest one.\<close>

fun hwrite_loop :: "u64 \<Rightarrow> nat \<Rightarrow> HUFF \<Rightarrow> (HUFF \<times> bool) option" where
  "hwrite_loop codebits 0 hp = Some (hp, True)"
| "hwrite_loop codebits (Suc n) hp =
     do { (hp, r) \<leftarrow> hputbit hp (codebits AND 1 \<noteq> 0);
          if r < 0 then Some (hp, False) else hwrite_loop (drop_bit 1 codebits) n hp }"

definition hwrite :: "u64 \<Rightarrow> nat \<Rightarrow> HUFF \<Rightarrow> (HUFF \<times> int) option" where
  "hwrite codebits numbits hp =
     do { (hp, fine) \<leftarrow> hwrite_loop codebits numbits hp;
          Some (hp, if fine then int numbits else - 1) }"

fun hread_loop :: "u64 \<Rightarrow> nat \<Rightarrow> nat \<Rightarrow> HUFF \<Rightarrow> (HUFF \<times> u64 \<times> nat) option" where
  "hread_loop codebits i 0 hp = Some (hp, codebits, i)"
| "hread_loop codebits i (Suc n) hp =
     do { let codebits = push_bit 1 codebits;
          (hp, bt) \<leftarrow> hgetbit hp;
          if bt < 0 then Some (hp, codebits, i)
          else hread_loop (codebits OR word_of_int bt) (Suc i) n hp }"

definition hread :: "nat \<Rightarrow> HUFF \<Rightarrow> (HUFF \<times> u64 \<times> nat) option" where
  "hread numbits hp = hread_loop 0 0 numbits hp"

text \<open>
  \<^verbatim>\<open>hmemcpy\<close>: \<open>dest\<close> says whether a destination was given, \<open>src\<close> holds the source if there
  is one. The result is the stream, the bytes copied out and the return value.
\<close>

definition hmemcpy :: "bool \<Rightarrow> bytes option \<Rightarrow> HUFF \<Rightarrow> nat \<Rightarrow> HUFF \<times> bytes \<times> int" where
  "hmemcpy dest src hp datalen =
     (if bitoffset hp mod 8 \<noteq> 0 \<or> (bitoffset hp div 8 + datalen) mod 2 ^ 32 > allocsize hp
      then (hp, [], - 1)
      else
        let advance = (\<lambda>hp. let hp = hp\<lparr>ptr := ptr hp + datalen,
                                      bitoffset := (bitoffset hp + datalen * 8) mod 2 ^ 32\<rparr>
                             in if bitoffset hp > endpos hp then hp\<lparr>endpos := bitoffset hp\<rparr> else hp)
        in case (dest, src) of
             (True, None) \<Rightarrow> (advance hp, take datalen (drop (ptr hp) (buf hp)), int datalen)
           | (False, Some d) \<Rightarrow> (advance (hp\<lparr>buf := buf_write (ptr hp) (take datalen d) (buf hp)\<rparr>), [], int datalen)
           | _ \<Rightarrow> (hp, [], - 1))"

fun bitsize_loop :: "nat \<Rightarrow> u64 \<Rightarrow> int" where
  "bitsize_loop 0 x = - 1"
| "bitsize_loop (Suc i) x = (if push_bit i 1 AND x \<noteq> 0 then int i + 1 else bitsize_loop i x)"

definition hcalc_bitsize :: "u64 \<Rightarrow> int" where
  "hcalc_bitsize x = (if x = 0 then 1 else bitsize_loop 64 x)"

text \<open>Reversing the low \<open>n\<close> bits.\<close>

fun huff_reversebits_loop :: "u64 \<Rightarrow> nat \<Rightarrow> nat \<Rightarrow> u64 \<Rightarrow> u64" where
  "huff_reversebits_loop x i 0 r = r"
| "huff_reversebits_loop x i (Suc n) r =
     huff_reversebits_loop x (Suc i) n (if bit x n then set_bit i r else r)"

definition huff_reversebits :: "u64 \<Rightarrow> nat \<Rightarrow> u64" where
  "huff_reversebits x n = huff_reversebits_loop x 0 n 0"

section \<open>Integer codes\<close>

text \<open>The loops over the bits of a value; the emitters ignore the result of \<^verbatim>\<open>hputbit\<close>.\<close>

definition put_bits :: "HUFF \<Rightarrow> bool list \<Rightarrow> HUFF option" where
  "put_bits = put_all hputbit"

definition get_bits :: "HUFF \<Rightarrow> nat \<Rightarrow> (HUFF \<times> int list) option" where
  "get_bits = get_all hgetbit"

definition hemit_bits :: "HUFF \<Rightarrow> u32 \<Rightarrow> nat \<Rightarrow> (HUFF \<times> nat) option" where
  "hemit_bits hp v numbits =
     do { hp \<leftarrow> put_bits hp (map (\<lambda>i. v AND push_bit i 1 \<noteq> 0) [0..<numbits]); Some (hp, numbits) }"

definition hdecode_bits :: "HUFF \<Rightarrow> nat \<Rightarrow> (HUFF \<times> u32 \<times> nat) option" where
  "hdecode_bits hp numbits =
     do { (hp, bs) \<leftarrow> get_bits hp numbits;
          Some (hp, foldl (\<lambda>v i. if bs ! i \<noteq> 0 then v OR push_bit i 1 else v) 0 [0..<numbits], numbits) }"

definition hemit_tagged :: "HUFF \<Rightarrow> u32 \<Rightarrow> nat \<Rightarrow> u32 \<Rightarrow> nat \<Rightarrow> (HUFF \<times> nat) option" where
  "hemit_tagged hp tag t v n =
     do { (hp, a) \<leftarrow> hemit_bits hp tag t; (hp, b) \<leftarrow> hemit_bits hp v n; Some (hp, a + b) }"

definition hemit_smallbits :: "HUFF \<Rightarrow> u16 \<Rightarrow> (HUFF \<times> nat) option" where
  "hemit_smallbits hp x =
     (let v = ucast x :: u32 in
      if v \<ge> 4 then
        if v < push_bit 5 1 then hemit_tagged hp 4 3 v 5
        else if v < push_bit 8 1 then hemit_tagged hp 5 3 v 8
        else if v < push_bit 12 1 then hemit_tagged hp 6 3 v 12
        else hemit_tagged hp 7 3 v 16
      else hemit_bits hp v 3)"

definition hcalc_smallsize :: "u16 \<Rightarrow> nat" where
  "hcalc_smallsize v =
     (if v \<ge> 4 then
        if v < push_bit 5 1 then 8
        else if v < push_bit 8 1 then 11
        else if v < push_bit 12 1 then 15
        else 19
      else 3)"

text \<open>
  The decoders combine the tag bits with \<^verbatim>\<open>|\<close>; the calls are taken from left to right (C
  leaves their order open).
\<close>

definition tag_value :: "int list \<Rightarrow> int" where
  "tag_value bs = foldl (\<lambda>v i. v OR push_bit i (bs ! i)) 0 [0..<length bs]"

definition hdecode_smallbits :: "HUFF \<Rightarrow> (HUFF \<times> u16 \<times> nat) option" where
  "hdecode_smallbits hp =
     do { (hp, bs) \<leftarrow> get_bits hp 3;
          let v = tag_value bs;
          if v < 4 then Some (hp, word_of_int v, 3)
          else do { (hp, s, n) \<leftarrow> hdecode_bits hp (if v = 4 then 5 else if v = 5 then 8 else if v = 6 then 12 else 16);
                    Some (hp, ucast s, 3 + n) } }"

definition hemit_varbits :: "HUFF \<Rightarrow> u32 \<Rightarrow> (HUFF \<times> nat) option" where
  "hemit_varbits hp v =
     (if v \<ge> 10 then
        if v < push_bit 8 1 then hemit_tagged hp 10 4 v 8
        else if v < push_bit 10 1 then hemit_tagged hp 11 4 v 10
        else if v < push_bit 13 1 then hemit_tagged hp 12 4 v 13
        else if v < push_bit 16 1 then hemit_tagged hp 13 4 v 16
        else if v < push_bit 20 1 then hemit_tagged hp 14 4 v 20
        else hemit_tagged hp 15 4 v 32
      else hemit_bits hp v 4)"

definition hdecode_varbits :: "HUFF \<Rightarrow> (HUFF \<times> u32 \<times> nat) option" where
  "hdecode_varbits hp =
     do { (hp, bs) \<leftarrow> get_bits hp 4;
          let v = tag_value bs;
          if v < 10 then Some (hp, word_of_int v, 4)
          else do { (hp, s, n) \<leftarrow> hdecode_bits hp (if v = 10 then 8 else if v = 11 then 10 else if v = 12 then 13
                                                     else if v = 13 then 16 else if v = 14 then 20 else 32);
                    Some (hp, s, 4 + n) } }"

definition hemit_svarbits :: "HUFF \<Rightarrow> u32 \<Rightarrow> (HUFF \<times> nat) option" where
  "hemit_svarbits hp v =
     (if v < push_bit 16 1
      then do { (hp, r) \<leftarrow> hputbit hp False; hemit_smallbits hp (ucast v) }
      else do { (hp, r) \<leftarrow> hputbit hp True; hemit_varbits hp v })"

definition hdecode_svarbits :: "HUFF \<Rightarrow> (HUFF \<times> u32 \<times> nat) option" where
  "hdecode_svarbits hp =
     do { (hp, b) \<leftarrow> hgetbit hp;
          if b = 0 then do { (hp, s, n) \<leftarrow> hdecode_smallbits hp; Some (hp, ucast s, n) }
          else hdecode_varbits hp }"

definition hemit_valuebits :: "HUFF \<Rightarrow> u64 \<Rightarrow> (HUFF \<times> nat) option" where
  "hemit_valuebits hp value =
     do { (hp, a) \<leftarrow> hemit_varbits hp (ucast (value AND 0xffffffff));
          (hp, b) \<leftarrow> hemit_varbits hp (ucast (drop_bit 32 value AND 0xffffffff));
          Some (hp, a + b) }"

definition hdecode_valuebits :: "HUFF \<Rightarrow> (HUFF \<times> u64 \<times> nat) option" where
  "hdecode_valuebits hp =
     do { (hp, x, a) \<leftarrow> hdecode_varbits hp;
          (hp, y, b) \<leftarrow> hdecode_varbits hp;
          Some (hp, ucast x OR push_bit 32 (ucast y), a + b) }"

section \<open>The stream as cells\<close>

definition h_wf :: "HUFF \<Rightarrow> bool" where
  "h_wf hp \<longleftrightarrow> length (buf hp) = allocsize hp \<and> allocsize hp < 2 ^ 28
     \<and> bitoffset hp \<le> endpos hp \<and> endpos hp \<le> 8 * allocsize hp
     \<and> ptr hp = bitoffset hp div 8 \<and> maski hp = bitoffset hp mod 8"

definition hbit :: "HUFF \<Rightarrow> nat \<Rightarrow> bool" where
  "hbit hp k = bit (buf hp ! (k div 8)) (k mod 8)"

lemma huffmasks_upt: "huffmasks = map (\<lambda>m. push_bit m 1) [0..<8]"
  by (simp add: huffmasks_def upt_rec)

lemma huffmasks_nth: "m < 8 \<Longrightarrow> huffmasks ! m = push_bit m 1"
  unfolding huffmasks_upt by (subst nth_map) (simp_all del: upt_rec_numeral)

lemma huffoppomasks_nth: "m < 8 \<Longrightarrow> huffoppomasks ! m = NOT (push_bit m 1)"
proof -
  assume "m < 8"
  then show ?thesis using nth_map [of m huffmasks NOT] huffmasks_nth [of m]
    unfolding huffoppomasks_def by (simp add: huffmasks_def)
qed

lemma next_bit_fields [simp]:
  "buf (next_bit hp) = buf hp" "endpos (next_bit hp) = endpos hp" "allocsize (next_bit hp) = allocsize hp"
  "bitoffset (next_bit hp) = (bitoffset hp + 1) mod 2 ^ 32"
  by (simp_all add: next_bit_def)

lemma next_bit_pos:
  assumes "ptr hp = bitoffset hp div 8" "maski hp = bitoffset hp mod 8" "bitoffset hp + 1 < 2 ^ 32"
  shows "ptr (next_bit hp) = (bitoffset hp + 1) div 8" "maski (next_bit hp) = (bitoffset hp + 1) mod 8"
proof -
  have "8 \<le> bitoffset hp mod 8 + 1 \<longleftrightarrow> Suc (bitoffset hp mod 8) = 8"
    using mod_less_divisor [of 8 "bitoffset hp"] by linarith
  then show "ptr (next_bit hp) = (bitoffset hp + 1) div 8" "maski (next_bit hp) = (bitoffset hp + 1) mod 8"
    using assms by (auto simp: next_bit_def div_Suc mod_Suc)
qed

lemma in_buf_iff: "h_wf hp \<Longrightarrow> in_buf hp \<longleftrightarrow> bitoffset hp < 8 * allocsize hp"
  by (auto simp: h_wf_def in_buf_def)

lemma hgetbit_ok:
  assumes "h_wf hp" "bitoffset hp < endpos hp"
  shows "\<exists>hp'. hgetbit hp = Some (hp', if hbit hp (bitoffset hp) then 1 else 0) \<and> h_wf hp'
    \<and> bitoffset hp' = Suc (bitoffset hp) \<and> endpos hp' = endpos hp \<and> 8 * allocsize hp' = 8 * allocsize hp
    \<and> hbit hp' = hbit hp"
proof -
  have small: "bitoffset hp + 1 < 2 ^ 32" "bitoffset hp < 8 * allocsize hp" using assms by (auto simp: h_wf_def)
  have "(buf hp ! ptr hp AND huffmasks ! maski hp \<noteq> 0) = hbit hp (bitoffset hp)"
    using assms(1) by (simp add: h_wf_def hbit_def huffmasks_nth bit_iff_and_push_bit_not_eq_0)
  then have "hgetbit hp = Some (next_bit hp, if hbit hp (bitoffset hp) then 1 else 0)"
    using assms in_buf_iff small(2) by (simp add: hgetbit_def)
  moreover have "h_wf (next_bit hp)" using assms small next_bit_pos [of hp] by (simp add: h_wf_def)
  moreover have "hbit (next_bit hp) = hbit hp" by (simp add: hbit_def fun_eq_iff)
  ultimately show ?thesis using small by simp
qed

lemma bit_put:
  assumes "i < 8" "m < 8"
  shows "bit (if b then (x :: u8) OR huffmasks ! m else x AND huffoppomasks ! m) i = (if i = m then b else bit x i)"
  using assms by (auto simp: huffmasks_nth huffoppomasks_nth bit_or_iff bit_and_iff bit_not_iff bit_exp_iff possible_bit_def)

lemma hputbit_ok:
  assumes wf: "h_wf hp" and room: "bitoffset hp < 8 * allocsize hp"
  shows "\<exists>hp'. hputbit hp b = Some (hp', if Suc (bitoffset hp) < 8 * allocsize hp then 0 else - 1) \<and> h_wf hp'
    \<and> bitoffset hp' = (if Suc (bitoffset hp) < 8 * allocsize hp then Suc (bitoffset hp) else bitoffset hp)
    \<and> endpos hp' = max (endpos hp) (Suc (bitoffset hp)) \<and> 8 * allocsize hp' = 8 * allocsize hp
    \<and> (\<forall>k<8 * allocsize hp. hbit hp' k = (if k = bitoffset hp then b else hbit hp k))"
proof -
  define x where "x = (if b then buf hp ! ptr hp OR huffmasks ! maski hp else buf hp ! ptr hp AND huffoppomasks ! maski hp)"
  define h1 where "h1 = next_bit (hp\<lparr>buf := (buf hp)[ptr hp := x]\<rparr>)"
  define h2 where "h2 = (if bitoffset h1 > endpos h1 then h1\<lparr>endpos := bitoffset h1\<rparr> else h1)"
  define h3 where "h3 = fst (hupdate_internals (h2\<lparr>bitoffset := (bitoffset h2 + (2 ^ 32 - 1)) mod 2 ^ 32\<rparr>))"
  have small: "bitoffset hp + 1 < 2 ^ 32"
    and wf': "ptr hp = bitoffset hp div 8" "maski hp = bitoffset hp mod 8"
      "length (buf hp) = allocsize hp" "allocsize hp < 2 ^ 28" "bitoffset hp \<le> endpos hp" "endpos hp \<le> 8 * allocsize hp"
    using assms by (auto simp: h_wf_def)
  have put: "hputbit hp b = Some (if bitoffset h2 div 8 \<ge> allocsize h2 then (h3, - 1) else (h2, 0))"
    using in_buf_iff [OF wf] room unfolding h3_def h2_def h1_def x_def by (simp add: hputbit_def Let_def)
  have h2: "bitoffset h2 = Suc (bitoffset hp)" "endpos h2 = max (endpos hp) (Suc (bitoffset hp))"
    "allocsize h2 = allocsize hp" "buf h2 = (buf hp)[ptr hp := x]"
    "ptr h2 = Suc (bitoffset hp) div 8" "maski h2 = Suc (bitoffset hp) mod 8"
    using small next_bit_pos [of "hp\<lparr>buf := (buf hp)[ptr hp := x]\<rparr>"] wf'(1,2)
    by (auto simp: h2_def h1_def max_def)
  have pred: "(Suc (bitoffset hp) + (2 ^ 32 - 1)) mod 2 ^ 32 = bitoffset hp"
    using small by (simp add: mod_add_self2)
  have h3: "bitoffset h3 = bitoffset hp" "endpos h3 = max (endpos hp) (Suc (bitoffset hp))"
    "allocsize h3 = allocsize hp" "buf h3 = (buf hp)[ptr hp := x]"
    "ptr h3 = bitoffset hp div 8" "maski h3 = bitoffset hp mod 8"
    unfolding h3_def hupdate_internals_def h2(1) pred using h2 room by (auto simp: Let_def)
  have cells: "\<forall>k<8 * allocsize hp. hbit h k = (if k = bitoffset hp then b else hbit hp k)"
    if "buf h = (buf hp)[ptr hp := x]" for h
  proof (intro allI impI)
    fix k assume k: "k < 8 * allocsize hp"
    have eq: "k div 8 = bitoffset hp div 8 \<Longrightarrow> k mod 8 = bitoffset hp mod 8 \<Longrightarrow> k = bitoffset hp"
      by (metis div_mult_mod_eq)
    have "bit x (k mod 8) = (if k mod 8 = bitoffset hp mod 8 then b else bit (buf hp ! ptr hp) (k mod 8))"
      unfolding x_def using bit_put [of "k mod 8" "maski hp" b "buf hp ! ptr hp"] wf'(2) by simp
    then show "hbit h k = (if k = bitoffset hp then b else hbit hp k)"
      using that k room wf' eq by (auto simp: hbit_def nth_list_update)
  qed
  show ?thesis
  proof (cases "Suc (bitoffset hp) < 8 * allocsize hp")
    case True
    then have "h_wf h2" using h2 wf' by (simp add: h_wf_def)
    moreover have "\<not> allocsize hp \<le> Suc (bitoffset hp) div 8" using True by linarith
    ultimately show ?thesis using put True cells [OF h2(4)] h2 by simp
  next
    case False
    then have "h_wf h3" using h3 wf' room by (simp add: h_wf_def)
    moreover have "allocsize hp \<le> Suc (bitoffset hp) div 8" using False by linarith
    ultimately show ?thesis using put False cells [OF h3(4)] h2(1,3) h3 by simp
  qed
qed

interpretation huff: bit_stream h_wf bitoffset endpos "\<lambda>hp. 8 * allocsize hp" hbit hputbit hgetbit
proof unfold_locales
  show "h_wf s \<Longrightarrow> bitoffset s \<le> endpos s \<and> endpos s \<le> 8 * allocsize s" for s by (simp add: h_wf_def)
qed (rule hputbit_ok hgetbit_ok; assumption)+

section \<open>Codes as bit lists\<close>

text \<open>The bits each emitter is meant to write.\<close>

definition bits_of :: "u32 \<Rightarrow> nat \<Rightarrow> bool list" where
  "bits_of v n = map (bit v) [0..<n]"

definition small_code :: "u16 \<Rightarrow> bool list" where
  "small_code v = (if v < 4 then bits_of (ucast v) 3
     else if v < 32 then bits_of 4 3 @ bits_of (ucast v) 5
     else if v < 256 then bits_of 5 3 @ bits_of (ucast v) 8
     else if v < 4096 then bits_of 6 3 @ bits_of (ucast v) 12
     else bits_of 7 3 @ bits_of (ucast v) 16)"

definition var_code :: "u32 \<Rightarrow> bool list" where
  "var_code v = (if v < 10 then bits_of v 4
     else if v < 256 then bits_of 10 4 @ bits_of v 8
     else if v < 1024 then bits_of 11 4 @ bits_of v 10
     else if v < 8192 then bits_of 12 4 @ bits_of v 13
     else if v < 65536 then bits_of 13 4 @ bits_of v 16
     else if v < 1048576 then bits_of 14 4 @ bits_of v 20
     else bits_of 15 4 @ bits_of v 32)"

definition svar_code :: "u32 \<Rightarrow> bool list" where
  "svar_code v = (if v < 65536 then False # small_code (ucast v) else True # var_code v)"

definition value_code :: "u64 \<Rightarrow> bool list" where
  "value_code v = var_code (ucast v) @ var_code (ucast (drop_bit 32 v))"

lemma length_bits_of [simp]: "length (bits_of v n) = n"
  by (simp add: bits_of_def)

subsection \<open>Emitting\<close>

text \<open>An emitter that writes the code \<open>bs\<close> and returns \<open>k\<close>.\<close>

definition emits :: "(HUFF \<Rightarrow> (HUFF \<times> 'r) option) \<Rightarrow> bool list \<Rightarrow> 'r \<Rightarrow> bool" where
  "emits e bs k \<longleftrightarrow> (\<forall>hp. e hp = map_option (\<lambda>hp. (hp, k)) (put_bits hp bs))"

lemma put_bits_append: "put_bits hp (xs @ ys) = do { hp \<leftarrow> put_bits hp xs; put_bits hp ys }"
  unfolding put_bits_def by (rule put_all_append)

lemma emits_bits: "emits (\<lambda>hp. hemit_bits hp v n) (bits_of v n) n"
  unfolding emits_def hemit_bits_def bits_of_def bit_iff_and_push_bit_not_eq_0 [symmetric]
  by (auto split: Option.bind_split)

lemma emits_bind:
  assumes "emits e bs k" "emits (f k) cs l"
  shows "emits (\<lambda>hp. do { (hp, a) \<leftarrow> e hp; f a hp }) (bs @ cs) l"
  using assms by (auto simp: emits_def put_bits_append split: Option.bind_split)

lemma emits_return: "emits e bs k \<Longrightarrow> emits (\<lambda>hp. do { (hp, a) \<leftarrow> e hp; Some (hp, g a) }) bs (g k)"
  by (auto simp: emits_def split: Option.bind_split)

lemma emits_tagged: "emits (\<lambda>hp. hemit_tagged hp tag t v n) (bits_of tag t @ bits_of v n) (t + n)"
  unfolding hemit_tagged_def
  by (intro emits_bind [where k = t] emits_bits emits_return [where g = "\<lambda>b. t + b"])

lemma unat_ucast_16_32: "unat (ucast (v :: u16) :: u32) = unat v"
proof -
  have "unat v < 2 ^ 32" using unsigned_less [of v, where ?'a = nat] by simp
  then show ?thesis by (simp add: unsigned_ucast_eq take_bit_nat_eq_self_iff)
qed

lemma emits_small: "emits (\<lambda>hp. hemit_smallbits hp v) (small_code v) (length (small_code v))"
proof -
  have "(ucast v :: u32) < 4 \<longleftrightarrow> v < 4" "(ucast v :: u32) < 32 \<longleftrightarrow> v < 32" "(ucast v :: u32) < 256 \<longleftrightarrow> v < 256"
    "(ucast v :: u32) < 4096 \<longleftrightarrow> v < 4096"
    by (simp_all add: word_less_nat_alt unat_ucast_16_32)
  then show ?thesis
    using emits_bits [of "ucast v" 3] emits_tagged [of 4 3 "ucast v" 5] emits_tagged [of 5 3 "ucast v" 8]
      emits_tagged [of 6 3 "ucast v" 12] emits_tagged [of 7 3 "ucast v" 16]
    by (simp add: hemit_smallbits_def small_code_def not_le [symmetric] Let_def)
qed

lemma emits_var: "emits (\<lambda>hp. hemit_varbits hp v) (var_code v) (length (var_code v))"
  using emits_bits [of v 4] emits_tagged [of 10 4 v 8] emits_tagged [of 11 4 v 10]
    emits_tagged [of 12 4 v 13] emits_tagged [of 13 4 v 16] emits_tagged [of 14 4 v 20] emits_tagged [of 15 4 v 32]
  by (simp add: hemit_varbits_def var_code_def not_le [symmetric])

lemma emits_flag: "emits e bs k \<Longrightarrow> emits (\<lambda>hp. do { (hp, r) \<leftarrow> hputbit hp b; e hp }) (b # bs) k"
  by (auto simp: emits_def put_bits_def split: Option.bind_split)

lemma emits_svar: "emits (\<lambda>hp. hemit_svarbits hp v) (svar_code v) (length (svar_code v) - 1)"
  using emits_flag [OF emits_small, of False "ucast v"] emits_flag [OF emits_var, of True v]
  by (simp add: hemit_svarbits_def svar_code_def)

lemma emits_value: "emits (\<lambda>hp. hemit_valuebits hp v) (value_code v) (length (value_code v))"
proof -
  have m: "(0xffffffff :: u64) = mask 32" by (simp add: mask_eq_exp_minus_1)
  have low: "(ucast (v AND 0xffffffff) :: u32) = ucast v"
    "(ucast (drop_bit 32 v AND 0xffffffff) :: u32) = ucast (drop_bit 32 v)"
    unfolding m by (auto intro!: bit_word_eqI simp: bit_simps)
  show ?thesis unfolding hemit_valuebits_def value_code_def low length_append
    by (rule emits_bind [OF emits_var]) (rule emits_return [where g = "\<lambda>b. length (var_code (ucast v)) + b", OF emits_var])
qed

subsection \<open>Decoding\<close>

text \<open>A decoder that, on a stream that goes on with the code \<open>bs\<close>, consumes it and returns \<open>r\<close>.\<close>

definition moved :: "HUFF \<Rightarrow> nat \<Rightarrow> HUFF \<Rightarrow> bool" where
  "moved hp n hp' \<longleftrightarrow> h_wf hp' \<and> bitoffset hp' = bitoffset hp + n \<and> endpos hp' = endpos hp
     \<and> 8 * allocsize hp' = 8 * allocsize hp \<and> hbit hp' = hbit hp"

definition decodes :: "(HUFF \<Rightarrow> (HUFF \<times> 'r) option) \<Rightarrow> bool list \<Rightarrow> 'r \<Rightarrow> bool" where
  "decodes d bs r \<longleftrightarrow> (\<forall>hp. h_wf hp \<and> bitoffset hp + length bs \<le> endpos hp \<and> spells (hbit hp) (bitoffset hp) bs
     \<longrightarrow> (\<exists>hp'. d hp = Some (hp', r) \<and> moved hp (length bs) hp'))"

lemma decodesI:
  assumes "\<And>hp. h_wf hp \<Longrightarrow> bitoffset hp + length bs \<le> endpos hp \<Longrightarrow> spells (hbit hp) (bitoffset hp) bs
    \<Longrightarrow> \<exists>hp'. d hp = Some (hp', r) \<and> moved hp (length bs) hp'"
  shows "decodes d bs r"
  using assms by (auto simp: decodes_def)

lemma decodes_return: "decodes (\<lambda>hp. Some (hp, r)) [] r"
  by (auto simp: decodes_def moved_def)

lemma decodes_get_bits: "decodes (\<lambda>hp. get_bits hp (length bs)) bs (map (\<lambda>b. if b then 1 else 0) bs)"
  unfolding get_bits_def by (rule decodesI) (drule (2) huff.get_all_ok, auto simp: moved_def)

lemma decodes_bind:
  assumes "decodes d bs r" "decodes (f r) cs q"
  shows "decodes (\<lambda>hp. do { (hp, a) \<leftarrow> d hp; f a hp }) (bs @ cs) q"
proof (rule decodesI)
  fix hp assume hp: "h_wf hp" "bitoffset hp + length (bs @ cs) \<le> endpos hp" "spells (hbit hp) (bitoffset hp) (bs @ cs)"
  then obtain h1 where h1: "d hp = Some (h1, r)" "moved hp (length bs) h1"
    using assms(1) by (auto simp: decodes_def spells_append)
  then obtain h2 where "f r h1 = Some (h2, q)" "moved h1 (length cs) h2"
    using assms(2) hp by (auto simp: decodes_def spells_append moved_def add.assoc)
  then show "\<exists>hp'. (do { (hp, a) \<leftarrow> d hp; f a hp }) = Some (hp', q) \<and> moved hp (length (bs @ cs)) hp'"
    using h1 by (auto simp: moved_def)
qed

lemma decodes_map:
  "decodes d bs r \<Longrightarrow> decodes (\<lambda>hp. do { (hp, a) \<leftarrow> d hp; Some (hp, g a) }) bs (g r)"
  by (fastforce simp: decodes_def)

lemma bit_foldl_or_push:
  fixes c :: "nat \<Rightarrow> bool"
  shows "bit (foldl (\<lambda>v i. if c i then v OR push_bit i 1 else v) (0 :: 'a::len word) [0..<n]) j
    \<longleftrightarrow> j < n \<and> j < LENGTH('a) \<and> c j"
  by (induction n) (auto simp: bit_simps less_Suc_eq possible_bit_def)

lemma decodes_bits:
  assumes "take_bit n v = v"
  shows "decodes (\<lambda>hp. hdecode_bits hp n) (bits_of v n) (v, n)"
proof -
  have "foldl (\<lambda>u i. if map (\<lambda>b. if b then 1 else 0 :: int) (bits_of v n) ! i \<noteq> 0 then u OR push_bit i 1 else u) (0 :: u32) [0..<n]
      = foldl (\<lambda>u i. if bit v i then u OR push_bit i 1 else u) 0 [0..<n]"
    by (rule foldl_cong) (auto simp: bits_of_def)
  also have "\<dots> = take_bit n v"
    by (rule bit_word_eqI) (auto simp: bit_foldl_or_push bit_take_bit_iff)
  finally show ?thesis
    using decodes_map [OF decodes_get_bits [of "bits_of v n"],
      of "\<lambda>bs. (foldl (\<lambda>u i. if bs ! i \<noteq> 0 then u OR push_bit i 1 else u) (0 :: u32) [0..<n], n)"] assms
    by (simp add: hdecode_bits_def)
qed

lemma tag_value_bits:
  "n \<le> 32 \<Longrightarrow> tag_value (map (\<lambda>b. if b then 1 else 0) (bits_of v n)) = uint (take_bit n v)"
proof (rule bit_eqI)
  fix j
  have "bit (foldl (\<lambda>a i. a OR push_bit i (map (\<lambda>b. if b then 1 else 0 :: int) (bits_of v n) ! i)) 0 [0..<m]) j
      \<longleftrightarrow> j < m \<and> bit v j" if "m \<le> n" for m
    using that
    by (induction m) (auto simp: bits_of_def bit_or_iff bit_push_bit_iff bit_0 less_Suc_eq nth_append bit_1_iff split: if_splits)
  from this [of n] show "n \<le> 32 \<Longrightarrow> bit (tag_value (map (\<lambda>b. if b then 1 else 0) (bits_of v n))) j = bit (uint (take_bit n v)) j"
    by (auto simp: tag_value_def bit_uint_iff bit_take_bit_iff dest: bit_imp_le_length)
qed

text \<open>The decoders' first step reads a tag.\<close>

lemma decodes_tag:
  assumes "n \<le> 32" "decodes (f (uint (take_bit n tag))) cs r"
  shows "decodes (\<lambda>hp. do { (hp, bs) \<leftarrow> get_bits hp n; f (tag_value bs) hp }) (bits_of tag n @ cs) r"
  using decodes_bind [OF decodes_get_bits [of "bits_of tag n"], of "\<lambda>bs. f (tag_value bs)" cs r] assms
  by (simp add: tag_value_bits)

lemma take_bit_less: "(v :: u32) < 2 ^ n \<Longrightarrow> take_bit n v = v"
  by (simp add: take_bit_eq_mask less_mask_eq)

lemma take_bit_ucast_16: "16 \<le> n \<Longrightarrow> take_bit n (ucast (v :: u16) :: u32) = ucast v"
  by (rule bit_word_eqI) (auto simp: bit_take_bit_iff bit_ucast_iff dest: bit_imp_le_length)

lemma ucast_back: "ucast (ucast (v :: u16) :: u32) = v"
  by (rule bit_word_eqI) (simp add: bit_ucast_iff)

lemma decodes_small: "decodes hdecode_smallbits (small_code v) (v, length (small_code v))"
proof -
  let ?f = "\<lambda>v hp. if v < 4 then Some (hp, word_of_int v :: u16, 3 :: nat)
     else do { (hp, s, n) \<leftarrow> hdecode_bits hp (if v = 4 then 5 else if v = 5 then 8 else if v = 6 then 12 else 16);
               Some (hp, ucast s, 3 + n) }"
  let ?u = "ucast v :: u32"
  have d: "hdecode_smallbits = (\<lambda>hp. do { (hp, bs) \<leftarrow> get_bits hp 3; ?f (tag_value bs) hp })"
    by (simp add: hdecode_smallbits_def fun_eq_iff Let_def)
  have tagged: "decodes hdecode_smallbits (bits_of tag 3 @ bits_of ?u n) (v, 3 + n)"
    if "take_bit n ?u = ?u" "(tag, n) \<in> {(4, 5), (5, 8), (6, 12), (7, 16)}" for tag n
  proof -
    have "decodes (\<lambda>hp. do { (hp, s, m) \<leftarrow> hdecode_bits hp n; Some (hp, ucast s :: u16, 3 + m) })
        (bits_of ?u n) (v, 3 + n)"
      using decodes_map [OF decodes_bits [OF that(1)], of "\<lambda>(s, m). (ucast s :: u16, 3 + m)"]
      by (simp add: case_prod_unfold ucast_back)
    moreover have "?f (uint (take_bit 3 tag)) = (\<lambda>hp. do { (hp, s, m) \<leftarrow> hdecode_bits hp n; Some (hp, ucast s :: u16, 3 + m) })"
      using that(2) by auto
    ultimately show ?thesis unfolding d using decodes_tag [of 3 ?f tag "bits_of ?u n" "(v, 3 + n)"] by simp
  qed
  have direct: "decodes hdecode_smallbits (bits_of ?u 3) (v, 3)" if "v < 4"
  proof -
    have small: "?u < 2 ^ 3" using that by (simp add: word_less_nat_alt unat_ucast_16_32)
    have "uint v < 4" using that by (simp add: word_less_def)
    moreover have "uint ?u = uint v" using unat_ucast_16_32 [of v] by (simp only: uint_nat)
    ultimately have "?f (uint (take_bit 3 ?u)) = (\<lambda>hp. Some (hp, v, 3))"
      unfolding take_bit_less [OF small] by simp
    then have "decodes (?f (uint (take_bit 3 ?u))) [] (v, 3)" using decodes_return by simp
    then show ?thesis unfolding d using decodes_tag [of 3 ?f ?u "[]" "(v, 3)"] by simp
  qed
  have "?u < 2 ^ 5 \<longleftrightarrow> v < 32" "?u < 2 ^ 8 \<longleftrightarrow> v < 256" "?u < 2 ^ 12 \<longleftrightarrow> v < 4096"
    by (simp_all add: word_less_nat_alt unat_ucast_16_32)
  then show ?thesis
    using direct tagged [of 5 4] tagged [of 8 5] tagged [of 12 6] tagged [of 16 7] take_bit_less [of ?u] take_bit_ucast_16 [of 16 v]
    by (auto simp: small_code_def)
qed

lemma decodes_var: "decodes hdecode_varbits (var_code v) (v, length (var_code v))"
proof -
  let ?w = "\<lambda>v :: int. if v = 10 then 8 else if v = 11 then 10 else if v = 12 then 13
     else if v = 13 then 16 else if v = 14 then 20 else 32 :: nat"
  let ?f = "\<lambda>v hp. if v < 10 then Some (hp, word_of_int v :: u32, 4 :: nat)
     else do { (hp, s, n) \<leftarrow> hdecode_bits hp (?w v); Some (hp, s, 4 + n) }"
  have d: "hdecode_varbits = (\<lambda>hp. do { (hp, bs) \<leftarrow> get_bits hp 4; ?f (tag_value bs) hp })"
    by (simp add: hdecode_varbits_def fun_eq_iff Let_def)
  have tagged: "decodes hdecode_varbits (bits_of tag 4 @ bits_of v n) (v, 4 + n)"
    if "take_bit n v = v" "(tag, n) \<in> {(10, 8), (11, 10), (12, 13), (13, 16), (14, 20), (15, 32)}" for tag n
  proof -
    have "decodes (\<lambda>hp. do { (hp, s, m) \<leftarrow> hdecode_bits hp n; Some (hp, s, 4 + m) }) (bits_of v n) (v, 4 + n)"
      using decodes_map [OF decodes_bits [OF that(1)], of "\<lambda>(s, m). (s, 4 + m)"] by (simp add: case_prod_unfold)
    moreover have "?f (uint (take_bit 4 tag)) = (\<lambda>hp. do { (hp, s, m) \<leftarrow> hdecode_bits hp n; Some (hp, s, 4 + m) })"
      using that(2) by auto
    ultimately show ?thesis unfolding d using decodes_tag [of 4 ?f tag "bits_of v n" "(v, 4 + n)"] by simp
  qed
  have direct: "decodes hdecode_varbits (bits_of v 4) (v, 4)" if "v < 10"
  proof -
    have small: "v < 2 ^ 4" using that order_less_trans [of v 10 16] by simp
    have "uint v < 10" using that by (simp add: word_less_def)
    then have "?f (uint (take_bit 4 v)) = (\<lambda>hp. Some (hp, v, 4))"
      unfolding take_bit_less [OF small] by simp
    then have "decodes (?f (uint (take_bit 4 v))) [] (v, 4)" using decodes_return by simp
    then show ?thesis unfolding d using decodes_tag [of 4 ?f v "[]" "(v, 4)"] by simp
  qed
  show ?thesis
    using direct tagged [of 8 10] tagged [of 10 11] tagged [of 13 12] tagged [of 16 13] tagged [of 20 14]
      tagged [of 32 15] take_bit_less [of v] take_bit_word_eq_self [of 32 v]
    by (auto simp: var_code_def)
qed

lemma decodes_flag:
  assumes "decodes (f (if b then 1 else 0)) bs r"
  shows "decodes (\<lambda>hp. do { (hp, a) \<leftarrow> hgetbit hp; f a hp }) (b # bs) r"
proof -
  have "decodes hgetbit [b] (if b then 1 else 0)"
    by (rule decodesI) (drule hgetbit_ok, auto simp: moved_def)
  from decodes_bind [where f = f, OF this assms] show ?thesis by simp
qed

lemma decodes_svar: "decodes hdecode_svarbits (svar_code v) (v, length (svar_code v) - 1)"
proof (cases "v < 65536")
  case True
  have "ucast (ucast v :: u16) = v"
    using take_bit_less [of v 16] True
    by (intro bit_word_eqI) (auto simp: bit_ucast_iff, metis bit_take_bit_iff)
  then have "decodes (\<lambda>hp. do { (hp, s, n) \<leftarrow> hdecode_smallbits hp; Some (hp, ucast s, n) })
      (small_code (ucast v)) (v, length (small_code (ucast v)))"
    using decodes_map [OF decodes_small [of "ucast v"], of "\<lambda>(s, m). (ucast s :: u32, m)"] by (simp add: case_prod_unfold)
  then show ?thesis
    using True decodes_flag [of "\<lambda>b hp. if b = 0 then do { (hp, s, n) \<leftarrow> hdecode_smallbits hp; Some (hp, ucast s, n) }
      else hdecode_varbits hp" False "small_code (ucast v)" "(v, length (small_code (ucast v)))"]
    by (simp add: svar_code_def hdecode_svarbits_def [abs_def])
next
  case False
  then show ?thesis
    using decodes_var [of v] decodes_flag [of "\<lambda>b hp. if b = 0 then do { (hp, s, n) \<leftarrow> hdecode_smallbits hp; Some (hp, ucast s, n) }
      else hdecode_varbits hp" True "var_code v" "(v, length (var_code v))"]
    by (simp add: svar_code_def hdecode_svarbits_def [abs_def])
qed

lemma decodes_value: "decodes hdecode_valuebits (value_code v) (v, length (value_code v))"
proof -
  let ?x = "ucast v :: u32" and ?y = "ucast (drop_bit 32 v) :: u32"
  have v: "ucast ?x OR push_bit 32 (ucast ?y) = v"
    by (rule bit_word_eqI) (auto simp: bit_simps)
  have y: "decodes (\<lambda>hp. do { (hp, y, b) \<leftarrow> hdecode_varbits hp; Some (hp, ucast ?x OR push_bit 32 (ucast y) :: u64, length (var_code ?x) + b) })
      (var_code ?y) (v, length (value_code v))"
    using decodes_map [OF decodes_var [of ?y], of "\<lambda>(y, b). (ucast ?x OR push_bit 32 (ucast y) :: u64, length (var_code ?x) + b)"]
    by (simp add: case_prod_unfold v value_code_def)
  from decodes_bind [OF decodes_var [of ?x], of "\<lambda>(x, a) hp. do { (hp, y, b) \<leftarrow> hdecode_varbits hp;
      Some (hp, ucast x OR push_bit 32 (ucast y) :: u64, a + b) }", simplified, OF y]
  show ?thesis by (simp add: hdecode_valuebits_def [abs_def] value_code_def case_prod_unfold)
qed

lemma hseek_set_eq:
  assumes "p < 2 ^ 32" "p div 8 \<le> allocsize hp"
  shows "hseek hp (int p) SEEK_SET
    = (hp\<lparr>bitoffset := p, endpos := max (endpos hp) p, ptr := p div 8, maski := p mod 8\<rparr>, 0)"
proof -
  have "nat ((int p + int 0) mod 2 ^ 32) = p" using assms(1) by simp
  then show ?thesis using assms(2) by (simp add: hseek_def hupdate_internals_def Let_def max_def)
qed

lemma hseek_set:
  assumes "h_wf hp" "p \<le> endpos hp"
  shows "\<exists>hp'. hseek hp (int p) SEEK_SET = (hp', 0) \<and> h_wf hp' \<and> bitoffset hp' = p \<and> endpos hp' = endpos hp
    \<and> allocsize hp' = allocsize hp \<and> buf hp' = buf hp"
proof -
  have "p < 2 ^ 32" "p div 8 \<le> allocsize hp" using assms by (auto simp: h_wf_def)
  then show ?thesis using assms by (simp add: hseek_set_eq h_wf_def)
qed

section \<open>Sequences of codes\<close>

text \<open>A value together with the code it is written in, and the calls that write and read it.\<close>

datatype item = Bits u32 nat | Small u16 | Var u32 | SVar u32 | Value u64

fun emit_item :: "HUFF \<Rightarrow> item \<Rightarrow> (HUFF \<times> nat) option" where
  "emit_item hp (Bits v n) = hemit_bits hp v n"
| "emit_item hp (Small v) = hemit_smallbits hp v"
| "emit_item hp (Var v) = hemit_varbits hp v"
| "emit_item hp (SVar v) = hemit_svarbits hp v"
| "emit_item hp (Value v) = hemit_valuebits hp v"

text \<open>What the reader knows of an item: its code, and the width of plain bits.\<close>

datatype kind = KBits nat | KSmall | KVar | KSVar | KValue

fun item_kind :: "item \<Rightarrow> kind" where
  "item_kind (Bits v n) = KBits n"
| "item_kind (Small v) = KSmall"
| "item_kind (Var v) = KVar"
| "item_kind (SVar v) = KSVar"
| "item_kind (Value v) = KValue"

fun decode_item :: "kind \<Rightarrow> HUFF \<Rightarrow> (HUFF \<times> item) option" where
  "decode_item (KBits n) hp = do { (hp, v, _) \<leftarrow> hdecode_bits hp n; Some (hp, Bits v n) }"
| "decode_item KSmall hp = do { (hp, v, _) \<leftarrow> hdecode_smallbits hp; Some (hp, Small v) }"
| "decode_item KVar hp = do { (hp, v, _) \<leftarrow> hdecode_varbits hp; Some (hp, Var v) }"
| "decode_item KSVar hp = do { (hp, v, _) \<leftarrow> hdecode_svarbits hp; Some (hp, SVar v) }"
| "decode_item KValue hp = do { (hp, v, _) \<leftarrow> hdecode_valuebits hp; Some (hp, Value v) }"

fun emit_items :: "HUFF \<Rightarrow> item list \<Rightarrow> HUFF option" where
  "emit_items hp [] = Some hp"
| "emit_items hp (x # xs) = do { (hp, _) \<leftarrow> emit_item hp x; emit_items hp xs }"

fun decode_items :: "kind list \<Rightarrow> HUFF \<Rightarrow> (HUFF \<times> item list) option" where
  "decode_items [] hp = Some (hp, [])"
| "decode_items (k # ks) hp = do { (hp, y) \<leftarrow> decode_item k hp; (hp, ys) \<leftarrow> decode_items ks hp; Some (hp, y # ys) }"

fun item_code :: "item \<Rightarrow> bool list" where
  "item_code (Bits v n) = bits_of v n"
| "item_code (Small v) = small_code v"
| "item_code (Var v) = var_code v"
| "item_code (SVar v) = svar_code v"
| "item_code (Value v) = value_code v"

fun item_ok :: "item \<Rightarrow> bool" where
  "item_ok (Bits v n) \<longleftrightarrow> take_bit n v = v"
| "item_ok _ \<longleftrightarrow> True"

lemma emit_items_code: "emit_items hp xs = put_bits hp (concat (map item_code xs))"
proof (induction xs arbitrary: hp)
  case (Cons x xs)
  have "\<exists>k. emit_item hp x = map_option (\<lambda>hp. (hp, k)) (put_bits hp (item_code x))"
    using emits_bits emits_small emits_var emits_svar emits_value unfolding emits_def by (cases x) auto
  then show ?case using Cons by (auto simp: put_bits_append split: Option.bind_split)
qed (simp add: put_bits_def)

lemma decodes_item:
  assumes "item_ok x"
  shows "decodes (decode_item (item_kind x)) (item_code x) x"
proof (cases x)
  case (Bits v n)
  then show ?thesis using decodes_map [OF decodes_bits [of n v], of "\<lambda>(v, _). Bits v n"] assms
    by (simp add: case_prod_unfold decode_item.simps [abs_def])
qed (use decodes_map [OF decodes_small, of "\<lambda>(v, _). Small v"] decodes_map [OF decodes_var, of "\<lambda>(v, _). Var v"]
    decodes_map [OF decodes_svar, of "\<lambda>(v, _). SVar v"] decodes_map [OF decodes_value, of "\<lambda>(v, _). Value v"]
   in \<open>simp_all add: case_prod_unfold decode_item.simps [abs_def]\<close>)

lemma decodes_items:
  "list_all item_ok xs \<Longrightarrow> decodes (decode_items (map item_kind xs)) (concat (map item_code xs)) xs"
proof (induction xs)
  case Nil
  then show ?case using decodes_return [of "[]"] by (simp add: decode_items.simps [abs_def])
next
  case (Cons x xs)
  then have x: "decodes (decode_item (item_kind x)) (item_code x) x"
    and xs: "decodes (decode_items (map item_kind xs)) (concat (map item_code xs)) xs"
    by (simp_all add: decodes_item)
  have "decodes (\<lambda>hp. do { (hp, ys) \<leftarrow> decode_items (map item_kind xs) hp; Some (hp, x # ys) })
      (concat (map item_code xs)) (x # xs)"
    using decodes_map [OF xs, of "\<lambda>ys. x # ys"] by simp
  from decodes_bind [where f = "\<lambda>y hp. do { (hp, ys) \<leftarrow> decode_items (map item_kind xs) hp; Some (hp, y # ys) }", OF x this]
  show ?case by (simp add: decode_items.simps [abs_def])
qed

text \<open>Writing a code and seeking back to its start: the stream spells the code from there.\<close>

lemma put_bits_seek:
  assumes "h_wf hp" "bitoffset hp + length bs < 8 * allocsize hp"
  shows "\<exists>hp1 hp2. put_bits hp bs = Some hp1 \<and> hseek hp1 (int (bitoffset hp)) SEEK_SET = (hp2, 0)
    \<and> h_wf hp1 \<and> h_wf hp2 \<and> bitoffset hp1 = bitoffset hp + length bs \<and> bitoffset hp2 = bitoffset hp
    \<and> bitoffset hp + length bs \<le> endpos hp2 \<and> spells (hbit hp2) (bitoffset hp) bs
    \<and> (\<forall>k<bitoffset hp. hbit hp2 k = hbit hp k)"
proof -
  from huff.put_all_ok [OF assms] obtain hp1 where hp1: "put_bits hp bs = Some hp1" "h_wf hp1"
    "bitoffset hp1 = bitoffset hp + length bs" "endpos hp1 = max (endpos hp) (bitoffset hp + length bs)"
    "spells (hbit hp1) (bitoffset hp) bs" "\<forall>k<bitoffset hp. hbit hp1 k = hbit hp k"
    using assms(2) unfolding put_bits_def by auto
  have "bitoffset hp \<le> endpos hp1" using hp1(4) by (simp add: le_max_iff_disj)
  from hseek_set [OF hp1(2) this] obtain hp2 where "hseek hp1 (int (bitoffset hp)) SEEK_SET = (hp2, 0)" "h_wf hp2"
    "bitoffset hp2 = bitoffset hp" "endpos hp2 = endpos hp1" "buf hp2 = buf hp1" by auto
  moreover from this have "hbit hp2 = hbit hp1" by (simp add: hbit_def fun_eq_iff)
  ultimately show ?thesis using hp1 by simp
qed

lemma bit_reverse_loop:
  "i + n \<le> 64 \<Longrightarrow> bit (huff_reversebits_loop x i n r) j
     \<longleftrightarrow> (if i \<le> j \<and> j < i + n then bit x (i + n - 1 - j) \<or> bit r j else bit r j)"
proof (induction x i n r rule: huff_reversebits_loop.induct)
  case (2 x i n r)
  then have "bit (huff_reversebits_loop x i (Suc n) r) j \<longleftrightarrow>
      (if Suc i \<le> j \<and> j < Suc i + n then bit x (Suc i + n - 1 - j) \<or> bit (if bit x n then set_bit i r else r) j
       else bit (if bit x n then set_bit i r else r) j)" by simp
  then show ?case using 2(2) by (auto simp: bit_set_bit_iff possible_bit_def Suc_le_eq)
qed auto

lemma bit_reversebits:
  "n \<le> 64 \<Longrightarrow> bit (huff_reversebits x n) j \<longleftrightarrow> j < n \<and> bit x (n - 1 - j)"
  using bit_reverse_loop [of 0 n x 0 j] by (auto simp: huff_reversebits_def)

text \<open>\<^verbatim>\<open>hwrite\<close> puts the low bits in order, \<^verbatim>\<open>hread\<close> collects them from the top.\<close>

lemma hwrite_loop_ok:
  "h_wf hp \<Longrightarrow> bitoffset hp + n < 8 * allocsize hp \<Longrightarrow>
     hwrite_loop x n hp = map_option (\<lambda>hp. (hp, True)) (put_bits hp (map (bit x) [0..<n]))"
proof (induction x n hp rule: hwrite_loop.induct)
  case (2 x n hp)
  from hputbit_ok [OF 2(2), of "odd x"] 2(3) obtain h where
    h: "hputbit hp (odd x) = Some (h, 0)" "h_wf h" "bitoffset h = Suc (bitoffset hp)" "allocsize h = allocsize hp" by auto
  have "x AND 1 \<noteq> 0 \<longleftrightarrow> odd x" by (simp add: and_one_eq odd_iff_mod_2_eq_one)
  moreover have "map (bit x) [0..<Suc n] = odd x # map (bit (drop_bit 1 x)) [0..<n]"
    unfolding map_upt_Suc by (simp add: bit_0 bit_drop_bit_eq)
  ultimately show ?case using 2(1) [of "(h, 0)" h 0] h 2(3) by (simp add: put_bits_def)
qed (simp add: put_bits_def)

lemma hread_loop_ok:
  assumes "h_wf hp" "bitoffset hp + length bs \<le> endpos hp" "spells (hbit hp) (bitoffset hp) bs"
  shows "\<exists>hp'. hread_loop c i (length bs) hp
      = Some (hp', foldl (\<lambda>c b. push_bit 1 c OR (if b then 1 else 0)) c bs, i + length bs) \<and> moved hp (length bs) hp'"
  using assms
proof (induction bs arbitrary: hp c i)
  case (Cons b bs)
  from hgetbit_ok [OF Cons(2)] Cons(3,4) obtain h where
    h: "hgetbit hp = Some (h, if b then 1 else 0)" "moved hp 1 h" by (auto simp: moved_def)
  from h(2) Cons.IH [of h "push_bit 1 c OR (if b then 1 else 0)" "Suc i"] Cons(3,4) obtain h' where
    "hread_loop (push_bit 1 c OR (if b then 1 else 0)) (Suc i) (length bs) h
      = Some (h', foldl (\<lambda>c b. push_bit 1 c OR (if b then 1 else 0)) (push_bit 1 c OR (if b then 1 else 0)) bs, Suc i + length bs)"
    "moved h (length bs) h'" by (auto simp: moved_def)
  moreover from this(2) h(2) have "moved hp (length (b # bs)) h'" by (auto simp: moved_def)
  moreover have "word_of_int (if b then 1 else 0) = (if b then 1 else 0 :: u64)" by simp
  ultimately show ?case using h(1) by (cases b) (auto simp: Let_def)
qed (auto simp: moved_def)

lemma bit_foldl_shift:
  "bit (foldl (\<lambda>c b. push_bit 1 c OR (if b then 1 else 0 :: u64)) c bs) j
     \<longleftrightarrow> j < 64 \<and> (if j < length bs then bs ! (length bs - 1 - j) else bit c (j - length bs))"
proof (induction bs arbitrary: c)
  case Nil
  then show ?case by (auto dest: bit_imp_le_length)
next
  case (Cons b bs)
  have step: "bit (push_bit 1 c OR (if b then 1 else 0)) k \<longleftrightarrow> (if k = 0 then b else k < 64 \<and> bit c (k - 1))" for k
    unfolding bit_or_iff bit_push_bit_iff by (auto simp: bit_1_iff)
  show ?case unfolding foldl.simps Cons.IH step
    by (auto simp: nth_Cons' less_Suc_eq)
qed

lemma smallsize_code: "hcalc_smallsize v = length (small_code v)"
  by (auto simp: hcalc_smallsize_def small_code_def not_less)

section \<open>Properties\<close>

text \<open>A stream of 16 bytes for the witnesses.\<close>

definition witness_huff :: HUFF where
  "witness_huff = \<lparr>buf = replicate 16 0, ptr = 0, bitoffset = 0, maski = 0, endpos = 0, allocsize = 16\<rparr>"

lemma witness_huff_wf: "h_wf witness_huff" "bitoffset witness_huff = 0" "allocsize witness_huff = 16"
  by (simp_all add: witness_huff_def h_wf_def)

text \<open>
  C18. Round trip of the integer codes: any sequence of values written one after another in
  the plain, small, var, svar and value codes, as far as it fits before the last bit of the
  buffer, is written without an access outside it; after seeking back to where it began, the
  matching decoders read exactly these values, stop where the writing stopped, and what was
  written before is untouched.
\<close>

theorem hcodec_roundtrip:
  assumes "h_wf hp" "list_all item_ok xs"
    and "bitoffset hp + length (concat (map item_code xs)) < 8 * allocsize hp"
  shows "\<exists>hp1 hp2 hp3. emit_items hp xs = Some hp1 \<and> hseek hp1 (int (bitoffset hp)) SEEK_SET = (hp2, 0)
    \<and> decode_items (map item_kind xs) hp2 = Some (hp3, xs) \<and> bitoffset hp3 = bitoffset hp1
    \<and> (\<forall>k<bitoffset hp. hbit hp3 k = hbit hp k)"
proof -
  from put_bits_seek [OF assms(1,3)] obtain hp1 hp2 where w: "put_bits hp (concat (map item_code xs)) = Some hp1"
    "hseek hp1 (int (bitoffset hp)) SEEK_SET = (hp2, 0)" "h_wf hp2"
    "bitoffset hp1 = bitoffset hp + length (concat (map item_code xs))" "bitoffset hp2 = bitoffset hp"
    "bitoffset hp2 + length (concat (map item_code xs)) \<le> endpos hp2"
    "spells (hbit hp2) (bitoffset hp2) (concat (map item_code xs))" "\<forall>k<bitoffset hp. hbit hp2 k = hbit hp k" by auto
  then obtain hp3 where "decode_items (map item_kind xs) hp2 = Some (hp3, xs)"
    "moved hp2 (length (concat (map item_code xs))) hp3"
    using decodes_items [OF assms(2)] unfolding decodes_def by blast
  then show ?thesis using w by (auto simp: emit_items_code moved_def)
qed

theorem hcodec_roundtrip_witness:
  "\<exists>hp1 hp2 hp3. emit_items witness_huff [Small 300, SVar 70000, Bits 5 3] = Some hp1
    \<and> hseek hp1 0 SEEK_SET = (hp2, 0)
    \<and> decode_items [KSmall, KSVar, KBits 3] hp2 = Some (hp3, [Small 300, SVar 70000, Bits 5 3])"
proof -
  have "bitoffset witness_huff + length (concat (map item_code [Small 300, SVar 70000, Bits 5 3])) < 8 * allocsize witness_huff"
    by (simp add: witness_huff_wf small_code_def svar_code_def var_code_def)
  moreover have "take_bit 3 (5 :: u32) = 5" by simp
  ultimately show ?thesis
    using hcodec_roundtrip [of witness_huff "[Small 300, SVar 70000, Bits 5 3]"] witness_huff_wf by auto
qed

text \<open>
  \<^verbatim>\<open>hwrite\<close> and \<^verbatim>\<open>hread\<close> use opposite bit orders: writing \<open>n\<close> bits and reading them back
  returns the value \<^verbatim>\<open>huff_reversebits\<close> computes, the low \<open>n\<close> bits in reverse.
\<close>

lemma hread_hwrite_reverse:
  assumes "h_wf hp" "n \<le> 64" "bitoffset hp + n < 8 * allocsize hp"
  shows "\<exists>hp1 hp2 hp3. hwrite x n hp = Some (hp1, int n) \<and> hseek hp1 (int (bitoffset hp)) SEEK_SET = (hp2, 0)
    \<and> hread n hp2 = Some (hp3, huff_reversebits x n, n)
    \<and> (\<forall>j. bit (huff_reversebits x n) j \<longleftrightarrow> j < n \<and> bit x (n - 1 - j))"
proof -
  let ?bs = "map (bit x) [0..<n]"
  have len: "bitoffset hp + length ?bs < 8 * allocsize hp" using assms(3) by simp
  from put_bits_seek [OF assms(1) len] obtain hp1 hp2 where w: "put_bits hp ?bs = Some hp1"
    "hseek hp1 (int (bitoffset hp)) SEEK_SET = (hp2, 0)" "h_wf hp2"
    "bitoffset hp2 + length ?bs \<le> endpos hp2" "spells (hbit hp2) (bitoffset hp2) ?bs" by auto
  from hread_loop_ok [OF w(3,4,5), of 0 0] obtain hp3 where
    r: "hread n hp2 = Some (hp3, foldl (\<lambda>c b. push_bit 1 c OR (if b then 1 else 0)) 0 ?bs, n)" by (auto simp: hread_def)
  have "foldl (\<lambda>c b. push_bit 1 c OR (if b then 1 else 0)) 0 ?bs = huff_reversebits x n"
    by (rule bit_word_eqI) (use assms(2) in \<open>unfold bit_foldl_shift, auto simp: bit_reversebits\<close>)
  moreover have "hwrite x n hp = Some (hp1, int n)"
    using hwrite_loop_ok [OF assms(1,3)] w(1) by (simp add: hwrite_def)
  ultimately show ?thesis using w(2) r bit_reversebits [OF assms(2)] by auto
qed

text \<open>
  The bounds check of \<^verbatim>\<open>hupdate_internals\<close> lets the position one past the buffer through:
  seeking to the bit after the last one succeeds, and the next \<^verbatim>\<open>hputbit\<close> writes outside the
  buffer.
\<close>

lemma hseek_overrun:
  assumes "h_wf hp"
  shows "\<exists>hp'. hseek hp (int (8 * allocsize hp)) SEEK_SET = (hp', 0) \<and> hputbit hp' b = None"
proof -
  have "8 * allocsize hp < 2 ^ 32" "8 * allocsize hp div 8 \<le> allocsize hp" "length (buf hp) = allocsize hp"
    using assms by (auto simp: h_wf_def)
  then show ?thesis by (subst hseek_set_eq) (auto simp: hputbit_def in_buf_def)
qed

end
