(* ===== verification/Huffcode.thy ===== *)
theory Huffcode
  imports Huffstream "HOL-Library.Multiset"
begin

text \<open>
  Huffman codes (\<^verbatim>\<open>src/plugins/utils/huffstream.c\<close>, from \<^verbatim>\<open>huff_heap_create\<close> to
  \<^verbatim>\<open>huff_decodeitem\<close>): a list of items with frequencies is turned into a code tree and a bit
  code per item; items are written to a bit stream with their codes and read back by walking
  the tree. A result \<open>None\<close> is an access outside an array or a loop that does not end.
\<close>

section \<open>Data\<close>

record huffitem =
  numbits :: nat
  bits :: nat
  patlen :: nat
  freq :: u32
  pattern :: bytes

record huffcode =
  numitems :: nat
  maxbits :: nat
  numnodes :: nat
  depth :: nat
  tree :: "int list"

section \<open>The heap\<close>

text \<open>The used part of \<^verbatim>\<open>h\<close>, the capacity \<^verbatim>\<open>s\<close> and the growth step \<^verbatim>\<open>cs\<close>.\<close>

record huffheap =
  heap_h :: "nat list"
  heap_s :: nat
  heap_cs :: nat

definition huff_heap_create :: "nat \<Rightarrow> huffheap" where
  "huff_heap_create n = \<lparr>heap_h = [], heap_s = n, heap_cs = n\<rparr>"

text \<open>The gnome sort of \<^verbatim>\<open>huff_heap_sort\<close>: descending by frequency.\<close>

partial_function (option) gnome_loop :: "u32 list \<Rightarrow> nat list \<Rightarrow> nat \<Rightarrow> nat \<Rightarrow> nat list option" where
  "gnome_loop f a i j =
     (if i < length a then
        if f ! (a ! (i - 1)) \<ge> f ! (a ! i) then gnome_loop f a j (j + 1)
        else let a = a[i - 1 := a ! i, i := a ! (i - 1)]; i = i - 1
             in if i = 0 then gnome_loop f a j (j + 1) else gnome_loop f a i j
      else Some a)"

declare gnome_loop.simps [code]

definition huff_heap_sort :: "u32 list \<Rightarrow> huffheap \<Rightarrow> huffheap option" where
  "huff_heap_sort f heap = map_option (\<lambda>a. heap\<lparr>heap_h := a\<rparr>) (gnome_loop f (heap_h heap) 1 2)"

text \<open>Growing reallocates to \<open>s + cs\<close> bytes, not entries of four bytes.\<close>

definition huff_heap_add :: "u32 list \<Rightarrow> huffheap \<Rightarrow> nat \<Rightarrow> huffheap option" where
  "huff_heap_add f heap ind =
     (let n = length (heap_h heap) in
      if n + 1 > heap_s heap then
        if 4 * (n + 1) > heap_s heap + heap_cs heap then None
        else huff_heap_sort f (heap\<lparr>heap_h := heap_h heap @ [ind], heap_s := heap_s heap + heap_cs heap\<rparr>)
      else huff_heap_sort f (heap\<lparr>heap_h := heap_h heap @ [ind]\<rparr>))"

definition huff_heap_remove :: "huffheap \<Rightarrow> huffheap \<times> int" where
  "huff_heap_remove heap =
     (if heap_h heap \<noteq> [] then (heap\<lparr>heap_h := butlast (heap_h heap)\<rparr>, int (last (heap_h heap))) else (heap, - 1))"

section \<open>Building the code\<close>

record huffbuild =
  efreqs :: "u32 list"
  heap :: huffheap
  preds :: "int list"
  revtree :: "nat list"
  bdepth :: nat
  extf :: nat

fun add_items :: "u32 list \<Rightarrow> nat list \<Rightarrow> huffheap \<Rightarrow> huffheap option" where
  "add_items f [] hp = Some hp"
| "add_items f (i # is) hp =
     (if f ! i > 0 then do { hp \<leftarrow> huff_heap_add f hp i; add_items f is hp } else add_items f is hp)"

text \<open>One round of merging the two entries at the end of the heap.\<close>

definition merge_step :: "huffbuild \<Rightarrow> huffbuild option" where
  "merge_step b =
     (let (hp, r1) = huff_heap_remove (heap b);
          (hp, r2) = huff_heap_remove hp;
          r1 = nat r1; r2 = nat r2; e = extf b; d = bdepth b
      in if e < length (efreqs b) \<and> 2 * d + 1 < length (revtree b) \<and> r1 < length (preds b) \<and> r2 < length (preds b)
         then do {
           let fs = (efreqs b)[e := efreqs b ! r1 + efreqs b ! r2];
           hp \<leftarrow> huff_heap_add fs hp e;
           Some (b\<lparr>efreqs := fs, heap := hp,
             revtree := (revtree b)[2 * d + 1 := r1, 2 * d := r2],
             preds := (preds b)[r1 := int e, r2 := - int e], bdepth := d + 1, extf := e + 1\<rparr>) }
         else None)"

partial_function (option) merge_loop :: "huffbuild \<Rightarrow> huffbuild option" where
  "merge_loop b =
     (if length (heap_h (heap b)) > 1 then do { b \<leftarrow> merge_step b; merge_loop b } else Some b)"

declare merge_loop.simps [code]

text \<open>
  \<^verbatim>\<open>huff_init\<close>: the predecessors, the tree in reverse order and the first unused node number
  (zero when there are no items).
\<close>

definition huff_init :: "huffitem list \<Rightarrow> (int list \<times> nat list \<times> nat) option" where
  "huff_init items =
     (let n = length items in
      if n = 0 then Some ([], [], 0)
      else do {
        let fs = map freq items @ replicate n 0;
        hp \<leftarrow> add_items fs [0..<n] (huff_heap_create (n * 2));
        b \<leftarrow> merge_loop \<lparr>efreqs = fs, heap = hp, preds = replicate (2 * n) 0, revtree = replicate (2 * n) 0,
                          bdepth = 0, extf = n\<rparr>;
        let r1 = snd (huff_heap_remove (heap b));
        if r1 < 0 then None
        else Some ((preds b)[nat r1 := r1], revtree b, extf b) })"

text \<open>The walk from an item up to the root; the bits from the item on.\<close>

partial_function (option) code_walk :: "int list \<Rightarrow> nat \<Rightarrow> bool list option" where
  "code_walk ps ix =
     (if ix < length ps then
        let pred = ps ! ix
        in if pred \<noteq> int ix \<and> - pred \<noteq> int ix
           then do { bs \<leftarrow> code_walk ps (nat \<bar>pred\<bar>); Some ((pred \<ge> 0) # bs) }
           else Some []
      else None)"

declare code_walk.simps [code]

definition codebits :: "bool list \<Rightarrow> u64" where
  "codebits bs = foldl (\<lambda>c i. if bs ! i then c OR push_bit i 1 else c) 0 [0..<length bs]"

text \<open>The fields \<^verbatim>\<open>numbits\<close> and \<^verbatim>\<open>bits\<close> of a code are 5 and 22 bits wide.\<close>

definition calc_item :: "int list \<Rightarrow> nat \<Rightarrow> huffitem \<Rightarrow> (huffitem \<times> nat) option" where
  "calc_item ps i item =
     (if freq item \<noteq> 0 then
        do { bs \<leftarrow> code_walk ps i;
             let n = length bs;
             Some (item\<lparr>numbits := n mod 2 ^ 5, bits := unat (huff_reversebits (codebits bs) n) mod 2 ^ 22\<rparr>, n) }
      else Some (item, 0))"

fun huff_calc :: "int list \<Rightarrow> nat \<Rightarrow> huffitem list \<Rightarrow> (huffitem list \<times> nat \<times> nat) option" where
  "huff_calc ps i [] = Some ([], 0, 0)"
| "huff_calc ps i (item # items) =
     do { (item', n) \<leftarrow> calc_item ps i item;
          (items', nonz, mb) \<leftarrow> huff_calc ps (Suc i) items;
          Some (item' # items', (if freq item \<noteq> 0 then Suc nonz else nonz), max n mb) }"

text \<open>A child in the tree array: an item, or minus the distance to the entry of a node.\<close>

definition tree_entry :: "nat \<Rightarrow> nat \<Rightarrow> nat \<Rightarrow> int" where
  "tree_entry n i c = (if c < n then int c else - ((int n + int i - int c) * 2))"

definition huff_create :: "huffitem list \<Rightarrow> (huffcode option \<times> huffitem list) option" where
  "huff_create items =
     do { (ps, rt, e) \<leftarrow> huff_init items;
          if e = 0 then Some (None, items)
          else do {
            let n = length items;
            let d = e - n;
            let tr = concat (map (\<lambda>i. [tree_entry n i (rt ! (2 * i)), tree_entry n i (rt ! (2 * i + 1))]) (rev [0..<d]));
            (items', nonz, mb) \<leftarrow> huff_calc ps 0 items;
            Some (Some \<lparr>numitems = n, maxbits = mb, numnodes = nonz, depth = d, tree = tr\<rparr>, items') } }"

text \<open>\<^verbatim>\<open>huff_hexcode\<close>: a code for the sixteen nibbles of some data.\<close>

definition nibble_histo :: "bytes \<Rightarrow> nat list" where
  "nibble_histo data = foldl (\<lambda>hs b. let l = unat (b AND 0xf); hs = hs[l := hs ! l + 1];
       u = unat (drop_bit 4 b) in hs[u := hs ! u + 1]) (replicate 16 0) data"

definition huff_hexcode :: "bytes \<Rightarrow> (huffcode option \<times> huffitem list) option" where
  "huff_hexcode data =
     huff_create (map (\<lambda>c. \<lparr>numbits = 0, bits = 0, patlen = 4, freq = of_nat c, pattern = []\<rparr>) (nibble_histo data))"

section \<open>Writing and reading items\<close>

fun huff_encode :: "huffitem list \<Rightarrow> HUFF \<Rightarrow> nat list \<Rightarrow> (HUFF \<times> nat) option" where
  "huff_encode items hp [] = Some (hp, 0)"
| "huff_encode items hp (i # is) =
     (if i < length items then
        do { let item = items ! i;
             hp \<leftarrow> put_bits hp (map (\<lambda>j. odd (bits item div 2 ^ j)) [0..<numbits item]);
             (hp, count) \<leftarrow> huff_encode items hp is;
             Some (hp, numbits item + count) }
      else None)"

text \<open>
  \<^verbatim>\<open>huff_decodeitem\<close>: \<open>t\<close> is the position in the tree and \<open>i\<close> the count of the inner loop,
  which starts over at the root after \<^verbatim>\<open>depth\<close> steps. A call that ends either reads outside the
  buffer or the tree (\<open>Fault\<close>) or returns the stream and the index of the item, or nothing
  for the null pointer (\<open>Returns\<close>); every branch of the body that ends has one of these two values,
  so that \<open>None\<close> is left for a call that never ends.
\<close>

datatype decode_end = Fault | Returns HUFF "nat option"

partial_function (option) decode_walk :: "int list \<Rightarrow> nat \<Rightarrow> nat \<Rightarrow> nat \<Rightarrow> nat \<Rightarrow> HUFF \<Rightarrow> decode_end option" where
  "decode_walk tr d n t i hp =
     (if i < d then
        case hgetbit hp of
          None \<Rightarrow> Some Fault
        | Some (hp, c) \<Rightarrow>
            if c < 0 then Some (Returns hp None)
            else if t + nat c < length tr then
              let tmp = tr ! (t + nat c)
              in if tmp < 0 then decode_walk tr d n (t + nat (- tmp)) (i + 1) hp
                 else if nat tmp \<ge> n then Some (Returns hp None)
                 else Some (Returns hp (Some (nat tmp)))
            else Some Fault
      else decode_walk tr d n 0 0 hp)"

definition huff_decodeitem :: "huffcode \<Rightarrow> HUFF \<Rightarrow> decode_end option" where
  "huff_decodeitem huff hp = decode_walk (tree huff) (depth huff) (numitems huff) 0 0 hp"

section \<open>Sorting\<close>

definition swap_prev :: "nat list \<Rightarrow> nat \<Rightarrow> nat list" where
  "swap_prev a i = a[i - 1 := a ! i, i := a ! (i - 1)]"

lemma swap_prev_facts:
  assumes "0 < i" "i < length a"
  shows "length (swap_prev a i) = length a" "mset (swap_prev a i) = mset a"
    "swap_prev a i ! k = (if k = i then a ! (i - 1) else if k = i - 1 then a ! i else a ! k)"
  using assms by (auto simp: swap_prev_def nth_list_update mset_swap)

text \<open>
  Up to position \<open>l\<close> the list is in order, but for the entry at \<open>i\<close>, which may have to move
  further to the front.
\<close>

definition gnome_inv :: "u32 list \<Rightarrow> nat list \<Rightarrow> nat \<Rightarrow> nat \<Rightarrow> bool" where
  "gnome_inv f a i l \<longleftrightarrow> 0 < i \<and> i \<le> l \<and> (l < length a \<or> length a \<le> i)
     \<and> (\<forall>p q. p < q \<longrightarrow> q \<le> l \<longrightarrow> q < length a \<longrightarrow> q \<noteq> i \<longrightarrow> f ! (a ! p) \<ge> f ! (a ! q))"

lemma gnome_loop_unfold:
  "gnome_loop f a i j =
     (if i < length a then
        if f ! (a ! (i - 1)) \<ge> f ! (a ! i) then gnome_loop f a j (j + 1)
        else if i - 1 = 0 then gnome_loop f (swap_prev a i) j (j + 1) else gnome_loop f (swap_prev a i) (i - 1) j
      else Some a)"
  by (subst gnome_loop.simps) (simp add: swap_prev_def Let_def)

lemma gnome_inv_next:
  assumes "gnome_inv f a i l" "i < length a" "f ! (a ! (i - 1)) \<ge> f ! (a ! i)"
  shows "gnome_inv f a (Suc l) (Suc l)"
proof -
  have "f ! (a ! p) \<ge> f ! (a ! q)" if "p < q" "q \<le> l" "q < length a" for p q
  proof (cases "q = i")
    case True
    show ?thesis
    proof (cases "p = i - 1")
      case False
      then have "p < i - 1" using that True by simp
      then have "f ! (a ! p) \<ge> f ! (a ! (i - 1))" using assms(1,2) by (auto simp: gnome_inv_def)
      then show ?thesis using assms(3) True by simp
    qed (use assms(3) True in simp)
  qed (use assms(1) that in \<open>auto simp: gnome_inv_def\<close>)
  then show ?thesis using assms(1,2) by (auto simp: gnome_inv_def le_Suc_eq)
qed

lemma gnome_inv_swap:
  assumes "gnome_inv f a i l" "i < length a" "\<not> f ! (a ! (i - 1)) \<ge> f ! (a ! i)"
  shows "\<forall>p q. p < q \<longrightarrow> q \<le> l \<longrightarrow> q < length a \<longrightarrow> q \<noteq> i - 1 \<longrightarrow>
      f ! (swap_prev a i ! p) \<ge> f ! (swap_prev a i ! q)"
proof (intro allI impI)
  fix p q assume pq: "p < q" "q \<le> l" "q < length a" "q \<noteq> i - 1"
  have inv: "\<And>p q. p < q \<Longrightarrow> q \<le> l \<Longrightarrow> q < length a \<Longrightarrow> q \<noteq> i \<Longrightarrow> f ! (a ! p) \<ge> f ! (a ! q)"
    and i: "0 < i" "i \<le> l" using assms(1) by (auto simp: gnome_inv_def)
  note nth = swap_prev_facts(3) [OF i(1) assms(2)]
  consider "q = i" | "i < q" | "q < i - 1" using pq(4) by linarith
  then show "f ! (swap_prev a i ! p) \<ge> f ! (swap_prev a i ! q)"
  proof cases
    case 1
    show ?thesis
    proof (cases "p = i - 1")
      case True
      then show ?thesis using 1 i assms(3) by (simp add: nth not_le less_imp_le)
    next
      case False
      then have "p < i - 1" using pq(1) 1 by simp
      then show ?thesis using inv [of p "i - 1"] 1 i assms(2) by (simp add: nth)
    qed
  next
    case 2
    then show ?thesis using inv [of _ q] pq i by (auto simp: nth)
  next
    case 3
    then have "p \<noteq> i" "p \<noteq> i - 1" "q \<noteq> i" using pq by auto
    then show ?thesis using inv [of p q] pq by (simp add: nth)
  qed
qed

lemma gnome_loop_ok:
  "gnome_inv f a i l \<Longrightarrow> \<exists>a'. gnome_loop f a i (Suc l) = Some a' \<and> mset a' = mset a
     \<and> (\<forall>p q. p < q \<longrightarrow> q < length a' \<longrightarrow> f ! (a' ! p) \<ge> f ! (a' ! q))"
proof (induction "(length a + 1 - l, i)" arbitrary: a i l rule: wf_induct_rule [OF wf_lex_prod [OF wf_less wf_less]])
  case (1 a i l)
  show ?case
  proof (cases "i < length a")
    case False
    then show ?thesis using 1(2) by (subst gnome_loop_unfold) (auto simp: gnome_inv_def)
  next
    case True
    have i: "0 < i" "i \<le> l" "l < length a" using 1(2) True by (auto simp: gnome_inv_def)
    note sw = swap_prev_facts [OF i(1) True]
    have dec: "length a - l < Suc (length a) - l" using i(3) by linarith
    show ?thesis
    proof (cases "f ! (a ! (i - 1)) \<ge> f ! (a ! i)")
      case ordered: True
      from 1(1) [OF _ gnome_inv_next [OF 1(2) True ordered]] dec show ?thesis
        using True ordered by (subst gnome_loop_unfold) simp
    next
      case False
      note inv = gnome_inv_swap [OF 1(2) True False]
      show ?thesis
      proof (cases "i - 1 = 0")
        case first: True
        then have "gnome_inv f (swap_prev a i) (Suc l) (Suc l)"
          using inv i sw(1) by (auto simp: gnome_inv_def le_Suc_eq)
        from 1(1) [OF _ this] dec sw(1,2) show ?thesis
          using True False first by (subst gnome_loop_unfold) simp
      next
        case inner: False
        then have "gnome_inv f (swap_prev a i) (i - 1) l" using inv i sw(1) by (auto simp: gnome_inv_def)
        from 1(1) [OF _ this] i(1) sw(1,2) show ?thesis
          using True False inner by (subst gnome_loop_unfold) simp
      qed
    qed
  qed
qed

lemma gnome_sort_ok:
  "\<exists>a'. gnome_loop f a 1 2 = Some a' \<and> mset a' = mset a
     \<and> (\<forall>p q. p < q \<longrightarrow> q < length a' \<longrightarrow> f ! (a' ! p) \<ge> f ! (a' ! q))"
proof -
  have "gnome_inv f a 1 1" by (auto simp: gnome_inv_def)
  from gnome_loop_ok [OF this] show ?thesis by (simp add: numeral_2_eq_2)
qed

section \<open>The heap as a priority queue\<close>

text \<open>What merging relies on: additions keep everything, removals give a least element.\<close>

locale min_queue =
  fixes inv :: "'q \<Rightarrow> bool"
    and room :: "'q \<Rightarrow> bool"
    and elems :: "'q \<Rightarrow> nat multiset"
    and key :: "nat \<Rightarrow> 'k::linorder"
    and add :: "'q \<Rightarrow> nat \<Rightarrow> 'q option"
    and remove :: "'q \<Rightarrow> 'q \<times> int"
  assumes add_ok: "inv q \<Longrightarrow> room q \<Longrightarrow> \<exists>q'. add q x = Some q' \<and> inv q' \<and> elems q' = add_mset x (elems q)"
    and remove_ok: "inv q \<Longrightarrow> elems q \<noteq> {#} \<Longrightarrow> \<exists>q' x. remove q = (q', int x) \<and> inv q' \<and> room q'
      \<and> elems q = add_mset x (elems q') \<and> (\<forall>y \<in># elems q. key x \<le> key y)"
    and remove_empty: "inv q \<Longrightarrow> elems q = {#} \<Longrightarrow> remove q = (q, - 1)"
begin

lemma remove_two:
  assumes "inv q" "size (elems q) > 1"
  shows "\<exists>q1 q2 x y. remove q = (q1, int x) \<and> remove q1 = (q2, int y) \<and> inv q2 \<and> room q2
    \<and> elems q = add_mset x (add_mset y (elems q2)) \<and> key x \<le> key y \<and> (\<forall>z \<in># elems q2. key y \<le> key z)"
proof -
  have "elems q \<noteq> {#}" using assms(2) by auto
  from remove_ok [OF assms(1) this] obtain q1 x where 1: "remove q = (q1, int x)" "inv q1"
    "elems q = add_mset x (elems q1)" "\<forall>y \<in># elems q. key x \<le> key y" by auto
  have "elems q1 \<noteq> {#}" using assms(2) 1(3) by auto
  from remove_ok [OF 1(2) this] obtain q2 y where "remove q1 = (q2, int y)" "inv q2" "room q2"
    "elems q1 = add_mset y (elems q2)" "\<forall>z \<in># elems q1. key y \<le> key z" by auto
  then show ?thesis using 1 by auto
qed

end

definition heap_sorted :: "u32 list \<Rightarrow> huffheap \<Rightarrow> bool" where
  "heap_sorted f hp \<longleftrightarrow> (\<forall>p q. p < q \<longrightarrow> q < length (heap_h hp) \<longrightarrow> f ! (heap_h hp ! p) \<ge> f ! (heap_h hp ! q))
     \<and> length (heap_h hp) \<le> heap_s hp"

abbreviation heap_room :: "huffheap \<Rightarrow> bool" where
  "heap_room hp \<equiv> length (heap_h hp) < heap_s hp"

abbreviation heap_elems :: "huffheap \<Rightarrow> nat multiset" where
  "heap_elems hp \<equiv> mset (heap_h hp)"

lemma heap_add_ok:
  assumes "heap_room hp"
  shows "\<exists>hp'. huff_heap_add f hp x = Some hp' \<and> heap_sorted f hp'
    \<and> heap_elems hp' = add_mset x (heap_elems hp) \<and> heap_s hp' = heap_s hp"
proof -
  obtain a where a: "gnome_loop f (heap_h hp @ [x]) 1 2 = Some a" "mset a = mset (heap_h hp @ [x])"
    "\<forall>p q. p < q \<longrightarrow> q < length a \<longrightarrow> f ! (a ! p) \<ge> f ! (a ! q)" using gnome_sort_ok by blast
  have "length a = Suc (length (heap_h hp))" using mset_eq_length [OF a(2)] by simp
  then show ?thesis using a assms by (simp add: huff_heap_add_def huff_heap_sort_def heap_sorted_def)
qed

lemma heap_remove_ok:
  assumes "heap_sorted f hp" "heap_elems hp \<noteq> {#}"
  shows "\<exists>hp' x. huff_heap_remove hp = (hp', int x) \<and> heap_sorted f hp' \<and> heap_room hp'
    \<and> heap_elems hp = add_mset x (heap_elems hp') \<and> (\<forall>y \<in># heap_elems hp. f ! x \<le> f ! y) \<and> heap_s hp' = heap_s hp"
proof -
  have ne: "heap_h hp \<noteq> []" using assms(2) by simp
  then have l: "last (heap_h hp) = heap_h hp ! (length (heap_h hp) - 1)" by (rule last_conv_nth)
  have "f ! last (heap_h hp) \<le> f ! y" if "y \<in> set (heap_h hp)" for y
  proof -
    obtain p where p: "p < length (heap_h hp)" "y = heap_h hp ! p" using \<open>y \<in> set (heap_h hp)\<close> by (auto simp: in_set_conv_nth)
    show ?thesis
    proof (cases "p = length (heap_h hp) - 1")
      case False
      then show ?thesis using assms(1) p l by (simp add: heap_sorted_def)
    qed (simp add: p l)
  qed
  moreover have "mset (heap_h hp) = add_mset (last (heap_h hp)) (mset (butlast (heap_h hp)))"
    using ne by (metis append_butlast_last_id mset.simps(2) mset_append add_mset_add_single union_commute mset.simps(1))
  moreover have "heap_sorted f (hp\<lparr>heap_h := butlast (heap_h hp)\<rparr>)"
    using assms(1) by (auto simp: heap_sorted_def nth_butlast)
  moreover have "length (butlast (heap_h hp)) < heap_s hp"
    using assms(1) ne by (cases "heap_h hp" rule: rev_cases) (auto simp: heap_sorted_def)
  ultimately show ?thesis using ne by (auto simp: huff_heap_remove_def dest: in_set_butlastD)
qed

interpretation huffheap: min_queue "heap_sorted f" heap_room heap_elems "\<lambda>x. f ! x" "huff_heap_add f" huff_heap_remove for f
proof unfold_locales
  show "heap_sorted f q \<Longrightarrow> heap_room q \<Longrightarrow> \<exists>q'. huff_heap_add f q x = Some q' \<and> heap_sorted f q' \<and> heap_elems q' = add_mset x (heap_elems q)" for q x
    using heap_add_ok by blast
  show "heap_sorted f q \<Longrightarrow> heap_elems q \<noteq> {#} \<Longrightarrow> \<exists>q' x. huff_heap_remove q = (q', int x) \<and> heap_sorted f q' \<and> heap_room q'
      \<and> heap_elems q = add_mset x (heap_elems q') \<and> (\<forall>y \<in># heap_elems q. f ! x \<le> f ! y)" for q
    using heap_remove_ok [of f q] by blast
  show "heap_sorted f q \<Longrightarrow> heap_elems q = {#} \<Longrightarrow> huff_heap_remove q = (q, - 1)" for q
    by (simp add: huff_heap_remove_def)
qed

section \<open>Building the tree\<close>

text \<open>Node \<open>x\<close> is a child of the node \<open>n + k\<close>, in the predecessor array and in the tree.\<close>

definition linked :: "nat \<Rightarrow> nat \<Rightarrow> int list \<Rightarrow> nat list \<Rightarrow> nat \<Rightarrow> bool" where
  "linked n d ps rt x \<longleftrightarrow> (\<exists>k<d. x < n + k
     \<and> (ps ! x = int (n + k) \<and> rt ! (2 * k + 1) = x \<or> ps ! x = - int (n + k) \<and> rt ! (2 * k) = x))"

definition build_inv :: "nat \<Rightarrow> nat set \<Rightarrow> huffbuild \<Rightarrow> bool" where
  "build_inv n L b \<longleftrightarrow> L \<subseteq> {..<n} \<and> extf b = n + bdepth b
     \<and> length (efreqs b) = 2 * n \<and> length (preds b) = 2 * n \<and> length (revtree b) = 2 * n
     \<and> heap_sorted (efreqs b) (heap b) \<and> distinct (heap_h (heap b))
     \<and> set (heap_h (heap b)) \<subseteq> L \<union> {n..<extf b}
     \<and> heap_h (heap b) \<noteq> [] \<and> bdepth b + length (heap_h (heap b)) = card L
     \<and> (bdepth b > 0 \<longrightarrow> extf b - 1 \<in> set (heap_h (heap b)))
     \<and> (\<forall>x \<in> (L \<union> {n..<extf b}) - set (heap_h (heap b)). linked n (bdepth b) (preds b) (revtree b) x)"

lemma merge_step_ok:
  assumes inv: "build_inv n L b" and two: "length (heap_h (heap b)) > 1"
  shows "\<exists>b' r1 r2. merge_step b = Some b' \<and> build_inv n L b' \<and> length (heap_h (heap b')) < length (heap_h (heap b))
    \<and> bdepth b < bdepth b' \<and> heap_elems (heap b) + {#extf b#} = heap_elems (heap b') + {#r1, r2#}
    \<and> efreqs b' = (efreqs b)[extf b := efreqs b ! r1 + efreqs b ! r2]
    \<and> efreqs b ! r1 \<le> efreqs b ! r2 \<and> (\<forall>z \<in># heap_elems (heap b) - {#r1, r2#}. efreqs b ! r2 \<le> efreqs b ! z)"
proof -
  let ?e = "extf b" and ?d = "bdepth b" and ?H = "heap_h (heap b)"
  have i: "L \<subseteq> {..<n}" "?e = n + ?d" "length (efreqs b) = 2 * n" "length (preds b) = 2 * n" "length (revtree b) = 2 * n"
      "heap_sorted (efreqs b) (heap b)" "distinct ?H" "set ?H \<subseteq> L \<union> {n..<?e}" "?d + length ?H = card L"
    and links: "\<And>x. x \<in> L \<union> {n..<?e} \<Longrightarrow> x \<notin> set ?H \<Longrightarrow> linked n ?d (preds b) (revtree b) x"
    using inv unfolding build_inv_def by auto
  have "card L \<le> n" using card_mono [OF _ i(1)] by simp
  then have d: "?d + 1 < n" using i(9) two by linarith
  obtain q1 q2 x y where r: "huff_heap_remove (heap b) = (q1, int x)" "huff_heap_remove q1 = (q2, int y)"
    "heap_sorted (efreqs b) q2" "heap_room q2" "heap_elems (heap b) = add_mset x (add_mset y (heap_elems q2))"
    "efreqs b ! x \<le> efreqs b ! y" "\<forall>z \<in># heap_elems q2. efreqs b ! y \<le> efreqs b ! z"
    using huffheap.remove_two [OF i(6)] two by auto
  have H: "set ?H = {x, y} \<union> set (heap_h q2)" "distinct (heap_h q2)" "x \<noteq> y" "x \<notin> set (heap_h q2)" "y \<notin> set (heap_h q2)"
    "length ?H = length (heap_h q2) + 2"
  proof -
    have m: "mset (x # y # heap_h q2) = mset ?H" using r(5) by simp
    show "set ?H = {x, y} \<union> set (heap_h q2)" using mset_eq_setD [OF m] by auto
    have "distinct (x # y # heap_h q2)" using i(7) mset_eq_imp_distinct_iff [OF m] by simp
    then show "distinct (heap_h q2)" "x \<noteq> y" "x \<notin> set (heap_h q2)" "y \<notin> set (heap_h q2)" by auto
    show "length ?H = length (heap_h q2) + 2" using mset_eq_length [OF m] by simp
  qed
  have xy: "x < ?e" "y < ?e" "x < 2 * n" "y < 2 * n" using H(1) i(1,2,8) d by auto
  define fs where "fs = (efreqs b)[?e := efreqs b ! x + efreqs b ! y]"
  obtain q3 where q3: "huff_heap_add fs q2 ?e = Some q3" "heap_sorted fs q3" "heap_elems q3 = add_mset ?e (heap_elems q2)"
    using heap_add_ok [OF r(4)] by blast
  define b' where "b' = b\<lparr>efreqs := fs, heap := q3, revtree := (revtree b)[2 * ?d + 1 := x, 2 * ?d := y],
    preds := (preds b)[x := int ?e, y := - int ?e], bdepth := ?d + 1, extf := ?e + 1\<rparr>"
  have step: "merge_step b = Some b'"
    using r(1,2) q3(1) xy d i(2-5) by (simp add: merge_step_def fs_def b'_def Let_def)
  have q3s: "set (heap_h q3) = insert ?e (set (heap_h q2))" "length (heap_h q3) = Suc (length (heap_h q2))"
    using mset_eq_setD [of "heap_h q3" "?e # heap_h q2"] mset_eq_length [of "heap_h q3" "?e # heap_h q2"] q3(3) by auto
  have new: "?e \<notin> set (heap_h q2)" using H(1) i(1,2,8) by auto
  then have dist: "distinct (heap_h q3)" using mset_eq_imp_distinct_iff [of "heap_h q3" "?e # heap_h q2"] q3(3) H(2) by simp
  have link: "linked n (?d + 1) (preds b') (revtree b') z"
    if "z \<in> L \<union> {n..<?e + 1}" "z \<notin> set (heap_h q3)" for z
  proof (cases "z = x \<or> z = y")
    case True
    then show ?thesis using xy i(2,4,5) H(3) d unfolding linked_def b'_def
      by (intro exI [of _ ?d]) (auto simp: nth_list_update)
  next
    case False
    then have "z \<in> L \<union> {n..<?e}" "z \<notin> set ?H" using that q3s(1) H(1) by auto
    from links [OF this] obtain k where k: "k < ?d" "z < n + k"
      "preds b ! z = int (n + k) \<and> revtree b ! (2 * k + 1) = z \<or> preds b ! z = - int (n + k) \<and> revtree b ! (2 * k) = z"
      by (auto simp: linked_def)
    then have "revtree b' ! (2 * k + 1) = revtree b ! (2 * k + 1)" "revtree b' ! (2 * k) = revtree b ! (2 * k)"
      "preds b' ! z = preds b ! z" using False by (simp_all add: b'_def)
    then show ?thesis using k unfolding linked_def by (intro exI [of _ k]) auto
  qed
  have "build_inv n L b'"
    unfolding build_inv_def
    using i xy q3s q3(2) dist link H d by (auto simp: b'_def fs_def)
  moreover have "heap_elems (heap b) + {#?e#} = heap_elems q3 + {#x, y#}" using r(5) q3(3) by simp
  moreover have "heap_elems (heap b) - {#x, y#} = heap_elems q2" using r(5) by simp
  ultimately show ?thesis using step q3s(2) H(6) r(6,7)
    by (intro exI [of _ b'] exI [of _ x] exI [of _ y]) (simp add: b'_def fs_def)
qed

lemma merge_loop_ok:
  "build_inv n L b \<Longrightarrow> \<exists>b'. merge_loop b = Some b' \<and> build_inv n L b' \<and> length (heap_h (heap b')) = 1"
proof (induction "length (heap_h (heap b))" arbitrary: b rule: less_induct)
  case less
  show ?case
  proof (cases "length (heap_h (heap b)) > 1")
    case True
    from merge_step_ok [OF less(2) True] obtain b' where b': "merge_step b = Some b'" "build_inv n L b'"
      "length (heap_h (heap b')) < length (heap_h (heap b))" by auto
    from less(1) [OF b'(3,2)] show ?thesis using True b'(1) by (subst merge_loop.simps) simp
  next
    case False
    moreover have "heap_h (heap b) \<noteq> []" using less(2) by (simp add: build_inv_def)
    ultimately have "length (heap_h (heap b)) = 1" by (cases "heap_h (heap b)") auto
    then show ?thesis using less(2) False by (subst merge_loop.simps) auto
  qed
qed

lemma add_items_ok:
  assumes "heap_sorted f hp" "length (heap_h hp) + length is \<le> heap_s hp"
  shows "\<exists>hp'. add_items f is hp = Some hp' \<and> heap_sorted f hp'
    \<and> heap_elems hp' = heap_elems hp + mset (filter (\<lambda>i. f ! i > 0) is)"
  using assms
proof (induction "is" arbitrary: hp)
  case (Cons i "is")
  show ?case
  proof (cases "f ! i > 0")
    case True
    obtain h1 where h1: "huff_heap_add f hp i = Some h1" "heap_sorted f h1" "heap_elems h1 = add_mset i (heap_elems hp)"
      "heap_s h1 = heap_s hp" using heap_add_ok [of hp f i] Cons(3) by auto
    have "length (heap_h h1) = Suc (length (heap_h hp))" using arg_cong [OF h1(3), of size] by simp
    then show ?thesis using Cons.IH [of h1] Cons(3) h1 True by auto
  qed (use Cons in auto)
qed auto

text \<open>What building leaves: everything but the root is linked to a node above it.\<close>

definition tree_ok :: "nat \<Rightarrow> nat set \<Rightarrow> nat \<Rightarrow> int list \<Rightarrow> nat list \<Rightarrow> nat \<Rightarrow> bool" where
  "tree_ok n L d ps rt root \<longleftrightarrow> length ps = 2 * n \<and> length rt = 2 * n \<and> L \<subseteq> {..<n} \<and> d < n \<and> ps ! root = int root
     \<and> (if d > 0 then root = n + d - 1 else L = {root})
     \<and> (\<forall>x \<in> (L \<union> {n..<n + d}) - {root}. linked n d ps rt x)"

lemma huff_init_ok:
  fixes items :: "huffitem list"
  defines "n \<equiv> length items" and "L \<equiv> {i. i < length items \<and> freq (items ! i) \<noteq> 0}"
  assumes "L \<noteq> {}"
  shows "\<exists>ps rt root. huff_init items = Some (ps, rt, n + (card L - 1)) \<and> tree_ok n L (card L - 1) ps rt root"
proof -
  let ?fs = "map freq items @ replicate n 0" and ?is = "filter (\<lambda>i. (map freq items @ replicate n 0) ! i > 0) [0..<n]"
  have n: "n > 0" using assms(3) by (auto simp: L_def n_def)
  have L: "L \<subseteq> {..<n}" "finite L" by (auto simp: L_def n_def)
  have set_is: "set ?is = L" by (auto simp: L_def n_def nth_append word_gt_0)
  obtain hp where hp: "add_items ?fs [0..<n] (huff_heap_create (n * 2)) = Some hp" "heap_sorted ?fs hp" "heap_elems hp = mset ?is"
    using add_items_ok [of ?fs "huff_heap_create (n * 2)" "[0..<n]"] by (auto simp: huff_heap_create_def heap_sorted_def)
  define b where "b = \<lparr>efreqs = ?fs, heap = hp, preds = replicate (2 * n) 0, revtree = replicate (2 * n) 0, bdepth = 0, extf = n\<rparr>"
  have h: "set (heap_h hp) = L" "distinct (heap_h hp)" "length (heap_h hp) = card L"
    using mset_eq_setD [OF hp(3)] set_is mset_eq_imp_distinct_iff [OF hp(3)] mset_eq_length [OF hp(3)] distinct_card [of ?is]
    by (auto simp del: set_filter)
  have "build_inv n L b"
    using hp(2) h L n assms(3) by (auto simp: build_inv_def b_def n_def)
  from merge_loop_ok [OF this] obtain b' where b': "merge_loop b = Some b'" "build_inv n L b'" "length (heap_h (heap b')) = 1" by blast
  then obtain root where root: "heap_h (heap b') = [root]" by (auto simp: length_Suc_conv)
  have i: "extf b' = n + bdepth b'" "length (preds b') = 2 * n" "length (revtree b') = 2 * n" "root \<in> L \<union> {n..<extf b'}"
    "bdepth b' = card L - 1" "bdepth b' > 0 \<Longrightarrow> extf b' - 1 = root" "\<And>x. x \<in> (L \<union> {n..<extf b'}) - {root} \<Longrightarrow> linked n (bdepth b') (preds b') (revtree b') x"
    using b'(2) unfolding build_inv_def root by auto
  have d: "bdepth b' < n" using i(5) card_mono [OF _ L(1)] n by simp
  have "huff_init items = Some ((preds b')[root := int root], revtree b', n + (card L - 1))"
    using hp(1) b'(1) root n i(1,5) by (simp add: huff_init_def b_def n_def huff_heap_remove_def)
  moreover have "tree_ok n L (bdepth b') ((preds b')[root := int root]) (revtree b') root"
  proof -
    have "root < 2 * n" using i(1,4) d L(1) by auto
    moreover have "L = {root}" if "bdepth b' = 0"
    proof -
      have "card L > 0" using assms(3) L(2) by (simp add: card_gt_0_iff)
      then have "card L = 1" using that i(5) by linarith
      then obtain y where "L = {y}" by (rule card_1_singletonE)
      then show ?thesis using that i(1,4) by auto
    qed
    moreover have "linked n (bdepth b') ((preds b')[root := int root]) (revtree b') x" if "x \<in> (L \<union> {n..<n + bdepth b'}) - {root}" for x
      using i(7) [of x] that i(1) by (auto simp: linked_def)
    ultimately show ?thesis using i(2,3,1,6) d L(1) unfolding tree_ok_def by auto
  qed
  ultimately show ?thesis using i(5) by metis
qed

section \<open>Codes and walks\<close>

lemma code_walk_ok:
  assumes t: "tree_ok n L d ps rt root" and "d > 0" "x \<in> L \<union> {n..<n + d}"
  shows "\<exists>bs. code_walk ps x = Some bs \<and> length bs \<le> n + d - max (Suc x) n"
  using assms(3)
proof (induction "n + d - x" arbitrary: x rule: less_induct)
  case less
  have root: "root = n + d - 1" "ps ! root = int root" "length ps = 2 * n" "d < n" "L \<subseteq> {..<n}"
    using t assms(2) by (auto simp: tree_ok_def)
  have x: "x < length ps" using less(2) root(3-5) by auto
  show ?case
  proof (cases "x = root")
    case True
    then show ?thesis using root x by (subst code_walk.simps) simp
  next
    case False
    then have "linked n d ps rt x" using t less(2) by (auto simp: tree_ok_def)
    then obtain k where k: "k < d" "x < n + k" "\<bar>ps ! x\<bar> = int (n + k)" by (auto simp: linked_def)
    have "n + d - (n + k) < n + d - x" "n + k \<in> L \<union> {n..<n + d}" using k by auto
    from less(1) [OF this] obtain bs where bs: "code_walk ps (n + k) = Some bs" "length bs \<le> n + d - Suc (n + k)" by auto
    have "code_walk ps x = Some ((ps ! x \<ge> 0) # bs)"
      using x k bs(1) by (subst code_walk.simps) (auto simp: Let_def abs_if nat_add_distrib split: if_splits)
    then show ?thesis using bs(2) k by (auto simp: max_def)
  qed
qed

text \<open>The tree array of \<^verbatim>\<open>huff_create\<close>.\<close>

definition tree_array :: "nat \<Rightarrow> nat \<Rightarrow> nat list \<Rightarrow> int list" where
  "tree_array n d rt = concat (map (\<lambda>i. [tree_entry n i (rt ! (2 * i)), tree_entry n i (rt ! (2 * i + 1))]) (rev [0..<d]))"

lemma tree_array_Suc:
  "tree_array n (Suc d) rt = [tree_entry n d (rt ! (2 * d)), tree_entry n d (rt ! (2 * d + 1))] @ tree_array n d rt"
  by (simp add: tree_array_def)

lemma length_tree_array [simp]: "length (tree_array n d rt) = 2 * d"
  by (induction d) (simp_all add: tree_array_Suc, simp add: tree_array_def)

lemma tree_array_nth:
  "k < d \<Longrightarrow> c < 2 \<Longrightarrow> tree_array n d rt ! (2 * (d - 1 - k) + c) = tree_entry n k (rt ! (2 * k + c))"
proof (induction d)
  case (Suc d)
  show ?case
  proof (cases "k = d")
    case True
    then show ?thesis using Suc(3) by (cases c) (auto simp: tree_array_Suc)
  next
    case False
    then have "2 * (Suc d - 1 - k) + c = 2 + (2 * (d - 1 - k) + c)" using Suc(2) by simp
    then show ?thesis using Suc False unfolding tree_array_Suc by simp
  qed
qed simp

lemma decode_walk_step:
  assumes "i < d" "h_wf hp" "bitoffset hp < endpos hp" "t + 1 < length tr"
  shows "\<exists>hp'. moved hp 1 hp' \<and> decode_walk tr d n t i hp =
    (let tmp = tr ! (t + (if hbit hp (bitoffset hp) then 1 else 0))
     in if tmp < 0 then decode_walk tr d n (t + nat (- tmp)) (i + 1) hp'
        else if nat tmp \<ge> n then Some (Returns hp' None) else Some (Returns hp' (Some (nat tmp))))"
proof -
  from hgetbit_ok [OF assms(2,3)] obtain hp' where "hgetbit hp = Some (hp', if hbit hp (bitoffset hp) then 1 else 0)" "moved hp 1 hp'"
    by (auto simp: moved_def)
  then show ?thesis using assms(1,4) by (intro exI [of _ hp']) (subst decode_walk.simps, simp add: Let_def)
qed

text \<open>Reading the bits of a code leads from the root to the node it belongs to.\<close>

lemma decode_walk_path:
  assumes t: "tree_ok n L d ps rt root" and d: "d > 0" and "x \<in> L \<union> {n..<n + d}" "code_walk ps x = Some bs"
    and "h_wf hp" "bitoffset hp + length bs \<le> endpos hp" "spells (hbit hp) (bitoffset hp) (rev bs)"
  shows "\<exists>hp'. moved hp (length bs) hp' \<and> decode_walk (tree_array n d rt) d n 0 0 hp =
    (if x < n then Some (Returns hp' (Some x)) else decode_walk (tree_array n d rt) d n (2 * (n + d - 1 - x)) (length bs) hp')"
  using assms(3,4,6,7)
proof (induction "n + d - x" arbitrary: x bs rule: less_induct)
  case less
  have root: "root = n + d - 1" "ps ! root = int root" "length ps = 2 * n" "d < n" "L \<subseteq> {..<n}"
    using t d by (auto simp: tree_ok_def)
  have x: "x < length ps" using less(2) root(3-5) by auto
  show ?case
  proof (cases "x = root")
    case True
    then have "bs = []" using less(3) root x by (subst (asm) code_walk.simps) simp
    then show ?thesis using True root(1) d assms(5) by (auto simp: moved_def)
  next
    case False
    then have "linked n d ps rt x" using t less(2) by (auto simp: tree_ok_def)
    then obtain k where k: "k < d" "x < n + k" "\<bar>ps ! x\<bar> = int (n + k)"
      and rt: "rt ! (2 * k + (if ps ! x \<ge> 0 then 1 else 0)) = x" using d by (auto simp: linked_def) 
    have up: "n + d - (n + k) < n + d - x" "n + k \<in> L \<union> {n..<n + d}" using k by auto
    from code_walk_ok [OF t d up(2)] obtain cs where cs: "code_walk ps (n + k) = Some cs" "length cs \<le> n + d - Suc (n + k)" by auto
    have bs: "bs = (ps ! x \<ge> 0) # cs"
      using less(3) x k cs(1) by (subst (asm) code_walk.simps) (auto simp: Let_def abs_if nat_add_distrib split: if_splits)
    have sp: "spells (hbit hp) (bitoffset hp) (rev cs)" "hbit hp (bitoffset hp + length cs) = (ps ! x \<ge> 0)"
      using less(5) by (simp_all add: bs spells_append)
    obtain h1 where h1: "moved hp (length cs) h1"
      "decode_walk (tree_array n d rt) d n 0 0 hp = decode_walk (tree_array n d rt) d n (2 * (d - 1 - k)) (length cs) h1"
      using less(1) [OF up cs(1) _ sp(1)] less(4) k by (auto simp: bs)
    have "length cs < d" "2 * (d - 1 - k) + 1 < length (tree_array n d rt)" using cs(2) k by simp_all
    moreover have "h_wf h1" "bitoffset h1 < endpos h1" "hbit h1 (bitoffset h1) = (ps ! x \<ge> 0)"
      using h1(1) less(4) sp(2) by (simp_all add: moved_def bs)
    ultimately obtain h2 where h2: "moved h1 1 h2" "decode_walk (tree_array n d rt) d n (2 * (d - 1 - k)) (length cs) h1 =
      (let tmp = tree_array n d rt ! (2 * (d - 1 - k) + (if ps ! x \<ge> 0 then 1 else 0))
       in if tmp < 0 then decode_walk (tree_array n d rt) d n (2 * (d - 1 - k) + nat (- tmp)) (length cs + 1) h2
          else if nat tmp \<ge> n then Some (Returns h2 None) else Some (Returns h2 (Some (nat tmp))))"
      using decode_walk_step [of "length cs" d h1 "2 * (d - 1 - k)" "tree_array n d rt" n] by auto
    have tmp: "tree_array n d rt ! (2 * (d - 1 - k) + (if ps ! x \<ge> 0 then 1 else 0)) = tree_entry n k x"
      using tree_array_nth [OF k(1), of "if ps ! x \<ge> 0 then 1 else 0" n rt] rt by auto
    have "moved hp (length bs) h2" using h1(1) h2(1) by (simp add: moved_def bs)
    moreover have "nat (- tree_entry n k x) = 2 * (n + k - x)" "\<not> x < n \<Longrightarrow> tree_entry n k x < 0" if "\<not> x < n"
      using that k by (auto simp: tree_entry_def)
    moreover have "2 * (d - 1 - k) + 2 * (n + k - x) = 2 * (n + d - 1 - x)" using k by simp
    ultimately show ?thesis using h1(2) h2(2) unfolding tmp
      by (cases "x < n") (auto simp: Let_def tree_entry_def bs)
  qed
qed

section \<open>The codes of the items\<close>

text \<open>The bits \<^verbatim>\<open>huff_encode\<close> writes for an item.\<close>

definition item_bits :: "huffitem \<Rightarrow> bool list" where
  "item_bits item = map (\<lambda>j. odd (bits item div 2 ^ j)) [0..<numbits item]"

lemma calc_item_bits:
  assumes "calc_item ps i item = Some (item', m)" "freq item \<noteq> 0" "code_walk ps i = Some bs" "m \<le> 22"
  shows "m = length bs \<and> item_bits item' = rev bs"
proof -
  let ?r = "huff_reversebits (codebits bs) (length bs)"
  have i: "item' = item\<lparr>numbits := length bs mod 2 ^ 5, bits := unat ?r mod 2 ^ 22\<rparr>" "m = length bs"
    using assms(1-3) by (auto simp: calc_item_def Let_def)
  then have len: "length bs \<le> 22" "numbits item' = length bs" using assms(4) by simp_all
  have "odd (bits item' div 2 ^ j) = rev bs ! j" if j: "j < length bs" for j
  proof -
    have "odd (bits item' div 2 ^ j) = bit (take_bit 22 (unat ?r)) j" by (simp add: i bit_iff_odd take_bit_eq_mod)
    also have "\<dots> = bit ?r j" using j len(1) by (simp add: bit_take_bit_iff bit_unsigned_iff)
    also have "\<dots> = bit (codebits bs) (length bs - 1 - j)" using j len(1) by (simp add: bit_reversebits)
    also have "\<dots> = bs ! (length bs - 1 - j)"
    proof -
      have "length bs - 1 - j < length bs" "length bs - 1 - j < 64" using j len(1) by linarith+
      then show ?thesis unfolding codebits_def bit_foldl_or_push by simp
    qed
    finally show ?thesis using j by (simp add: rev_nth)
  qed
  then show ?thesis using i(2) len(2) by (auto simp: item_bits_def intro!: nth_equalityI)
qed

lemma huff_calc_ok:
  assumes "\<And>j. j < length items \<Longrightarrow> freq (items ! j) \<noteq> 0 \<Longrightarrow> \<exists>bs. code_walk ps (i + j) = Some bs \<and> length bs \<le> D"
  shows "\<exists>items' nonz mb. huff_calc ps i items = Some (items', nonz, mb) \<and> length items' = length items \<and> mb \<le> D
    \<and> (\<forall>j<length items. \<exists>m \<le> mb. calc_item ps (i + j) (items ! j) = Some (items' ! j, m))"
  using assms
proof (induction items arbitrary: i)
  case (Cons item items)
  have "\<exists>item' m. calc_item ps i item = Some (item', m) \<and> m \<le> D"
    using Cons(2) [of 0] by (auto simp: calc_item_def Let_def)
  moreover have "\<exists>bs. code_walk ps (Suc i + j) = Some bs \<and> length bs \<le> D" if "j < length items" "freq (items ! j) \<noteq> 0" for j
    using Cons(2) [of "Suc j"] that by simp
  note Cons.IH [OF this]
  ultimately obtain item' m items' nonz mb where *: "calc_item ps i item = Some (item', m)"
    "huff_calc ps (Suc i) items = Some (items', nonz, mb)" "length items' = length items"
    "\<forall>j<length items. \<exists>m \<le> mb. calc_item ps (Suc i + j) (items ! j) = Some (items' ! j, m)" "m \<le> D" "mb \<le> D" by blast
  have "\<exists>k \<le> max m mb. calc_item ps (i + j) ((item # items) ! j) = Some ((item' # items') ! j, k)"
    if "j < length (item # items)" for j
  proof (cases j)
    case 0
    then show ?thesis using *(1) by auto
  next
    case (Suc j')
    then show ?thesis using *(4) that by (auto simp: le_max_iff_disj)
  qed
  then show ?case using *(1-3,5,6) by simp
qed simp

text \<open>A reader of the stream that goes on only after a call that returned.\<close>

definition huff_getitem :: "huffcode \<Rightarrow> HUFF \<Rightarrow> (HUFF \<times> nat option) option" where
  "huff_getitem huff hp = (case huff_decodeitem huff hp of Some (Returns hp x) \<Rightarrow> Some (hp, x) | _ \<Rightarrow> None)"

lemma huff_create_ok:
  fixes items :: "huffitem list"
  defines "L \<equiv> {i. i < length items \<and> freq (items ! i) \<noteq> 0}"
  assumes "card L \<ge> 2"
  shows "\<exists>huff items'. huff_create items = Some (Some huff, items') \<and> length items' = length items
    \<and> depth huff = card L - 1 \<and> numitems huff = length items
    \<and> maxbits huff \<le> card L - 1 \<and> (\<forall>x \<in> L. numbits (items' ! x) \<le> maxbits huff)
    \<and> (maxbits huff \<le> 22 \<longrightarrow> (\<forall>x \<in> L. decodes (huff_getitem huff) (item_bits (items' ! x)) (Some x)))"
proof -
  let ?n = "length items" and ?d = "card L - 1"
  have "L \<noteq> {}" using assms(2) by auto
  then obtain ps rt root where init: "huff_init items = Some (ps, rt, ?n + ?d)" and t: "tree_ok ?n L ?d ps rt root"
    using huff_init_ok [of items] unfolding L_def by blast
  have d: "?d > 0" "?n > 0" using assms(2) t by (auto simp: tree_ok_def)
  have walk: "\<exists>bs. code_walk ps x = Some bs \<and> length bs \<le> ?d" if "x \<in> L" for x
  proof -
    from code_walk_ok [OF t d(1)] that obtain bs where "code_walk ps x = Some bs" "length bs \<le> ?n + ?d - max (Suc x) ?n" by blast
    then show ?thesis by (auto simp: max_def split: if_splits)
  qed
  obtain items' nonz mb where calc: "huff_calc ps 0 items = Some (items', nonz, mb)" "length items' = ?n" "mb \<le> ?d"
    "\<forall>j<?n. \<exists>m \<le> mb. calc_item ps j (items ! j) = Some (items' ! j, m)"
    using huff_calc_ok [of items ps 0 ?d] walk by (auto simp: L_def)
  define huff where "huff = \<lparr>numitems = ?n, maxbits = mb, numnodes = nonz, depth = ?d, tree = tree_array ?n ?d rt\<rparr>"
  have "huff_create items = Some (Some huff, items')"
    using init d(2) calc(1) by (simp add: huff_create_def huff_def tree_array_def Let_def)
  moreover have "decodes (huff_getitem huff) (item_bits (items' ! x)) (Some x)" if xL: "x \<in> L" "mb \<le> 22" for x
  proof -
    have x: "x < ?n" "freq (items ! x) \<noteq> 0" using xL(1) by (auto simp: L_def)
    obtain bs m where bs: "code_walk ps x = Some bs" "calc_item ps x (items ! x) = Some (items' ! x, m)" "m \<le> mb"
      using walk [OF xL(1)] calc(4) x(1) by blast
    then have "item_bits (items' ! x) = rev bs" using calc_item_bits [OF bs(2) x(2) bs(1)] xL(2) by simp
    then show ?thesis unfolding huff_getitem_def huff_decodeitem_def huff_def
      using decode_walk_path [OF t d(1) _ bs(1)] xL(1) x(1) by (intro decodesI) fastforce+
  qed
  moreover have "numbits (items' ! x) \<le> mb" if xL: "x \<in> L" for x
  proof -
    obtain m where "m \<le> mb" "calc_item ps x (items ! x) = Some (items' ! x, m)" "freq (items ! x) \<noteq> 0"
      using calc(4) xL by (auto simp: L_def)
    then have "numbits (items' ! x) = m mod 2 ^ 5" by (auto simp: calc_item_def Let_def split: Option.bind_splits dest!: arg_cong [of _ _ numbits])
    then show ?thesis using \<open>m \<le> mb\<close> mod_less_eq_dividend [of m "2 ^ 5"] by linarith
  qed
  ultimately show ?thesis using calc(2,3) by (auto simp: huff_def)
qed

lemma huff_create_single:
  assumes L: "{i. i < length items \<and> freq (items ! i) \<noteq> 0} = {x}"
  shows "\<exists>huff items'. huff_create items = Some (Some huff, items') \<and> depth huff = 0 \<and> tree huff = []
    \<and> x < length items' \<and> item_bits (items' ! x) = []"
proof -
  let ?n = "length items"
  have x: "x < ?n" "freq (items ! x) \<noteq> 0" using L by auto
  from huff_init_ok [of items] L obtain ps rt root where init: "huff_init items = Some (ps, rt, ?n)"
    and t: "tree_ok ?n {x} 0 ps rt root" by auto
  have "code_walk ps x = Some []" using t x(1) by (subst code_walk.simps) (auto simp: tree_ok_def)
  moreover have "j = x" if "j < ?n" "freq (items ! j) \<noteq> 0" for j using L that by blast
  ultimately obtain items' nonz mb where calc: "huff_calc ps 0 items = Some (items', nonz, mb)" "length items' = ?n"
    "\<exists>m \<le> mb. calc_item ps x (items ! x) = Some (items' ! x, m)" "mb = 0"
    using huff_calc_ok [of items ps 0 0] x(1) by auto
  have "huff_create items = Some (Some \<lparr>numitems = ?n, maxbits = mb, numnodes = nonz, depth = 0, tree = []\<rparr>, items')"
    using init x(1) calc(1) by (auto simp: huff_create_def Let_def)
  moreover have "item_bits (items' ! x) = []"
    using calc(3,4) calc_item_bits [OF _ x(2) \<open>code_walk ps x = Some []\<close>] by auto
  ultimately show ?thesis using x(1) calc(2) by auto
qed

section \<open>Sequences of items\<close>

fun huff_decode_all :: "huffcode \<Rightarrow> nat \<Rightarrow> HUFF \<Rightarrow> (HUFF \<times> nat option list) option" where
  "huff_decode_all huff 0 hp = Some (hp, [])"
| "huff_decode_all huff (Suc n) hp =
     do { (hp, x) \<leftarrow> huff_getitem huff hp; (hp, xs) \<leftarrow> huff_decode_all huff n hp; Some (hp, x # xs) }"

lemma huff_encode_bits:
  "list_all (\<lambda>i. i < length items) is \<Longrightarrow> huff_encode items hp is
     = map_option (\<lambda>hp. (hp, length (concat (map (\<lambda>i. item_bits (items ! i)) is))))
         (put_bits hp (concat (map (\<lambda>i. item_bits (items ! i)) is)))"
proof (induction "is" arbitrary: hp)
  case (Cons i "is")
  have "length (item_bits (items ! i)) = numbits (items ! i)" by (simp add: item_bits_def)
  then show ?case using Cons by (auto simp: put_bits_append item_bits_def Let_def split: Option.bind_split)
qed (simp add: put_bits_def)

lemma decodes_all:
  assumes "\<And>x. x \<in> set xs \<Longrightarrow> decodes (huff_getitem huff) (code x) (Some x)"
  shows "decodes (huff_decode_all huff (length xs)) (concat (map code xs)) (map Some xs)"
  using assms
proof (induction xs)
  case Nil
  then show ?case using decodes_return [of "[]"] by (simp add: huff_decode_all.simps [abs_def])
next
  case (Cons x xs)
  then have x: "decodes (huff_getitem huff) (code x) (Some x)"
    and xs: "decodes (huff_decode_all huff (length xs)) (concat (map code xs)) (map Some xs)" by simp_all
  have "decodes (\<lambda>hp. do { (hp, ys) \<leftarrow> huff_decode_all huff (length xs) hp; Some (hp, Some x # ys) })
      (concat (map code xs)) (Some x # map Some xs)"
    using decodes_map [OF xs, of "\<lambda>ys. Some x # ys"] by simp
  from decodes_bind [where f = "\<lambda>y hp. do { (hp, ys) \<leftarrow> huff_decode_all huff (length xs) hp; Some (hp, y # ys) }", OF x this]
  show ?case by (simp add: huff_decode_all.simps [abs_def])
qed

lemma decode_walk_depth0: "decode_walk tr 0 n t i hp = Some r \<Longrightarrow> False"
proof -
  have "d \<noteq> 0" if "decode_walk tr d n t i hp = Some r" for tr d n t i hp r
    by (rule decode_walk.raw_induct [where P = "\<lambda>tr d n t i hp r. d \<noteq> 0", OF _ that]) (auto split: if_splits)
  then show "decode_walk tr 0 n t i hp = Some r \<Longrightarrow> False" by blast
qed

section \<open>Properties\<close>

text \<open>
  C14. Huffman codes are lossless: from any items of which at least two have a non-zero
  frequency, \<^verbatim>\<open>huff_create\<close> returns a code, and when its longest code fits the 22 bits of the
  item structure, every sequence of these items that fits the stream is written, and reading
  as many items back from where it began returns the sequence and ends where writing ended.
\<close>

theorem huff_roundtrip:
  assumes "card {i. i < length items \<and> freq (items ! i) \<noteq> 0} \<ge> 2"
  shows "\<exists>huff items'. huff_create items = Some (Some huff, items')
    \<and> maxbits huff < card {i. i < length items \<and> freq (items ! i) \<noteq> 0}
    \<and> (\<forall>i<length items. freq (items ! i) \<noteq> 0 \<longrightarrow> length (item_bits (items' ! i)) \<le> maxbits huff)
    \<and> (maxbits huff \<le> 22 \<longrightarrow>
    (\<forall>is hp. list_all (\<lambda>i. i < length items \<and> freq (items ! i) \<noteq> 0) is \<longrightarrow> h_wf hp \<longrightarrow>
      bitoffset hp + length (concat (map (\<lambda>i. item_bits (items' ! i)) is)) < 8 * allocsize hp \<longrightarrow>
      (\<exists>hp1 hp2 hp3. huff_encode items' hp is = Some (hp1, bitoffset hp1 - bitoffset hp)
        \<and> hseek hp1 (int (bitoffset hp)) SEEK_SET = (hp2, 0)
        \<and> huff_decode_all huff (length is) hp2 = Some (hp3, map Some is) \<and> bitoffset hp3 = bitoffset hp1)))"
proof -
  from huff_create_ok [OF assms] obtain huff items' where c: "huff_create items = Some (Some huff, items')"
    "length items' = length items"
    "maxbits huff \<le> 22 \<Longrightarrow> \<forall>x \<in> {i. i < length items \<and> freq (items ! i) \<noteq> 0}. decodes (huff_getitem huff) (item_bits (items' ! x)) (Some x)"
    "maxbits huff \<le> card {i. i < length items \<and> freq (items ! i) \<noteq> 0} - 1"
    "\<forall>x \<in> {i. i < length items \<and> freq (items ! i) \<noteq> 0}. numbits (items' ! x) \<le> maxbits huff"
    by blast
  have "\<exists>hp1 hp2 hp3. huff_encode items' hp is = Some (hp1, bitoffset hp1 - bitoffset hp)
      \<and> hseek hp1 (int (bitoffset hp)) SEEK_SET = (hp2, 0)
      \<and> huff_decode_all huff (length is) hp2 = Some (hp3, map Some is) \<and> bitoffset hp3 = bitoffset hp1"
    if m: "maxbits huff \<le> 22" and i: "list_all (\<lambda>i. i < length items \<and> freq (items ! i) \<noteq> 0) is" and wf: "h_wf hp"
      and room: "bitoffset hp + length (concat (map (\<lambda>i. item_bits (items' ! i)) is)) < 8 * allocsize hp" for "is" hp
  proof -
    let ?c = "concat (map (\<lambda>i. item_bits (items' ! i)) is)"
    from put_bits_seek [OF wf room] obtain hp1 hp2 where w: "put_bits hp ?c = Some hp1"
      "hseek hp1 (int (bitoffset hp)) SEEK_SET = (hp2, 0)" "h_wf hp2" "bitoffset hp1 = bitoffset hp + length ?c"
      "bitoffset hp2 = bitoffset hp" "bitoffset hp2 + length ?c \<le> endpos hp2" "spells (hbit hp2) (bitoffset hp2) ?c" by auto
    have "decodes (huff_decode_all huff (length is)) ?c (map Some is)"
      using c(3) [OF m] i by (intro decodes_all) (auto simp: list_all_iff)
    then obtain hp3 where "huff_decode_all huff (length is) hp2 = Some (hp3, map Some is)" "moved hp2 (length ?c) hp3"
      using w(3,6,7) unfolding decodes_def by blast
    moreover have "huff_encode items' hp is = Some (hp1, length ?c)"
      using huff_encode_bits [of items' "is" hp] i c(2) w(1) by (simp add: list_all_iff)
    ultimately show ?thesis using w(2,4,5) by (intro exI [of _ hp1] exI [of _ hp2] exI [of _ hp3]) (simp add: moved_def)
  qed
  moreover have "maxbits huff < card {i. i < length items \<and> freq (items ! i) \<noteq> 0}" using c(4) assms by linarith
  moreover have "\<forall>i<length items. freq (items ! i) \<noteq> 0 \<longrightarrow> length (item_bits (items' ! i)) \<le> maxbits huff"
    using c(5) by (simp add: item_bits_def)
  ultimately show ?thesis using c(1) by (intro exI [of _ huff] exI [of _ items']) blast
qed

definition witness_items :: "huffitem list" where
  "witness_items = map (\<lambda>f. \<lparr>numbits = 0, bits = 0, patlen = 1, freq = f, pattern = []\<rparr>) [5, 0, 2, 1]"

theorem huff_roundtrip_witness:
  "\<exists>huff items' hp1 hp2 hp3. huff_create witness_items = Some (Some huff, items')
    \<and> huff_encode items' witness_huff [0, 3, 2, 0] = Some (hp1, bitoffset hp1) \<and> hseek hp1 0 SEEK_SET = (hp2, 0)
    \<and> huff_decode_all huff 4 hp2 = Some (hp3, [Some 0, Some 3, Some 2, Some 0])"
proof -
  have "{i. i < length witness_items \<and> freq (witness_items ! i) \<noteq> 0} = {0, 2, 3}"
  proof -
    have "set (filter (\<lambda>i. freq (witness_items ! i) \<noteq> 0) [0..<4]) = {0, 2, 3}"
      by (simp add: witness_items_def upt_rec) (simp add: numeral_2_eq_2 numeral_3_eq_3)
    moreover have "length witness_items = 4" by (simp add: witness_items_def)
    ultimately show ?thesis by (auto simp: set_eq_iff)
  qed
  then have c: "card {i. i < length witness_items \<and> freq (witness_items ! i) \<noteq> 0} = 3" by simp
  from huff_roundtrip [of witness_items] c obtain huff items' where h: "huff_create witness_items = Some (Some huff, items')"
    "maxbits huff < 3" "\<forall>i<length witness_items. freq (witness_items ! i) \<noteq> 0 \<longrightarrow> length (item_bits (items' ! i)) \<le> maxbits huff"
    "maxbits huff \<le> 22 \<longrightarrow> (\<forall>is hp. list_all (\<lambda>i. i < length witness_items \<and> freq (witness_items ! i) \<noteq> 0) is \<longrightarrow> h_wf hp \<longrightarrow>
      bitoffset hp + length (concat (map (\<lambda>i. item_bits (items' ! i)) is)) < 8 * allocsize hp \<longrightarrow>
      (\<exists>hp1 hp2 hp3. huff_encode items' hp is = Some (hp1, bitoffset hp1 - bitoffset hp)
        \<and> hseek hp1 (int (bitoffset hp)) SEEK_SET = (hp2, 0)
        \<and> huff_decode_all huff (length is) hp2 = Some (hp3, map Some is) \<and> bitoffset hp3 = bitoffset hp1))" by auto
  have i: "list_all (\<lambda>i. i < length witness_items \<and> freq (witness_items ! i) \<noteq> 0) [0, 3, 2, 0]"
    by (simp add: witness_items_def)
  then have "length (item_bits (items' ! 0)) \<le> 2" "length (item_bits (items' ! 3)) \<le> 2" "length (item_bits (items' ! 2)) \<le> 2"
    using h(2,3) by auto
  then have "bitoffset witness_huff + length (concat (map (\<lambda>i. item_bits (items' ! i)) [0, 3, 2, 0])) < 8 * allocsize witness_huff"
    by (simp add: witness_huff_wf)
  moreover have "maxbits huff \<le> 22" using h(2) by simp
  ultimately obtain hp1 hp2 hp3 where r: "huff_encode items' witness_huff [0, 3, 2, 0] = Some (hp1, bitoffset hp1 - bitoffset witness_huff)"
    "hseek hp1 (int (bitoffset witness_huff)) SEEK_SET = (hp2, 0)"
    "huff_decode_all huff (length [0, 3, 2, 0 :: nat]) hp2 = Some (hp3, map Some [0, 3, 2, 0])"
    using h(4) i witness_huff_wf(1) by blast
  have "length [0, 3, 2, 0 :: nat] = 4" by simp
  from h(1) r [unfolded this witness_huff_wf(2) list.map diff_zero, unfolded int_ops(1)]
  show ?thesis by blast
qed

text \<open>
  C36. The sort of the heap ends on every input and returns the same entries in descending
  order of frequency.
\<close>

theorem huff_heap_sort_sorts:
  "\<exists>a. huff_heap_sort f hp = Some (hp\<lparr>heap_h := a\<rparr>) \<and> mset a = mset (heap_h hp)
     \<and> sorted_wrt (\<lambda>x y. f ! x \<ge> f ! y) a"
  using gnome_sort_ok [of f "heap_h hp"] by (auto simp: huff_heap_sort_def sorted_wrt_iff_nth_less)

text \<open>
  C37. When exactly one of the items has a non-zero frequency, \<^verbatim>\<open>huff_create\<close> returns a code with an
  empty tree of depth 0. Writing any number of copies of the item with it writes no bit, and
  reading an item with it never returns, whatever the stream holds: the inner loop of
  \<^verbatim>\<open>huff_decodeitem\<close> is empty and the outer one repeats it.
\<close>

theorem huff_single_item_hangs:
  assumes "{i. i < length items \<and> freq (items ! i) \<noteq> 0} = {x}"
  shows "\<exists>huff items'. huff_create items = Some (Some huff, items') \<and> depth huff = 0 \<and> tree huff = []
    \<and> (\<forall>k hp. huff_encode items' hp (replicate k x) = Some (hp, 0))
    \<and> (\<forall>hp. huff_decodeitem huff hp = None)"
proof -
  from huff_create_single [OF assms] obtain huff items' where c: "huff_create items = Some (Some huff, items')"
    "depth huff = 0" "tree huff = []" "x < length items'" "item_bits (items' ! x) = []" by blast
  have "huff_encode items' hp (replicate k x) = Some (hp, 0)" for k hp
    using huff_encode_bits [of items' "replicate k x" hp] c(4,5) by (simp add: list_all_iff put_bits_def)
  moreover have "huff_decodeitem huff hp = None" for hp
    using decode_walk_depth0 c(2) unfolding huff_decodeitem_def by (metis not_None_eq)
  ultimately show ?thesis using c(1-3) by blast
qed

definition witness_single :: "huffitem list" where
  "witness_single = map (\<lambda>f. \<lparr>numbits = 0, bits = 0, patlen = 1, freq = f, pattern = []\<rparr>) [0, 7]"

theorem huff_single_item_hangs_witness:
  "\<exists>huff items'. huff_create witness_single = Some (Some huff, items') \<and> depth huff = 0
    \<and> huff_encode items' witness_huff [1, 1] = Some (witness_huff, 0) \<and> huff_decodeitem huff witness_huff = None"
proof -
  have "{i. i < length witness_single \<and> freq (witness_single ! i) \<noteq> 0} = {1}"
    by (auto simp: witness_single_def less_Suc_eq)
  from huff_single_item_hangs [OF this] obtain huff items' where
    "huff_create witness_single = Some (Some huff, items')" "depth huff = 0"
    "huff_encode items' witness_huff (replicate 2 1) = Some (witness_huff, 0)" "huff_decodeitem huff witness_huff = None"
    by blast
  then show ?thesis by (simp add: numeral_2_eq_2)
qed

end
