(* ===== verification/Bits777.thy ===== *)
theory Bits777
  imports Prelude
begin

text \<open>
  Bit arrays, weights, Bloom filter and checksum (\<^verbatim>\<open>src/plugins/utils/bits777.c\<close>; its account
  keys and signatures are in theory \<open>Acct777\<close>). The bit macros are used by the summary codec of the
  poker game and by the bit streams.
\<close>

section \<open>Bit arrays\<close>

definition GETBIT :: "bytes \<Rightarrow> nat \<Rightarrow> bool" where
  "GETBIT bits bitoffset = (bits ! (bitoffset div 8) AND push_bit (bitoffset mod 8) 1 \<noteq> 0)"

definition SETBIT :: "bytes \<Rightarrow> nat \<Rightarrow> bytes" where
  "SETBIT bits bitoffset =
     bits[bitoffset div 8 := bits ! (bitoffset div 8) OR push_bit (bitoffset mod 8) 1]"

definition CLEARBIT :: "bytes \<Rightarrow> nat \<Rightarrow> bytes" where
  "CLEARBIT bits bitoffset =
     bits[bitoffset div 8 := bits ! (bitoffset div 8) AND NOT (push_bit (bitoffset mod 8) 1)]"

lemma GETBIT_bit: "GETBIT bits i = bit (bits ! (i div 8)) (i mod 8)"
  by (simp add: GETBIT_def bit_iff_and_push_bit_not_eq_0)

lemma length_SETBIT [simp]: "length (SETBIT bits i) = length bits"
  by (simp add: SETBIT_def)

lemma length_CLEARBIT [simp]: "length (CLEARBIT bits i) = length bits"
  by (simp add: CLEARBIT_def)

lemma div_mod_8_eq: "(i::nat) div 8 = j div 8 \<Longrightarrow> i mod 8 = j mod 8 \<Longrightarrow> i = j"
  by (metis div_mult_mod_eq)

lemma bit_push_1: "bit ((2 :: u8) ^ k) n \<longleftrightarrow> n = k \<and> k < 8"
  by (auto simp: bit_exp_iff)

lemma GETBIT_SETBIT:
  "i < 8 * length bits \<Longrightarrow> GETBIT (SETBIT bits i) j = (j = i \<or> GETBIT bits j)"
  by (auto simp: GETBIT_bit SETBIT_def nth_list_update_if bit_or_iff bit_push_1
      dest: div_mod_8_eq)

lemma GETBIT_CLEARBIT:
  "i < 8 * length bits \<Longrightarrow> j < 8 * length bits \<Longrightarrow>
     GETBIT (CLEARBIT bits i) j = (j \<noteq> i \<and> GETBIT bits j)"
  by (auto simp: GETBIT_bit CLEARBIT_def nth_list_update_if bit_and_iff bit_not_iff bit_push_1
      dest: div_mod_8_eq)

text \<open>A byte array is determined by its bits.\<close>

lemma bytes_eq_by_bits:
  assumes "length xs = length ys" and "\<And>i. i < 8 * length xs \<Longrightarrow> GETBIT xs i = GETBIT ys i"
  shows "xs = ys"
proof (rule nth_equalityI)
  fix k assume k: "k < length xs"
  show "xs ! k = ys ! k"
  proof (rule bit_word_eqI)
    fix n assume "n < LENGTH(8)"
    then show "bit (xs ! k) n = bit (ys ! k) n"
      using assms(2) [of "8 * k + n"] k by (simp add: GETBIT_bit)
  qed
qed (rule assms)

text \<open>Setting a list of bits one by one, the shape of the copy loops.\<close>

lemma GETBIT_fold_SETBIT:
  "(\<And>i. i \<in> set is \<Longrightarrow> i < 8 * length bits) \<Longrightarrow>
     GETBIT (foldl (\<lambda>d i. if P i then SETBIT d i else d) bits is) j
       = (GETBIT bits j \<or> j \<in> set is \<and> P j)
     \<and> length (foldl (\<lambda>d i. if P i then SETBIT d i else d) bits is) = length bits"
  by (induction "is" arbitrary: bits) (auto simp: GETBIT_SETBIT)

section \<open>Weights\<close>

definition bitweight :: "u64 \<Rightarrow> nat" where
  "bitweight x = foldl (\<lambda>wt i. if push_bit i 1 AND x \<noteq> 0 then wt + 1 else wt) 0 [0..<64]"

definition wt384 :: "u64 list \<Rightarrow> u64 list \<Rightarrow> nat" where
  "wt384 a b = foldl (\<lambda>n i. n + bitweight (a ! i XOR b ! i)) 0 [0..<6]"

definition spectrum384 :: "nat list \<Rightarrow> bytes \<Rightarrow> bytes \<Rightarrow> nat list \<times> nat" where
  "spectrum384 spectrum a b =
     foldl (\<lambda>(spectrum, n) i.
         if GETBIT a i \<noteq> GETBIT b i then (spectrum[i := spectrum ! i + 1], n + 1) else (spectrum, n))
       (spectrum, 0) [0..<384]"

lemma foldl_count: "foldl (\<lambda>n i. if P i then n + 1 else n) (n::nat) xs = n + length (filter P xs)"
  by (induction xs arbitrary: n) auto

lemma bitweight_card: "bitweight x = card {i. i < 64 \<and> bit x i}"
proof -
  have "bitweight x = length (filter (bit x) [0..<64])"
    using foldl_count [of "bit x" 0 "[0..<64]"]
    by (simp add: bitweight_def bit_iff_and_push_bit_not_eq_0 ac_simps)
  also have "\<dots> = card {i. i < 64 \<and> bit x i}"
    by (subst length_filter_conv_card) (rule arg_cong [of _ _ card], auto)
  finally show ?thesis .
qed

section \<open>Bloom filter\<close>

text \<open>
  \<^verbatim>\<open>struct bloombits\<close> is the memory of eight rows of \<open>79997 / 8 + 1 = 10000\<close> bytes and
  eight bytes of padding; \<^verbatim>\<open>hashbits[i]\<close> is the row at byte \<open>10000 * i\<close>.
\<close>

definition bloomprimes :: "nat list" where
  "bloomprimes = [79559, 79631, 79691, 79697, 79811, 79841, 79901, 79997]"

definition NUM_BLOOMPRIMES :: nat where "NUM_BLOOMPRIMES = 8"

definition bloom_row :: nat where "bloom_row = 10000"

definition set_bloombits :: "bytes \<Rightarrow> u64 \<Rightarrow> bytes" where
  "set_bloombits bloom nxt64bits =
     foldl (\<lambda>b i. SETBIT b (8 * (bloom_row * i) + unat nxt64bits mod bloomprimes ! i)) bloom
       [0..<NUM_BLOOMPRIMES]"

definition in_bloombits :: "bytes \<Rightarrow> u64 \<Rightarrow> bool" where
  "in_bloombits bloom nxt64bits =
     list_all (\<lambda>i. GETBIT bloom (8 * (bloom_row * i) + unat nxt64bits mod bloomprimes ! i))
       [0..<NUM_BLOOMPRIMES]"

text \<open>The word-wise disjunction of \<^verbatim>\<open>merge_bloombits\<close> over the whole structure, by bytes.\<close>

definition merge_bloombits :: "bytes \<Rightarrow> bytes \<Rightarrow> bytes" where
  "merge_bloombits dest src = map2 (OR) dest src"

definition bloom_wf :: "bytes \<Rightarrow> bool" where
  "bloom_wf bloom \<longleftrightarrow> length bloom = NUM_BLOOMPRIMES * bloom_row + 8"

lemma bloomprimes_bound: "i < NUM_BLOOMPRIMES \<Longrightarrow> 0 < bloomprimes ! i \<and> bloomprimes ! i \<le> 8 * bloom_row"
proof -
  have "list_all (\<lambda>p. 0 < p \<and> p \<le> 8 * bloom_row) bloomprimes" "length bloomprimes = NUM_BLOOMPRIMES"
    by (simp_all add: bloomprimes_def bloom_row_def NUM_BLOOMPRIMES_def)
  then show "i < NUM_BLOOMPRIMES \<Longrightarrow> ?thesis" by (simp add: list_all_length)
qed

lemma bloom_offset:
  assumes "i < NUM_BLOOMPRIMES" "bloom_wf bloom"
  shows "8 * (bloom_row * i) + x mod bloomprimes ! i < 8 * length bloom"
proof -
  have "x mod bloomprimes ! i < 8 * bloom_row"
    using bloomprimes_bound [OF assms(1)] by (meson mod_less_divisor less_le_trans)
  moreover have "bloom_row * i + bloom_row \<le> bloom_row * NUM_BLOOMPRIMES"
    using assms(1) by (metis mult_Suc_right add.commute mult_le_mono2 Suc_leI)
  ultimately show ?thesis using assms(2) by (simp add: bloom_wf_def mult.commute)
qed

lemma GETBIT_fold_SETBIT_map:
  "(\<And>i. i \<in> set is \<Longrightarrow> f i < 8 * length bits) \<Longrightarrow>
     GETBIT (foldl (\<lambda>d i. SETBIT d (f i)) bits is) j = (GETBIT bits j \<or> j \<in> f ` set is)
     \<and> length (foldl (\<lambda>d i. SETBIT d (f i)) bits is) = length bits"
  by (induction "is" arbitrary: bits) (auto simp: GETBIT_SETBIT)

lemma bloom_wf_set [simp]: "bloom_wf bloom \<Longrightarrow> bloom_wf (set_bloombits bloom x)"
  using GETBIT_fold_SETBIT_map [of "[0..<NUM_BLOOMPRIMES]"
      "\<lambda>i. 8 * (bloom_row * i) + unat x mod bloomprimes ! i" bloom] bloom_offset [of _ bloom]
  by (auto simp: bloom_wf_def set_bloombits_def)

lemma GETBIT_set_bloombits:
  "bloom_wf bloom \<Longrightarrow> GETBIT (set_bloombits bloom x) j =
     (GETBIT bloom j \<or> (\<exists>i<NUM_BLOOMPRIMES. j = 8 * (bloom_row * i) + unat x mod bloomprimes ! i))"
  using GETBIT_fold_SETBIT_map [of "[0..<NUM_BLOOMPRIMES]"
      "\<lambda>i. 8 * (bloom_row * i) + unat x mod bloomprimes ! i" bloom j] bloom_offset [of _ bloom]
  by (auto simp: set_bloombits_def)

definition bloom_zero :: bytes where
  "bloom_zero = replicate (NUM_BLOOMPRIMES * bloom_row + 8) 0"

lemma bloom_wf_zero [simp]: "bloom_wf bloom_zero"
  by (simp add: bloom_wf_def bloom_zero_def)

lemma bloom_wf_all [simp]: "bloom_wf bloom \<Longrightarrow> bloom_wf (foldl set_bloombits bloom xs)"
  by (induction xs arbitrary: bloom) auto

lemma GETBIT_bloom_all:
  "bloom_wf bloom \<Longrightarrow> GETBIT (foldl set_bloombits bloom xs) j = (GETBIT bloom j \<or>
     (\<exists>x\<in>set xs. \<exists>i<NUM_BLOOMPRIMES. j = 8 * (bloom_row * i) + unat x mod bloomprimes ! i))"
  by (induction xs arbitrary: bloom) (auto simp: GETBIT_set_bloombits)

lemma in_bloombits_all:
  assumes "bloom_wf bloom" "x \<in> set xs"
  shows "in_bloombits (foldl set_bloombits bloom xs) x"
proof -
  have "GETBIT (foldl set_bloombits bloom xs) (8 * (bloom_row * i) + unat x mod bloomprimes ! i)"
    if "i < NUM_BLOOMPRIMES" for i
    using GETBIT_bloom_all [OF assms(1)] assms(2) that by blast
  then show ?thesis by (simp add: in_bloombits_def list_all_iff)
qed

lemma GETBIT_merge:
  "length a = length b \<Longrightarrow> j < 8 * length a \<Longrightarrow>
     GETBIT (merge_bloombits a b) j = (GETBIT a j \<or> GETBIT b j)"
  by (simp add: GETBIT_bit merge_bloombits_def bit_or_iff div_less_iff_less_mult)

section \<open>Checksum\<close>

definition crc32_tab :: "u32 list" where
  "crc32_tab =
    [0x00000000, 0x77073096, 0xee0e612c, 0x990951ba, 0x076dc419, 0x706af48f,
     0xe963a535, 0x9e6495a3, 0x0edb8832, 0x79dcb8a4, 0xe0d5e91e, 0x97d2d988,
     0x09b64c2b, 0x7eb17cbd, 0xe7b82d07, 0x90bf1d91, 0x1db71064, 0x6ab020f2,
     0xf3b97148, 0x84be41de, 0x1adad47d, 0x6ddde4eb, 0xf4d4b551, 0x83d385c7,
     0x136c9856, 0x646ba8c0, 0xfd62f97a, 0x8a65c9ec, 0x14015c4f, 0x63066cd9,
     0xfa0f3d63, 0x8d080df5, 0x3b6e20c8, 0x4c69105e, 0xd56041e4, 0xa2677172,
     0x3c03e4d1, 0x4b04d447, 0xd20d85fd, 0xa50ab56b, 0x35b5a8fa, 0x42b2986c,
     0xdbbbc9d6, 0xacbcf940, 0x32d86ce3, 0x45df5c75, 0xdcd60dcf, 0xabd13d59,
     0x26d930ac, 0x51de003a, 0xc8d75180, 0xbfd06116, 0x21b4f4b5, 0x56b3c423,
     0xcfba9599, 0xb8bda50f, 0x2802b89e, 0x5f058808, 0xc60cd9b2, 0xb10be924,
     0x2f6f7c87, 0x58684c11, 0xc1611dab, 0xb6662d3d, 0x76dc4190, 0x01db7106,
     0x98d220bc, 0xefd5102a, 0x71b18589, 0x06b6b51f, 0x9fbfe4a5, 0xe8b8d433,
     0x7807c9a2, 0x0f00f934, 0x9609a88e, 0xe10e9818, 0x7f6a0dbb, 0x086d3d2d,
     0x91646c97, 0xe6635c01, 0x6b6b51f4, 0x1c6c6162, 0x856530d8, 0xf262004e,
     0x6c0695ed, 0x1b01a57b, 0x8208f4c1, 0xf50fc457, 0x65b0d9c6, 0x12b7e950,
     0x8bbeb8ea, 0xfcb9887c, 0x62dd1ddf, 0x15da2d49, 0x8cd37cf3, 0xfbd44c65,
     0x4db26158, 0x3ab551ce, 0xa3bc0074, 0xd4bb30e2, 0x4adfa541, 0x3dd895d7,
     0xa4d1c46d, 0xd3d6f4fb, 0x4369e96a, 0x346ed9fc, 0xad678846, 0xda60b8d0,
     0x44042d73, 0x33031de5, 0xaa0a4c5f, 0xdd0d7cc9, 0x5005713c, 0x270241aa,
     0xbe0b1010, 0xc90c2086, 0x5768b525, 0x206f85b3, 0xb966d409, 0xce61e49f,
     0x5edef90e, 0x29d9c998, 0xb0d09822, 0xc7d7a8b4, 0x59b33d17, 0x2eb40d81,
     0xb7bd5c3b, 0xc0ba6cad, 0xedb88320, 0x9abfb3b6, 0x03b6e20c, 0x74b1d29a,
     0xead54739, 0x9dd277af, 0x04db2615, 0x73dc1683, 0xe3630b12, 0x94643b84,
     0x0d6d6a3e, 0x7a6a5aa8, 0xe40ecf0b, 0x9309ff9d, 0x0a00ae27, 0x7d079eb1,
     0xf00f9344, 0x8708a3d2, 0x1e01f268, 0x6906c2fe, 0xf762575d, 0x806567cb,
     0x196c3671, 0x6e6b06e7, 0xfed41b76, 0x89d32be0, 0x10da7a5a, 0x67dd4acc,
     0xf9b9df6f, 0x8ebeeff9, 0x17b7be43, 0x60b08ed5, 0xd6d6a3e8, 0xa1d1937e,
     0x38d8c2c4, 0x4fdff252, 0xd1bb67f1, 0xa6bc5767, 0x3fb506dd, 0x48b2364b,
     0xd80d2bda, 0xaf0a1b4c, 0x36034af6, 0x41047a60, 0xdf60efc3, 0xa867df55,
     0x316e8eef, 0x4669be79, 0xcb61b38c, 0xbc66831a, 0x256fd2a0, 0x5268e236,
     0xcc0c7795, 0xbb0b4703, 0x220216b9, 0x5505262f, 0xc5ba3bbe, 0xb2bd0b28,
     0x2bb45a92, 0x5cb36a04, 0xc2d7ffa7, 0xb5d0cf31, 0x2cd99e8b, 0x5bdeae1d,
     0x9b64c2b0, 0xec63f226, 0x756aa39c, 0x026d930a, 0x9c0906a9, 0xeb0e363f,
     0x72076785, 0x05005713, 0x95bf4a82, 0xe2b87a14, 0x7bb12bae, 0x0cb61b38,
     0x92d28e9b, 0xe5d5be0d, 0x7cdcefb7, 0x0bdbdf21, 0x86d3d2d4, 0xf1d4e242,
     0x68ddb3f8, 0x1fda836e, 0x81be16cd, 0xf6b9265b, 0x6fb077e1, 0x18b74777,
     0x88085ae6, 0xff0f6a70, 0x66063bca, 0x11010b5c, 0x8f659eff, 0xf862ae69,
     0x616bffd3, 0x166ccf45, 0xa00ae278, 0xd70dd2ee, 0x4e048354, 0x3903b3c2,
     0xa7672661, 0xd06016f7, 0x4969474d, 0x3e6e77db, 0xaed16a4a, 0xd9d65adc,
     0x40df0b66, 0x37d83bf0, 0xa9bcae53, 0xdebb9ec5, 0x47b2cf7f, 0x30b5ffe9,
     0xbdbdf21c, 0xcabac28a, 0x53b39330, 0x24b4a3a6, 0xbad03605, 0xcdd70693,
     0x54de5729, 0x23d967bf, 0xb3667a2e, 0xc4614ab8, 0x5d681b02, 0x2a6f2b94,
     0xb40bbe37, 0xc30c8ea1, 0x5a05df1b, 0x2d02ef8d]"

definition crc32_step :: "u32 \<Rightarrow> u8 \<Rightarrow> u32" where
  "crc32_step crc p =
     crc32_tab ! unat ((crc XOR ucast p) AND 0xFF) XOR drop_bit 8 crc"

definition crc32 :: "u32 \<Rightarrow> bytes \<Rightarrow> u32" where
  "crc32 crc buf = foldl crc32_step (crc XOR NOT 0) buf XOR NOT 0"

text \<open>The reference: division by the polynomial 0xedb88320 (reflected), a bit at a time.\<close>

definition crc_bit :: "u32 \<Rightarrow> u32" where
  "crc_bit c = (if bit c 0 then drop_bit 1 c XOR 0xedb88320 else drop_bit 1 c)"

definition crc_byte :: "u32 \<Rightarrow> u8 \<Rightarrow> u32" where
  "crc_byte c b = (crc_bit ^^ 8) (c XOR ucast b)"


text \<open>The table is spanned by its entries at the powers of two.\<close>

fun xor_span :: "u32 list \<Rightarrow> u32 list" where
  "xor_span [] = [0]"
| "xor_span (g # gs) = (let t = xor_span gs in t @ map (\<lambda>x. x XOR g) t)"

lemma crc_bit_xor: "crc_bit (x XOR y) = crc_bit x XOR crc_bit y"
  by (simp add: crc_bit_def bit_xor_iff ac_simps)

lemma crc_bits_xor: "(crc_bit ^^ n) (x XOR y) = (crc_bit ^^ n) x XOR (crc_bit ^^ n) y"
  by (induction n) (simp_all add: crc_bit_xor)

lemma crc_bits_0: "(crc_bit ^^ n) 0 = 0"
  by (induction n) (simp_all add: crc_bit_def)

lemma crc_bit_even: "\<not> bit c 0 \<Longrightarrow> crc_bit c = drop_bit 1 c"
  by (simp add: crc_bit_def)

lemma crc_bits_shift:
  "(\<And>i. i < n \<Longrightarrow> \<not> bit h i) \<Longrightarrow> (crc_bit ^^ n) h = drop_bit n h"
proof (induction n)
  case (Suc n)
  then have "(crc_bit ^^ n) h = drop_bit n h" by simp
  moreover have "\<not> bit (drop_bit n h) 0" using Suc.prems [of n] by (simp add: bit_drop_bit_eq)
  ultimately show ?case using crc_bit_even [of "drop_bit n h"] by simp
qed simp

lemma bit_less_exp: "i < 2 ^ n \<Longrightarrow> bit (i :: nat) k \<Longrightarrow> k < n"
  by (metis bit_take_bit_iff take_bit_nat_eq_self)

lemma word_of_nat_add_xor:
  assumes "i < 2 ^ n"
  shows "(word_of_nat (2 ^ n + i) :: u32) = word_of_nat i XOR 2 ^ n"
proof -
  have "(word_of_nat i AND 2 ^ n :: u32) = 0"
    using bit_less_exp [OF assms]
    by (intro bit_word_eqI) (auto simp: bit_and_iff bit_exp_iff bit_of_nat_iff)
  then have "(word_of_nat i + 2 ^ n :: u32) = word_of_nat i XOR 2 ^ n"
    by (rule disjunctive_add_eq_xor)
  then show ?thesis by (simp add: add.commute)
qed

lemma xor_span_linear:
  fixes f :: "u32 \<Rightarrow> u32"
  assumes "\<And>x y. f (x XOR y) = f x XOR f y" "f 0 = 0"
  shows "xor_span (map (\<lambda>j. f (2 ^ j)) (rev [0..<n])) = map (\<lambda>i. f (word_of_nat i)) [0..<2 ^ n]"
proof (induction n)
  case (Suc n)
  have "[0..<2 ^ Suc n] = [0..<2 ^ n] @ map (\<lambda>i. i + 2 ^ n) [0..<2 ^ n]"
    using upt_add_eq_append [of 0 "2 ^ n" "2 ^ n"] by (simp add: map_add_upt mult_2)
  moreover have "map (\<lambda>i. f (word_of_nat (2 ^ n + i))) [0..<2 ^ n]
    = map (\<lambda>i. f (word_of_nat i) XOR f (2 ^ n)) [0..<2 ^ n]"
    by (rule map_cong [OF refl]) (subst word_of_nat_add_xor, simp_all add: assms)
  ultimately show ?case using Suc by (simp add: Let_def comp_def add.commute)
qed (simp add: assms)

lemma crc32_tab_span:
  "crc32_tab = xor_span [0xedb88320, 0x76dc4190, 0x3b6e20c8, 0x1db71064, 0x0edb8832, 0x076dc419,
     0xee0e612c, 0x77073096]"
  by (simp add: crc32_tab_def Let_def)

lemma crc_bits_8: "(crc_bit ^^ 8) x =
    crc_bit (crc_bit (crc_bit (crc_bit (crc_bit (crc_bit (crc_bit (crc_bit x)))))))"
  by (simp add: numeral_eq_Suc)

lemma crc_bits_powers:
  "map (\<lambda>j. (crc_bit ^^ 8) (2 ^ j)) (rev [0..<8]) =
     [0xedb88320, 0x76dc4190, 0x3b6e20c8, 0x1db71064, 0x0edb8832, 0x076dc419, 0xee0e612c, 0x77073096]"
  unfolding crc_bits_8 by (simp add: crc_bit_def upt_rec)

lemma crc32_tab_nth: "i < 256 \<Longrightarrow> crc32_tab ! i = (crc_bit ^^ 8) (word_of_nat i)"
  using xor_span_linear [of "crc_bit ^^ 8" 8] crc_bits_xor [of 8] crc_bits_0 [of 8]
  by (simp add: crc_bits_powers crc32_tab_span)

lemma and_FF: "(x :: u32) AND 0xFF = take_bit 8 x"
  by (simp add: take_bit_eq_mask mask_eq_exp_minus_1)

lemma crc32_step_reference: "crc32_step c p = crc_byte c p"
proof -
  define x where "x = c XOR ucast p"
  have x: "x = (x AND 0xFF) XOR push_bit 8 (drop_bit 8 x)"
    by (rule bit_word_eqI) (auto simp: and_FF bit_simps)
  have "unat (x AND 0xFF) < 256"
    using take_bit_nat_less_exp [of 8 "unat x"] by (simp add: and_FF unsigned_take_bit_eq)
  then have "crc32_tab ! unat (x AND 0xFF) = (crc_bit ^^ 8) (x AND 0xFF)"
    by (simp add: crc32_tab_nth)
  moreover have "n < 24" if "bit x (8 + n)" for n using bit_imp_le_length [OF that] by simp
  then have "(crc_bit ^^ 8) (push_bit 8 (drop_bit 8 x)) = drop_bit 8 x"
    by (subst crc_bits_shift) (auto simp: bit_simps intro!: bit_word_eqI)
  moreover have "\<not> bit p (8 + n)" for n using bit_imp_le_length [of p "8 + n"] by auto
  then have "drop_bit 8 x = drop_bit 8 c" by (intro bit_word_eqI) (auto simp: bit_simps x_def)
  ultimately have "(crc_bit ^^ 8) x = crc32_tab ! unat (x AND 0xFF) XOR drop_bit 8 c"
    by (subst x) (simp only: crc_bits_xor)
  then show ?thesis by (simp add: crc32_step_def crc_byte_def x_def)
qed


lemma crc32_reference: "crc32 crc buf = foldl crc_byte (crc XOR NOT 0) buf XOR NOT 0"
proof -
  have "crc32_step = crc_byte" by (simp add: fun_eq_iff crc32_step_reference)
  then show ?thesis by (simp add: crc32_def)
qed

lemma crc_bit_inj: "crc_bit x = crc_bit y \<Longrightarrow> x = y"
proof -
  assume eq: "crc_bit x = crc_bit y"
  have top: "bit (crc_bit z) 31 \<longleftrightarrow> bit z 0" for z
    by (auto simp: crc_bit_def bit_simps dest: bit_imp_le_length)
  then have b0: "bit x 0 \<longleftrightarrow> bit y 0" using eq by metis
  then have "drop_bit 1 x = drop_bit 1 y" using eq by (auto simp: crc_bit_def)
  then have "bit x (Suc n) \<longleftrightarrow> bit y (Suc n)" for n
    by (metis bit_drop_bit_eq comp_apply plus_1_eq_Suc)
  then show "x = y" using b0 by (intro bit_word_eqI) (metis not0_implies_Suc)
qed

lemma crc_bits_inj: "(crc_bit ^^ n) x = (crc_bit ^^ n) y \<Longrightarrow> x = y"
  by (induction n) (auto dest: crc_bit_inj)

lemma crc_bytes_inj: "foldl crc_byte x buf = foldl crc_byte y buf \<Longrightarrow> x = y"
proof (induction buf arbitrary: x y)
  case (Cons b buf)
  then have "crc_byte x b = crc_byte y b" by simp
  then have "x XOR ucast b = y XOR ucast b" unfolding crc_byte_def by (rule crc_bits_inj)
  then show ?case by simp
qed simp

text \<open>Up to four bytes act on the register as one word.\<close>

fun le_word :: "bytes \<Rightarrow> u32" where
  "le_word [] = 0"
| "le_word (b # bs) = ucast b XOR push_bit 8 (le_word bs)"

lemma bit_le_word:
  "bit (le_word bs) i \<longleftrightarrow> i < 32 \<and> i < 8 * length bs \<and> bit (bs ! (i div 8)) (i mod 8)"
proof (induction bs arbitrary: i)
  case (Cons b bs)
  show ?case
  proof (cases "i < 8")
    case True
    then show ?thesis by (auto simp: bit_simps)
  next
    case False
    then have "i div 8 = Suc ((i - 8) div 8)" "i mod 8 = (i - 8) mod 8" "\<not> bit b i"
      by (auto simp: le_div_geq le_mod_geq not_less dest: bit_imp_le_length)
    then show ?thesis using False Cons [of "i - 8"] by (auto simp: bit_simps)
  qed
qed simp

lemma le_word_inj:
  assumes "length a = length b" "length a \<le> 4" "le_word a = le_word b"
  shows "a = b"
proof (rule bytes_eq_by_bits [OF assms(1)])
  fix i assume "i < 8 * length a"
  then show "GETBIT a i = GETBIT b i"
    using bit_le_word [of a i] bit_le_word [of b i] assms by (simp add: GETBIT_bit)
qed

lemma crc_window:
  "length w \<le> 4 \<Longrightarrow> foldl crc_byte c w = (crc_bit ^^ (8 * length w)) (c XOR le_word w)"
proof (induction w arbitrary: c)
  case (Cons b w)
  have "bit (push_bit 8 (le_word w)) i = False" if "i < 8" for i using that by (simp add: bit_simps)
  then have sh: "(crc_bit ^^ 8) (push_bit 8 (le_word w)) = le_word w"
    using Cons.prems by (subst crc_bits_shift) (auto intro!: bit_word_eqI simp: bit_simps bit_le_word)
  have "foldl crc_byte c (b # w) = (crc_bit ^^ (8 * length w)) ((crc_bit ^^ 8) (c XOR ucast b) XOR le_word w)"
    using Cons by (simp add: crc_byte_def [of c b])
  also have "\<dots> = (crc_bit ^^ (8 * length w)) ((crc_bit ^^ 8) (c XOR le_word (b # w)))"
    using sh crc_bits_xor [of 8 "c XOR ucast b" "push_bit 8 (le_word w)"] by (simp add: ac_simps)
  also have "\<dots> = (crc_bit ^^ (8 * length w + 8)) (c XOR le_word (b # w))"
    by (simp add: funpow_add)
  finally show ?case by (simp add: add.commute)
qed simp


section \<open>Properties\<close>

text \<open>
  C22. The table-driven checksum is the remainder of polynomial division, computed one bit at
  a time by the reference, and it can be continued: the checksum of a concatenation is the
  checksum of the second part started from that of the first.
\<close>

theorem crc32_is_division:
  "crc32 crc buf = foldl crc_byte (crc XOR NOT 0) buf XOR NOT 0
   \<and> crc32 crc (a @ b) = crc32 (crc32 crc a) b"
  using crc32_reference by (simp add: crc32_def xor.assoc)

text \<open>
  C23. The checksum detects every error burst of up to four bytes: two buffers that differ
  only within a window of at most four bytes have different checksums.
\<close>

theorem crc32_detects_bursts:
  assumes "length w = length w'" "length w \<le> 4" "w \<noteq> w'"
  shows "crc32 crc (a @ w @ b) \<noteq> crc32 crc (a @ w' @ b)"
proof
  assume "crc32 crc (a @ w @ b) = crc32 crc (a @ w' @ b)"
  then have "foldl crc_byte (foldl crc_byte (crc XOR NOT 0) a) w
      = foldl crc_byte (foldl crc_byte (crc XOR NOT 0) a) w'"
    by (auto simp: crc32_reference dest: crc_bytes_inj)
  then have "le_word w = le_word w'"
    using assms by (auto simp: crc_window xor.commute dest: crc_bits_inj)
  then show False using le_word_inj assms by blast
qed

theorem crc32_detects_bursts_witness:
  "crc32 0 ([7, 7] @ [1, 2, 3, 4] @ [9]) \<noteq> crc32 0 ([7, 7] @ [1, 2, 3, 5] @ [9])"
  by (rule crc32_detects_bursts) simp_all

text \<open>
  C24. The Bloom filter has no false negatives, and merging two filters gives exactly the
  filter of all the accounts added to either.
\<close>

theorem bloombits_merge_union:
  "list_all (in_bloombits (foldl set_bloombits bloom_zero xs)) xs
   \<and> merge_bloombits (foldl set_bloombits bloom_zero xs) (foldl set_bloombits bloom_zero ys)
     = foldl set_bloombits bloom_zero (xs @ ys)"
proof (intro conjI)
  show "list_all (in_bloombits (foldl set_bloombits bloom_zero xs)) xs"
    by (simp add: list_all_iff in_bloombits_all)
  let ?x = "foldl set_bloombits bloom_zero xs" and ?y = "foldl set_bloombits bloom_zero ys"
    and ?xy = "foldl set_bloombits bloom_zero (xs @ ys)"
  have len: "length ?x = NUM_BLOOMPRIMES * bloom_row + 8" "length ?y = NUM_BLOOMPRIMES * bloom_row + 8"
    "length ?xy = NUM_BLOOMPRIMES * bloom_row + 8"
    using bloom_wf_all [OF bloom_wf_zero] by (simp_all add: bloom_wf_def del: foldl_append)
  show "merge_bloombits ?x ?y = ?xy"
  proof (rule bytes_eq_by_bits)
    fix j
    assume "j < 8 * length (merge_bloombits ?x ?y)"
    then have "GETBIT (merge_bloombits ?x ?y) j = (GETBIT ?x j \<or> GETBIT ?y j)"
      by (intro GETBIT_merge) (simp_all add: len merge_bloombits_def)
    also have "\<dots> = GETBIT ?xy j"
      unfolding GETBIT_bloom_all [OF bloom_wf_zero] by auto
    finally show "GETBIT (merge_bloombits ?x ?y) j = GETBIT ?xy j" .
  qed (simp add: len merge_bloombits_def del: foldl_append)
qed

end
