(* ===== verification/Utils777.thy ===== *)
theory Utils777
  imports Bits777
begin

text \<open>
  Helpers of \<^verbatim>\<open>src/plugins/utils/utils777.c\<close>: hexadecimal and base32 text, the arrays of
  numbers used as small sets, and the little-endian integer fields. A C string is the list of
  its characters before the terminator; an access outside an object is \<open>None\<close>.
\<close>

section \<open>Hexadecimal\<close>

definition hexbyte :: "u8 \<Rightarrow> char" where
  "hexbyte b = (let c = uint b AND 0xf in
     if c < 10 then char_of (48 + nat c) else if c < 16 then char_of (97 + nat c - 10) else CHR 0x00)"

definition unhex_digit :: "char \<Rightarrow> int" where
  "unhex_digit ch = (let c = int (of_char ch) in
     if c \<ge> 48 \<and> c \<le> 57 then c - 48 else if c \<ge> 97 \<and> c \<le> 102 then c - 97 + 10 else - 1)"

definition unhex :: "char \<Rightarrow> int" where
  "unhex c = unhex_digit c"

definition is_hexstr :: "string \<Rightarrow> bool" where
  "is_hexstr str \<longleftrightarrow> str \<noteq> [] \<and> list_all (\<lambda>c. unhex_digit c \<ge> 0) str"

definition decode_hexpair :: "char \<Rightarrow> char \<Rightarrow> u8" where
  "decode_hexpair a b = word_of_int (push_bit 4 (unhex a) OR unhex b)"

text \<open>
  \<^verbatim>\<open>decode_hex\<close> with the bytes it writes and its return value. An odd string of \<open>2n + 1\<close>
  digits gives its first digit a byte of its own, in front of the \<open>n\<close> others; so does \<open>n = 0\<close>.
\<close>

definition decode_hex :: "nat \<Rightarrow> string \<Rightarrow> (bytes \<times> nat) option" where
  "decode_hex n hex =
     (if \<not> is_hexstr hex then Some (replicate n 0, n)
      else if length hex < 2 * n then None
      else if n = 0 \<or> length hex = 2 * n + 1
      then Some (word_of_int (unhex (hex ! 0))
                   # map (\<lambda>i. decode_hexpair (hex ! (2 * i + 1)) (hex ! (2 * i + 2))) [0..<n], n + 1)
      else Some (map (\<lambda>i. decode_hexpair (hex ! (2 * i)) (hex ! (2 * i + 1))) [0..<n], n))"

definition init_hexbytes_noT :: "bytes \<Rightarrow> string" where
  "init_hexbytes_noT message =
     concat (map (\<lambda>b. [hexbyte (drop_bit 4 b AND 0xf), hexbyte (b AND 0xf)]) message)"

section \<open>Base 32\<close>

definition base32byte :: "int \<Rightarrow> int" where
  "base32byte v = (if v < 26 then 65 + v else if v < 32 then 50 + v - 26 else - 1)"

definition unbase32 :: "char \<Rightarrow> int" where
  "unbase32 ch = (let c = int (of_char ch) in
     if c \<ge> 65 \<and> c \<le> 90 then c - 65 else if c \<ge> 50 \<and> c \<le> 55 then c - 50 + 26 else - 1)"

text \<open>
  The bit array a token is decoded into, as a list of bits. The inner loop starts by setting
  \<^verbatim>\<open>val5\<close> to zero again (\<^verbatim>\<open>for (j=val5=0; ...)\<close>).
\<close>

fun decode_base32_loop :: "string \<Rightarrow> bool list option" where
  "decode_base32_loop [] = Some []"
| "decode_base32_loop (c # cs) =
     (if unbase32 c \<ge> 0
      then let val5 = 0 :: int in map_option (\<lambda>bs. map (bit val5) [0..<5] @ bs) (decode_base32_loop cs)
      else None)"

definition decode_base32 :: "string \<Rightarrow> (bool list \<times> int) option" where
  "decode_base32 tokenstr =
     map_option (\<lambda>bs. let bs = bs @ replicate ((8 - length bs mod 8) mod 8) False in (bs, int (length bs)))
       (decode_base32_loop tokenstr)"

section \<open>Arrays as sets of numbers\<close>

text \<open>The position found (or -1) and the empty slot seen on the way (or -1).\<close>

fun find_uint :: "'a::zero list \<Rightarrow> nat \<Rightarrow> 'a \<Rightarrow> int \<times> int" where
  "find_uint [] i x = (- 1, - 1)"
| "find_uint (n # nums) i x =
     (if n = 0 then (- 1, int i) else if n = x then (int i, - 1) else find_uint nums (Suc i) x)"

definition add_uint :: "'a::zero list \<Rightarrow> 'a \<Rightarrow> 'a list \<times> int" where
  "add_uint nums x =
     (let (i, emptyslot) = find_uint nums 0 x
      in if i \<ge> 0 then (nums, i)
         else if emptyslot \<ge> 0 then (nums[nat emptyslot := x], emptyslot)
         else (nums, - 1))"

definition remove_uint :: "'a::zero list \<Rightarrow> 'a \<Rightarrow> 'a list \<times> int" where
  "remove_uint nums x =
     (let (i, emptyslot) = find_uint nums 0 x
      in if i \<ge> 0 then (nums[nat i := 0], i) else (nums, - 1))"

definition find_uint16 :: "u16 list \<Rightarrow> u16 \<Rightarrow> int \<times> int" where "find_uint16 nums = find_uint nums 0"
definition find_uint32 :: "u32 list \<Rightarrow> u32 \<Rightarrow> int \<times> int" where "find_uint32 nums = find_uint nums 0"
definition find_uint64 :: "u64 list \<Rightarrow> u64 \<Rightarrow> int \<times> int" where "find_uint64 nums = find_uint nums 0"
definition add_uint16 :: "u16 list \<Rightarrow> u16 \<Rightarrow> u16 list \<times> int" where "add_uint16 = add_uint"
definition add_uint32 :: "u32 list \<Rightarrow> u32 \<Rightarrow> u32 list \<times> int" where "add_uint32 = add_uint"
definition add_uint64 :: "u64 list \<Rightarrow> u64 \<Rightarrow> u64 list \<times> int" where "add_uint64 = add_uint"
definition remove_uint16 :: "u16 list \<Rightarrow> u16 \<Rightarrow> u16 list \<times> int" where "remove_uint16 = remove_uint"
definition remove_uint32 :: "u32 list \<Rightarrow> u32 \<Rightarrow> u32 list \<times> int" where "remove_uint32 = remove_uint"
definition remove_uint64 :: "u64 list \<Rightarrow> u64 \<Rightarrow> u64 list \<times> int" where "remove_uint64 = remove_uint"

section \<open>Integer fields\<close>

fun emit_uint_bytes :: "u64 \<Rightarrow> nat \<Rightarrow> bytes" where
  "emit_uint_bytes x 0 = []"
| "emit_uint_bytes x (Suc n) = ucast (x AND 0xff) # emit_uint_bytes (drop_bit 8 x) n"

definition emit_uint :: "bytes \<Rightarrow> nat \<Rightarrow> u64 \<Rightarrow> nat \<Rightarrow> (bytes \<times> nat) option" where
  "emit_uint data offset x sz =
     (if offset + sz \<le> length data then Some (buf_write offset (emit_uint_bytes x sz) data, offset + sz) else None)"

definition read_at :: "bytes \<Rightarrow> nat \<Rightarrow> u8 option" where
  "read_at data i = (if i < length data then Some (data ! i) else None)"

text \<open>\<open>decode_uint\<close> reads \<^verbatim>\<open>data[offset + size - i]\<close> for \<open>i < size\<close>, most significant first.\<close>

fun decode_uint_loop :: "bytes \<Rightarrow> nat \<Rightarrow> nat \<Rightarrow> u64 \<Rightarrow> u64 option" where
  "decode_uint_loop data offset 0 x = Some x"
| "decode_uint_loop data offset (Suc n) x =
     (case read_at data (offset + Suc n) of
        None \<Rightarrow> None
      | Some b \<Rightarrow> decode_uint_loop data offset n (push_bit 8 x OR ucast b))"

definition decode_uint :: "nat \<Rightarrow> bytes \<Rightarrow> nat \<Rightarrow> (u64 \<times> int) option" where
  "decode_uint sz data offset =
     (if sz = 1 then map_option (\<lambda>b. (ucast b, int offset + 1)) (read_at data offset)
      else map_option (\<lambda>x. if sz \<in> {2, 4, 8} then (take_bit (8 * sz) x, int (offset + sz)) else (0, - 1))
             (decode_uint_loop data offset sz 0))"

section \<open>Facts on hexadecimal text\<close>

lemma unhex_hexbyte: "unhex (hexbyte (b AND 0xf)) = uint (b AND 0xf)"
proof -
  have c: "uint (b AND 0xf) = uint b AND 0xf" by (simp add: uint_and)
  have "uint b AND 0xf < 16" "0 \<le> uint b AND 0xf" using AND_upper2 [of 15 "uint b"] by simp_all
  then obtain n where n: "uint b AND 0xf = int n" "n < 16" by (metis zero_le_imp_eq_int of_nat_less_iff of_nat_numeral)
  have "(uint b AND 0xf) AND 0xf = uint b AND 0xf" by (simp add: and.assoc)
  then show ?thesis using n(2) unfolding unhex_def unhex_digit_def hexbyte_def Let_def c by (simp add: n(1))
qed

lemma hexbyte_digit: "unhex_digit (hexbyte (b AND 0xf)) \<ge> 0"
  using unhex_hexbyte [of b] unfolding unhex_def by simp

lemma decode_hexpair_hexbyte: "decode_hexpair (hexbyte (drop_bit 4 b AND 0xf)) (hexbyte (b AND 0xf)) = b"
proof (rule bit_word_eqI)
  fix j assume "j < LENGTH(8)"
  have m: "(0xf :: u8) = mask 4" by (simp add: mask_eq_exp_minus_1)
  show "bit (decode_hexpair (hexbyte (drop_bit 4 b AND 0xf)) (hexbyte (b AND 0xf))) j = bit b j"
    unfolding decode_hexpair_def unhex_hexbyte using \<open>j < LENGTH(8)\<close>
    unfolding m by (auto simp: bit_simps)
qed

lemma length_hexbytes [simp]: "length (init_hexbytes_noT bs) = 2 * length bs"
  by (induction bs) (auto simp: init_hexbytes_noT_def)

lemma hexbytes_Cons:
  "init_hexbytes_noT (b # bs) = hexbyte (drop_bit 4 b AND 0xf) # hexbyte (b AND 0xf) # init_hexbytes_noT bs"
  by (simp add: init_hexbytes_noT_def)

lemma is_hexstr_hexbytes: "bs \<noteq> [] \<Longrightarrow> is_hexstr (init_hexbytes_noT bs)"
proof -
  have "list_all (\<lambda>c. unhex_digit c \<ge> 0) (init_hexbytes_noT bs)"
    by (induction bs) (simp_all add: hexbytes_Cons hexbyte_digit, simp add: init_hexbytes_noT_def)
  then show "bs \<noteq> [] \<Longrightarrow> is_hexstr (init_hexbytes_noT bs)"
    using length_hexbytes [of bs] by (auto simp: is_hexstr_def simp del: length_hexbytes)
qed

lemma hexbytes_nth:
  "i < length bs \<Longrightarrow> init_hexbytes_noT bs ! (2 * i) = hexbyte (drop_bit 4 (bs ! i) AND 0xf)
     \<and> init_hexbytes_noT bs ! (2 * i + 1) = hexbyte (bs ! i AND 0xf)"
proof (induction bs arbitrary: i)
  case (Cons b bs)
  then show ?case by (cases i) (auto simp: hexbytes_Cons)
qed simp

lemma decode_hex_hexbytes: "bs \<noteq> [] \<Longrightarrow> decode_hex (length bs) (init_hexbytes_noT bs) = Some (bs, length bs)"
proof -
  have "map (\<lambda>i. decode_hexpair (init_hexbytes_noT bs ! (2 * i)) (init_hexbytes_noT bs ! (2 * i + 1))) [0..<length bs] = bs"
    by (rule nth_equalityI) (use hexbytes_nth decode_hexpair_hexbyte in auto)
  then show "bs \<noteq> [] \<Longrightarrow> ?thesis" by (simp add: decode_hex_def is_hexstr_hexbytes)
qed

text \<open>Printing what was parsed gives the digits back.\<close>

lemma unhex_range: "unhex_digit c \<ge> 0 \<Longrightarrow> unhex_digit c < 16"
  by (auto simp: unhex_digit_def Let_def)

lemma and_15: "0 \<le> k \<Longrightarrow> k < 16 \<Longrightarrow> k AND 0xf = (k :: int)"
proof -
  assume k: "0 \<le> k" "k < 16"
  have m: "(0xf :: int) = mask 4" by (simp add: mask_eq_exp_minus_1)
  show ?thesis unfolding m take_bit_eq_mask [symmetric] using k by (simp add: take_bit_int_eq_self)
qed

lemma hexbyte_unhex:
  assumes "unhex_digit c \<ge> 0"
  shows "hexbyte (word_of_int (unhex_digit c)) = c"
proof -
  have "uint (word_of_int (unhex_digit c) :: u8) = unhex_digit c"
    using assms unhex_range [OF assms] by (simp add: unsigned_of_int take_bit_int_eq_self)
  then have "hexbyte (word_of_int (unhex_digit c))
      = (if unhex_digit c < 10 then char_of (48 + nat (unhex_digit c)) else char_of (97 + nat (unhex_digit c) - 10))"
    using and_15 [OF assms unhex_range [OF assms]] unhex_range [OF assms] by (simp add: hexbyte_def Let_def)
  also have "\<dots> = c" using assms
    by (auto simp: unhex_digit_def Let_def nat_diff_distrib nat_add_distrib split: if_splits)
  finally show ?thesis .
qed

lemma hexbytes_decode_pair:
  assumes "unhex_digit a \<ge> 0" "unhex_digit b \<ge> 0"
  shows "init_hexbytes_noT [decode_hexpair a b] = [a, b]"
proof -
  have m: "(0xf :: u8) = mask 4" by (simp add: mask_eq_exp_minus_1)
  have bits: "bit (unhex_digit x) j \<Longrightarrow> j < 4" if "unhex_digit x \<ge> 0" for x j
  proof -
    have "take_bit 4 (unhex_digit x) = unhex_digit x"
      using unhex_range [OF that(1)] that(1) by (simp add: take_bit_int_eq_self)
    moreover assume "bit (unhex_digit x) j"
    ultimately show "j < 4" by (metis bit_take_bit_iff)
  qed
  have "drop_bit 4 (decode_hexpair a b) AND 0xf = word_of_int (unhex_digit a)"
    "decode_hexpair a b AND 0xf = word_of_int (unhex_digit b)"
    unfolding m decode_hexpair_def unhex_def
    by (rule bit_word_eqI; use bits assms in \<open>auto simp: bit_simps\<close>)+
  then show ?thesis using assms by (simp add: init_hexbytes_noT_def hexbyte_unhex)
qed

text \<open>Text in the form \<^verbatim>\<open>init_hexbytes_noT\<close> prints: pairs of lower case digits.\<close>

lemma hexbytes_decode_hex:
  "is_hexstr hex \<Longrightarrow> length hex = 2 * n \<Longrightarrow>
     \<exists>bs. decode_hex n hex = Some (bs, n) \<and> length bs = n \<and> init_hexbytes_noT bs = hex"
proof -
  let ?dec = "\<lambda>hex n. map (\<lambda>i. decode_hexpair (hex ! (2 * i)) (hex ! (2 * i + 1))) [0..<n]"
  have *: "init_hexbytes_noT (?dec hex n) = hex" if "list_all (\<lambda>c. unhex_digit c \<ge> 0) hex" "length hex = 2 * n" for hex n
    using that
  proof (induction n arbitrary: hex)
    case (Suc n)
    then obtain a b rest where hex: "hex = a # b # rest" by (cases hex; cases "tl hex") auto
    have "?dec hex (Suc n) = decode_hexpair a b # ?dec rest n" unfolding map_upt_Suc by (simp add: hex)
    moreover have "init_hexbytes_noT (decode_hexpair a b # xs) = a # b # init_hexbytes_noT xs" for xs
      using hexbytes_decode_pair [of a b] Suc(2) by (simp add: hex init_hexbytes_noT_def)
    ultimately show ?case using Suc by (simp add: hex)
  qed (simp add: init_hexbytes_noT_def)
  assume h: "is_hexstr hex" "length hex = 2 * n"
  then have "n \<noteq> 0" by (cases n) (auto simp: is_hexstr_def)
  then have "decode_hex n hex = Some (?dec hex n, n)" using h by (simp add: decode_hex_def)
  then show ?thesis using * [of hex n] h by (simp add: is_hexstr_def)
qed

section \<open>Facts on arrays as sets\<close>

text \<open>The part of the array that is searched.\<close>

definition used :: "'a::zero list \<Rightarrow> 'a list" where
  "used nums = takeWhile (\<lambda>n. n \<noteq> 0) nums"

lemma find_uint_spec:
  assumes "x \<noteq> 0"
  shows "x \<notin> set (used nums) \<Longrightarrow>
      find_uint nums i x = (- 1, if length (used nums) < length nums then int (i + length (used nums)) else - 1)"
    and "x \<in> set (used nums) \<Longrightarrow> \<exists>j<length (used nums). nums ! j = x \<and> find_uint nums i x = (int (i + j), - 1)"
  using assms
proof (induction nums arbitrary: i)
  case (Cons n nums)
  case 1 then show ?case using Cons(1) [of "Suc i"] by (auto simp: used_def)
next
  case (Cons n nums)
  case 2
  show ?case
  proof (cases "n = x")
    case True
    then show ?thesis using 2 by (intro exI [of _ 0]) (auto simp: used_def)
  next
    case False
    then have "n \<noteq> 0" "x \<in> set (used nums)" using 2 by (auto simp: used_def split: if_splits)
    then obtain j where "j < length (used nums)" "nums ! j = x" "find_uint nums (Suc i) x = (int (Suc i + j), - 1)"
      using Cons(2) [of "Suc i"] 2 by auto
    then show ?thesis using False \<open>n \<noteq> 0\<close> by (intro exI [of _ "Suc j"]) (auto simp: used_def)
  qed
qed (auto simp: used_def)

lemma find_uint_mem: "x \<noteq> 0 \<Longrightarrow> fst (find_uint nums 0 x) \<ge> 0 \<longleftrightarrow> x \<in> set (used nums)"
  using find_uint_spec [of x nums 0] by (cases "x \<in> set (used nums)") auto

text \<open>Nothing but zeros after the first zero.\<close>

definition compact :: "'a::zero list \<Rightarrow> bool" where
  "compact nums \<longleftrightarrow> nums = used nums @ replicate (length nums - length (used nums)) 0"

lemma used_prefix: "list_all (\<lambda>n. n \<noteq> 0) us \<Longrightarrow> used (us @ replicate k 0) = us"
  by (induction us) (cases k, auto simp: used_def)

lemma add_uint_spec:
  assumes "x \<noteq> 0" "compact nums"
  shows "used (fst (add_uint nums x))
      = (if x \<in> set (used nums) \<or> length (used nums) = length nums then used nums else used nums @ [x])"
    and "compact (fst (add_uint nums x))" and "length (fst (add_uint nums x)) = length nums"
proof -
  let ?u = "used nums"
  have len: "length ?u \<le> length nums" by (simp add: used_def length_takeWhile_le)
  have nz: "list_all (\<lambda>n. n \<noteq> 0) ?u" by (auto simp: used_def list_all_iff dest: set_takeWhileD)
  consider (old) "x \<in> set ?u" | (full) "x \<notin> set ?u" "length ?u = length nums" | (new) "x \<notin> set ?u" "length ?u < length nums"
    using len by linarith
  then have "used (fst (add_uint nums x)) = (if x \<in> set ?u \<or> length ?u = length nums then ?u else ?u @ [x])
      \<and> compact (fst (add_uint nums x)) \<and> length (fst (add_uint nums x)) = length nums"
  proof cases
    case old
    then show ?thesis using find_uint_spec(2) [OF assms(1) old, of 0] assms(2) by (auto simp: add_uint_def)
  next
    case full
    then show ?thesis using find_uint_spec(1) [OF assms(1) full(1), of 0] assms(2) by (auto simp: add_uint_def)
  next
    case new
    define k where "k = length nums - Suc (length ?u)"
    have nums: "nums = ?u @ 0 # replicate k 0"
      using assms(2) new(2) by (simp add: compact_def k_def flip: replicate_Suc) (simp add: Suc_diff_Suc)
    have "fst (add_uint nums x) = nums[length ?u := x]"
      using find_uint_spec(1) [OF assms(1) new(1), of 0] new(2) by (simp add: add_uint_def)
    also have "\<dots> = (?u @ [x]) @ replicate k 0" by (subst nums) simp
    finally have a: "fst (add_uint nums x) = (?u @ [x]) @ replicate k 0" .
    have u: "used (fst (add_uint nums x)) = ?u @ [x]"
      unfolding a by (rule used_prefix) (use nz assms(1) in simp)
    moreover have "length (fst (add_uint nums x)) = length nums" unfolding a using new(2) by (simp add: k_def)
    moreover have "compact (fst (add_uint nums x))" unfolding compact_def u unfolding a by simp
    ultimately show ?thesis using new by simp
  qed
  then show "used (fst (add_uint nums x)) = (if x \<in> set ?u \<or> length ?u = length nums then ?u else ?u @ [x])"
    "compact (fst (add_uint nums x))" "length (fst (add_uint nums x)) = length nums" by simp_all
qed

text \<open>The elements of a list in the order of their first occurrence.\<close>

definition first_occurrences :: "'a list \<Rightarrow> 'a list" where
  "first_occurrences xs = rev (remdups (rev xs))"

lemma first_occurrences_snoc:
  "first_occurrences (xs @ [x]) = (if x \<in> set xs then first_occurrences xs else first_occurrences xs @ [x])"
  "set (first_occurrences xs) = set xs"
  by (simp_all add: first_occurrences_def)

lemma add_all_spec:
  fixes xs :: "'a::zero list" and m :: nat
  assumes "list_all (\<lambda>x. x \<noteq> 0) xs"
  defines "nums \<equiv> foldl (\<lambda>n x. fst (add_uint n x)) (replicate m 0) xs"
  shows "used nums = take m (first_occurrences xs) \<and> compact nums \<and> length nums = m"
  using assms(1) unfolding nums_def
proof (induction xs rule: rev_induct)
  case Nil
  then show ?case by (cases m) (simp_all add: used_def compact_def first_occurrences_def)
next
  case (snoc x xs)
  let ?n = "foldl (\<lambda>n x. fst (add_uint n x)) (replicate m 0) xs"
  have IH: "used ?n = take m (first_occurrences xs)" "compact ?n" "length ?n = m" and x: "x \<noteq> 0"
    using snoc by simp_all
  have fo: "set (take m (first_occurrences xs)) \<subseteq> set xs"
    using set_take_subset [of m "first_occurrences xs"] by (simp add: first_occurrences_snoc)
  have "used (fst (add_uint ?n x)) = take m (first_occurrences (xs @ [x]))"
  proof (cases "length (first_occurrences xs) < m")
    case True
    then show ?thesis using add_uint_spec(1) [OF x IH(2)] IH by (simp add: first_occurrences_snoc)
  next
    case False
    then show ?thesis using add_uint_spec(1) [OF x IH(2)] IH by (simp add: first_occurrences_snoc)
  qed
  then show ?case using add_uint_spec(2,3) [OF x IH(2)] IH(3) by simp
qed

section \<open>Defects\<close>

text \<open>Whatever digits a base32 token has, the decoded bits are all zero.\<close>

lemma decode_base32_zero: "decode_base32 s = Some (bs, n) \<Longrightarrow> b \<in> set bs \<Longrightarrow> \<not> b"
proof -
  have "decode_base32_loop s = Some bs \<Longrightarrow> b \<in> set bs \<Longrightarrow> \<not> b" for bs
    by (induction s arbitrary: bs) (auto split: if_splits)
  then show "decode_base32 s = Some (bs, n) \<Longrightarrow> b \<in> set bs \<Longrightarrow> \<not> b"
    by (auto simp: decode_base32_def Let_def)
qed

text \<open>A field written by \<open>emit_uint\<close> is not read back: the reader is one byte off.\<close>

lemma decode_uint_off_by_one:
  "emit_uint [0, 0, 0, 0] 0 0x1234 2 = Some ([0x34, 0x12, 0, 0], 2)
     \<and> decode_uint 2 [0x34, 0x12, 0, 0] 0 = Some (0x12, 2)"
  by code_simp

section \<open>Properties\<close>

text \<open>
  Hexadecimal text and bytes convert into each other: printing bytes and parsing the text
  gives the bytes, and parsing an even number of lower case digits and printing the bytes
  gives the digits.
\<close>

lemma hex_roundtrip:
  "(bs \<noteq> [] \<longrightarrow> decode_hex (length bs) (init_hexbytes_noT bs) = Some (bs, length bs))
   \<and> (is_hexstr hex \<and> length hex = 2 * n \<longrightarrow> map_option (\<lambda>(bs, k). (init_hexbytes_noT bs, k)) (decode_hex n hex) = Some (hex, n))"
  using decode_hex_hexbytes [of bs] hexbytes_decode_hex [of hex n] by auto

text \<open>
  \<^verbatim>\<open>add_uint64\<close> and \<^verbatim>\<open>find_uint64\<close> implement a bounded set: after adding any non-zero
  numbers to an array of \<open>m\<close> zeros, the array holds their first occurrences in order, as many
  as fit, and a search finds exactly these.
\<close>

lemma add_uint64_set:
  fixes xs :: "u64 list" and m :: nat
  assumes "list_all (\<lambda>x. x \<noteq> 0) xs"
  defines "nums \<equiv> foldl (\<lambda>n x. fst (add_uint64 n x)) (replicate m 0) xs"
  shows "used nums = take m (first_occurrences xs) \<and> distinct (used nums) \<and> length nums = m
    \<and> (\<forall>x. x \<noteq> 0 \<longrightarrow> (fst (find_uint64 nums x) \<ge> 0 \<longleftrightarrow> x \<in> set (take m (first_occurrences xs))))"
proof -
  have u: "used nums = take m (first_occurrences xs)" "length nums = m"
    using add_all_spec [OF assms(1), of m] unfolding nums_def add_uint64_def by auto
  moreover have "distinct (first_occurrences xs)" by (simp add: first_occurrences_def)
  ultimately show ?thesis using find_uint_mem [of _ nums] by (auto simp: find_uint64_def)
qed

text \<open>
  Removing a number hides the ones stored after it: when \<open>a\<close> is removed, a number \<open>b\<close>
  behind it is still in the array but no longer found, and adding it again stores a second
  copy.
\<close>

lemma remove_uint32_hides:
  fixes ps qs :: "u32 list" and k :: nat
  assumes "list_all (\<lambda>x. x \<noteq> 0) (ps @ a # qs)" "distinct (ps @ a # qs)" "b \<in> set qs"
  defines "nums \<equiv> fst (remove_uint32 (ps @ a # qs @ replicate k 0) a)"
  shows "b \<in> set nums \<and> fst (find_uint32 nums b) = - 1
    \<and> length (filter (\<lambda>x. x = b) (fst (add_uint32 nums b))) = 2"
proof -
  have nz: "a \<noteq> 0" "b \<noteq> 0" "list_all (\<lambda>x. x \<noteq> 0) ps" and b: "b \<notin> set ps" "a \<notin> set ps" "b \<noteq> a" "distinct qs"
    using assms(1-3) by (auto simp: list_all_iff)
  have up: "used (ps @ a # zs) = ps @ a # used zs" "used (ps @ 0 # zs) = ps" for zs
    using nz(1,3) by (induction ps) (auto simp: used_def)
  obtain j where j: "j < length (ps @ a # used (qs @ replicate k 0))" "(ps @ a # qs @ replicate k 0) ! j = a"
    "find_uint (ps @ a # qs @ replicate k 0) 0 a = (int j, - 1)"
    using find_uint_spec(2) [OF nz(1), of "ps @ a # qs @ replicate k 0" 0] by (auto simp: up)
  have "j = length ps"
  proof (rule ccontr)
    assume "j \<noteq> length ps"
    moreover have "used (qs @ replicate k 0) = qs" using assms(1) by (intro used_prefix) simp
    ultimately show False using j(1,2) assms(2) b
      by (cases "j < length ps") (auto simp: nth_append nth_Cons' in_set_conv_nth split: if_splits)
  qed
  then have n: "nums = ps @ 0 # qs @ replicate k 0"
    using j(3) unfolding nums_def remove_uint32_def by (simp add: remove_uint_def)
  have f: "find_uint nums 0 b = (- 1, int (length ps))"
    using find_uint_spec(1) [OF nz(2), of nums 0] b(1) unfolding n up by simp
  then have "fst (add_uint32 nums b) = ps @ b # qs @ replicate k 0"
    unfolding add_uint32_def by (simp add: add_uint_def) (simp add: n)
  moreover have "filter (\<lambda>x. x = b) ps = []" "filter (\<lambda>x. x = b) (replicate k 0) = []"
    using b(1) nz(2) by (auto simp: filter_empty_conv)
  moreover have "length (filter (\<lambda>x. x = b) qs) = 1"
    using assms(3) b(4) by (induction qs) (auto simp: filter_empty_conv)
  ultimately show ?thesis using f n assms(3) by (simp add: find_uint32_def)
qed

end
