(* ===== verification/Cointx.thy ===== *)
theory Cointx
  imports Utils777 "HOL-Library.Monad_Syntax"
begin

text \<open>
  Raw coin transactions (\<^verbatim>\<open>src/plugins/coins/cointx.c\<close>, with the structures of
  \<^verbatim>\<open>src/plugins/coins/coins777.c\<close>): the wire format of integers, inputs, outputs and whole
  transactions, written to and read from byte buffers. Offsets are C longs: the error value is
  -1. A read or write outside its object makes the result \<open>None\<close>. The arrays of inputs and
  outputs are the lists of their used entries, so the counts are the lengths.
\<close>

section \<open>Data\<close>

record rawvin =
  txidstr :: string
  vout :: u16

record cointx_input =
  tx :: rawvin
  sigs :: string
  sequence :: u32

record rawvout =
  script :: string
  amount :: u64

record cointx_info =
  version :: u32
  timestamp :: u32
  inputs :: "cointx_input list"
  outputs :: "rawvout list"
  nlocktime :: u32

definition MAX_COINTX_INPUTS :: nat where "MAX_COINTX_INPUTS = 256"
definition MAX_COINTX_OUTPUTS :: nat where "MAX_COINTX_OUTPUTS = 256"

text \<open>The sizes of \<^verbatim>\<open>sigs\<close> in an input and \<^verbatim>\<open>script\<close> in an output.\<close>

definition SIGS_SIZE :: nat where "SIGS_SIZE = 4096"
definition SCRIPT_SIZE :: nat where "SCRIPT_SIZE = 2048"

section \<open>Buffers and integers\<close>

definition put_at :: "bytes \<Rightarrow> nat \<Rightarrow> bytes \<Rightarrow> (bytes \<times> nat) option" where
  "put_at data offset bs =
     (if offset + length bs \<le> length data then Some (buf_write offset bs data, offset + length bs) else None)"

definition get_at :: "bytes \<Rightarrow> int \<Rightarrow> nat \<Rightarrow> bytes option" where
  "get_at data offset n =
     (if 0 \<le> offset \<and> nat offset + n \<le> length data then Some (take n (drop (nat offset) data)) else None)"

text \<open>The \<open>n\<close> low bytes of a word from the lowest, and the word some bytes spell.\<close>

fun le_put :: "nat \<Rightarrow> 'a::len word \<Rightarrow> bytes" where
  "le_put 0 x = []"
| "le_put (Suc n) x = ucast (x AND 0xff) # le_put n (drop_bit 8 x)"

definition le_get :: "bytes \<Rightarrow> 'a::len word" where
  "le_get bs = foldl (\<lambda>x b. push_bit 8 x OR ucast b) 0 (rev bs)"

definition emit_uint32 :: "bytes \<Rightarrow> nat \<Rightarrow> u32 \<Rightarrow> (bytes \<times> nat) option" where
  "emit_uint32 data offset x = put_at data offset (le_put 4 x)"

definition decode_uint32 :: "bytes \<Rightarrow> int \<Rightarrow> int \<Rightarrow> (u32 \<times> int) option" where
  "decode_uint32 data offset len =
     do { bs \<leftarrow> get_at data offset 4;
          let offset = offset + 4;
          Some (le_get bs, if offset > len then - 1 else offset) }"

definition hcalc_varint :: "u64 \<Rightarrow> bytes" where
  "hcalc_varint x =
     (if x < 0xfd then [ucast (x AND 0xff)]
      else if x \<le> 0xffff then 0xfd # le_put 2 (ucast x :: u16)
      else if x \<le> 0xffffffff then 0xfe # le_put 4 (ucast x :: u32)
      else 0xff # le_put 8 x)"

definition hdecode_varint :: "bytes \<Rightarrow> int \<Rightarrow> int \<Rightarrow> (u64 \<times> int) option" where
  "hdecode_varint data offset mappedsize =
     (if offset < 0 \<or> offset \<ge> mappedsize then Some (0, - 1)
      else do {
        cs \<leftarrow> get_at data offset 1;
        let c = hd cs;
        let offset = offset + 1;
        let wide = (\<lambda>n. if offset + int n > mappedsize then Some (0, - 1)
                        else do { bs \<leftarrow> get_at data offset n; Some (le_get bs, offset + int n) });
        if c = 0xfd then wide 2 else if c = 0xfe then wide 4 else if c = 0xff then wide 8
        else Some (ucast c, offset) })"

section \<open>Inputs and outputs\<close>

text \<open>Half the length of a text and the bytes it stands for (signatures and scripts).\<close>

definition emit_hex :: "bytes \<Rightarrow> nat \<Rightarrow> string \<Rightarrow> (bytes \<times> nat) option" where
  "emit_hex data offset s =
     do { let n = length s div 2;
          (data, offset) \<leftarrow> put_at data offset (hcalc_varint (of_nat n));
          if n \<noteq> 0
          then do { (bs, _) \<leftarrow> decode_hex n s; (data, _) \<leftarrow> put_at data offset bs; Some (data, offset + n) }
          else Some (data, offset) }"

definition emit_cointx_input :: "bytes \<Rightarrow> nat \<Rightarrow> cointx_input \<Rightarrow> (bytes \<times> nat) option" where
  "emit_cointx_input data offset vin =
     do { (revdata, _) \<leftarrow> decode_hex 32 (txidstr (tx vin));
          if length revdata > 32 then None else do {
          (data, offset) \<leftarrow> put_at data offset (rev revdata);
          (data, offset) \<leftarrow> emit_uint32 data offset (ucast (vout (tx vin)));
          (data, offset) \<leftarrow> emit_hex data offset (sigs vin);
          emit_uint32 data offset (sequence vin) } }"

definition decode_vin :: "bytes \<Rightarrow> int \<Rightarrow> int \<Rightarrow> (cointx_input option \<times> int) option" where
  "decode_vin data offset len =
     do { rd \<leftarrow> get_at data offset 32;
          (v, offset) \<leftarrow> decode_uint32 data (offset + 32) len;
          if offset < 0 then Some (None, - 1) else do {
          (siglen, offset) \<leftarrow> hdecode_varint data offset len;
          if offset < 0 \<or> siglen > of_nat SIGS_SIZE then Some (None, - 1) else do {
          sig \<leftarrow> get_at data offset (unat siglen);
          if 2 * unat siglen + 1 > SIGS_SIZE then None else do {
          (sq, offset) \<leftarrow> decode_uint32 data (offset + int (unat siglen)) len;
          if offset < 0 then Some (None, - 1)
          else Some (Some \<lparr>tx = \<lparr>txidstr = init_hexbytes_noT (rev rd), vout = ucast v\<rparr>,
                           sigs = init_hexbytes_noT sig, sequence = sq\<rparr>, offset) } } } }"

definition emit_cointx_output :: "bytes \<Rightarrow> nat \<Rightarrow> rawvout \<Rightarrow> (bytes \<times> nat) option" where
  "emit_cointx_output data offset vo =
     do { (data, offset) \<leftarrow> emit_uint32 data offset (ucast (amount vo));
          (data, offset) \<leftarrow> emit_uint32 data offset (ucast (drop_bit 32 (amount vo)));
          emit_hex data offset (script vo) }"

definition decode_vout :: "bytes \<Rightarrow> int \<Rightarrow> int \<Rightarrow> (rawvout option \<times> int) option" where
  "decode_vout data offset len =
     do { (low, offset) \<leftarrow> decode_uint32 data offset len;
          if offset < 0 then Some (None, - 1) else do {
          (high, offset) \<leftarrow> decode_uint32 data offset len;
          if offset < 0 then Some (None, - 1) else do {
          (scriptlen, offset) \<leftarrow> hdecode_varint data offset len;
          if offset < 0 \<or> scriptlen > of_nat SCRIPT_SIZE then Some (None, - 1) else do {
          sc \<leftarrow> get_at data offset (unat scriptlen);
          if 2 * unat scriptlen + 1 > SCRIPT_SIZE then None
          else Some (Some \<lparr>script = init_hexbytes_noT sc, amount = push_bit 32 (ucast high) OR ucast low\<rparr>,
                     offset + int (unat scriptlen)) } } } }"

section \<open>Transactions\<close>

text \<open>The loops over inputs and outputs; a result of -1 leaves the function.\<close>

fun emit_each :: "(bytes \<Rightarrow> nat \<Rightarrow> 'a \<Rightarrow> (bytes \<times> nat) option) \<Rightarrow> bytes \<Rightarrow> nat \<Rightarrow> nat \<Rightarrow> 'a list \<Rightarrow> (bytes \<times> nat option) option" where
  "emit_each e data maxlen offset [] = Some (data, Some offset)"
| "emit_each e data maxlen offset (x # xs) =
     do { (data, offset) \<leftarrow> e data offset x;
          if offset > maxlen then Some (data, None) else emit_each e data maxlen offset xs }"

fun decode_each :: "(bytes \<Rightarrow> int \<Rightarrow> int \<Rightarrow> ('a option \<times> int) option) \<Rightarrow> bytes \<Rightarrow> int \<Rightarrow> nat \<Rightarrow> int \<Rightarrow> ('a list option \<times> int) option" where
  "decode_each d data len 0 offset = Some (Some [], offset)"
| "decode_each d data len (Suc n) offset =
     do { (x, offset) \<leftarrow> d data offset len;
          case x of
            None \<Rightarrow> Some (None, offset)
          | Some x \<Rightarrow> do { (xs, offset) \<leftarrow> decode_each d data len n offset;
                           Some (map_option (\<lambda>xs. x # xs) xs, offset) } }"

definition emit_cointxdata :: "bytes \<Rightarrow> nat \<Rightarrow> cointx_info \<Rightarrow> bool \<Rightarrow> (bytes \<times> int) option" where
  "emit_cointxdata data maxlen cointx oldtx =
     do { (data, offset) \<leftarrow> emit_uint32 data 0 (version cointx);
          (data, offset) \<leftarrow> (if \<not> oldtx then emit_uint32 data offset (timestamp cointx) else Some (data, offset));
          (data, offset) \<leftarrow> put_at data offset (hcalc_varint (of_nat (length (inputs cointx))));
          (data, off) \<leftarrow> emit_each emit_cointx_input data maxlen offset (inputs cointx);
          case off of
            None \<Rightarrow> Some (data, - 1)
          | Some offset \<Rightarrow> do {
          (data, offset) \<leftarrow> put_at data offset (hcalc_varint (of_nat (length (outputs cointx))));
          (data, off) \<leftarrow> emit_each emit_cointx_output data maxlen offset (outputs cointx);
          case off of
            None \<Rightarrow> Some (data, - 1)
          | Some offset \<Rightarrow> do {
          (data, offset) \<leftarrow> emit_uint32 data offset (nlocktime cointx);
          Some (data, int offset) } } }"

text \<open>
  \<^verbatim>\<open>_emit_cointx\<close>: the text and the return value. A failed \<^verbatim>\<open>emit_cointxdata\<close> (offset -1) passes
  the length test and makes \<^verbatim>\<open>init_hexbytes_noT\<close> write in front of \<open>hexstr\<close>.
\<close>

definition emit_cointx_hex :: "nat \<Rightarrow> cointx_info \<Rightarrow> bool \<Rightarrow> (string \<times> int) option" where
  "emit_cointx_hex len cointx oldtx =
     do { (data, offset) \<leftarrow> emit_cointxdata (replicate len 0) len cointx oldtx;
          if offset < int len div 2 - 1
          then if offset < 0 then None else Some (init_hexbytes_noT (take (nat offset) data), offset)
          else Some ([], - 1) }"

text \<open>\<^verbatim>\<open>emit_cointx\<close> with SHA-256 as the argument \<open>sha\<close>; the last component is the hash, when asked for.\<close>

definition emit_cointx :: "(bytes \<Rightarrow> bytes) \<Rightarrow> bytes \<Rightarrow> nat \<Rightarrow> cointx_info \<Rightarrow> bool \<Rightarrow> u32 \<Rightarrow> (bytes \<times> int \<times> bytes option) option" where
  "emit_cointx sha data mx cointx oldtx hashtype =
     do { (data, offset) \<leftarrow> emit_cointxdata data mx cointx oldtx;
          if offset > int mx \<or> offset < 0 then Some (data, - 1, None)
          else if hashtype \<noteq> 0 then do {
            (data, fin) \<leftarrow> emit_uint32 data (nat offset) hashtype;
            Some (data, offset, Some (sha (sha (take fin data)))) }
          else Some (data, offset, None) }"

text \<open>Re-encoding what was decoded; two extra zeros at the end of the text are cut off.\<close>

definition validate_decoderawtransaction :: "string \<Rightarrow> cointx_info \<Rightarrow> bool \<Rightarrow> (string \<times> bool) option" where
  "validate_decoderawtransaction hexstr cointx oldtx =
     do { (checkstr, _) \<leftarrow> emit_cointx_hex (length hexstr * 2) cointx oldtx;
          if checkstr = hexstr then Some (hexstr, True)
          else let hlen = length hexstr in
            if length checkstr + 2 = hlen \<and> hexstr ! (hlen - 1) = hexstr ! (hlen - 2) \<and> hexstr ! (hlen - 1) = CHR ''0''
            then Some (take (hlen - 2) hexstr, False)
            else Some (hexstr, False) }"

text \<open>
  \<^verbatim>\<open>_decode_rawtransaction\<close>; \<open>stack\<close> is the initial content of the local array \<open>data\<close> of
  8192 bytes. The result is the transaction, or no transaction for the null pointer, and the
  text, which the final validation may shorten.
\<close>

definition decode_rawtransaction :: "bytes \<Rightarrow> string \<Rightarrow> bool \<Rightarrow> (cointx_info option \<times> string) option" where
  "decode_rawtransaction stack hexstr oldtx =
     (let len = length hexstr in
      if len \<ge> 2 * 8192 - 1 \<or> \<not> is_hexstr hexstr \<or> odd len then Some (None, hexstr)
      else do {
        let len = len div 2;
        (bs, _) \<leftarrow> decode_hex len hexstr;
        let data = buf_write 0 bs stack;
        (ver, offset) \<leftarrow> decode_uint32 data 0 (int len);
        (ts, offset) \<leftarrow> (if \<not> oldtx then decode_uint32 data offset (int len) else Some (0, offset));
        (numinputs, offset) \<leftarrow> hdecode_varint data offset (int len);
        if numinputs > of_nat MAX_COINTX_INPUTS then Some (None, hexstr) else do {
        (vins, offset) \<leftarrow> decode_each decode_vin data (int len) (unat numinputs) offset;
        case vins of
          None \<Rightarrow> Some (None, hexstr)
        | Some vins \<Rightarrow> do {
        (numoutputs, offset) \<leftarrow> hdecode_varint data offset (int len);
        if numoutputs > of_nat MAX_COINTX_OUTPUTS then Some (None, hexstr) else do {
        (vouts, offset) \<leftarrow> decode_each decode_vout data (int len) (unat numoutputs) offset;
        case vouts of
          None \<Rightarrow> Some (None, hexstr)
        | Some vouts \<Rightarrow> do {
        (lock, offset) \<leftarrow> decode_uint32 data offset (int len);
        let cointx = \<lparr>version = ver, timestamp = ts, inputs = vins, outputs = vouts, nlocktime = lock\<rparr>;
        (hexstr, _) \<leftarrow> validate_decoderawtransaction hexstr cointx oldtx;
        Some (Some cointx, hexstr) } } } } })"

section \<open>Facts on buffers and integers\<close>

lemma buf_write_append:
  "off + length a + length b \<le> length data \<Longrightarrow>
     buf_write (off + length a) b (buf_write off a data) = buf_write off (a @ b) data"
  by (rule nth_equalityI) (auto simp: nth_buf_write nth_append)

lemma put_put:
  "do { (data, offset) \<leftarrow> put_at data offset a; put_at data offset b } = put_at data offset (a @ b)"
  by (auto simp: put_at_def buf_write_append add.assoc)

lemma put_put_bind:
  "do { (data, offset) \<leftarrow> put_at data offset a; (data, offset) \<leftarrow> put_at data offset b; f data offset }
     = do { (data, offset) \<leftarrow> put_at data offset (a @ b); f data offset }"
  by (auto simp: put_at_def buf_write_append add.assoc)

text \<open>The buffer holds \<open>bs\<close> at \<open>off\<close>.\<close>

definition holds :: "bytes \<Rightarrow> nat \<Rightarrow> bytes \<Rightarrow> bool" where
  "holds data off bs \<longleftrightarrow> off + length bs \<le> length data \<and> take (length bs) (drop off data) = bs"

lemma holds_append: "holds data off (a @ b) \<longleftrightarrow> holds data off a \<and> holds data (off + length a) b"
proof -
  have "take (length (a @ b)) (drop off data) = take (length a) (drop off data) @ take (length b) (drop (off + length a) data)"
    by (simp add: take_add drop_drop add.commute)
  moreover have "length (take (length a) (drop off data)) = length a" if "off + (length a + length b) \<le> length data"
    using that by simp
  ultimately show ?thesis unfolding holds_def by (auto simp: add.assoc append_eq_append_conv simp del: length_take)
qed

lemma holds_get: "holds data off bs \<Longrightarrow> n = length bs \<Longrightarrow> get_at data (int off) n = Some bs"
  by (simp add: holds_def get_at_def)

lemma holds_buf_write: "off + length bs \<le> length data \<Longrightarrow> holds (buf_write off bs data) off bs"
  by (simp add: holds_def buf_write_slice)

lemma length_le_put [simp]: "length (le_put n x) = n"
  by (induction n x rule: le_put.induct) simp_all

lemma le_get_Cons: "le_get (b # bs) = push_bit 8 (le_get bs) OR ucast b"
  by (simp add: le_get_def)

lemma le_get_put: "le_get (le_put n x) = take_bit (8 * n) (x :: 'a::len word)"
proof (induction n x rule: le_put.induct)
  case (1 x)
  then show ?case by (simp add: le_get_def)
next
  case (2 n x)
  have m: "(0xff :: 'a word) = mask 8" by (simp add: mask_eq_exp_minus_1)
  show ?case unfolding le_put.simps le_get_Cons 2 m
  proof (rule bit_word_eqI)
    fix j assume j: "j < LENGTH('a)"
    show "bit (push_bit 8 (take_bit (8 * n) (drop_bit 8 x)) OR ucast (ucast (x AND mask 8) :: u8)) j
        = bit (take_bit (8 * Suc n) x) j"
      using j by (cases "j < 8") (auto simp: bit_simps)
  qed
qed

lemma decode_uint32_ok:
  assumes "holds data off (le_put 4 x)" "int off + 4 \<le> len"
  shows "decode_uint32 data (int off) len = Some (x, int off + 4)"
  using holds_get [OF assms(1)] assms(2) le_get_put [of 4 x] by (simp add: decode_uint32_def take_bit_word_eq_self)

lemma length_varint: "length (hcalc_varint x) \<in> {1, 3, 5, 9}"
  by (simp add: hcalc_varint_def)

lemma unat_ucast_small:
  assumes "unat x < 2 ^ LENGTH('b)"
  shows "unat (ucast (x :: 'a::len word) :: 'b::len word) = unat x"
  using assms by (simp add: unsigned_ucast_eq take_bit_nat_eq_self)

lemma ucast_down_up:
  assumes "unat x < 2 ^ LENGTH('b)"
  shows "ucast (ucast (x :: 'a::len word) :: 'b::len word) = x"
proof -
  have "unat (ucast x :: 'b word) < 2 ^ LENGTH('a)"
    using unat_ucast_small [OF assms] unsigned_less [of x, where ?'a = nat] by simp
  then show ?thesis using unat_ucast_small [of "ucast x :: 'b word", where ?'b = 'a] unat_ucast_small [OF assms]
    by (simp add: word_unat_eq_iff)
qed

lemma le_put_nth: "i < n \<Longrightarrow> le_put n (x :: 'a::len word) ! i = ucast (drop_bit (8 * i) x)"
proof (induction n x arbitrary: i rule: le_put.induct)
  case (2 n x)
  have m: "(0xff :: 'a word) = mask 8" by (simp add: mask_eq_exp_minus_1)
  have "ucast (x AND 0xff) = (ucast x :: u8)"
    unfolding m by (rule bit_word_eqI) (auto simp: bit_simps dest: bit_imp_le_length)
  then show ?case using 2 by (cases i) (auto simp: nth_Cons drop_bit_drop_bit add.commute)
qed simp

lemma le_put_ucast:
  assumes "8 * n \<le> LENGTH('b)"
  shows "le_put n (ucast (x :: 'a::len word) :: 'b::len word) = le_put n x"
proof (rule nth_equalityI)
  fix i assume "i < length (le_put n (ucast x :: 'b word))"
  then have i: "i < n" by simp
  show "le_put n (ucast x :: 'b word) ! i = le_put n x ! i"
    unfolding le_put_nth [OF i] using i assms by (intro bit_word_eqI) (auto simp: bit_simps)
qed simp

lemma le_get_ucast:
  fixes x :: u64
  assumes "unat x < 2 ^ (8 * n)" "8 * n \<le> LENGTH('b)"
  shows "le_get (le_put n (ucast x :: 'b::len word)) = x"
proof -
  have "le_get (le_put n (ucast x :: 'b word)) = take_bit (8 * n) x"
    unfolding le_put_ucast [OF assms(2)] by (rule le_get_put)
  also have "\<dots> = x" using assms(1) by (simp add: word_unat_eq_iff unsigned_take_bit_eq take_bit_nat_eq_self)
  finally show ?thesis .
qed

lemma varint_ok:
  assumes "holds data off (hcalc_varint x)" "int (off + length (hcalc_varint x)) \<le> len"
  shows "hdecode_varint data (int off) len = Some (x, int (off + length (hcalc_varint x)))"
proof -
  have wide: "hdecode_varint data (int off) len = Some (x, int (off + length (hcalc_varint x)))"
    if "hcalc_varint x = c # bs" "(c, length bs) \<in> {(0xfd, 2), (0xfe, 4), (0xff, 8)}" "le_get bs = x" for c bs
  proof -
    have h: "holds data off [c]" "holds data (Suc off) bs"
      using assms(1) holds_append [of data off "[c]" bs] that(1) by auto
    have "get_at data (int off) 1 = Some [c]" "get_at data (int off + 1) (length bs) = Some bs"
      using holds_get [OF h(1)] holds_get [OF h(2) refl] by (auto simp: add.commute)
    then show ?thesis using assms(2) that by (auto simp: hdecode_varint_def Let_def)
  qed
  consider (byte) "x < 0xfd" | (u16) "\<not> x < 0xfd" "x \<le> 0xffff" | (u32) "\<not> x \<le> 0xffff" "x \<le> 0xffffffff" | (u64) "\<not> x \<le> 0xffffffff"
    by blast
  then show ?thesis
  proof cases
    case byte
    then have n: "unat x < 253" by (simp add: word_less_nat_alt)
    have m: "(0xff :: u64) = mask 8" by (simp add: mask_eq_exp_minus_1)
    have "ucast (x AND 0xff) = (ucast x :: u8)" unfolding m by (rule bit_word_eqI) (simp add: bit_simps)
    then have c: "hcalc_varint x = [ucast x]" using byte by (simp add: hcalc_varint_def)
    have "unat (ucast x :: u8) = unat x" using n by (intro unat_ucast_small) simp
    then have "ucast x \<notin> {0xfd, 0xfe, 0xff :: u8}" using n by (auto simp: word_unat_eq_iff)
    moreover have "ucast (ucast x :: u8) = x" using n by (intro ucast_down_up) simp
    moreover have "get_at data (int off) 1 = Some [ucast x]" using holds_get [OF assms(1)] c by simp
    ultimately show ?thesis using assms(2) c by (auto simp: hdecode_varint_def Let_def)
  next
    case u16
    then have "unat x < 2 ^ (8 * 2)" by (simp add: word_le_nat_alt)
    then show ?thesis using wide [of "0xfd" "le_put 2 (ucast x :: u16)"] u16 le_get_ucast [of x 2, where ?'b = 16]
      by (simp add: hcalc_varint_def)
  next
    case u32
    then have "unat x < 2 ^ (8 * 4)" "\<not> x < 0xfd" by (auto simp: word_le_nat_alt word_less_nat_alt)
    then show ?thesis using wide [of "0xfe" "le_put 4 (ucast x :: u32)"] u32 le_get_ucast [of x 4, where ?'b = 32]
      by (simp add: hcalc_varint_def)
  next
    case u64
    then have "\<not> x \<le> 0xffff" "\<not> x < 0xfd" by (auto simp: word_le_nat_alt word_less_nat_alt)
    then show ?thesis using wide [of "0xff" "le_put 8 x"] u64 le_get_put [of 8 x]
      by (simp add: hcalc_varint_def take_bit_word_eq_self)
  qed
qed

section \<open>The wire format\<close>

text \<open>Text that prints bytes, and the bytes.\<close>

definition hex_ok :: "string \<Rightarrow> bool" where
  "hex_ok s \<longleftrightarrow> (s = [] \<or> is_hexstr s) \<and> even (length s)"

definition hexdec :: "string \<Rightarrow> bytes" where
  "hexdec s = (if s = [] then [] else fst (the (decode_hex (length s div 2) s)))"

lemma hex_ok_facts:
  assumes "hex_ok s"
  shows "length (hexdec s) = length s div 2" "init_hexbytes_noT (hexdec s) = s"
    "s \<noteq> [] \<Longrightarrow> decode_hex (length s div 2) s = Some (hexdec s, length s div 2)"
proof -
  have "length (hexdec s) = length s div 2 \<and> init_hexbytes_noT (hexdec s) = s
      \<and> (s \<noteq> [] \<longrightarrow> decode_hex (length s div 2) s = Some (hexdec s, length s div 2))"
  proof (cases "s = []")
    case True
    then show ?thesis by (simp add: hexdec_def init_hexbytes_noT_def)
  next
    case False
    then have "is_hexstr s" "length s = 2 * (length s div 2)" using assms by (simp_all add: hex_ok_def)
    from hexbytes_decode_hex [OF this] obtain bs where "decode_hex (length s div 2) s = Some (bs, length s div 2)"
      "length bs = length s div 2" "init_hexbytes_noT bs = s" by blast
    then show ?thesis using False by (simp add: hexdec_def)
  qed
  then show "length (hexdec s) = length s div 2" "init_hexbytes_noT (hexdec s) = s"
    "s \<noteq> [] \<Longrightarrow> decode_hex (length s div 2) s = Some (hexdec s, length s div 2)" by auto
qed

definition wf_input :: "cointx_input \<Rightarrow> bool" where
  "wf_input vin \<longleftrightarrow> hex_ok (txidstr (tx vin)) \<and> length (txidstr (tx vin)) = 64
     \<and> hex_ok (sigs vin) \<and> length (sigs vin) < SIGS_SIZE"

definition wf_output :: "rawvout \<Rightarrow> bool" where
  "wf_output vo \<longleftrightarrow> hex_ok (script vo) \<and> length (script vo) < SCRIPT_SIZE"

text \<open>A length in front of the bytes.\<close>

definition wire_blob :: "string \<Rightarrow> bytes" where
  "wire_blob s = hcalc_varint (of_nat (length s div 2)) @ hexdec s"

definition wire_input :: "cointx_input \<Rightarrow> bytes" where
  "wire_input vin = rev (hexdec (txidstr (tx vin))) @ le_put 4 (ucast (vout (tx vin)) :: u32)
     @ wire_blob (sigs vin) @ le_put 4 (sequence vin)"

definition wire_output :: "rawvout \<Rightarrow> bytes" where
  "wire_output vo = le_put 4 (ucast (amount vo) :: u32) @ le_put 4 (ucast (drop_bit 32 (amount vo)) :: u32)
     @ wire_blob (script vo)"

lemma emit_hex_wire:
  assumes "hex_ok s"
  shows "emit_hex data offset s = put_at data offset (wire_blob s)"
proof (cases "length s div 2 = 0")
  case True
  then have "hexdec s = []" using hex_ok_facts(1) [OF assms] by simp
  then show ?thesis using True by (auto simp: emit_hex_def wire_blob_def split: Option.bind_split)
next
  case False
  then have "s \<noteq> []" by auto
  have "do { (data, _) \<leftarrow> put_at data offset (hexdec s); Some (data, offset + length s div 2) }
      = put_at data offset (hexdec s)" for data offset
    using hex_ok_facts(1) [OF assms] by (auto simp: put_at_def)
  then show ?thesis
    using False hex_ok_facts(3) [OF assms \<open>s \<noteq> []\<close>] by (simp add: emit_hex_def wire_blob_def put_put)
qed

lemma emit_input_wire:
  assumes "wf_input vin"
  shows "emit_cointx_input data offset vin = put_at data offset (wire_input vin)"
proof -
  let ?t = "hexdec (txidstr (tx vin))"
  have "txidstr (tx vin) \<noteq> []" using assms by (auto simp: wf_input_def)
  then have "decode_hex 32 (txidstr (tx vin)) = Some (?t, 32)" "length ?t = 32"
    using hex_ok_facts [of "txidstr (tx vin)"] assms by (auto simp: wf_input_def)
  moreover have "hex_ok (sigs vin)" using assms by (simp add: wf_input_def)
  ultimately show ?thesis
    by (simp only: emit_cointx_input_def emit_uint32_def emit_hex_wire put_put put_put_bind wire_input_def
        bind.bind_lunit case_prod_conv length_rev order.irrefl if_False append_assoc)
qed

lemma emit_output_wire:
  "wf_output vo \<Longrightarrow> emit_cointx_output data offset vo = put_at data offset (wire_output vo)"
  by (simp only: wf_output_def emit_cointx_output_def emit_uint32_def emit_hex_wire put_put put_put_bind
      wire_output_def append_assoc)

lemma emit_each_wire:
  assumes "\<And>data offset x. x \<in> set xs \<Longrightarrow> e data offset x = put_at data offset (w x)"
    and "offset + length (concat (map w xs)) \<le> maxlen" "maxlen \<le> length data"
  shows "emit_each e data maxlen offset xs
    = Some (buf_write offset (concat (map w xs)) data, Some (offset + length (concat (map w xs))))"
  using assms
proof (induction xs arbitrary: data offset)
  case Nil
  then show ?case by (simp add: buf_write_def)
next
  case (Cons x xs)
  let ?r = "concat (map w xs)"
  have "e data offset x = Some (buf_write offset (w x) data, offset + length (w x))"
    using Cons(2) [of x data offset] Cons(3,4) by (simp add: put_at_def)
  moreover have "emit_each e (buf_write offset (w x) data) maxlen (offset + length (w x)) xs
      = Some (buf_write (offset + length (w x)) ?r (buf_write offset (w x) data), Some (offset + length (w x) + length ?r))"
    using Cons(2-4) by (intro Cons.IH) auto
  ultimately show ?case using Cons(3,4) by (simp add: buf_write_append add.assoc)
qed

definition wire_tx :: "cointx_info \<Rightarrow> bool \<Rightarrow> bytes" where
  "wire_tx t oldtx = le_put 4 (version t) @ (if oldtx then [] else le_put 4 (timestamp t))
     @ hcalc_varint (of_nat (length (inputs t))) @ concat (map wire_input (inputs t))
     @ hcalc_varint (of_nat (length (outputs t))) @ concat (map wire_output (outputs t))
     @ le_put 4 (nlocktime t)"

definition wf_tx :: "cointx_info \<Rightarrow> bool" where
  "wf_tx t \<longleftrightarrow> list_all wf_input (inputs t) \<and> length (inputs t) \<le> MAX_COINTX_INPUTS
     \<and> list_all wf_output (outputs t) \<and> length (outputs t) \<le> MAX_COINTX_OUTPUTS"

lemma blob_ok:
  assumes "hex_ok s" "length s < n" "n < 2 ^ 20"
    and "holds data off (wire_blob s)" "int (off + length (wire_blob s)) \<le> len"
  defines "k \<equiv> length s div 2" and "l \<equiv> length (hcalc_varint (of_nat (length s div 2)))"
  shows "hdecode_varint data (int off) len = Some (of_nat k, int off + int l)"
    and "unat (of_nat k :: u64) = k" "get_at data (int off + int l) k = Some (hexdec s)"
    and "\<not> of_nat k > (of_nat n :: u64)" "length (wire_blob s) = l + k" "2 * k < n"
proof -
  have k: "k < 2 ^ 20" "2 * k < n" using assms(2,3) by (simp_all add: k_def)
  have len: "length (hexdec s) = k" using hex_ok_facts(1) [OF assms(1)] by (simp add: k_def)
  have h: "holds data off (hcalc_varint (of_nat k))" "holds data (off + l) (hexdec s)"
    using assms(4) unfolding wire_blob_def holds_append by (simp_all add: k_def l_def)
  show w: "length (wire_blob s) = l + k" by (simp add: wire_blob_def len l_def)
  show "hdecode_varint data (int off) len = Some (of_nat k, int off + int l)"
    using varint_ok [OF h(1), of len] assms(5) w by (simp add: l_def k_def)
  show u: "unat (of_nat k :: u64) = k" using k by (simp add: unat_of_nat)
  show "get_at data (int off + int l) k = Some (hexdec s)" using holds_get [OF h(2)] len by simp
  have "unat (of_nat n :: u64) = n" using assms(3) by (simp add: unat_of_nat)
  then show "\<not> of_nat k > (of_nat n :: u64)" using u k by (simp add: word_less_nat_alt)
  show "2 * k < n" by (rule k(2))
qed

lemma decode_vin_ok:
  assumes "wf_input vin" "holds data off (wire_input vin)" "int (off + length (wire_input vin)) \<le> len"
  shows "decode_vin data (int off) len = Some (Some vin, int (off + length (wire_input vin)))"
proof -
  let ?t = "hexdec (txidstr (tx vin))"
  define b where "b = length (wire_blob (sigs vin))"
  have t: "length ?t = 32" "init_hexbytes_noT ?t = txidstr (tx vin)"
    and sg: "hex_ok (sigs vin)" "length (sigs vin) < SIGS_SIZE" "SIGS_SIZE < 2 ^ 20"
    using assms(1) hex_ok_facts [of "txidstr (tx vin)"] by (auto simp: wf_input_def SIGS_SIZE_def)
  have len: "length (wire_input vin) = 40 + b" by (simp add: wire_input_def t b_def)
  have h: "holds data off (rev ?t)" "holds data (off + 32) (le_put 4 (ucast (vout (tx vin)) :: u32))"
    "holds data (off + 36) (wire_blob (sigs vin))" "holds data (off + 36 + b) (le_put 4 (sequence vin))"
    using assms(2) unfolding wire_input_def holds_append by (simp_all add: t b_def add.assoc)
  have rd: "get_at data (int off) 32 = Some (rev ?t)" using holds_get [OF h(1)] t by simp
  have v: "decode_uint32 data (int off + 32) len = Some (ucast (vout (tx vin)), int off + 36)"
    using decode_uint32_ok [OF h(2), of len] assms(3) len by simp
  have sq: "decode_uint32 data (int off + 36 + int b) len = Some (sequence vin, int off + 36 + int b + 4)"
    using decode_uint32_ok [OF h(4), of len] assms(3) len by simp
  have in_len: "int (off + 36 + length (wire_blob (sigs vin))) \<le> len" using assms(3) len by (simp add: b_def)
  note blob = blob_ok [OF sg h(3) in_len]
  have up: "ucast (ucast (vout (tx vin)) :: u32) = vout (tx vin)"
    using unsigned_less [of "vout (tx vin)", where ?'a = nat] by (intro ucast_down_up) simp
  show ?thesis
    using rd v sq blob sg(2) up t(2) hex_ok_facts(2) [OF sg(1)]
    by (simp add: decode_vin_def len b_def Let_def add.assoc)
qed

lemma decode_vout_ok:
  assumes "wf_output vo" "holds data off (wire_output vo)" "int (off + length (wire_output vo)) \<le> len"
  shows "decode_vout data (int off) len = Some (Some vo, int (off + length (wire_output vo)))"
proof -
  define b where "b = length (wire_blob (script vo))"
  have sc: "hex_ok (script vo)" "length (script vo) < SCRIPT_SIZE" "SCRIPT_SIZE < 2 ^ 20"
    using assms(1) by (auto simp: wf_output_def SCRIPT_SIZE_def)
  have len: "length (wire_output vo) = 8 + b" by (simp add: wire_output_def b_def)
  have h: "holds data off (le_put 4 (ucast (amount vo) :: u32))"
    "holds data (off + 4) (le_put 4 (ucast (drop_bit 32 (amount vo)) :: u32))" "holds data (off + 8) (wire_blob (script vo))"
    using assms(2) unfolding wire_output_def holds_append by (simp_all add: add.assoc)
  have lo: "decode_uint32 data (int off) len = Some (ucast (amount vo), int off + 4)"
    using decode_uint32_ok [OF h(1), of len] assms(3) len by simp
  have hi: "decode_uint32 data (int off + 4) len = Some (ucast (drop_bit 32 (amount vo)), int off + 8)"
    using decode_uint32_ok [OF h(2), of len] assms(3) len by simp
  have in_len: "int (off + 8 + length (wire_blob (script vo))) \<le> len" using assms(3) len by (simp add: b_def)
  note blob = blob_ok [OF sc h(3) in_len]
  have "push_bit 32 (ucast (ucast (drop_bit 32 (amount vo)) :: u32)) OR ucast (ucast (amount vo) :: u32) = amount vo"
    by (rule bit_word_eqI) (auto simp: bit_simps)
  then show ?thesis
    using lo hi blob hex_ok_facts(2) [OF sc(1)] by (simp add: decode_vout_def len b_def Let_def add.assoc)
qed

lemma decode_each_ok:
  assumes "\<And>x off. x \<in> set xs \<Longrightarrow> holds data off (w x) \<Longrightarrow> int (off + length (w x)) \<le> len \<Longrightarrow>
      d data (int off) len = Some (Some x, int (off + length (w x)))"
    and "holds data off (concat (map w xs))" "int (off + length (concat (map w xs))) \<le> len"
  shows "decode_each d data len (length xs) (int off) = Some (Some xs, int (off + length (concat (map w xs))))"
  using assms
proof (induction xs arbitrary: off)
  case (Cons x xs)
  have h: "holds data off (w x)" "holds data (off + length (w x)) (concat (map w xs))"
    using Cons(3) by (simp_all add: holds_append)
  have l: "int (off + length (w x)) \<le> len" "int (off + length (w x) + length (concat (map w xs))) \<le> len"
    using Cons(4) by simp_all
  have "d data (int off) len = Some (Some x, int (off + length (w x)))"
    using Cons(2) h(1) l(1) by simp
  moreover have "decode_each d data len (length xs) (int (off + length (w x)))
      = Some (Some xs, int (off + length (w x) + length (concat (map w xs))))"
    using Cons(2) h(2) l(2) by (intro Cons.IH) auto
  ultimately show ?case by (simp add: add.assoc)
qed simp

lemma emit_cointxdata_wire:
  assumes "wf_tx t" "length (wire_tx t oldtx) \<le> maxlen" "maxlen \<le> length data"
  shows "emit_cointxdata data maxlen t oldtx
    = Some (buf_write 0 (wire_tx t oldtx) data, int (length (wire_tx t oldtx)))"
proof -
  let ?a = "le_put 4 (version t) @ (if oldtx then [] else le_put 4 (timestamp t)) @ hcalc_varint (of_nat (length (inputs t)))"
  let ?i = "concat (map wire_input (inputs t))" and ?o = "concat (map wire_output (outputs t))"
  let ?n = "hcalc_varint (of_nat (length (outputs t)))"
  have l: "length ?a + length ?i + length ?n + length ?o + 4 = length (wire_tx t oldtx)" by (simp add: wire_tx_def)
  have head: "do { (data, offset) \<leftarrow> emit_uint32 data 0 (version t);
      (data, offset) \<leftarrow> (if \<not> oldtx then emit_uint32 data offset (timestamp t) else Some (data, offset));
      (data, offset) \<leftarrow> put_at data offset (hcalc_varint (of_nat (length (inputs t)))); f data offset }
    = f (buf_write 0 ?a data) (length ?a)" for f
  proof -
    have "do { (data, offset) \<leftarrow> emit_uint32 data 0 (version t);
        (data, offset) \<leftarrow> (if \<not> oldtx then emit_uint32 data offset (timestamp t) else Some (data, offset));
        (data, offset) \<leftarrow> put_at data offset (hcalc_varint (of_nat (length (inputs t)))); f data offset }
      = do { (data, offset) \<leftarrow> put_at data 0 ?a; f data offset }"
      by (cases oldtx) (simp_all add: emit_uint32_def put_put_bind)
    also have "put_at data 0 ?a = Some (buf_write 0 ?a data, length ?a)"
      using assms(2,3) l unfolding put_at_def by simp
    finally show ?thesis by simp
  qed
  have ins: "emit_each emit_cointx_input (buf_write 0 ?a data) maxlen (length ?a) (inputs t)
      = Some (buf_write 0 (?a @ ?i) data, Some (length (?a @ ?i)))"
    using emit_each_wire [of "inputs t" emit_cointx_input wire_input "length ?a" maxlen "buf_write 0 ?a data"]
      emit_input_wire assms l buf_write_append [of 0 ?a ?i data] by (simp add: wf_tx_def list_all_iff)
  have num: "put_at (buf_write 0 (?a @ ?i) data) (length (?a @ ?i)) ?n
      = Some (buf_write 0 (?a @ ?i @ ?n) data, length (?a @ ?i @ ?n))"
    using assms(2,3) l buf_write_append [of 0 "?a @ ?i" ?n data] by (simp add: put_at_def)
  have outs: "emit_each emit_cointx_output (buf_write 0 (?a @ ?i @ ?n) data) maxlen (length (?a @ ?i @ ?n)) (outputs t)
      = Some (buf_write 0 (?a @ ?i @ ?n @ ?o) data, Some (length (?a @ ?i @ ?n @ ?o)))"
    using emit_each_wire [of "outputs t" emit_cointx_output wire_output "length (?a @ ?i @ ?n)" maxlen "buf_write 0 (?a @ ?i @ ?n) data"]
      emit_output_wire assms l buf_write_append [of 0 "?a @ ?i @ ?n" ?o data] by (simp add: wf_tx_def list_all_iff)
  have lock: "put_at (buf_write 0 (?a @ ?i @ ?n @ ?o) data) (length (?a @ ?i @ ?n @ ?o)) (le_put 4 (nlocktime t))
      = Some (buf_write 0 (wire_tx t oldtx) data, length (wire_tx t oldtx))"
    using assms(2,3) l buf_write_append [of 0 "?a @ ?i @ ?n @ ?o" "le_put 4 (nlocktime t)" data]
    by (simp add: put_at_def wire_tx_def)
  show ?thesis unfolding emit_cointxdata_def head
    by (simp only: ins num outs lock emit_uint32_def bind.bind_lunit case_prod_conv option.case)
qed

lemma length_wire_tx: "length (wire_tx t oldtx) \<ge> 10"
  using length_varint [of "of_nat (length (inputs t))"] length_varint [of "of_nat (length (outputs t))"]
  by (auto simp: wire_tx_def)

lemma emit_cointx_hex_wire:
  assumes "wf_tx t" "length (wire_tx t oldtx) + 1 < len div 2"
  shows "emit_cointx_hex len t oldtx = Some (init_hexbytes_noT (wire_tx t oldtx), int (length (wire_tx t oldtx)))"
proof -
  let ?w = "wire_tx t oldtx"
  have "length ?w \<le> len" "int (length ?w) < int len div 2 - 1" using assms(2) by linarith+
  moreover have "take (length ?w) (buf_write 0 ?w (replicate len 0)) = ?w" by (simp add: buf_write_def)
  ultimately show ?thesis
    using emit_cointxdata_wire [OF assms(1), of oldtx len "replicate len 0"] by (simp add: emit_cointx_hex_def)
qed

lemma validate_wire:
  fixes oldtx :: bool
  assumes "wf_tx t"
  shows "validate_decoderawtransaction (init_hexbytes_noT (wire_tx t oldtx)) t oldtx
    = Some (init_hexbytes_noT (wire_tx t oldtx), True)"
  using emit_cointx_hex_wire [OF assms, of oldtx "length (init_hexbytes_noT (wire_tx t oldtx)) * 2"]
    length_wire_tx [of t oldtx] by (simp add: validate_decoderawtransaction_def)

lemma decode_wire:
  fixes oldtx :: bool
  assumes "wf_tx t" "oldtx \<longrightarrow> timestamp t = 0" "length (wire_tx t oldtx) < 8192" "length stack = 8192"
  shows "decode_rawtransaction stack (init_hexbytes_noT (wire_tx t oldtx)) oldtx
    = Some (Some t, init_hexbytes_noT (wire_tx t oldtx))"
proof -
  let ?w = "wire_tx t oldtx" and ?hex = "init_hexbytes_noT (wire_tx t oldtx)"
  let ?ts = "if oldtx then [] else le_put 4 (timestamp t)" and ?data = "buf_write 0 (wire_tx t oldtx) stack"
  let ?ni = "hcalc_varint (of_nat (length (inputs t)))" and ?i = "concat (map wire_input (inputs t))"
  let ?no = "hcalc_varint (of_nat (length (outputs t)))" and ?o = "concat (map wire_output (outputs t))"
  define n1 where "n1 = 4 + length ?ts"
  define n2 where "n2 = n1 + length ?ni"
  define n3 where "n3 = n2 + length ?i"
  define n4 where "n4 = n3 + length ?no"
  define n5 where "n5 = n4 + length ?o"
  have "?w \<noteq> []" using length_wire_tx [of t oldtx] by auto
  then have guard: "\<not> (length ?hex \<ge> 2 * 8192 - 1 \<or> \<not> is_hexstr ?hex \<or> odd (length ?hex))" "length ?hex div 2 = length ?w"
    and dec: "decode_hex (length ?w) ?hex = Some (?w, length ?w)"
    using assms(3) decode_hex_hexbytes [of ?w] by (auto simp: is_hexstr_hexbytes)
  have lw: "n5 + 4 = length ?w" by (simp add: n5_def n4_def n3_def n2_def n1_def wire_tx_def)
  have "holds ?data 0 ?w" using assms(3,4) by (intro holds_buf_write) simp
  then have h: "holds ?data 0 (le_put 4 (version t))" "holds ?data 4 ?ts" "holds ?data n1 ?ni" "holds ?data n2 ?i"
    "holds ?data n3 ?no" "holds ?data n4 ?o" "holds ?data n5 (le_put 4 (nlocktime t))"
    unfolding wire_tx_def holds_append by (simp_all add: n5_def n4_def n3_def n2_def n1_def add.assoc)
  have ver: "decode_uint32 ?data 0 (int (length ?w)) = Some (version t, 4)"
    using decode_uint32_ok [OF h(1)] lw by (simp add: n5_def n4_def n3_def n2_def n1_def flip: lw)
  have ts: "(if \<not> oldtx then decode_uint32 ?data 4 (int (length ?w)) else Some (0, 4)) = Some (timestamp t, int n1)"
    using decode_uint32_ok [of ?data 4 "timestamp t" "int (length ?w)"] h(2) assms(2) length_wire_tx [of t oldtx]
    by (cases oldtx) (simp_all add: n5_def n4_def n3_def n2_def n1_def flip: lw)
  have ni: "hdecode_varint ?data (int n1) (int (length ?w)) = Some (of_nat (length (inputs t)), int n2)"
    using varint_ok [OF h(3), of "int (length ?w)"] by (simp add: n5_def n4_def n3_def n2_def flip: lw)
  have no: "hdecode_varint ?data (int n3) (int (length ?w)) = Some (of_nat (length (outputs t)), int n4)"
    using varint_ok [OF h(5), of "int (length ?w)"] by (simp add: n5_def n4_def flip: lw)
  have i: "decode_each decode_vin ?data (int (length ?w)) (length (inputs t)) (int n2) = Some (Some (inputs t), int n3)"
    using decode_each_ok [OF decode_vin_ok h(4), of "int (length ?w)"] assms(1)
    by (simp add: wf_tx_def list_all_iff n5_def n4_def n3_def flip: lw)
  have o: "decode_each decode_vout ?data (int (length ?w)) (length (outputs t)) (int n4) = Some (Some (outputs t), int n5)"
    using decode_each_ok [OF decode_vout_ok h(6), of "int (length ?w)"] assms(1)
    by (simp add: wf_tx_def list_all_iff n5_def flip: lw)
  have lock: "decode_uint32 ?data (int n5) (int (length ?w)) = Some (nlocktime t, int (length ?w))"
    using decode_uint32_ok [OF h(7), of "int (length ?w)"] by (simp flip: lw)
  have cnt: "unat (of_nat (length (inputs t)) :: u64) = length (inputs t)"
    "unat (of_nat (length (outputs t)) :: u64) = length (outputs t)"
    "\<not> of_nat (length (inputs t)) > (of_nat MAX_COINTX_INPUTS :: u64)"
    "\<not> of_nat (length (outputs t)) > (of_nat MAX_COINTX_OUTPUTS :: u64)"
    using assms(1) by (simp_all add: wf_tx_def MAX_COINTX_INPUTS_def MAX_COINTX_OUTPUTS_def unat_of_nat word_less_nat_alt)
  note val = validate_wire [OF assms(1), of oldtx]
  have eta: "\<lparr>version = version t, timestamp = timestamp t, inputs = inputs t, outputs = outputs t, nlocktime = nlocktime t\<rparr> = t"
    by simp
  show ?thesis
    unfolding decode_rawtransaction_def Let_def if_not_P [OF guard(1)] guard(2)
    by (simp only: dec ver ts ni no i o lock cnt val bind.bind_lunit case_prod_conv option.case if_False eta)
qed

section \<open>Properties\<close>

text \<open>
  C4. Round trip of raw transactions: a transaction with at most 256 inputs and outputs,
  64-digit transaction ids and hexadecimal signatures and scripts within their arrays is
  encoded in the wire format, and decoding the text gives the transaction back, passes the
  re-encoding check of \<^verbatim>\<open>_validate_decoderawtransaction\<close> (the flag: the text of the
  decoded transaction is the text that was decoded) and leaves the text as it is. A timestamp
  is only carried by the format with \<open>oldtx = 0\<close>.
\<close>

theorem cointx_roundtrip:
  assumes "wf_tx t" "oldtx \<longrightarrow> timestamp t = 0"
    and "length (wire_tx t oldtx) < 8192" "length (wire_tx t oldtx) + 1 < len div 2" "length stack = 8192"
  shows "\<exists>hexstr. hexstr = init_hexbytes_noT (wire_tx t oldtx)
    \<and> emit_cointx_hex len t oldtx = Some (hexstr, int (length (wire_tx t oldtx)))
    \<and> decode_rawtransaction stack hexstr oldtx = Some (Some t, hexstr)
    \<and> validate_decoderawtransaction hexstr t oldtx = Some (hexstr, True)"
  using emit_cointx_hex_wire [OF assms(1,4)] decode_wire [OF assms(1,2,3,5)] validate_wire [OF assms(1)]
  by blast

definition witness_tx :: cointx_info where
  "witness_tx = \<lparr>version = 1, timestamp = 5,
     inputs = [\<lparr>tx = \<lparr>txidstr = replicate 64 CHR ''a'', vout = 3\<rparr>, sigs = ''00ff'', sequence = 0xffffffff\<rparr>],
     outputs = [\<lparr>script = ''76a9'', amount = 100000\<rparr>], nlocktime = 0\<rparr>"

lemma witness_tx_wf: "wf_tx witness_tx"
proof -
  have "list_all (\<lambda>c. unhex_digit c \<ge> 0) (replicate n CHR ''a'')" for n
    by (induction n) (simp_all add: unhex_digit_def)
  then show ?thesis
    by (simp add: wf_tx_def witness_tx_def wf_input_def wf_output_def hex_ok_def is_hexstr_def SIGS_SIZE_def SCRIPT_SIZE_def
        MAX_COINTX_INPUTS_def MAX_COINTX_OUTPUTS_def unhex_digit_def)
qed

lemma witness_tx_length: "length (wire_tx witness_tx False) = 68"
proof -
  have "hex_ok (replicate 64 CHR ''a'')" "hex_ok ''00ff''" "hex_ok ''76a9''"
    using witness_tx_wf by (simp_all add: wf_tx_def witness_tx_def wf_input_def wf_output_def)
  from this [THEN hex_ok_facts(1)] show ?thesis
    by (simp add: wire_tx_def witness_tx_def wire_input_def wire_output_def wire_blob_def hcalc_varint_def)
qed

theorem cointx_roundtrip_witness:
  "\<exists>hexstr. hexstr = init_hexbytes_noT (wire_tx witness_tx False)
    \<and> emit_cointx_hex 1000 witness_tx False = Some (hexstr, 68)
    \<and> decode_rawtransaction (replicate 8192 0) hexstr False = Some (Some witness_tx, hexstr)
    \<and> validate_decoderawtransaction hexstr witness_tx False = Some (hexstr, True)"
  using cointx_roundtrip [of witness_tx False 1000 "replicate 8192 0"] witness_tx_wf witness_tx_length
  by simp

text \<open>
  C35. The bound on a signature is in bytes while it is stored as text: an input that announces
  between 2048 and 4096 bytes of signature passes the check, and storing its digits runs over
  the end of the \<^verbatim>\<open>sigs\<close> array.
\<close>

theorem decode_vin_overflow:
  assumes "2048 \<le> n" "n \<le> 4096"
    and "holds data off (txid @ le_put 4 v @ hcalc_varint (of_nat n) @ sig)" "length txid = 32" "length sig = n"
    and "int (off + length (txid @ le_put 4 (v :: u32) @ hcalc_varint (of_nat n) @ sig)) \<le> len"
  shows "decode_vin data (int off) len = None"
proof -
  let ?l = "length (hcalc_varint (of_nat n))"
  have h: "holds data off txid" "holds data (off + 32) (le_put 4 v)" "holds data (off + 36) (hcalc_varint (of_nat n))"
    "holds data (off + 36 + ?l) sig"
    using assms(3,4) unfolding holds_append by (simp_all add: add.assoc)
  have n: "unat (of_nat n :: u64) = n" using assms(2) by (simp add: unat_of_nat)
  then have "\<not> of_nat n > (of_nat SIGS_SIZE :: u64)"
    using assms(2) by (simp add: SIGS_SIZE_def word_less_nat_alt)
  moreover have "get_at data (int off) 32 = Some txid" "get_at data (int off + 36 + int ?l) n = Some sig"
    using holds_get [OF h(1)] holds_get [OF h(4)] assms(4,5) by simp_all
  moreover have "decode_uint32 data (int off + 32) len = Some (v, int off + 36)"
    using decode_uint32_ok [OF h(2), of len] assms(4,6) by simp
  moreover have "hdecode_varint data (int off + 36) len = Some (of_nat n, int off + 36 + int ?l)"
    using varint_ok [OF h(3), of len] assms(4,6) by simp
  ultimately show ?thesis using assms(1) n by (simp add: decode_vin_def SIGS_SIZE_def)
qed

theorem decode_vin_overflow_witness:
  "decode_vin (replicate 32 0 @ le_put 4 (0 :: u32) @ hcalc_varint 2048 @ replicate 2048 0
     @ le_put 4 (0xffffffff :: u32)) 0 2091 = None"
proof -
  let ?p = "replicate 32 0 @ le_put 4 (0 :: u32) @ hcalc_varint (of_nat 2048) @ replicate 2048 0"
  have "length ?p = 2087" by (simp add: hcalc_varint_def)
  moreover have "holds (?p @ le_put 4 (0xffffffff :: u32)) 0 ?p" by (simp add: holds_def)
  ultimately show ?thesis
    using decode_vin_overflow [of 2048 "?p @ le_put 4 (0xffffffff :: u32)" 0 "replicate 32 0" 0
        "replicate 2048 0" 2091] by simp
qed

end
