(* ===== verification/WordBounds.thy ===== *)
theory WordBounds
  imports Prelude
begin

text \<open>
  Bounds on machine integers, for code that keeps its intermediate results below the width of
  their type: a word with the number it stands for and an upper bound of it. The rules
  propagate both through the arithmetic of the sources, an overflow being a side condition on
  the bounds alone.
\<close>

section \<open>Unsigned words\<close>

definition ubnd :: "'a::len word \<Rightarrow> nat \<Rightarrow> nat \<Rightarrow> bool" where
  "ubnd w n B \<longleftrightarrow> unat w = n \<and> n \<le> B"

named_theorems ubnd_rules \<open>propagation of bounds through unsigned arithmetic\<close>

lemma ubnd_unat: "ubnd w n B \<Longrightarrow> unat w = n"
  by (simp add: ubnd_def)

lemma ubnd_le: "ubnd w n B \<Longrightarrow> n \<le> B"
  by (simp add: ubnd_def)

lemma ubnd_weaken: "ubnd w n B \<Longrightarrow> B \<le> C \<Longrightarrow> ubnd w n C"
  by (simp add: ubnd_def)

lemma ubnd_self: "unat w \<le> B \<Longrightarrow> ubnd w (unat w) B"
  by (simp add: ubnd_def)

lemma ubnd_add [ubnd_rules]:
  fixes a b :: "'a::len word"
  assumes "ubnd a m A" "ubnd b n B" "A + B < 2 ^ LENGTH('a)"
  shows "ubnd (a + b) (m + n) (A + B)"
  using assms by (auto simp: ubnd_def unat_word_ariths)

lemma ubnd_mult [ubnd_rules]:
  fixes a b :: "'a::len word"
  assumes "ubnd a m A" "ubnd b n B" "A * B < 2 ^ LENGTH('a)"
  shows "ubnd (a * b) (m * n) (A * B)"
proof -
  have "m * n \<le> A * B" using assms by (auto simp: ubnd_def intro: mult_le_mono)
  with assms show ?thesis by (auto simp: ubnd_def unat_word_ariths)
qed

lemma ubnd_sub:
  fixes a b :: "'a::len word"
  assumes "ubnd a m A" "ubnd b n B" "B \<le> m"
  shows "ubnd (a - b) (m - n) A"
  using assms by (auto simp: ubnd_def unat_sub_if_size)

lemma ubnd_drop_bit [ubnd_rules]:
  "ubnd a m A \<Longrightarrow> ubnd (drop_bit k a) (m div 2 ^ k) (A div 2 ^ k)"
  by (auto simp: ubnd_def unat_drop_bit_eq drop_bit_eq_div [where 'a = nat] div_le_mono)

lemma ubnd_push_bit [ubnd_rules]:
  fixes a :: "'a::len word"
  assumes "ubnd a m A" "A * 2 ^ k < 2 ^ LENGTH('a)"
  shows "ubnd (push_bit k a) (m * 2 ^ k) (A * 2 ^ k)"
proof -
  have "m * 2 ^ k < 2 ^ LENGTH('a)"
    using assms by (metis le_less_trans mult_le_mono1 ubnd_def)
  with assms show ?thesis
    by (auto simp: ubnd_def unsigned_push_bit_eq push_bit_eq_mult [where 'a = nat] take_bit_nat_eq_self)
qed

lemma ubnd_and_mask:
  "ubnd a m A \<Longrightarrow> ubnd (a AND mask k) (m mod 2 ^ k) (2 ^ k - 1)"
proof -
  assume "ubnd a m A"
  moreover have "m mod 2 ^ k \<le> 2 ^ k - 1"
    using mod_less_divisor [of "2 ^ k" m] by (simp add: Suc_leI le_diff_conv2 less_eq_Suc_le)
  ultimately show ?thesis
    by (simp add: ubnd_def unsigned_take_bit_eq flip: take_bit_eq_mask take_bit_eq_mod)
qed

lemma ubnd_ucast [ubnd_rules]:
  fixes a :: "'a::len word"
  assumes "ubnd a m A" "A < 2 ^ LENGTH('b::len)"
  shows "ubnd (ucast a :: 'b word) m A"
  using assms by (auto simp: ubnd_def unsigned_ucast_eq take_bit_nat_eq_self)

lemma ubnd_ucast_up:
  fixes a :: "'a::len word"
  assumes "ubnd a m A" "LENGTH('a) \<le> LENGTH('b::len)"
  shows "ubnd (ucast a :: 'b word) m A"
proof -
  have "unat a < 2 ^ LENGTH('b)"
    using unsigned_less [of a] power_increasing [OF assms(2), of "2 :: nat"] by (rule less_le_trans) simp
  with assms(1) show ?thesis by (auto simp: ubnd_def unsigned_ucast_eq take_bit_nat_eq_self)
qed

lemma ubnd_numeral [ubnd_rules]:
  "numeral k < (2::nat) ^ LENGTH('a::len) \<Longrightarrow> ubnd (numeral k :: 'a word) (numeral k) (numeral k)"
  by (simp add: ubnd_def take_bit_nat_eq_self)

text \<open>An \<open>OR\<close> of words with no common bit is their sum.\<close>

lemma ubnd_or_disjoint:
  fixes a b :: "'a::len word"
  assumes a: "ubnd a m A" and b: "ubnd b (n * 2 ^ k) B" and le: "A < 2 ^ k"
  shows "ubnd (a OR b) (m + n * 2 ^ k) (A + B)"
proof -
  have "take_bit k m = m" using a le by (simp add: ubnd_def take_bit_nat_eq_self)
  then have "m AND push_bit k n = 0"
    by (intro bit_eqI) (metis bit_0_eq bit_and_iff bit_push_bit_iff bit_take_bit_iff bot_apply
        bot_bool_def leD)
  then have "m AND (n * 2 ^ k) = 0" by (simp add: push_bit_eq_mult)
  then have "m OR (n * 2 ^ k) = m + n * 2 ^ k" by (simp add: disjunctive_add_eq_or)
  with a b show ?thesis by (auto simp: ubnd_def unsigned_or_eq)
qed

section \<open>Signed words\<close>

definition sbnd :: "'a::len word \<Rightarrow> int \<Rightarrow> int \<Rightarrow> bool" where
  "sbnd w n B \<longleftrightarrow> sint w = n \<and> \<bar>n\<bar> \<le> B"

lemma sbnd_sint: "sbnd w n B \<Longrightarrow> sint w = n"
  by (simp add: sbnd_def)

lemma sbnd_le: "sbnd w n B \<Longrightarrow> \<bar>n\<bar> \<le> B"
  by (simp add: sbnd_def)

lemma sbnd_self: "\<bar>sint w\<bar> \<le> B \<Longrightarrow> sbnd w (sint w) B"
  by (simp add: sbnd_def)

lemma sbnd_weaken: "sbnd w n B \<Longrightarrow> B \<le> C \<Longrightarrow> sbnd w n C"
  by (simp add: sbnd_def)

lemma signed_take_bit_self: "\<bar>k\<bar> < 2 ^ n \<Longrightarrow> signed_take_bit n (k::int) = k"
  by (rule signed_take_bit_int_eq_self) auto

lemma sbnd_add:
  fixes a b :: "'a::len word"
  assumes "sbnd a m A" "sbnd b n B" "A + B < 2 ^ (LENGTH('a) - 1)"
  shows "sbnd (a + b) (m + n) (A + B)"
proof -
  have "\<bar>m + n\<bar> \<le> A + B" using assms by (auto simp: sbnd_def)
  with assms show ?thesis by (auto simp: sbnd_def sint_word_ariths signed_take_bit_self)
qed

lemma sbnd_diff:
  fixes a b :: "'a::len word"
  assumes "sbnd a m A" "sbnd b n B" "A + B < 2 ^ (LENGTH('a) - 1)"
  shows "sbnd (a - b) (m - n) (A + B)"
proof -
  have "\<bar>m - n\<bar> \<le> A + B" using assms by (auto simp: sbnd_def)
  with assms show ?thesis by (auto simp: sbnd_def sint_word_ariths signed_take_bit_self)
qed

lemma sint_diff_small:
  fixes a b :: "'a::len word"
  assumes "\<bar>sint a - sint b\<bar> < 2 ^ (LENGTH('a) - 1)"
  shows "sint (a - b) = sint a - sint b"
  using assms by (simp add: sint_word_ariths signed_take_bit_self)

lemma sbnd_mult:
  fixes a b :: "'a::len word"
  assumes "sbnd a m A" "sbnd b n B" "A * B < 2 ^ (LENGTH('a) - 1)"
  shows "sbnd (a * b) (m * n) (A * B)"
proof -
  have "\<bar>m\<bar> * \<bar>n\<bar> \<le> A * B" using assms by (intro mult_mono) (auto simp: sbnd_def)
  then have "\<bar>m * n\<bar> \<le> A * B" by (simp add: abs_mult)
  with assms show ?thesis by (auto simp: sbnd_def sint_word_ariths signed_take_bit_self)
qed

lemma sbnd_push_bit:
  fixes a :: "'a::len word"
  assumes "sbnd a m A" "A * 2 ^ k < 2 ^ (LENGTH('a) - 1)"
  shows "sbnd (push_bit k a) (m * 2 ^ k) (A * 2 ^ k)"
proof -
  have "\<bar>m * 2 ^ k\<bar> \<le> A * 2 ^ k" using assms by (simp add: abs_mult sbnd_def)
  with assms show ?thesis
    by (auto simp: sbnd_def signed_push_bit_eq push_bit_eq_mult [where 'a = int] signed_take_bit_self)
qed

lemma sbnd_signed_drop_bit:
  "sbnd a m A \<Longrightarrow> sint (signed_drop_bit k a) = m div 2 ^ k"
  by (simp add: sbnd_def sint_signed_drop_bit_eq drop_bit_eq_div)

lemma sbnd_numeral:
  "numeral k < (2::int) ^ (LENGTH('a::len) - 1) \<Longrightarrow> sbnd (numeral k :: 'a word) (numeral k) (numeral k)"
  by (simp add: sbnd_def signed_take_bit_self)

lemma sbnd_zero: "sbnd 0 0 0"
  by (simp add: sbnd_def)

lemma sint_pos:
  fixes w :: "'a::len word"
  assumes "\<not> bit w (LENGTH('a) - 1)"
  shows "sint w = int (unat w)"
  using assms by (auto intro!: bit_eqI simp: bit_sint_iff bit_of_nat_iff bit_unsigned_iff dest: bit_imp_le_length)

text \<open>Signed conversions to a type in which the value fits.\<close>

lemma sbnd_scast:
  fixes a :: "'a::len word"
  assumes "sbnd a m A" "A < 2 ^ (LENGTH('b::len) - 1)"
  shows "sbnd (scast a :: 'b word) m A"
  using assms by (auto simp: sbnd_def signed_scast_eq signed_take_bit_self)

end
