(* ===== verification/Field25519.thy ===== *)
theory Field25519
  imports WordBounds
begin

text \<open>
  The field of integers modulo \<open>2 ^ 255 - 19\<close> as the reference the two implementations of its
  arithmetic are measured against (\<^verbatim>\<open>src/plugins/utils/curve25519.c\<close> with five 51-bit limbs,
  \<^verbatim>\<open>src/plugins/utils/curve25519-donna.c\<close> with ten signed limbs), 32-byte numbers, and the
  interface of a field representation: what an implementation of the field operations has to
  promise for the reciprocal and the Montgomery ladder built on it to be right.
\<close>

section \<open>Congruence\<close>

definition p25519 :: int where
  "p25519 = 2 ^ 255 - 19"

definition feq :: "int \<Rightarrow> int \<Rightarrow> bool" where
  "feq a b \<longleftrightarrow> a mod p25519 = b mod p25519"

lemma p25519_pos: "0 < p25519"
  by (simp add: p25519_def)

lemma feq_refl [simp, intro!]: "feq a a"
  by (simp add: feq_def)

lemma feq_sym: "feq a b \<Longrightarrow> feq b a"
  by (simp add: feq_def)

lemma feq_trans [trans]: "feq a b \<Longrightarrow> feq b c \<Longrightarrow> feq a c"
  by (simp add: feq_def)

lemma feq_add: "feq a b \<Longrightarrow> feq c d \<Longrightarrow> feq (a + c) (b + d)"
  unfolding feq_def by (metis mod_add_eq)

lemma feq_diff: "feq a b \<Longrightarrow> feq c d \<Longrightarrow> feq (a - c) (b - d)"
  unfolding feq_def by (metis mod_diff_eq)

lemma feq_mult: "feq a b \<Longrightarrow> feq c d \<Longrightarrow> feq (a * c) (b * d)"
  unfolding feq_def by (metis mod_mult_eq)

lemma feq_power: "feq a b \<Longrightarrow> feq (a ^ n) (b ^ n)"
  unfolding feq_def by (metis power_mod)

lemma feq_mod [simp]: "feq (a mod p25519) b \<longleftrightarrow> feq a b" "feq a (b mod p25519) \<longleftrightarrow> feq a b"
  by (simp_all add: feq_def)

lemma feq_modulus: "a = b + k * p25519 \<Longrightarrow> feq a b"
  by (simp add: feq_def)

lemma feq_dvd: "feq a b \<longleftrightarrow> p25519 dvd a - b"
  by (simp add: feq_def mod_eq_dvd_iff)

lemma feq_small: "feq a b \<Longrightarrow> 0 \<le> a \<Longrightarrow> a < p25519 \<Longrightarrow> a = b mod p25519"
  by (simp add: feq_def)

section \<open>Little-endian numbers\<close>

fun le_val :: "bytes \<Rightarrow> nat" where
  "le_val [] = 0"
| "le_val (b # bs) = unat b + 256 * le_val bs"

fun num_bytes :: "nat \<Rightarrow> nat \<Rightarrow> bytes" where
  "num_bytes 0 v = []"
| "num_bytes (Suc n) v = of_nat v # num_bytes n (v div 256)"

lemma length_num_bytes [simp]: "length (num_bytes n v) = n"
  by (induction n arbitrary: v) auto

lemma le_val_bound: "le_val bs < 256 ^ length bs"
proof (induction bs)
  case (Cons b bs)
  then show ?case using unat_u8_less [of b] by simp
qed simp

lemma le_val_append: "le_val (as @ bs) = le_val as + 256 ^ length as * le_val bs"
  by (induction as) (auto simp: algebra_simps)

lemma le_val_num_bytes: "le_val (num_bytes n v) = v mod 256 ^ n"
proof (induction n arbitrary: v)
  case (Suc n)
  have "v mod 256 + 256 * (v div 256 mod 256 ^ n) = v mod (256 * 256 ^ n)"
    by (simp add: mod_mult2_eq)
  with Suc show ?case by (simp add: unat_of_nat take_bit_eq_mod)
qed simp

lemma num_bytes_le_val: "length bs = n \<Longrightarrow> num_bytes n (le_val bs) = bs"
proof (induction bs arbitrary: n)
  case (Cons b bs)
  have "(256 :: u8) = 0" by (simp flip: unat_eq_zero)
  then have "256 * x = 0" for x :: u8 by (simp only: mult_zero_left)
  with Cons show ?case using unat_u8_less [of b] by auto
qed simp

lemma le_val_inject: "length as = length bs \<Longrightarrow> le_val as = le_val bs \<Longrightarrow> as = bs"
  by (metis num_bytes_le_val)

lemma num_bytes_append: "num_bytes (m + n) v = num_bytes m v @ num_bytes n (v div 256 ^ m)"
  by (induction m arbitrary: v) (auto simp: div_mult2_eq)

lemma num_bytes_cong: "v mod 256 ^ n = w mod 256 ^ n \<Longrightarrow> num_bytes n v = num_bytes n w"
  by (rule le_val_inject) (simp_all add: le_val_num_bytes)

lemma le_val_slice:
  assumes "k + n \<le> length bs"
  shows "le_val (take n (drop k bs)) = le_val bs div 256 ^ k mod 256 ^ n"
proof -
  define xs ys zs where "xs = take k bs" and "ys = take n (drop k bs)" and "zs = drop n (drop k bs)"
  have bs: "bs = xs @ ys @ zs"
    unfolding xs_def ys_def zs_def by (simp only: append_take_drop_id)
  have len: "length xs = k" "length ys = n" using assms by (auto simp: xs_def ys_def)
  have "le_val bs div 256 ^ k = le_val ys + 256 ^ n * le_val zs"
    using le_val_bound [of xs] len by (simp add: bs le_val_append)
  with le_val_bound [of ys] len show ?thesis by (simp add: ys_def)
qed

lemma bits_split: "take_bit k (X::nat) + 2 ^ k * take_bit m (drop_bit k X) = take_bit (k + m) X"
proof -
  have "X mod (2 ^ k * 2 ^ m) = 2 ^ k * (X div 2 ^ k mod 2 ^ m) + X mod 2 ^ k"
    by (rule mod_mult2_eq)
  then show ?thesis by (simp add: take_bit_eq_mod drop_bit_eq_div power_add)
qed

section \<open>Montgomery ladder over the field\<close>

text \<open>
  The reference computation: projective x-coordinates \<open>(x, z)\<close> of two points whose difference
  has the coordinate \<open>q\<close>, doubled and added, and the ladder over the bits of a scalar from the
  most significant one.
\<close>

definition mont_double :: "int \<times> int \<Rightarrow> int \<times> int" where
  "mont_double = (\<lambda>(x, z). let s = (x + z) ^ 2; d = (x - z) ^ 2; e = s - d in
     (s * d, e * (s + 121665 * e)))"

definition mont_add :: "int \<Rightarrow> int \<times> int \<Rightarrow> int \<times> int \<Rightarrow> int \<times> int" where
  "mont_add q = (\<lambda>(x, z) (x', z'). let a = (x' + z') * (x - z); b = (x + z) * (x' - z') in
     ((a + b) ^ 2, (a - b) ^ 2 * q))"

fun mont_ladder :: "int \<Rightarrow> bool list \<Rightarrow> (int \<times> int) \<times> (int \<times> int) \<Rightarrow> (int \<times> int) \<times> (int \<times> int)" where
  "mont_ladder q [] s = s"
| "mont_ladder q (b # bs) (P, Q) =
     mont_ladder q bs (if b then (mont_add q Q P, mont_double Q) else (mont_double P, mont_add q P Q))"

section \<open>The interface of a field representation\<close>

text \<open>
  \<open>tight\<close> is the bound the results of the multiplications satisfy, \<open>loose\<close> the bound they
  accept; sums and differences of tight elements are loose.
\<close>

locale field_rep =
  fixes fval :: "'e \<Rightarrow> int" and tight loose :: "'e \<Rightarrow> bool"
    and mul :: "'e \<Rightarrow> 'e \<Rightarrow> 'e" and sqr :: "'e \<Rightarrow> 'e"
    and add sub :: "'e \<Rightarrow> 'e \<Rightarrow> 'e" and scale :: "'e \<Rightarrow> 'e"
  assumes tight_loose: "tight a \<Longrightarrow> loose a"
    and mul: "loose a \<Longrightarrow> loose b \<Longrightarrow> tight (mul a b) \<and> feq (fval (mul a b)) (fval a * fval b)"
    and sqr: "loose a \<Longrightarrow> tight (sqr a) \<and> feq (fval (sqr a)) (fval a * fval a)"
    and add: "tight a \<Longrightarrow> tight b \<Longrightarrow> loose (add a b) \<and> feq (fval (add a b)) (fval a + fval b)"
    and sub: "tight a \<Longrightarrow> tight b \<Longrightarrow> loose (sub a b) \<and> feq (fval (sub a b)) (fval a - fval b)"
    and scale: "loose a \<Longrightarrow> tight (scale a) \<and> feq (fval (scale a)) (121665 * fval a)"
begin

text \<open>An element stands for a number, with the tight or the loose bound.\<close>

definition rp :: "'e \<Rightarrow> int \<Rightarrow> bool" where
  "rp a x \<longleftrightarrow> tight a \<and> feq (fval a) x"

definition lrp :: "'e \<Rightarrow> int \<Rightarrow> bool" where
  "lrp a x \<longleftrightarrow> loose a \<and> feq (fval a) x"

lemma rp_lrp: "rp a x \<Longrightarrow> lrp a x"
  by (simp add: rp_def lrp_def tight_loose)

lemma rp_feq: "rp a x \<Longrightarrow> feq x y \<Longrightarrow> rp a y"
  unfolding rp_def using feq_trans by blast

lemma rp_mul: "lrp a x \<Longrightarrow> lrp b y \<Longrightarrow> rp (mul a b) (x * y)"
  unfolding rp_def lrp_def using mul feq_mult feq_trans by blast

lemma rp_sqr: "lrp a x \<Longrightarrow> rp (sqr a) (x ^ 2)"
  unfolding rp_def lrp_def power2_eq_square using sqr feq_mult feq_trans by blast

lemma lrp_add: "rp a x \<Longrightarrow> rp b y \<Longrightarrow> lrp (add a b) (x + y)"
  unfolding rp_def lrp_def using add feq_add feq_trans by blast

lemma lrp_sub: "rp a x \<Longrightarrow> rp b y \<Longrightarrow> lrp (sub a b) (x - y)"
  unfolding rp_def lrp_def using sub feq_diff feq_trans by blast

lemma rp_scale: "lrp a x \<Longrightarrow> rp (scale a) (121665 * x)"
  unfolding rp_def lrp_def using scale feq_mult [of 121665 121665] feq_trans by blast

text \<open>Powers, as the reciprocal computes them.\<close>

lemma rp_mul_pow: "rp a (x ^ m) \<Longrightarrow> rp b (x ^ n) \<Longrightarrow> rp (mul a b) (x ^ (m + n))"
  using rp_mul [OF rp_lrp rp_lrp] by (metis power_add)

lemma rp_sqr_pow: "rp a (x ^ m) \<Longrightarrow> rp (sqr a) (x ^ (2 * m))"
  using rp_sqr [OF rp_lrp] by (metis power_mult mult.commute)

lemma rp_sqrs_pow: "rp a (x ^ m) \<Longrightarrow> rp ((sqr ^^ k) a) (x ^ (2 ^ k * m))"
proof (induction k)
  case (Suc k)
  then show ?case using rp_sqr_pow [of "(sqr ^^ k) a" x "2 ^ k * m"] by (simp add: mult.assoc)
qed simp

text \<open>A doubling and a differential addition, as the ladder step computes them.\<close>

lemma rp_double:
  assumes "rp x X" "rp z Z"
  defines "xx \<equiv> sqr (add x z)" and "zz \<equiv> sqr (sub x z)"
  shows "rp (mul xx zz) (fst (mont_double (X, Z)))
    \<and> rp (mul (sub xx zz) (add (scale (sub xx zz)) xx)) (snd (mont_double (X, Z)))"
proof -
  let ?s = "(X + Z) ^ 2" and ?d = "(X - Z) ^ 2"
  have xx: "rp xx ?s" and zz: "rp zz ?d"
    using assms by (auto simp: xx_def zz_def intro!: rp_sqr lrp_add lrp_sub)
  have e: "lrp (sub xx zz) (?s - ?d)" using xx zz by (rule lrp_sub)
  have "rp (mul (sub xx zz) (add (scale (sub xx zz)) xx)) ((?s - ?d) * (121665 * (?s - ?d) + ?s))"
    by (intro rp_mul lrp_add rp_scale e xx)
  moreover have "rp (mul xx zz) (?s * ?d)" using xx zz by (intro rp_mul rp_lrp)
  ultimately show ?thesis by (simp add: mont_double_def Let_def add.commute)
qed

lemma rp_diff_add:
  assumes "rp x X" "rp z Z" "rp x' X'" "rp z' Z'" "rp q Q"
  defines "a \<equiv> mul (add x' z') (sub x z)" and "b \<equiv> mul (add x z) (sub x' z')"
  shows "rp (sqr (add a b)) (fst (mont_add Q (X, Z) (X', Z')))
    \<and> rp (mul (sqr (sub a b)) q) (snd (mont_add Q (X, Z) (X', Z')))"
proof -
  have a: "rp a ((X' + Z') * (X - Z))" and b: "rp b ((X + Z) * (X' - Z'))"
    using assms by (auto simp: a_def b_def intro!: rp_mul lrp_add lrp_sub)
  show ?thesis unfolding mont_add_def Let_def prod.case fst_conv snd_conv
    by (intro conjI rp_sqr rp_mul rp_lrp lrp_add lrp_sub a b assms)
qed

end

end
