(* ===== verification/Pocklington.thy ===== *)
theory Pocklington
  imports Field25519
begin

text \<open>
  Enough number theory to show that \<open>2 ^ 255 - 19\<close> is prime: Fermat's theorem, Pocklington's
  criterion, and modular powers along a list of quotients, which keep every step of a
  certificate a check on numerals.
\<close>

section \<open>Prime numbers\<close>

definition is_prime :: "nat \<Rightarrow> bool" where
  "is_prime p \<longleftrightarrow> 1 < p \<and> (\<forall>d. d dvd p \<longrightarrow> d = 1 \<or> d = p)"

lemma is_prime_gt: "is_prime p \<Longrightarrow> 1 < p"
  by (simp add: is_prime_def)

lemma is_prime_coprime:
  assumes "is_prime p" "\<not> p dvd a"
  shows "coprime p a"
proof -
  have "gcd p a = 1 \<or> gcd p a = p" using assms(1) by (simp add: is_prime_def)
  with assms(2) have "gcd p a = 1" by (metis gcd_dvd2)
  then show ?thesis by (simp add: coprime_iff_gcd_eq_1)
qed

lemma is_prime_factor: "1 < n \<Longrightarrow> \<exists>d. is_prime d \<and> d dvd n"
proof (induction n rule: less_induct)
  case (less n)
  show ?case
  proof (cases "is_prime n")
    case False
    then obtain d where d: "d dvd n" "d \<noteq> 1" "d \<noteq> n" using less.prems by (auto simp: is_prime_def)
    with less.prems have "d < n" "1 < d" by (auto simp: dvd_imp_le nat_dvd_not_less le_neq_implies_less
        intro: Suc_lessI intro!: Nat.gr0I)
    with less.IH d(1) show ?thesis using dvd_trans by blast
  qed auto
qed

lemma composite_factor:
  assumes "1 < n" "\<not> is_prime n"
  shows "\<exists>d. is_prime d \<and> d dvd n \<and> d * d \<le> n"
proof -
  obtain d where d: "d dvd n" "d \<noteq> 1" "d \<noteq> n" using assms by (auto simp: is_prime_def)
  then obtain e where n: "n = d * e" by (auto elim: dvdE)
  have pos: "0 < d" "0 < e" using assms(1) n by (auto intro!: Nat.gr0I)
  have gt: "1 < d" "1 < e" using d n pos by (auto intro!: Suc_lessI)
  have small: "\<exists>r. is_prime r \<and> r dvd n \<and> r * r \<le> n" if ab: "1 < a" "a \<le> b" "n = a * b" for a b
  proof -
    obtain r where r: "is_prime r" "r dvd a" using is_prime_factor [OF ab(1)] by blast
    then have "r \<le> a" using ab(1) by (simp add: dvd_imp_le)
    then have "r * r \<le> a * b" using ab(2) by (intro mult_le_mono) auto
    with r ab(3) show ?thesis by auto
  qed
  show ?thesis
    using small [of d e] small [of e d] gt n by (cases "d \<le> e") (auto simp: mult.commute)
qed

text \<open>Trial division, for the small primes.\<close>

definition trial_prime :: "int \<Rightarrow> int \<Rightarrow> bool" where
  "trial_prime m n \<longleftrightarrow> 1 < n \<and> n < (m + 1) * (m + 1) \<and> list_all (\<lambda>d. n mod d \<noteq> 0) [2..m]"

lemma trial_prime:
  assumes t: "trial_prime m n" and m: "0 \<le> m"
  shows "is_prime (nat n)"
proof (rule ccontr)
  assume "\<not> is_prime (nat n)"
  then obtain d where d: "is_prime d" "d dvd nat n" "d * d \<le> nat n"
    using composite_factor [of "nat n"] t by (auto simp: trial_prime_def)
  have n: "0 \<le> n" using t by (simp add: trial_prime_def)
  then have "int d * int d \<le> n" using d(3) by (simp add: le_nat_iff)
  also have "n < (m + 1) * (m + 1)" using t by (simp add: trial_prime_def)
  finally have "int d < m + 1" using m by (meson linorder_not_le mult_mono of_nat_0_le_iff add_nonneg_nonneg zero_le_one)
  with is_prime_gt [OF d(1)] have mem: "int d \<in> set [2..m]" by simp
  have all: "\<forall>d\<in>set [2..m]. n mod d \<noteq> 0" using t unfolding trial_prime_def list_all_iff by (elim conjE)
  have "n mod int d \<noteq> 0" using all mem by (rule bspec)
  moreover have "int d dvd n" using d(2) n by (metis int_dvd_int_iff int_nat_eq)
  ultimately show False by simp
qed

section \<open>Fermat's theorem\<close>

lemma fermat:
  assumes p: "is_prime p" and a: "\<not> p dvd a"
  shows "a ^ (p - 1) mod p = 1"
proof -
  let ?S = "{1..<p}" and ?f = "\<lambda>x. a * x mod p"
  have p1: "1 < p" using p by (rule is_prime_gt)
  have co: "coprime p a" using p a by (rule is_prime_coprime)
  have coS: "coprime p x" if "x \<in> ?S" for x
    using that by (intro is_prime_coprime [OF p]) (auto dest: dvd_imp_le)
  have inj: "inj_on ?f ?S"
  proof (rule inj_onI)
    fix x y assume "x \<in> ?S" "y \<in> ?S" "a * x mod p = a * y mod p"
    moreover have "x = y" if "x \<le> y" "x < p" "y < p" "a * x mod p = a * y mod p" for x y
    proof -
      have "p dvd a * (y - x)"
        using that(1,4) by (metis diff_mult_distrib2 mod_eq_dvd_iff_nat mult_le_mono2)
      then have "p dvd y - x" using co by (simp add: coprime_dvd_mult_right_iff)
      with that show ?thesis by (auto dest: dvd_imp_le)
    qed
    ultimately show "x = y" by (metis atLeastLessThan_iff nat_le_linear)
  qed
  have "?f ` ?S \<subseteq> ?S"
  proof
    fix y assume "y \<in> ?f ` ?S"
    then obtain x where x: "x \<in> ?S" "y = a * x mod p" by blast
    then have "\<not> p dvd a * x"
      using co by (auto simp: coprime_dvd_mult_right_iff dest: dvd_imp_le)
    with x p1 show "y \<in> ?S" by (auto simp: mod_greater_zero_iff_not_dvd Suc_leI)
  qed
  then have img: "?f ` ?S = ?S" using inj by (intro endo_inj_surj) auto
  have "(\<Prod>x\<in>?S. x) mod p = (\<Prod>x\<in>?S. ?f x) mod p"
    using prod.reindex [OF inj, of "\<lambda>x. x"] unfolding img comp_def by simp
  also have "\<dots> = (\<Prod>x\<in>?S. a * x) mod p" by (rule mod_prod_eq)
  also have "(\<Prod>x\<in>?S. a * x) = a ^ (p - 1) * (\<Prod>x\<in>?S. x)" by (simp add: prod.distrib)
  finally have eq: "(\<Prod>x\<in>?S. x) mod p = a ^ (p - 1) * (\<Prod>x\<in>?S. x) mod p" .
  have a1: "1 \<le> a ^ (p - 1)" using a by (auto simp: Suc_le_eq intro!: Nat.gr0I)
  have "p dvd a ^ (p - 1) * (\<Prod>x\<in>?S. x) - (\<Prod>x\<in>?S. x)"
    using eq a1 by (metis mod_eq_dvd_iff_nat mult.left_neutral mult_le_mono1)
  then have "p dvd (a ^ (p - 1) - 1) * (\<Prod>x\<in>?S. x)" by (simp add: diff_mult_distrib)
  moreover have "coprime p (\<Prod>x\<in>?S. x)" using coS by (auto intro: prod_coprime_right)
  ultimately have "p dvd a ^ (p - 1) - 1" by (simp add: coprime_dvd_mult_left_iff)
  with a1 p1 show ?thesis by (metis mod_eq_dvd_iff_nat mod_less)
qed

section \<open>Pocklington's criterion\<close>

text \<open>
  A prime \<open>q\<close> divides \<open>d - 1\<close> for every prime factor \<open>d\<close> of \<open>n\<close> when some \<open>b\<close> has the order
  \<open>q\<close> modulo \<open>n\<close> and \<open>b - 1\<close> is invertible modulo \<open>n\<close>.
\<close>

lemma order_divides:
  fixes b n q d :: nat
  assumes q: "is_prime q" and d: "is_prime d" "d dvd n"
    and bq: "b ^ q mod n = 1" and inv: "(b - 1) * w mod n = 1" and b: "1 \<le> b"
  shows "q dvd d - 1"
proof (rule ccontr)
  assume "\<not> q dvd d - 1"
  with q have "coprime q (d - 1)" by (rule is_prime_coprime)
  moreover have "q \<noteq> 0" using is_prime_gt [OF q] by simp
  ultimately obtain u v where uv: "q * u = (d - 1) * v + 1"
    using bezout_nat [of q "d - 1"] by (auto simp: coprime_iff_gcd_eq_1)
  have mod_d: "x mod d = 1" if "x mod n = 1" for x
    using that d is_prime_gt [OF d(1)] by (metis mod_mod_cancel mod_less)
  have "\<not> d dvd b"
  proof
    assume "d dvd b"
    then have "d dvd b ^ q" using is_prime_gt [OF q] by (meson dvd_power dvd_trans less_trans zero_less_one)
    with mod_d [OF bq] show False by simp
  qed
  with d(1) have "b ^ (d - 1) mod d = 1" by (rule fermat)
  then have "b ^ ((d - 1) * v + 1) mod d = b mod d"
    by (metis mod_mult_left_eq mult_1 power_add power_mod power_mult power_one power_one_right)
  moreover have "b ^ (q * u) mod d = 1"
    using mod_d [OF bq] is_prime_gt [OF d(1)] by (metis mod_less power_mod power_mult power_one)
  ultimately have "b mod d = 1" by (simp add: uv)
  then have "d dvd b - 1" using b is_prime_gt [OF d(1)] by (metis mod_eq_dvd_iff_nat mod_less)
  then have "d dvd (b - 1) * w" by simp
  with mod_d [OF inv] show False by simp
qed

text \<open>
  \<open>n\<close> is prime when the product of distinct primes \<open>qs\<close> with this property exceeds its square
  root.
\<close>

lemma prod_list_dvd:
  assumes "distinct qs" "\<forall>q\<in>set qs. is_prime q \<and> q dvd m"
  shows "prod_list qs dvd m"
  using assms
proof (induction qs)
  case (Cons q qs)
  have "coprime q x" if "x \<in> set qs" for x
    using that Cons.prems by (intro is_prime_coprime) (auto simp: is_prime_def)
  then have "coprime q (prod_list qs)" by (induction qs) (auto simp: coprime_mult_right_iff)
  with Cons show ?case by (simp add: divides_mult)
qed simp

lemma pocklington:
  assumes "1 < n" "distinct qs" "\<forall>q\<in>set qs. is_prime q"
    and "\<forall>q\<in>set qs. \<exists>b w. 1 \<le> b \<and> b ^ q mod n = 1 \<and> (b - 1) * w mod n = 1"
    and "n < prod_list qs * prod_list qs"
  shows "is_prime n"
proof (rule ccontr)
  assume "\<not> is_prime n"
  then obtain d where d: "is_prime d" "d dvd n" "d * d \<le> n" using composite_factor assms(1) by blast
  have "\<forall>q\<in>set qs. is_prime q \<and> q dvd d - 1"
    using assms(3,4) order_divides [OF _ d(1,2)] by blast
  then have "prod_list qs dvd d - 1" by (rule prod_list_dvd [OF assms(2)])
  then have "prod_list qs \<le> d - 1" using is_prime_gt [OF d(1)] by (intro dvd_imp_le) auto
  then have "prod_list qs \<le> d" by simp
  then have "prod_list qs * prod_list qs \<le> d * d" by (intro mult_le_mono)
  with d(3) assms(5) show False by simp
qed

section \<open>Modular powers along quotients\<close>

text \<open>
  \<open>pow_steps b k d x cs\<close> runs a list of squarings and multiplications by \<open>b\<close> modulo
  \<open>2 ^ k - d\<close>, subtracting in each step the given multiple of the modulus; \<open>pow_exp\<close> is the
  exponent it reaches.
\<close>

fun pow_steps :: "int \<Rightarrow> int \<Rightarrow> int \<Rightarrow> int \<Rightarrow> (bool \<times> int) list \<Rightarrow> int" where
  "pow_steps b M d x [] = x"
| "pow_steps b M d x ((m, c) # cs) =
     pow_steps b M d ((if m then x * b else x * x) - c * M + c * d) cs"

fun pow_exp :: "int \<Rightarrow> (bool \<times> int) list \<Rightarrow> int" where
  "pow_exp e [] = e"
| "pow_exp e ((m, c) # cs) = pow_exp (if m then e + 1 else 2 * e) cs"

text \<open>A power modulo \<open>n\<close>, as a constant that no simplification evaluates.\<close>

definition mpow :: "int \<Rightarrow> int \<Rightarrow> int \<Rightarrow> int" where
  "mpow b e n = b ^ nat e mod n"

lemma mpow_start: "b mod n = mpow b 1 n"
  by (simp add: mpow_def)

lemma pow_steps_mpow:
  assumes "x mod (M - d) = mpow b e (M - d)" "0 \<le> e"
  shows "pow_steps b M d x cs mod (M - d) = mpow b (pow_exp e cs) (M - d)"
  using assms
proof (induction cs arbitrary: x e)
  case (Cons mc cs)
  obtain m c where mc: "mc = (m, c)" by (cases mc)
  let ?n = "M - d" and ?y = "if m then x * b else x * x" and ?e = "if m then e + 1 else 2 * e"
  have e: "nat (e + 1) = Suc (nat e)" "nat (2 * e) = nat e + nat e" using Cons.prems(2) by auto
  have "?y - c * M + c * d = ?y + (- c) * ?n" by (simp add: algebra_simps)
  then have "(?y - c * M + c * d) mod ?n = ?y mod ?n" by (metis mod_mult_self1)
  also have "\<dots> = mpow b ?e ?n"
    using mod_mult_cong [OF Cons.prems(1) [unfolded mpow_def] refl, of b]
      mod_mult_cong [OF Cons.prems(1,1) [unfolded mpow_def]]
    unfolding mpow_def by (auto simp: e mult.commute [of _ b] power_add)
  finally show ?case using Cons.IH [of "?y - c * M + c * d" ?e] Cons.prems(2) by (simp add: mc)
qed simp

lemma mpow_steps:
  assumes "x mod n = mpow b e n"
    and "n = M - d \<and> 0 \<le> e \<and> pow_steps b M d x cs = y \<and> pow_exp e cs = e'"
  shows "y mod n = mpow b e' n"
  using pow_steps_mpow [of x M d b e cs] assms by simp

lemma mpow_mult:
  assumes "b mod n = mpow a k n" "k * q = e \<and> 0 \<le> k \<and> 0 \<le> q"
  shows "mpow b q n = mpow a e n"
proof -
  have "nat e = nat k * nat q" using assms(2) by (auto simp: nat_mult_distrib)
  then show ?thesis using assms(1) unfolding mpow_def by (metis power_mod power_mult)
qed

section \<open>Certificates\<close>

text \<open>The evidence for one prime of the criterion, on integers.\<close>

definition order_cert :: "int \<Rightarrow> int \<Rightarrow> bool" where
  "order_cert n q \<longleftrightarrow> is_prime (nat q) \<and> (\<exists>b w. 1 \<le> b \<and> mpow b q n = 1 \<and> (b - 1) * w mod n = 1)"

lemma order_certI:
  assumes "is_prime (nat q)" "1 mod n = mpow b q n" "(b - 1) * w = t * n + 1 \<and> 1 \<le> b \<and> 1 < n"
  shows "order_cert n q"
proof -
  have "(b - 1) * w mod n = 1" using assms(3) by (metis mod_mult_self3 mod_pos_pos_trivial zero_le_one)
  with assms show ?thesis unfolding order_cert_def by (intro conjI exI [of _ b] exI [of _ w]) simp_all
qed

lemma order_cert_nat:
  assumes "order_cert n q" "1 < n"
  shows "is_prime (nat q)
    \<and> (\<exists>b w. 1 \<le> b \<and> b ^ nat q mod nat n = 1 \<and> (b - 1) * w mod nat n = 1)"
proof -
  obtain b w where bw: "1 \<le> b" "b ^ nat q mod n = 1" "(b - 1) * w mod n = 1"
    using assms(1) by (auto simp: order_cert_def mpow_def)
  have "nat b ^ nat q mod nat n = 1"
    using bw(1,2) assms(2) by (simp add: nat_mod_distrib [symmetric] nat_power_eq [symmetric])
  moreover have "(nat b - 1) * nat (w mod n) mod nat n = 1"
  proof -
    have "(b - 1) * (w mod n) mod n = 1" using bw(3) by (simp add: mod_simps)
    then have "nat ((b - 1) * (w mod n)) mod nat n = 1"
      using bw(1) assms(2) by (simp add: nat_mod_distrib [symmetric])
    then show ?thesis using bw(1) assms(2) by (simp add: nat_mult_distrib nat_diff_distrib)
  qed
  moreover have "1 \<le> nat b" using bw(1) by simp
  ultimately show ?thesis using assms(1) unfolding order_cert_def by blast
qed

lemma pocklington_certs:
  assumes "1 < n \<and> distinct qs \<and> list_all (\<lambda>q. 1 < q) qs \<and> n < prod_list qs * prod_list qs"
    and "list_all (order_cert n) qs"
  shows "is_prime (nat n)"
proof (rule pocklington [of _ "map nat qs"])
  have n: "1 < n" and pos: "\<forall>q\<in>set qs. 0 \<le> q" using assms(1) by (auto simp: list_all_iff)
  show "1 < nat n" using n by simp
  show "distinct (map nat qs)"
    using assms(1) pos by (auto simp: distinct_map inj_on_def eq_nat_nat_iff)
  have prod: "int (prod_list (map nat qs)) = prod_list qs" using pos by (induction qs) auto
  have "int (nat n) < int (prod_list (map nat qs) * prod_list (map nat qs))"
    using assms(1) prod by simp
  then show "nat n < prod_list (map nat qs) * prod_list (map nat qs)" by (simp only: of_nat_less_iff)
  show "\<forall>q\<in>set (map nat qs). is_prime q"
    "\<forall>q\<in>set (map nat qs). \<exists>b w. 1 \<le> b \<and> b ^ q mod nat n = 1 \<and> (b - 1) * w mod nat n = 1"
    using assms(2) order_cert_nat [OF _ n] by (auto simp: list_all_iff)
qed

end
