(* ===== verification/Prime25519.thy ===== *)
theory Prime25519
  imports Pocklington
begin

text \<open>
  The certificate that \<open>2 ^ 255 - 19\<close> is prime: its largest prime factor of \<open>p - 1\<close> with the
  powers of 2 that show its order, and below it the primes of that factor's own certificate.
  Hence every number that is not a multiple of \<open>p\<close> has an inverse, its power \<open>p - 2\<close>.
\<close>

section \<open>The certificate\<close>

lemma prime_3: "is_prime (nat 3)"
  by (rule trial_prime [of 1]) code_simp+

lemma prime_353: "is_prime (nat 353)"
  by (rule trial_prime [of 18]) code_simp+

lemma prime_487: "is_prime (nat 487)"
  by (rule trial_prime [of 22]) code_simp+

text \<open>The prime \<open>57467\<close>.\<close>

lemma pow_prime_57467_487: "1 mod 57467 = mpow 17139 487 57467"
  by (rule mpow_steps [OF mpow_start, where M = 65536 and d = 8069 and cs = "[(False, 5111), (True, 9389), (False, 37809), (True, 586), (False, 6693), (True, 1167), (False, 14),
     (False, 25374), (False, 150), (True, 3517), (False, 11697), (True, 5317), (False, 22968), (True,
     11782)]"]) code_simp

lemma cert_prime_57467_487: "order_cert 57467 487"
  by (rule order_certI [OF prime_487 pow_prime_57467_487, where w = 56679 and t = 16903]) code_simp

lemma prime_57467: "is_prime (nat 57467)"
proof (rule pocklington_certs [of _ "[487]"])
  show "list_all (order_cert 57467) [487]"
    by (simp only: list.pred_inject cert_prime_57467_487)
qed code_simp

lemma prime_131: "is_prime (nat 131)"
  by (rule trial_prime [of 11]) code_simp+

lemma prime_7: "is_prime (nat 7)"
  by (rule trial_prime [of 2]) code_simp+

text \<open>The prime \<open>132049\<close>.\<close>

lemma pow_prime_132049_131: "1 mod 132049 = mpow 44009 131 132049"
  by (rule mpow_steps [OF mpow_start, where M = 262144 and d = 130095 and cs = "[(False, 14667), (False, 6544), (False, 97983), (False, 19188), (False, 24913), (False, 59597),
     (True, 31558), (False, 21982), (True, 10002)]"]) code_simp

lemma cert_prime_132049_131: "order_cert 132049 131"
  by (rule order_certI [OF prime_131 pow_prime_132049_131, where w = 116203 and t = 38727]) code_simp

lemma pow_prime_132049_7: "1 mod 132049 = mpow 31672 7 132049"
  by (rule mpow_steps [OF mpow_start, where M = 262144 and d = 130095 and cs = "[(False, 7596), (True, 17120), (False, 35513), (True, 13015)]"]) code_simp

lemma cert_prime_132049_7: "order_cert 132049 7"
  by (rule order_certI [OF prime_7 pow_prime_132049_7, where w = 110168 and t = 26423]) code_simp

lemma prime_132049: "is_prime (nat 132049)"
proof (rule pocklington_certs [of _ "[131, 7]"])
  show "list_all (order_cert 132049) [131, 7]"
    by (simp only: list.pred_inject cert_prime_132049_131 cert_prime_132049_7)
qed code_simp

lemma prime_23: "is_prime (nat 23)"
  by (rule trial_prime [of 4]) code_simp+

text \<open>The prime \<open>3727\<close>.\<close>

lemma pow_prime_3727_23: "1 mod 3727 = mpow 439 23 3727"
  by (rule mpow_steps [OF mpow_start, where M = 4096 and d = 369 and cs = "[(False, 51), (False, 1875), (True, 307), (False, 1116), (True, 267), (False, 79), (True, 49)]"]) code_simp

lemma cert_prime_3727_23: "order_cert 3727 23"
  by (rule order_certI [OF prime_23 pow_prime_3727_23, where w = 3259 and t = 383]) code_simp

lemma pow_prime_3727_3: "1 mod 3727 = mpow 1188 3 3727"
  by (rule mpow_steps [OF mpow_start, where M = 4096 and d = 369 and cs = "[(False, 378), (True, 809)]"]) code_simp

lemma cert_prime_3727_3: "order_cert 3727 3"
  by (rule order_certI [OF prime_3 pow_prime_3727_3, where w = 2088 and t = 665]) code_simp

lemma prime_3727: "is_prime (nat 3727)"
proof (rule pocklington_certs [of _ "[23, 3]"])
  show "list_all (order_cert 3727) [23, 3]"
    by (simp only: list.pred_inject cert_prime_3727_23 cert_prime_3727_3)
qed code_simp

text \<open>The prime \<open>1923133\<close>.\<close>

lemma pow_prime_1923133_3727: "1 mod 1923133 = mpow 740012 3727 1923133"
  by (rule mpow_steps [OF mpow_start, where M = 2097152 and d = 174019 and cs = "[(False, 284752), (True, 689601), (False, 1657908), (True, 187720), (False, 204668), (False,
     1836966), (True, 316554), (False, 945166), (False, 589467), (False, 498795), (False, 254671), (True,
     547683), (False, 1091635), (True, 454225), (False, 29524), (True, 80574), (False, 1637210), (True,
     329059)]"]) code_simp

lemma cert_prime_1923133_3727: "order_cert 1923133 3727"
  by (rule order_certI [OF prime_3727 pow_prime_1923133_3727, where w = 1677051 and t = 645320]) code_simp

lemma prime_1923133: "is_prime (nat 1923133)"
proof (rule pocklington_certs [of _ "[3727]"])
  show "list_all (order_cert 1923133) [3727]"
    by (simp only: list.pred_inject cert_prime_1923133_3727)
qed code_simp

lemma prime_41: "is_prime (nat 41)"
  by (rule trial_prime [of 6]) code_simp+

text \<open>The prime \<open>1723\<close>.\<close>

lemma pow_prime_1723_41: "1 mod 1723 = mpow 924 41 1723"
  by (rule mpow_steps [OF mpow_start, where M = 2048 and d = 325 and cs = "[(False, 495), (False, 460), (True, 697), (False, 826), (False, 1), (False, 447), (True, 377)]"]) code_simp

lemma cert_prime_1723_41: "order_cert 1723 41"
  by (rule order_certI [OF prime_41 pow_prime_1723_41, where w = 1695 and t = 908]) code_simp

lemma pow_prime_1723_7: "1 mod 1723 = mpow 317 7 1723"
  by (rule mpow_steps [OF mpow_start, where M = 2048 and d = 325 and cs = "[(False, 58), (True, 102), (False, 20), (True, 232)]"]) code_simp

lemma cert_prime_1723_7: "order_cert 1723 7"
  by (rule order_certI [OF prime_7 pow_prime_1723_7, where w = 747 and t = 137]) code_simp

lemma prime_1723: "is_prime (nat 1723)"
proof (rule pocklington_certs [of _ "[41, 7]"])
  show "list_all (order_cert 1723) [41, 7]"
    by (simp only: list.pred_inject cert_prime_1723_41 cert_prime_1723_7)
qed code_simp

text \<open>The prime \<open>430751\<close>.\<close>

lemma pow_prime_430751_1723: "1 mod 430751 = mpow 293176 1723 430751"
  by (rule mpow_steps [OF mpow_start, where M = 524288 and d = 93537 and cs = "[(False, 199540), (True, 76525), (False, 232495), (False, 28488), (True, 59681), (False, 312099),
     (False, 370145), (True, 109650), (False, 172172), (True, 250281), (False, 126138), (True, 96491),
     (False, 156880), (False, 344367), (True, 164306), (False, 7810), (True, 45393)]"]) code_simp

lemma cert_prime_430751_1723: "order_cert 430751 1723"
  by (rule order_certI [OF prime_1723 pow_prime_430751_1723, where w = 198753 and t = 135274]) code_simp

lemma prime_430751: "is_prime (nat 430751)"
proof (rule pocklington_certs [of _ "[1723]"])
  show "list_all (order_cert 430751) [1723]"
    by (simp only: list.pred_inject cert_prime_430751_1723)
qed code_simp

lemma prime_173: "is_prime (nat 173)"
  by (rule trial_prime [of 13]) code_simp+

text \<open>The prime \<open>4153\<close>.\<close>

lemma pow_prime_4153_173: "1 mod 4153 = mpow 3249 173 4153"
  by (rule mpow_steps [OF mpow_start, where M = 8192 and d = 4039 and cs = "[(False, 2541), (False, 2509), (True, 83), (False, 2086), (False, 3810), (True, 1215), (False, 2241),
     (True, 1351), (False, 3067), (False, 62), (True, 2045)]"]) code_simp

lemma cert_prime_4153_173: "order_cert 4153 173"
  by (rule order_certI [OF prime_173 pow_prime_4153_173, where w = 3405 and t = 2663]) code_simp

lemma prime_4153: "is_prime (nat 4153)"
proof (rule pocklington_certs [of _ "[173]"])
  show "list_all (order_cert 4153) [173]"
    by (simp only: list.pred_inject cert_prime_4153_173)
qed code_simp

text \<open>The prime \<open>31757755568855353\<close>.\<close>

lemma pow_prime_31757755568855353_430751: "1 mod 31757755568855353 = mpow 15280470251845350 430751 31757755568855353"
  by (rule mpow_steps [OF mpow_start, where M = 36028797018963968 and d = 4271041450108615 and cs = "[(False, 7352307080117327), (True, 6019109101033069), (False, 1888559368848050), (False,
     1090721495325773), (True, 6189737923096194), (False, 14044172351262763), (False, 29027977906284623),
     (False, 2046627626692034), (True, 3610146557315648), (False, 2553422909250835), (False,
     21197056754059060), (False, 45447661973543), (True, 11129618803872828), (False, 2078616929160536),
     (False, 3185065805957001), (True, 6354483287449421), (False, 8120226568863488), (False,
     28294549338729885), (False, 439079657427066), (True, 12970832480411774), (False, 27307994329439877),
     (True, 14504669351667755), (False, 21725259292177864), (True, 29247580858743), (False,
     28445686673652082), (True, 8187045267373769), (False, 11320459662724478), (True, 9910126604106233)]"]) code_simp

lemma cert_prime_31757755568855353_430751: "order_cert 31757755568855353 430751"
  by (rule order_certI [OF prime_430751 pow_prime_31757755568855353_430751, where w = 15419847897348699 and t = 7419369626816150]) code_simp

lemma pow_prime_31757755568855353_4153: "1 mod 31757755568855353 = mpow 28256283979054930 4153 31757755568855353"
  by (rule mpow_steps [OF mpow_start, where M = 36028797018963968 and d = 4271041450108615 and cs = "[(False, 25140869372015691), (False, 7584965271398381), (False, 28176861377485356), (False,
     345099434934960), (False, 18501312595224227), (False, 4964879588236266), (False, 6751178549216685),
     (True, 2102005350320916), (False, 2867500589820124), (True, 2865471631825209), (False,
     2807568173825645), (True, 8494550956254973), (False, 1386332534506086), (False, 8035385276072601),
     (False, 4768528245642057), (True, 25017961803782933)]"]) code_simp

lemma cert_prime_31757755568855353_4153: "order_cert 31757755568855353 4153"
  by (rule order_certI [OF prime_4153 pow_prime_31757755568855353_4153, where w = 25117532289192573 and t = 22348182751067372]) code_simp

lemma prime_31757755568855353: "is_prime (nat 31757755568855353)"
proof (rule pocklington_certs [of _ "[430751, 4153]"])
  show "list_all (order_cert 31757755568855353) [430751, 4153]"
    by (simp only: list.pred_inject cert_prime_31757755568855353_430751 cert_prime_31757755568855353_4153)
qed code_simp

text \<open>The prime \<open>74058212732561358302231226437062788676166966415465897661863160754340907\<close>.\<close>

lemma pow_prime_q_31757755568855353_1: "42422567393750195079891593305644064572579777943321007394258133075518413 mod 74058212732561358302231226437062788676166966415465897661863160754340907 = mpow 50366660687963342066214195241331738400016478712605795091965648721912165 7220 74058212732561358302231226437062788676166966415465897661863160754340907"
  by (rule mpow_steps [OF mpow_start, where M = 110427941548649020598956093796432407239217743554726184882600387580788736 and d = 36369728816087662296724867359369618563050777139260287220737226826447829 and cs = "[(False, 34254141644186217020428424057326180715600974550576837552249688036855694), (True,
     5306297139612438294307887723420301546039816615299573182024270938642118), (False,
     11387650392568571085155452276260188899626345184623308290097254722866701), (True,
     14880622941956559897266154274693668406854968720927701886699059056178248), (False,
     7211867719404728600783885372265376979634822048525541133709684598003416), (False,
     8858933921233403899454685730485446024341673712253708455934140577671624), (False,
     29405689806759884617208738232040834776868424997442473871063530170518744), (False,
     11860047206280235552239888295115415390155788339412493551254197904790650), (False,
     4382325634856346573665294679959460630350864178245006230018119644766928), (True,
     47103376917468359397681313853531563259101143935077422181518199377163882), (False,
     8459551848841260837108230965222934266717948620651256348531286022111), (True,
     24397685585360117670416985784831302475900975004246932968988314714473927), (False,
     30160261941620190363563892914120429237593464359508871253219620727838088), (False,
     31136363352740632189807297702743412517383495469005860556476207757542900), (True,
     6482725191590041141591215953624653846141433456501357279682007942279927), (False,
     25010441069804388198972197294423849207435263113996928578628157408576129), (False,
     50887351954206721912550569541824377626550747421162531588647344483703173)]"]) code_simp

lemma pow_prime_q_31757755568855353_2: "72219878304541027510131710483225690731781351265473514874567596002054083 mod 74058212732561358302231226437062788676166966415465897661863160754340907 = mpow 50366660687963342066214195241331738400016478712605795091965648721912165 118306858 74058212732561358302231226437062788676166966415465897661863160754340907"
  by (rule mpow_steps [OF pow_prime_q_31757755568855353_1, where M = 110427941548649020598956093796432407239217743554726184882600387580788736 and d = 36369728816087662296724867359369618563050777139260287220737226826447829 and cs = "[(False, 24300805513309531756591411541163763075016564626479596917691124501755048), (True,
     23664758004952742884060541029718276394678480678661260866358163606859117), (False,
     13567011304982319708619923464746602593103081347280942817624593864208673), (True,
     30162137618839800149544364884872615964067442645109895738122736023858619), (False,
     20191892051875709544117757901853536467840285548689813040262580594419130), (True,
     10812212535391259687166588786351235255688695942297903042458800219061135), (False,
     33081037582299183250161414007964714613232388343210991006834033678462272), (False,
     2400885238299286863526131936525583055145082471188705128925629640153590), (False,
     1074199068901153926959838060277305204218242963246417812231773343265880), (False,
     9752808381287814472532686913834088628421829249040004389310974842013355), (False,
     71014807818919161132947781318955353428055079694197047951303794278645529), (False,
     2890774521004438607149169897552507321801715736436539733042315494063442), (True,
     11908834550485702719754528150895861372423358168302600963848120389049631), (False,
     43200643277880443297734388682544007725584117676655366588693253065780989), (False,
     70494938565532420483531516149699609850714311133814014428674326644264504), (True,
     21545011160147019160748814405083791717580883564864083689591853031777126), (False,
     52459265898804044548918670232578794076652683635381935865004739558412959), (False,
     330680130424142201867492807283283975799034273318473638386024287105), (True,
     28291717904018078795362785654275272881697796196139360688810080310222846), (False,
     1280483819288506695043505940598908379408119702098574662287540074013338)]"]) code_simp

lemma pow_prime_q_31757755568855353_3: "34134306643439999868178131358355369441371973524504307410274427696259972 mod 74058212732561358302231226437062788676166966415465897661863160754340907 = mpow 50366660687963342066214195241331738400016478712605795091965648721912165 1938339573294 74058212732561358302231226437062788676166966415465897661863160754340907"
  by (rule mpow_steps [OF pow_prime_q_31757755568855353_2, where M = 110427941548649020598956093796432407239217743554726184882600387580788736 and d = 36369728816087662296724867359369618563050777139260287220737226826447829 and cs = "[(False, 70427176539591418856612778123501629970752817968519371326185589411254346), (True,
     34001141115115486627727954996196558923384802593888126004249552548846637), (False,
     55086306267802225888682825439780245256853439195016330385720965193254231), (False,
     46048287097832340731716205985817572865952599233002335712534123882798657), (True,
     14868231725479615796684492838639644876005701186146731485272596912898416), (False,
     17148996328843998137005011451859859853105525807231613239908911049284482), (True,
     39293750224157996332714316141079606072367492539834888136366322921109048), (False,
     46121786597943563093519716357800988676091860473171413156525204916225183), (True,
     47155058135951302137062969844492771177913341160933438576592221450931712), (False,
     12782637931243450100575622410563970750823456622373340925671934624251264), (False,
     30114613708949972056533393336580634268412245537649898959419891378535234), (False,
     33911582412225246552647355218265078588539703892541261798954210157317720), (False,
     385022893392364959834196769417918970378651394639351092116277816724935), (True,
     143507531045816065131983422637332270001536867611463282379726427179302), (False,
     16921951534001737469782325269285770173486071524689686700658814761870570), (False,
     15863242207137393009422013433503661693844879226754779730192719875722417), (True,
     22261100500394175738973858219837926600917170773696001266992594334980532), (False,
     2539982538935045420013403193269811995122404114823842251935023255533660), (True,
     35557109378341088828094700332340793513741337648965300564302826481783184), (False,
     55021403602797202076914541991224373039651100057953239027756696290943261), (True,
     9004683763008580351568871641123031437168723624695083972623990033949327), (False,
     5134737730093950341358538617754003478548140175897286803944565123898687)]"]) code_simp

lemma pow_prime_q_31757755568855353: "1 mod 74058212732561358302231226437062788676166966415465897661863160754340907 = mpow 50366660687963342066214195241331738400016478712605795091965648721912165 31757755568855353 74058212732561358302231226437062788676166966415465897661863160754340907"
  by (rule mpow_steps [OF pow_prime_q_31757755568855353_3, where M = 110427941548649020598956093796432407239217743554726184882600387580788736 and d = 36369728816087662296724867359369618563050777139260287220737226826447829 and cs = "[(False, 15732905872789275740063436930132372751985498848193571182727785903315476), (False,
     6577772170358520973202740159027545617051741438638039697874102572984349), (True,
     5039229916516825389106193449567963432752579839824785880916833715566724), (False,
     4372706038860421696147745379769818727613842989621699942940437422818343), (True,
     8167546935510941139926322278592048552598521685360257601674859202527480), (False,
     33486207429639465704738434599014169231931730901049238470463608877087942), (False,
     7764144693740549502386826269139978391934736141688106294357001814839106), (False,
     14490422578775088658424775290308504052465142970359173047147829796939505), (True,
     13519513708715332653840559982579306934654371082979857479388910694888006), (False,
     29326828154191711000231850674431325699632983141568092507508576144497430), (False,
     10413873395571801538254471796674447527473420488082617526493881505207431), (False,
     69447210106143825373099229221058315931555021997078516395751993402846386), (True,
     20111509602930942454686820117020605298234438932442735211758206711227689), (False,
     25674427693270343578666276101976781545896626478603802526080391649383444), (True,
     9700100556306321015546177316351644487402337140231265806664311062844456), (False,
     20751495948183587082853824402273604054885982191823581847303002184213567), (True,
     30477593748752625414901239476864655140352830038598174337730957905181677), (False,
     7519047788198773382767980897556998806420435589386719178576023762941459), (False,
     14036229839044461017173991487329032357872351211283409014466141557165731), (False,
     73800973805534981848655583073224069411728827084851973083296512082654580), (True,
     41109691812322528352984329536107421387412591598309549852491815746083112)]"]) code_simp

lemma cert_prime_q_31757755568855353: "order_cert 74058212732561358302231226437062788676166966415465897661863160754340907 31757755568855353"
  by (rule order_certI [OF prime_31757755568855353 pow_prime_q_31757755568855353, where w = 18232248056023258384404751131439975669387062239511397558448549501188471 and t = 12399670712182237045161807348470345042472065485440476986607377034942449]) code_simp

lemma pow_prime_q_1923133: "1 mod 74058212732561358302231226437062788676166966415465897661863160754340907 = mpow 52266576830164329332527201090776533817489900267135412990654516667243924 1923133 74058212732561358302231226437062788676166966415465897661863160754340907"
  by (rule mpow_steps [OF mpow_start, where M = 110427941548649020598956093796432407239217743554726184882600387580788736 and d = 36369728816087662296724867359369618563050777139260287220737226826447829 and cs = "[(False, 36887131794666921487293237749551950193921001026801238554623921578674130), (True,
     23803371481106721318955966891704850384546023135144651754845855593271601), (False,
     9543638406033685697085129102277295640153426718938486542855102780463282), (True,
     308401875786568045693015150846346384704568495565059158283616827816938), (False,
     573289994095691448776333517749562982805638102832221366339716559691657), (False,
     35964489104269795482243254012100941035772502978005441277885270201917886), (True,
     20449456679201940896787766190960310958181772270979027491575138845432038), (False,
     45043285513191242769515294051752941499010407475998057958838169749299486), (False,
     14119121272017237435421788008120202001450733072216839717082685089853707), (True,
     27752507459398695985866708674979000556302380675379225568975603739906172), (False,
     3915845305187201356515006533729924912240208553736447481585346489664230), (False,
     55350142169866433068810022497025836940406404074134350956051399946721919), (True,
     45580805607419411289281825296007059777743131896454778276272496490834612), (False,
     32253000823379270925857131813210324915808375896848608998718949972535949), (True,
     45830231682105345024885850540331791890630602633446360001148792448851009), (False,
     966009859330741268324717563569139600151256695995605561008504181533037), (False,
     17194343550573855747155065011587111867571196992261136634264526701598165), (False,
     58977973287324141700508188299836550853912255067550893499649175003118037), (False,
     25189606792737423525465995301383253944135661032336718053407089591751638), (False,
     3277823058078473584893555936309628811963957883540502388859384165113401), (False,
     1341973186519918317142800827483151235941419467009659474171254453322581), (True,
     1868082470853285289365137979691128813768832913627856661878854870857286), (False,
     28797584255708269109915240155330184236332848566453073284613129508899683), (True,
     35421856142437271648294726929106639025501207316325248271314154543239331), (False,
     4021341439182768320679476967206795281835568780743287712832850118924527), (True,
     39370062590949592154236301669117671498740339254581159795257032090112613), (False,
     558590669796175356201493069135002091136766100863798638210567438804889), (True,
     8371103736819035376901764486499220861596491698814671554503784257939668), (False,
     20389476497100286566965898917446459792870160325112566760774921171877249), (False,
     376715464273730860048325087580173735292115086748849495224755882841270), (True,
     25752722742210314323418022973715833805325225134112631550090489683583905)]"]) code_simp

lemma cert_prime_q_1923133: "order_cert 74058212732561358302231226437062788676166966415465897661863160754340907 1923133"
  by (rule order_certI [OF prime_1923133 pow_prime_q_1923133, where w = 42667922733402173883383430511031973246347600196095044695562289082088131 and t = 30112882547979227179894181851931063355236050904331325412875942115306216]) code_simp

lemma pow_prime_q_132049: "1 mod 74058212732561358302231226437062788676166966415465897661863160754340907 = mpow 54871647690314810166557542068595163151590274869528630571075996285882505 132049 74058212732561358302231226437062788676166966415465897661863160754340907"
  by (rule mpow_steps [OF mpow_start, where M = 110427941548649020598956093796432407239217743554726184882600387580788736 and d = 36369728816087662296724867359369618563050777139260287220737226826447829 and cs = "[(False, 40655824778312828004798393267531618742368807026573519617489238041274323), (False,
     59862285944303176225029966484772863351834261899462306425386526337653467), (False,
     1672286755617981091566056635958087699146657391650012055950261263016173), (False,
     65940980644455176003506732368053295616572401080253551773440966845718183), (False,
     5916190819066320808893409875855630412530401564083261827376611218954377), (False,
     11190079108164424584423894125008864550732453287622191760931983398944280), (False,
     433651332231579360988096524617992265923488775789598291301001328195350), (False,
     15160633472773272799797786105539533041361838074834662048554788664963469), (True,
     33703016750745848961768766954525126938481357561594038377245181039001284), (False,
     27275195400327795094557691201940025511203899003770272272182461521819697), (True,
     1615295904822051375235230875170879714373823537512403400231545632555943), (False,
     12867465994641790222525896579244660881889884458298251751821178703661030), (True,
     40380577094569107313550762354142385234512257911623834718324575080235465), (False,
     14923364662320130615746106184651407757645336747838734105212791259012965), (True,
     13372230189930978612722588184963536341445621947177634233037651734557250), (False,
     60934184280731544116266037740787060783160979635142472650346698097532988), (False,
     33021857587101543232523458458975775369151401601318021626534597463469024), (True,
     49025945410615430862859067506063648051796520756973921758221300822583294), (False,
     35843834179384841027804764794423605903857950742898439746974214095960723), (False,
     173267917151069327126697976175039431795299694845971706783945145107743), (False,
     23768133692279486731663678178626553477931182354315696349608830512214904), (False,
     26966678182991598808688392392375108103625701713166183533015889218787313), (True,
     43416384607052988872401549830644176483876770997056222031941753111790207)]"]) code_simp

lemma cert_prime_q_132049: "order_cert 74058212732561358302231226437062788676166966415465897661863160754340907 132049"
  by (rule order_certI [OF prime_132049 pow_prime_q_132049, where w = 60866143585925738928617515635715523168309420294331869881307553974491757 and t = 45097302026120895840328026014721253417106628889161781868494003304740661]) code_simp

lemma pow_prime_q_57467: "1 mod 74058212732561358302231226437062788676166966415465897661863160754340907 = mpow 34423717228876157273670922671787235583289084632054732964365754153055025 57467 74058212732561358302231226437062788676166966415465897661863160754340907"
  by (rule mpow_steps [OF mpow_start, where M = 110427941548649020598956093796432407239217743554726184882600387580788736 and d = 36369728816087662296724867359369618563050777139260287220737226826447829 and cs = "[(False, 16000822381885765840930574410114974680972934611488798810249740007633274), (True,
     10368634247679171946911073012187517602486995340112090396311477700996395), (False,
     13113344888702514866349377397737752310091286709463241573066394895492587), (True,
     1129356637564715900290390394894576091909478132720848257493503513950617), (False,
     14294737247497698466192097397018611093811800759463210811565545387855477), (False,
     26048710522632434081495230715926238999616559900128901012847077348225680), (False,
     38459909161148849825310808672463388589098855226582906339612392014830924), (False,
     47969280590265907079550085030582513812126182675796077281117337781390700), (False,
     497095682998222201225798091936807605200634192788278862170974386752094), (False,
     12052250275283698825507984588238717513306926220373675821335885647066678), (False,
     14159245037385165192904142096351007166025926067764303327715172853042108), (True,
     5624929578250273616629736495240504021486750302556903957362101022437811), (False,
     39024945094823684884553763801587199556522386927315860487195076174512664), (True,
     8798635467601818393550360151267238424935576516639280865080895525909515), (False,
     72603293516111852188923184544856535248679308212459464600940319848211420), (True,
     12982751472862117652221129750319491597076043794630488553816965306505010), (False,
     2586652491804807582317440334094605907571559599613590614031738316217398), (True,
     18055233708732516573847002677705250989498045367543394228788550467560842), (False,
     47021722010956323598586862060708937360617788158339925648125201158792701), (False,
     14458362457532115203013186038216722349063113281025672640524459824250815), (True,
     28856670198296578285483833327726184141760005775992334056959589278921823), (False,
     27415898243751893704923526076453366241896670911757201272661566475298115), (True,
     876343834590019473579634885325203960732405550698470510354270303189782)]"]) code_simp

lemma cert_prime_q_57467: "order_cert 74058212732561358302231226437062788676166966415465897661863160754340907 57467"
  by (rule order_certI [OF prime_57467 pow_prime_q_57467, where w = 14824715564668784131283553449357537219684777824927388968274202049879618 and t = 6890820042330064149542463937545260745556921872819213328703980731288733]) code_simp

lemma pow_prime_q_353: "1 mod 74058212732561358302231226437062788676166966415465897661863160754340907 = mpow 8562916886866218785688304546164188478888058893729309188831496247839076 353 74058212732561358302231226437062788676166966415465897661863160754340907"
  by (rule mpow_steps [OF mpow_start, where M = 110427941548649020598956093796432407239217743554726184882600387580788736 and d = 36369728816087662296724867359369618563050777139260287220737226826447829 and cs = "[(False, 990079869685274089067819496795799193426049271434876125113348038497139), (False,
     3523234067486837190167727816620328707138147160225995919857807195680933), (True,
     6943902598427620566040507888544225490013296520125495564525126341218717), (False,
     8555782696598372221507375289885155425853886992120632874908843432422649), (True,
     7751844576858213551866358427525485044944268855197018995478577627578812), (False,
     38476664613835196748834781468705115678974470112494513702026977008765452), (False,
     27142819198696964090932012945428575420921880469737623229143591720974848), (False,
     60850260036196156930366811057474256033212425607645421547079812641604177), (False,
     20346677712519600861533358236967420646558390703252951092134017590391550), (False,
     21078893406841075082597818872810546538805489190137209929913121615514), (True,
     4024672412600698598173501434647204766160835522747065800799027201499393)]"]) code_simp

lemma cert_prime_q_353: "order_cert 74058212732561358302231226437062788676166966415465897661863160754340907 353"
  by (rule order_certI [OF prime_353 pow_prime_q_353, where w = 37940283535957283147790493383286696582099159842122763948555891970476459 and t = 4386812516739286907093083275457056104889941688880599415971985667035232]) code_simp

lemma pow_prime_q_3: "1 mod 74058212732561358302231226437062788676166966415465897661863160754340907 = mpow 30397109428614726089754189191956088611235801571633239974164411255784155 3 74058212732561358302231226437062788676166966415465897661863160754340907"
  by (rule mpow_steps [OF mpow_start, where M = 110427941548649020598956093796432407239217743554726184882600387580788736 and d = 36369728816087662296724867359369618563050777139260287220737226826447829 and cs = "[(False, 12476459092415118799783401526773416206669661580210656416150317538474782), (True,
     17920650336199607289970787665182672404566139991422583558014093717309372)]"]) code_simp

lemma cert_prime_q_3: "order_cert 74058212732561358302231226437062788676166966415465897661863160754340907 3"
  by (rule order_certI [OF prime_3 pow_prime_q_3, where w = 39239772012169330171569421227389829580366043753099518449853970084299219 and t = 16105919921604777793241658952379587005267313854351941177392834991031175]) code_simp

lemma prime_q: "is_prime (nat 74058212732561358302231226437062788676166966415465897661863160754340907)"
proof (rule pocklington_certs [of _ "[31757755568855353, 1923133, 132049, 57467, 353, 3]"])
  show "list_all (order_cert 74058212732561358302231226437062788676166966415465897661863160754340907) [31757755568855353, 1923133, 132049, 57467, 353, 3]"
    by (simp only: list.pred_inject cert_prime_q_31757755568855353 cert_prime_q_1923133 cert_prime_q_132049 cert_prime_q_57467 cert_prime_q_353 cert_prime_q_3)
qed code_simp

text \<open>The modulus \<open>2 ^ 255 - 19\<close> itself: the prime above divides its predecessor.\<close>

lemma pow_two_cofactor: "427094198651976259540344842774561673889945192655078505504941250475370961481 mod 57896044618658097711785492504343953926634992332820282019728792003956564819949 = mpow 2 781764 57896044618658097711785492504343953926634992332820282019728792003956564819949"
  by (rule mpow_steps [OF mpow_start, where M = 57896044618658097711785492504343953926634992332820282019728792003956564819968 and d = 19 and cs = "[(False, 0), (False, 0), (True, 0), (False, 0), (True, 0), (False, 0), (True, 0), (False, 0), (True,
     0), (False, 0), (True, 0), (False, 0), (False, 42535295865117307932921825928971026432), (True, 0),
     (False, 45), (True, 0), (False,
     3618502788666131106986593281521497120414687020801267626233049500247285302104), (False,
     2035407818624698747679958720855842130233261449200713039756090343889099084589), (True, 0), (False,
     6533800445550465250799034157747312671530035450646038907133699743997849816392), (True, 1), (False,
     590038059651765437572058142766407967583679313528560775747282836245157005982), (True, 1), (False,
     1731074615247051634489172293683676124410868977223555680707173906843900652117), (False,
     43324204993500061597826158612414131961250850909546105626879919447147686421064), (False,
     3075446206036701470872393826992783401752763128678510908850634197157076446817), (False,
     14548071881403119631352764353181880382398089989767971878400320788394391368918), (True, 0), (False,
     802028749036987574340757424989663227075669220565584140869463940457761020232), (False,
     27665405654990747157847101006816744579137975244959593346139654333549227807747)]"]) code_simp

lemma pow_two_fermat_1: "37822683121557414710095899167460663848543473551043355343191920648275892017928 mod 57896044618658097711785492504343953926634992332820282019728792003956564819949 = mpow 2 2147483647 57896044618658097711785492504343953926634992332820282019728792003956564819949"
  by (rule mpow_steps [OF mpow_start, where M = 57896044618658097711785492504343953926634992332820282019728792003956564819968 and d = 19 and cs = "[(False, 0), (True, 0), (False, 0), (True, 0), (False, 0), (True, 0), (False, 0), (True, 0), (False,
     0), (True, 0), (False, 0), (True, 0), (False, 0), (True, 1), (False, 0), (True, 0), (False, 0),
     (True, 0), (False, 0), (True, 0), (False, 0), (True, 0), (False, 0), (True, 0), (False,
     551367670776701298155427), (True, 0), (False,
     471414969316188648141848639006813204435988828222960066194344599217544846819), (True, 0), (False,
     3407866525535113841503589958590043906304684900224015490269592213704318216751), (True, 1), (False,
     57439662719915560291373545344443833537373646235871341729621994764941448309096), (True, 1), (False,
     681753867153464181348223837870738304785322068099057849246025648789500588844), (True, 1), (False,
     30140780313742161155396419962120358507516903967009827777469622225609662425203), (True, 0), (False,
     2665846952031364783018773992346036109755330739932224151481272086967524792203), (True, 1), (False,
     17532646752736644488336190803563533034752971851389345505774727054966930617267), (True, 1), (False,
     15509559174461008539748278554160429396862810706560140114212042739307338367687), (True, 0), (False,
     23928397935920379955512007785372125661117788988114052563415782363179742778646), (True, 1), (False,
     29995918788439421885777272135886007940012791219569977310675264767072719019753), (True, 0), (False,
     3560633884758025642783116627152126157595607415593531725726976969355407985118), (True, 0), (False,
     53923294150705828565368826338412799648856659163320307707260385703557986631583), (True, 1), (False,
     1235234172882584628249313673354012824984394170021116211577481021113809177623), (True, 1), (False,
     10563484444000787080455850838234529262504645344155767667428917929153249540107), (True, 1), (False,
     36064717420400496868797383468781490120752121379643404363755979831011341627), (True, 0), (False,
     11943372357400507443348253884768913886339676427623192579885771269647908609), (True, 0), (False,
     17118158802952081792840531496358459117685652362575403783107487690461445687328), (True, 0)]"]) code_simp

lemma pow_two_fermat_2: "29681671761315073482538582626460610693621576637624872798416464178705770446329 mod 57896044618658097711785492504343953926634992332820282019728792003956564819949 = mpow 2 9223372036854775807 57896044618658097711785492504343953926634992332820282019728792003956564819949"
  by (rule mpow_steps [OF pow_two_fermat_1, where M = 57896044618658097711785492504343953926634992332820282019728792003956564819968 and d = 19 and cs = "[(False, 24709034407036513893469611482550692409285213297551637500997077279735405725131), (True, 1),
     (False, 12444762835729318066524959310067099907997868637564430909268825779548056274978), (True, 1),
     (False, 16954911944722734197908026556333291998674323778836775915075824716386807986028), (True, 1),
     (False, 34352610009419735350854172045681890811915190498087363502535753245138100639), (True, 1),
     (False, 16826676613930557735903622366421311519038917592729858495351001711235484241060), (True, 1),
     (False, 92340478675085526800504084742116125932466276802044894788384080465255364319), (True, 0),
     (False, 35279873049037812512565726277712980084699254382477131464931400566541688700090), (True, 1),
     (False, 349835569185303571319079199780739689596192820108190978432828949262136140056), (True, 1),
     (False, 22993364852554380946801808245168976975102678898950562889380534963287142231), (True, 1),
     (False, 28830763700179775617594995080857797956077985964875443078573607651524637673933), (True, 1),
     (False, 2797055126514170144399362458386044168724273961344527254055236037515789445727), (True, 0),
     (False, 24862898105970042728676350278165755353319436010562400292967723280651932833644), (True, 0),
     (False, 36756802728729600531726087272816562406879448001401373929296461274828077918209), (True, 0),
     (False, 25353755948197279762666397291776098037850158119451351272397113091492710097640), (True, 0),
     (False, 17267853914048470939510667104009318908096613854289526590354665844674996902411), (True, 1),
     (False, 37878881788006300030445288744121134904456553040098412894109348162504968556389), (True, 1),
     (False, 32694241610420042422251861122951185903324893975318323855256164497065771498028), (True, 0),
     (False, 56545821938332486596338455774468401319511776608686621763375388645032594878943), (True, 1),
     (False, 10975799456395812507397241022480449687004406884192803978230173285558504202747), (True, 1),
     (False, 14955635226437396430402153010800040069223150184737950401518349924573864831844), (True, 1),
     (False, 35049064865463872774667179110117118820951907059508573811110802264654073965184), (True, 1),
     (False, 19447298753099445045266624378779526336736888194893200538196059327598470360114), (True, 0),
     (False, 34422222935773790789221719152985076944217531422821043890868592406458989673625), (True, 0),
     (False, 3416869186076979195408381920164290471325947390330921693883783041443971949873), (True, 0),
     (False, 31018060762638393180564791363989257063490167008424270573819926845480746465267), (True, 1),
     (False, 8244279646395915221718616788133255170661839671843952439445707160320597026071), (True, 1),
     (False, 45337650413438285128982086794934816107775610526918214602437431979162391244879), (True, 0),
     (False, 216993017772033689384262862465403142376815705483762393638856128480548642241), (True, 0),
     (False, 2101788537048623504834225826970024310125226859702642337824896622666847082892), (True, 0),
     (False, 8895849337796095116237439385236547701306024649220891067205138747842128736268), (True, 1),
     (False, 13843786319297051527352961814461373358019786972149774702532048394340819540301), (True, 0),
     (False, 28716442226719068658824201779832814513948555602308443333381501604034730554785), (True, 1)]"]) code_simp

lemma pow_two_fermat_3: "19328068596642071616388258773760056600004400873025819700775715201434807731307 mod 57896044618658097711785492504343953926634992332820282019728792003956564819949 = mpow 2 39614081257132168796771975167 57896044618658097711785492504343953926634992332820282019728792003956564819949"
  by (rule mpow_steps [OF pow_two_fermat_2, where M = 57896044618658097711785492504343953926634992332820282019728792003956564819968 and d = 19 and cs = "[(False, 15216957295603043327804147114381741638021873737356048762723977611561914079952), (True, 0),
     (False, 6156117443938301231651341101675042404686267312950665644128134936757225832879), (True, 1),
     (False, 44858114661869234178148964399991575260353105293497282818833096525639392082426), (True, 1),
     (False, 36996289600990098088566976532462018208129054144927311919177150382540015711781), (True, 1),
     (False, 31225245210360363182548236512687958730695150534851041615263258511598342993015), (True, 0),
     (False, 2005854012335102823452386618730604052206372791465906569940142631229222519647), (True, 0),
     (False, 56394399093030582784116056142707547306765342825094149589393312074902729611212), (True, 1),
     (False, 17984292288347075365901105328956134908051212179861599288261440887958096603309), (True, 0),
     (False, 16889268194537246083546811622875068817563320444935747414666215946854964529888), (True, 0),
     (False, 20271194372806737709706397760980942583095928173480030371678826465406616475614), (True, 1),
     (False, 18470423755380768524759651161880168284709457176877077409454806328160800159350), (True, 1),
     (False, 741468330531982970754361881519117431185994018240333045173871706556405885482), (True, 1),
     (False, 88648929047477289487111243874596381586229783180417793915837448436614265660), (True, 0),
     (False, 8238681424565225299266751844842172828830319530783106852319391305803976409971), (True, 0),
     (False, 5125327568877541968277300888667609251811230513338575116327133334009327585), (True, 0),
     (False, 32810657055960282412915668423116061619604332494211937948208326053481635288382), (True, 0),
     (False, 42478910719567388165630751140420056710130867903138243429110777701021205997733), (True, 0),
     (False, 7441470672782062414033008806004242560997426410117646686610180934616964641086), (True, 0),
     (False, 33083944380557139164680023649838723823417951100109305745401915458196770814132), (True, 0),
     (False, 20495068566402154533996930702740369191874096542995655459154539015486809862467), (True, 0),
     (False, 5246741201056289111024866886637622140431735845501473962723609422724845124280), (True, 0),
     (False, 41443819575429813992847694542229700650807284257762212720407074675022320139488), (True, 1),
     (False, 20170950242698253405313267443962526660499144515278700862905154055998028682597), (True, 1),
     (False, 12174277950380678928359748829408470593476285554145203729363273671539020385), (True, 0),
     (False, 16517996319079680939035277194410652253408612898022229499751467114015036503646), (True, 0),
     (False, 1799340772909007023266297515174663813619483123011053940376182594260146381225), (True, 0),
     (False, 1754630476524522313018920235930529268257876301723027533041273703982110211587), (True, 0),
     (False, 10648461558475622927153850614471661281652948811336516426337006870186985945601), (True, 0),
     (False, 1034271305318001520074328570813269074977029292833347339148016836995778925998), (True, 1),
     (False, 13917576183450801434606887604435169071334650078203462365447956740147877245585), (True, 0),
     (False, 38067900130695651748110003085237792188281905433617146035129549670715134913379), (True, 0),
     (False, 53510761388665855266255731527967176842872209147895899016884270317280663115512), (True, 1)]"]) code_simp

lemma pow_two_fermat_4: "50503907384779849179363696987365820920550266664725850379172394941928600753056 mod 57896044618658097711785492504343953926634992332820282019728792003956564819949 = mpow 2 170141183460469231731687303715884105727 57896044618658097711785492504343953926634992332820282019728792003956564819949"
  by (rule mpow_steps [OF pow_two_fermat_3, where M = 57896044618658097711785492504343953926634992332820282019728792003956564819968 and d = 19 and cs = "[(False, 6452500134285685584051015625883191233017407451713898791845602875273639794769), (True, 0),
     (False, 44005011651842232519099550985716175337911880197539896439079776174424641785853), (True, 1),
     (False, 16634318873373543324650453488739661093720122227926540638555137294578033938741), (True, 1),
     (False, 21030035802856571126689419792466193616243153339009076325856992706267799199627), (True, 0),
     (False, 19919691482104424180167033635695001762613040171910525325451729788372670287925), (True, 0),
     (False, 51175435815910854108613489174731959111783900121188198938522937440608348970766), (True, 1),
     (False, 10775612208481536965979086827984598251291729169529850033485814369813776459165), (True, 1),
     (False, 34460336119800936063555219373758071689644608768054504466596342885380843124636), (True, 0),
     (False, 33308572655475613267824929524615447545158404722743749667789010782257256126453), (True, 1),
     (False, 57321461973078596589881473694837401284031183082609763144402973457167757206231), (True, 1),
     (False, 2651078701522913340909963445686884778469291602657480224658873678479077475073), (True, 0),
     (False, 55045489137399753797307129082151059155970630100215495574175533899729989412223), (True, 1),
     (False, 12705366735425338807878452228648570761259659756644484150720585876974500801978), (True, 0),
     (False, 1305356857864042216093128053004413470165559933737798444605362411755619934485), (True, 1),
     (False, 886911899320074462485655455831715172404507549133964813313089228843265065179), (True, 0),
     (False, 42822734160677456268782020039975479586999786062461677495271803848438877882926), (True, 0),
     (False, 17479270358499966951829612130829889493870552014460528968525281941893056375130), (True, 1),
     (False, 8269283905651079070705597456746497936400561552214083417079857293040528320240), (True, 0),
     (False, 57280462650310105513029781631875530915670216750908601058308989745216453440192), (True, 1),
     (False, 59263886623715842385250429463904328851837976803549306884465521943944998951), (True, 0),
     (False, 155437939264828345724351925613946908598813954555858217016461531934135824660), (True, 0),
     (False, 55610682512706337873978188305924908538426245872387794536059947164666703719215), (True, 1),
     (False, 48487395028909860930912657133367596061898400429307182406276295950004693233733), (True, 0),
     (False, 9491349428935541543091274868150239842983114647560533763528427765929777774290), (True, 1),
     (False, 33773739942223710330393727030435301779400832448402398536485359657839624976810), (True, 0),
     (False, 54045269050302048059152120362555340436145570186392158687151863763997198656325), (True, 0),
     (False, 282381374628920295336720119864987421737720455350748927113257984068709065777), (True, 1),
     (False, 15549584646399421811025348070478260725530196510919910901891089640209329113495), (True, 0),
     (False, 7619079073400264538558131946985180192059335542748408178470356216476381908686), (True, 1),
     (False, 5401452398078660195667632557630494837342912018018830410169340176934427160557), (True, 1),
     (False, 19581169453013039667607667664152337172343815417783051552108111633941763077640), (True, 0),
     (False, 2220394316333216009624907998909708589796079744530080656945614047445369212804), (True, 0)]"]) code_simp

lemma pow_two_fermat_5: "26389076693310116141985250835199949026874418449444379430995625568753508958665 mod 57896044618658097711785492504343953926634992332820282019728792003956564819949 = mpow 2 730750818665451459101842416358141509827966271487 57896044618658097711785492504343953926634992332820282019728792003956564819949"
  by (rule mpow_steps [OF pow_two_fermat_4, where M = 57896044618658097711785492504343953926634992332820282019728792003956564819968 and d = 19 and cs = "[(False, 44055594435348127377724776487204696907507211677472191898013562979475015236604), (True, 1),
     (False, 12557451762293326913331157669484857331203261036770097494796029737875140579109), (True, 0),
     (False, 302875889030172730835508257261864954711796571589235523116062309692813122094), (True, 1),
     (False, 872432115734924987056177336061072530496776948103951588060341170229236816343), (True, 0),
     (False, 15027475222894196806802994833546260369442219777489806240295755017393755663346), (True, 1),
     (False, 43181665116713136698188955715367298198737136400026736929180695794292625843473), (True, 1),
     (False, 16744129403857983848880883224029527869202234408615216835714324570386937728630), (True, 0),
     (False, 37850068221095201532609376676004733302243943230204913968569519245682065798758), (True, 0),
     (False, 27783503836313571807364827048261448516099795568732763446431612612964542792142), (True, 0),
     (False, 19288325560055351098889800220833346942179413715957681929084313983125243625437), (True, 1),
     (False, 5379880503608603015662645011603275270871747347862936585646052422776881928169), (True, 1),
     (False, 2969883641676465715992858182867023188013124387053393547243056511855074948390), (True, 1),
     (False, 13371936354456643101186921399860507608603025770859856301392683399373286973561), (True, 1),
     (False, 7057754991910066312719021241026275583892148745792910899088197018028787708689), (True, 0),
     (False, 1421292872991446808646562041911757268817083506367382179209222248878657864297), (True, 1),
     (False, 16940990405518270736016949251736900332249812412177729217956439095135253022257), (True, 0),
     (False, 31901151257899211189622793396592987097555832481685917612352131763529641104), (True, 1),
     (False, 3581006348395142399199090156170830424737054952053116381839638324209366930550), (True, 1),
     (False, 57180090737190906568920278713407716585513430123483498344643325457052638228632), (True, 1),
     (False, 28397388997746788010120288781175245795404461247498157395448019787066029913299), (True, 0),
     (False, 36503755027782280052174913481232021732654902378845063409453609783886748585528), (True, 0),
     (False, 13237873840041991748115054468211995668817644001014138344461492588407372645449), (True, 1),
     (False, 22083802961553281552094008111795423171972614510877806518147529432230595158987), (True, 0),
     (False, 25108486629058182604762270031537733901708592328946374186925699484189209197230), (True, 0),
     (False, 3337776304540138305622174871086675732482979236034894874141310488944279510669), (True, 1),
     (False, 513862221556723360922574698963374218844709337260391032506806727898197464371), (True, 1),
     (False, 52940261889387949324894721141935558497499586075030821149194200714525062094852), (True, 1),
     (False, 8182224398707002008467721216908575577451536385589501723190639146609883214852), (True, 1),
     (False, 814837354505072890783862455537010697418578298349000146755849739960538568166), (True, 0),
     (False, 8013994009874995333984039403712644238391650748239393515630351795945873323694), (True, 0),
     (False, 9385496614479507187584469048759426146413506831694861778511263412886577289468), (True, 1),
     (False, 1492491473136353278865038247794101705871711909059171547512691974993202294582), (True, 1)]"]) code_simp

lemma pow_two_fermat_6: "53821164031703208189080431028209409696023511366568294270491627813890002137014 mod 57896044618658097711785492504343953926634992332820282019728792003956564819949 = mpow 2 3138550867693340381917894711603833208051177722232017256447 57896044618658097711785492504343953926634992332820282019728792003956564819949"
  by (rule mpow_steps [OF pow_two_fermat_5, where M = 57896044618658097711785492504343953926634992332820282019728792003956564819968 and d = 19 and cs = "[(False, 12028168302554133967131361106541335711110597152217697072855604135757257361578), (True, 1),
     (False, 29859110114238887901715269932784988182246388782121032217376695927874080775770), (True, 1),
     (False, 12204559049162550310342150530237665829074927673651941421712830138095960084116), (True, 1),
     (False, 53376498681951113637923116555672486227874296169243416286995799017973545913985), (True, 1),
     (False, 880117603630724050700458535054791890545038521341248147989132133754900587260), (True, 1),
     (False, 7883022977623546853432583830024466241380435645787297700012473398221202950969), (True, 1),
     (False, 13479290758655103539274013111791317852558241150374412919600780887088754389195), (True, 0),
     (False, 21864989942314422257480581979992467344513913273228370487913995907076453880776), (True, 0),
     (False, 57837776185654502373325086475270774786881495982195931778083657348047190318992), (True, 1),
     (False, 32474809420744721242729531283519825114436460525674695294224115819169719552929), (True, 1),
     (False, 4248916381885951387519045188649244076209307491911607757082007758231270047393), (True, 1),
     (False, 40777322094351150943021912184370417759920186012382985939752721218442368815), (True, 0),
     (False, 1788129736276094883269277072266192172362686574469800587421772222119860461196), (True, 0),
     (False, 48961047126477420790218079424981091007995122616194173222455379438002112610048), (True, 1),
     (False, 3398899746887470391157670614969521676539078835291630453772772893246103953723), (True, 0),
     (False, 635446124032282505865965989614742290174211606865086957036102317609105133100), (True, 0),
     (False, 4668783131598041720440118816469797946176876587635082111330651932063688609895), (True, 0),
     (False, 662871824790663965045266821083179359229307001827533299905971075055140474104), (True, 1),
     (False, 8095492746796962504169350804592242480315270392527643371529363499693560158), (True, 1),
     (False, 51049375474192631807774339902978894389659290942252532444025867333186886931203), (True, 1),
     (False, 29584616252783592152710584921613924578248142612472545122836982004889720930990), (True, 1),
     (False, 49441934888995795846100201658037444048930550649111897559989518682795523584105), (True, 0),
     (False, 15307365246307946825888782069074061503845253185377170402705130973837581168725), (True, 0),
     (False, 736113097430203663969703056262875552398608309654522277504723814038480845259), (True, 0),
     (False, 2853835703775373041814430622580177504821342000060573621834843227735012260527), (True, 0),
     (False, 9968141293830594758694910010595223938172889029391105051455219086464298847516), (True, 0),
     (False, 23656856626744453021404170365714492677656079249781751917588656858403608676649), (True, 0),
     (False, 29002193769811042582141368991701903873985953348237497178160956160036688512245), (True, 0),
     (False, 16025805420470702356980109020037825944744827483279515371612276817194112396895), (True, 1),
     (False, 40313943010096725604978657066519115064450448772752759771083834588728587163151), (True, 0),
     (False, 10143059592201156448079252101130233593246221336884982653971847570617487538313), (True, 0),
     (False, 34269996010133816910242579591446204853061184422688904802319599167086009614733), (True, 0)]"]) code_simp

lemma pow_two_fermat_7: "21316658154331738910193541779585055043469702896516072202627221661286878826881 mod 57896044618658097711785492504343953926634992332820282019728792003956564819949 = mpow 2 13479973333575319897333507543509815336818572211270286240551805124607 57896044618658097711785492504343953926634992332820282019728792003956564819949"
  by (rule mpow_steps [OF pow_two_fermat_6, where M = 57896044618658097711785492504343953926634992332820282019728792003956564819968 and d = 19 and cs = "[(False, 50033084588199673911362795555644721796856196302409271924337780299531018011640), (True, 0),
     (False, 17753162181929155995660559730414894553899061379696090683567942518943299940293), (True, 1),
     (False, 45123333897517496002146365200501894166590825725174564979134498200985678548707), (True, 0),
     (False, 41056464178956021426237172540911978800556768914410975287109404695535889887707), (True, 0),
     (False, 22668687174690027022148091007487442172845448044866169660372733519085068395032), (True, 1),
     (False, 25903362345611556602350185493311707386778783350568718685551649468018491919741), (True, 0),
     (False, 35725605773954585153145063544328669121686136131410331139299338493408085414441), (True, 0),
     (False, 32157101960039852532919172217768695617160610907562041658670797021687981852936), (True, 0),
     (False, 43527744272610477221211999656933677195064112105245543227958281890375059869743), (True, 1),
     (False, 17830975233416458840558922693887061014927155157904067838837850249921974713727), (True, 1),
     (False, 2111490717563912097146416840835614257594110674041268261542899297758636914347), (True, 0),
     (False, 524289447139529778917793415707730929095413079782405100777026495409155843146), (True, 1),
     (False, 26517566816462354567069292143190799371166365182157201151564094938096265070317), (True, 1),
     (False, 16919805980330138813471674108096281338321907953621997941436402001618426624384), (True, 1),
     (False, 4430862675806366589999777138736540462055490873201406554485523486290739888683), (True, 1),
     (False, 814573483647853729916543883522152256717222885559289152403727339608340524824), (True, 1),
     (False, 118919125117368502699720766645318730207407478380822292918531151451510408665), (True, 1),
     (False, 12862865885897449683777373318762225905272488287763929343080205799553241388142), (True, 0),
     (False, 10605825627066352951803434514399964308762033143118146136327543324251785925598), (True, 0),
     (False, 33551778071489997975838705634357012806679398618112868929646474427764971831086), (True, 0),
     (False, 56274508726450328418800403730263863898771161063705210646891764198179012486912), (True, 0),
     (False, 162996856616292076201891652863387925010437948595685053996819233349703661271), (True, 0),
     (False, 5076815061863441977300191284933751533628984561378253438405334233103365032924), (True, 1),
     (False, 173118387392141024491143598253971343710024305382891046658014345443593318610), (True, 0),
     (False, 51991457958631342045856910769726130599711200470649081369015971756292366147018), (True, 0),
     (False, 25162183085703531035957969185654340311238534096717633862515072500407943831926), (True, 1),
     (False, 28624016607073208339502447522523985442656821711648186554217440658225591322018), (True, 0),
     (False, 2303228600572644604515441976407479583840467241749730231922181880756343400006), (True, 0),
     (False, 1443758593206892706073693312445564359926385478822933483050614370520783624271), (True, 1),
     (False, 411835771530711295269466736941711751549428244444664349807287502835999053759), (True, 0),
     (False, 9809639751662067775868092497712082155571803445972882665476354908580563145197), (True, 0),
     (False, 55555083487403914971962245366740448323310995147541568388744238947045138589601), (True, 1)]"]) code_simp

lemma pow_two_fermat: "1 mod 57896044618658097711785492504343953926634992332820282019728792003956564819949 = mpow 2 57896044618658097711785492504343953926634992332820282019728792003956564819948 57896044618658097711785492504343953926634992332820282019728792003956564819949"
  by (rule mpow_steps [OF pow_two_fermat_7, where M = 57896044618658097711785492504343953926634992332820282019728792003956564819968 and d = 19 and cs = "[(False, 7848548512452245011657322428155540755695092003728040721540142662848135844649), (True, 0),
     (False, 10457125170669700630404733762268851047827608662724064566027709665050957541279), (True, 1),
     (False, 47952287254136167527364817374228602055575478964344435742379624018542151779471), (True, 1),
     (False, 2625748989050924247962147908193502335475020836248935745885877350463653197723), (True, 1),
     (False, 489089368520581831981221823733181162067762272436095115864495588177096581), (True, 0),
     (False, 39441496655223303039759417915861689489363618844380879985731524478113090040804), (True, 1),
     (False, 6569948996693813866186563993342092115179788708656831190911845142749028474803), (True, 0),
     (False, 4890451554444173848410957734683484733226051917653238714885572708029795535170), (True, 0),
     (False, 18456520398370488039843537567843724983955339456682546302112090673107915846248), (True, 1),
     (False, 24560671024029498101409192014039894381796529323936523725532495340502637117851), (True, 1),
     (False, 73148946875973043763945049487472204489997368460169253866132612661368775116), (True, 0),
     (False, 7082043758824245724250220596714854179926743030333258907231048198507040482565), (True, 0),
     (False, 31303950045713125514061803103590566770527472272055125651918955958412523154392), (True, 0),
     (False, 510267628463283979229419957349098934725685364919538872042369683079085276097), (True, 1),
     (False, 19828752345965033556457973704773249036435263245855922458473013709663383726348), (True, 1),
     (False, 45144037633531199567604977608352691465566095671607702490554084595641157793117), (True, 1),
     (False, 32263100127185969989696863398217510727881883296173420030945626229160108472455), (True, 0),
     (False, 51378671528608940569087741980960467593970222348428561824640594976783518703756), (True, 0),
     (False, 24355948021092395447979661187192218210830508252954296606083603713466683562101), (True, 1),
     (False, 249926607672856961756551730160719850325956690093267497362037028807101497174), (True, 0),
     (False, 253336106856337575822702567059325284535630038361273611531628918011000249141), (True, 0),
     (False, 5588740563730558779593242541589981380428579260506075958851115525931187564087), (True, 1),
     (False, 15908618963214150858240814599460018417688716622806265845449828260147920293585), (True, 0),
     (False, 4156740446654141806491148504172307452323988466306753580168007149530713070092), (True, 1),
     (False, 18566237442335113046999040178649889375261089450630111591423940033251326048036), (True, 1),
     (False, 11395248118616388282373711563576680904769273097729715614726816996477730129580), (True, 1),
     (False, 11596236460477929545566178131854128722048574112252601996863912492986552378007), (True, 0),
     (False, 57488892892568471791421702514207109143894690784151447750986744052104094219481), (False,
     9106281343991085101820925239539015584070553017230308605775087286567541147175), (True, 1), (False,
     25987193640288435910976862739541649081626749552148071297187051997361557318925), (True, 0), (False,
     6690407189080634018507799843845558368979872843924222843531373839242004886244), (False,
     57896044618658097711785492504343953926634992332820282019728792003956564819947)]"]) code_simp

lemma cert_p: "order_cert 57896044618658097711785492504343953926634992332820282019728792003956564819949 74058212732561358302231226437062788676166966415465897661863160754340907"
proof (rule order_certI [OF prime_q])
  have "mpow 427094198651976259540344842774561673889945192655078505504941250475370961481 74058212732561358302231226437062788676166966415465897661863160754340907 57896044618658097711785492504343953926634992332820282019728792003956564819949 = mpow 2 57896044618658097711785492504343953926634992332820282019728792003956564819948 57896044618658097711785492504343953926634992332820282019728792003956564819949"
    by (rule mpow_mult [OF pow_two_cofactor]) code_simp
  then show "1 mod 57896044618658097711785492504343953926634992332820282019728792003956564819949 = mpow 427094198651976259540344842774561673889945192655078505504941250475370961481 74058212732561358302231226437062788676166966415465897661863160754340907 57896044618658097711785492504343953926634992332820282019728792003956564819949" using pow_two_fermat by (simp only:)
  show "(427094198651976259540344842774561673889945192655078505504941250475370961481 - 1) * 55540832096118778044507775605005710249233119951144946814680141076505643269084 = 409719996120619553712206717513598108624848060785013849502386565616653579131 * 57896044618658097711785492504343953926634992332820282019728792003956564819949 + (1 :: int) \<and> 1 \<le> (427094198651976259540344842774561673889945192655078505504941250475370961481 :: int) \<and> 1 < (57896044618658097711785492504343953926634992332820282019728792003956564819949 :: int)"
    by code_simp
qed

lemma prime_p: "is_prime (nat 57896044618658097711785492504343953926634992332820282019728792003956564819949)"
proof (rule pocklington_certs [of _ "[74058212732561358302231226437062788676166966415465897661863160754340907]"])
  show "list_all (order_cert 57896044618658097711785492504343953926634992332820282019728792003956564819949) [74058212732561358302231226437062788676166966415465897661863160754340907]"
    by (simp only: list.pred_inject cert_p)
qed code_simp

section \<open>Inverses modulo the prime\<close>

lemma p25519_prime: "is_prime (nat p25519)"
  using prime_p by (simp add: p25519_def)

lemma fermat_inverse:
  assumes "\<not> feq x 0"
  shows "feq (x ^ nat (p25519 - 2) * x) 1"
proof -
  let ?a = "nat (x mod p25519)"
  have a: "int ?a = x mod p25519" using p25519_pos by simp
  have "\<not> nat p25519 dvd ?a"
  proof
    assume "nat p25519 dvd ?a"
    then have "p25519 dvd x mod p25519" using a p25519_pos by (metis int_dvd_int_iff int_nat_eq less_le)
    with assms show False by (simp add: feq_def dvd_mod_iff mod_eq_0_iff_dvd)
  qed
  with p25519_prime have "?a ^ (nat p25519 - 1) mod nat p25519 = 1" by (rule fermat)
  then have "(x mod p25519) ^ (nat p25519 - 1) mod p25519 = 1"
    using a p25519_pos by (metis int_nat_eq less_le of_nat_1 of_nat_power zmod_int)
  moreover have "nat p25519 - 1 = Suc (nat (p25519 - 2))" by (simp add: p25519_def)
  ultimately have "x ^ nat (p25519 - 2) * x mod p25519 = 1" by (metis power_Suc2 power_mod)
  moreover have "1 mod p25519 = 1" by (simp add: p25519_def)
  ultimately show ?thesis by (simp only: feq_def)
qed

end
