(* ===== verification/CurveLadder.thy ===== *)
theory CurveLadder
  imports Prime25519
begin

text \<open>
  Scalar multiplication over a field representation: the conditional swap, the ladder step, the
  loops over the bits of a 32-byte scalar, the reciprocal and the conversions from and to bytes,
  as an interface that both implementations of Curve25519 provide, and what follows from it: the
  bytes computed are those of the quotient of the projective coordinates of the reference ladder.
\<close>

section \<open>The bits of a scalar\<close>

definition byte_bits :: "nat \<Rightarrow> u8 \<Rightarrow> bool list" where
  "byte_bits j byte = map (\<lambda>k. bit byte (7 - k)) [0..<j]"

lemma byte_bits_Suc:
  assumes "j < 8"
  shows "byte_bits (Suc j) byte = bit byte 7 # byte_bits j (push_bit 1 byte)"
proof -
  have "bit (push_bit 1 byte) (7 - k) = bit byte (7 - Suc k)" if "k < j" for k
    using that assms by (simp only: bit_push_bit_iff possible_bit_word) (auto simp: Suc_le_eq)
  then have "map (\<lambda>k. bit byte (7 - k)) [Suc 0..<Suc j] = map (\<lambda>k. bit (push_bit 1 byte) (7 - k)) [0..<j]"
    unfolding map_Suc_upt [symmetric] by (simp only: map_map comp_apply) (rule map_cong, simp_all)
  then show ?thesis by (simp add: byte_bits_def upt_rec [of 0 "Suc j"] del: upt_Suc)
qed

lemma top_bit: "ucast (drop_bit 7 byte) = (if bit byte 7 then 1 else 0 :: u64)" for byte :: u8
proof (rule bit_word_eqI)
  fix n
  have "bit byte (7 + n) \<Longrightarrow> n = 0" using bit_imp_le_length [of byte "7 + n"] by simp
  then show "bit (ucast (drop_bit 7 byte) :: u64) n = bit (if bit byte 7 then 1 else 0 :: u64) n"
    if "n < LENGTH(64)" by (auto simp: bit_ucast_iff bit_drop_bit_eq bit_1_iff)
qed

lemma mont_ladder_append: "mont_ladder q (bs @ cs) S = mont_ladder q cs (mont_ladder q bs S)"
  by (induction q bs S rule: mont_ladder.induct) auto

text \<open>The bits of a 32-byte scalar, the most significant first.\<close>

definition scalar_bits :: "bytes \<Rightarrow> bool list" where
  "scalar_bits secret = concat (map (\<lambda>i. byte_bits 8 (secret ! (31 - i))) [0..<32])"

lemma bit_le_val:
  assumes "k < 8 * length bs"
  shows "bit (le_val bs) k = bit (bs ! (k div 8)) (k mod 8)"
proof -
  let ?i = "k div 8"
  have i: "?i < length bs" using assms by simp
  then have "le_val (take 1 (drop ?i bs)) = le_val bs div 256 ^ ?i mod 256 ^ 1"
    by (intro le_val_slice) simp
  moreover have "take 1 (drop ?i bs) = [bs ! ?i]" using i by (simp add: take_Suc_conv_app_nth)
  ultimately have "unat (bs ! ?i) = take_bit 8 (drop_bit (8 * ?i) (le_val bs))"
    by (simp add: take_bit_eq_mod drop_bit_eq_div power_mult)
  then have "bit (unat (bs ! ?i)) (k mod 8) = bit (le_val bs) (8 * ?i + k mod 8)"
    by (simp add: bit_take_bit_iff bit_drop_bit_eq add.commute)
  then show ?thesis by (simp add: bit_unsigned_iff)
qed

lemma scalar_bits_rev:
  assumes "length secret = 32"
  shows "scalar_bits secret = rev (map (bit (le_val secret)) [0..<256])"
proof -
  have byte: "byte_bits 8 (secret ! (31 - i)) = map (\<lambda>k. bit (le_val secret) (255 - k)) [8 * i..<8 * i + 8]"
    if "i < 32" for i
  proof (rule nth_equalityI)
    fix k assume "k < length (byte_bits 8 (secret ! (31 - i)))"
    then have k: "k < 8" by (simp add: byte_bits_def)
    define j where "j = 7 - k"
    have "255 - (8 * i + k) = 8 * (31 - i) + j" "j < 8" using that k by (simp_all add: j_def)
    moreover have "byte_bits 8 (secret ! (31 - i)) ! k = bit (secret ! (31 - i)) j"
      using k by (simp add: byte_bits_def j_def)
    ultimately show "byte_bits 8 (secret ! (31 - i)) ! k = map (\<lambda>k. bit (le_val secret) (255 - k)) [8 * i..<8 * i + 8] ! k"
      using k that assms by (simp add: bit_le_val)
  qed (simp add: byte_bits_def)
  have "concat (map (\<lambda>i. byte_bits 8 (secret ! (31 - i))) [0..<n]) = map (\<lambda>k. bit (le_val secret) (255 - k)) [0..<8 * n]"
    if "n \<le> 32" for n
    using that
  proof (induction n)
    case (Suc n)
    have "[0..<8 * Suc n] = [0..<8 * n] @ [8 * n..<8 * n + 8]" using upt_add_eq_append [of 0 "8 * n" 8] by (simp add: add.commute)
    moreover have "concat (map (\<lambda>i. byte_bits 8 (secret ! (31 - i))) [0..<Suc n])
        = concat (map (\<lambda>i. byte_bits 8 (secret ! (31 - i))) [0..<n]) @ byte_bits 8 (secret ! (31 - n))"
      by simp
    ultimately show ?case using Suc byte [of n] by (simp del: upt_Suc)
  qed simp
  from this [of 32] show ?thesis
    unfolding scalar_bits_def by (simp add: rev_map [symmetric] list_eq_iff_nth_eq rev_nth)
qed

section \<open>Degenerate ladders\<close>

lemma mont_ladder_zero_point:
  assumes "x * z = 0" "x' * z' = 0" "bs \<noteq> []"
    and "mont_ladder 0 bs ((x, z), (x', z')) = ((X, Z), PQ)"
  shows "Z = 0"
  using assms
proof (induction bs arbitrary: x z x' z')
  case (Cons b bs)
  have dbl: "mont_double (x, z) = (fst (mont_double (x, z)), 0)" if "x * z = 0" for x z :: int
    using that by (auto simp: mont_double_def Let_def)
  have add: "mont_add 0 P Q = (fst (mont_add 0 P Q), 0)" for P Q
    by (simp add: mont_add_def Let_def split: prod.split)
  obtain x1 x2 where st: "mont_ladder 0 (b # bs) ((x, z), (x', z')) = mont_ladder 0 bs ((x1, 0), (x2, 0))"
    using that [of "fst (mont_add 0 (x', z') (x, z))" "fst (mont_double (x', z'))"]
      that [of "fst (mont_double (x, z))" "fst (mont_add 0 (x, z) (x', z'))"]
    by (cases b) (simp_all flip: dbl [OF Cons.prems(1)] dbl [OF Cons.prems(2)] add)
  show ?case
  proof (cases "bs = []")
    case True
    then show ?thesis using st Cons.prems(4) by simp
  next
    case False
    then show ?thesis using Cons.IH [of x1 0 x2 0] st Cons.prems(4) by simp
  qed
qed simp

lemma mont_ladder_zero_scalar:
  assumes "mont_ladder q (replicate n False) ((1, 0), Q) = ((X, Z), PQ)"
  shows "Z = 0"
  using assms
proof (induction n arbitrary: Q)
  case (Suc n)
  have "mont_double (1, 0) = (1, 0)" by (simp add: mont_double_def)
  with Suc show ?case by (cases Q) auto
qed simp

lemma num_bytes_zero: "num_bytes n 0 = replicate n 0"
  by (induction n) simp_all

lemma le_val_zero: "le_val (replicate n 0) = 0"
  by (induction n) simp_all

section \<open>Reciprocals\<close>

locale field_recip = field_rep +
  fixes recip :: "'a \<Rightarrow> 'a"
  assumes recip: "rp z x \<Longrightarrow> rp (recip z) (x ^ nat (p25519 - 2))"
begin

lemma recip_inverse:
  assumes "tight z"
  shows "tight (recip z) \<and>
    (if fval z mod p25519 = 0 then fval (recip z) mod p25519 = 0
     else fval (recip z) * fval z mod p25519 = 1)"
proof -
  have r: "rp (recip z) (fval z ^ nat (p25519 - 2))"
    using assms by (intro recip) (simp add: rp_def)
  then have f: "feq (fval (recip z)) (fval z ^ nat (p25519 - 2))" and t: "tight (recip z)"
    unfolding rp_def by simp_all
  have one: "1 mod p25519 = 1" by (simp add: p25519_def)
  show ?thesis
  proof (cases "fval z mod p25519 = 0")
    case True
    then have "feq (fval z) 0" by (simp add: feq_def)
    then have "feq (fval z ^ nat (p25519 - 2)) (0 ^ nat (p25519 - 2))" by (rule feq_power)
    moreover have "nat (p25519 - 2) \<noteq> 0" by (simp add: p25519_def)
    ultimately have "feq (fval (recip z)) 0" using feq_trans [OF f] by (simp add: zero_power)
    with True t show ?thesis by (simp add: feq_def)
  next
    case False
    then have "\<not> feq (fval z) 0" by (simp add: feq_def)
    then have "feq (fval (recip z) * fval z) 1"
      using fermat_inverse feq_mult [OF f feq_refl] feq_trans by blast
    with False t show ?thesis by (simp add: feq_def one)
  qed
qed

text \<open>The quotient of two numbers, as the last step of the curve function computes it.\<close>

lemma quotient:
  assumes "rp x X" "rp z Z"
  shows "if Z mod p25519 = 0 then fval (mul x (recip z)) mod p25519 = 0
    else fval (mul x (recip z)) * Z mod p25519 = X mod p25519"
proof -
  have tz: "tight z" and fz: "feq (fval z) Z" and fx: "feq (fval x) X"
    using assms unfolding rp_def by simp_all
  note inv = recip_inverse [OF tz]
  have "rp (mul x (recip z)) (X * fval (recip z))"
    using assms(1) inv by (intro rp_mul rp_lrp) (simp_all add: rp_def)
  then have f: "feq (fval (mul x (recip z))) (X * fval (recip z))" by (simp add: rp_def)
  show ?thesis
  proof (cases "Z mod p25519 = 0")
    case True
    then have "feq (fval (recip z)) 0" using inv fz by (simp add: feq_def)
    then have "feq (fval (mul x (recip z))) (X * 0)" using feq_trans [OF f] feq_mult [OF feq_refl] by blast
    with True show ?thesis by (simp add: feq_def)
  next
    case False
    then have "feq (fval (recip z) * fval z) 1" using inv fz by (simp add: feq_def p25519_def)
    then have "feq (X * (fval (recip z) * fval z)) (X * 1)" by (intro feq_mult feq_refl)
    moreover have "feq (fval (mul x (recip z)) * Z) (X * fval (recip z) * fval z)"
      using f fz by (intro feq_mult feq_sym [OF fz])
    ultimately have "feq (fval (mul x (recip z)) * Z) X" by (metis feq_trans mult.assoc mult_1_right)
    with False show ?thesis by (simp add: feq_def)
  qed
qed

end

section \<open>Numbers of 32 bytes\<close>

locale field_bytes = field_recip +
  fixes expand :: "bytes \<Rightarrow> 'a" and contract :: "'a \<Rightarrow> bytes"
  assumes expand: "length bs = 32 \<Longrightarrow> tight (expand bs) \<and> fval (expand bs) = int (take_bit 255 (le_val bs))"
    and contract: "tight a \<Longrightarrow> contract a = num_bytes 32 (nat (fval a mod p25519))"
begin

lemma rp_expand: "length bs = 32 \<Longrightarrow> rp (expand bs) (int (le_val bs mod 2 ^ 255))"
  using expand by (simp add: rp_def take_bit_eq_mod)

lemma contract_rp: "rp a x \<Longrightarrow> contract a = num_bytes 32 (nat (x mod p25519))"
  using contract by (simp add: rp_def feq_def)

lemma bytes_mul:
  assumes "length a = 32" "length b = 32"
  shows "contract (mul (expand a) (expand b))
    = num_bytes 32 (nat (int (le_val a mod 2 ^ 255) * int (le_val b mod 2 ^ 255) mod p25519))"
  by (intro contract_rp rp_mul rp_lrp rp_expand assms)

lemma bytes_recip:
  assumes "length a = 32"
  shows "contract (recip (expand a))
    = num_bytes 32 (nat (int (le_val a mod 2 ^ 255) ^ nat (p25519 - 2) mod p25519))"
  by (intro contract_rp recip rp_expand assms)

end

section \<open>The ladder\<close>

locale ladder_impl = field_bytes +
  fixes zero one :: 'a and swap :: "'a \<Rightarrow> 'a \<Rightarrow> u64 \<Rightarrow> 'a \<times> 'a"
    and monty :: "'a \<Rightarrow> 'a \<Rightarrow> 'a \<Rightarrow> 'a \<Rightarrow> 'a \<Rightarrow> 'a \<times> 'a \<times> 'a \<times> 'a"
    and bits :: "'a \<Rightarrow> nat \<Rightarrow> u8 \<Rightarrow> 'a \<times> 'a \<times> 'a \<times> 'a \<Rightarrow> 'a \<times> 'a \<times> 'a \<times> 'a"
  assumes zero: "tight zero \<and> fval zero = 0" and one: "tight one \<and> fval one = 1"
    and swap: "tight a \<Longrightarrow> tight b \<Longrightarrow> swap a b 0 = (a, b) \<and> swap a b 1 = (b, a)"
    and monty: "monty x z x' z' q =
      (let xx = sqr (add x z); zz = sqr (sub x z); e = sub xx zz;
           a = mul (add x' z') (sub x z); b = mul (add x z) (sub x' z')
       in (mul xx zz, mul e (add (scale e) xx), sqr (add a b), mul (sqr (sub a b)) q))"
    and bits_0: "bits q 0 byte st = st"
    and bits_Suc: "bits q (Suc j) byte (nqx, nqz, nqpqx, nqpqz) =
      (let b = ucast (drop_bit 7 byte);
           (nqx, nqpqx) = swap nqx nqpqx b; (nqz, nqpqz) = swap nqz nqpqz b;
           (nqx2, nqz2, nqpqx2, nqpqz2) = monty nqx nqz nqpqx nqpqz q;
           (nqx2, nqpqx2) = swap nqx2 nqpqx2 b; (nqz2, nqpqz2) = swap nqz2 nqpqz2 b
       in bits q j (push_bit 1 byte) (nqx2, nqz2, nqpqx2, nqpqz2))"
begin

lemma monty_spec:
  assumes "rp x X" "rp z Z" "rp x' X'" "rp z' Z'" "rp q Q"
    and "monty x z x' z' q = (x2, z2, x3, z3)"
  shows "rp x2 (fst (mont_double (X, Z))) \<and> rp z2 (snd (mont_double (X, Z)))
    \<and> rp x3 (fst (mont_add Q (X, Z) (X', Z'))) \<and> rp z3 (snd (mont_add Q (X, Z) (X', Z')))"
  using rp_double [OF assms(1,2)] rp_diff_add [OF assms(1-5)] assms(6)
  by (auto simp: monty Let_def)

text \<open>The state of the ladder stands for two points in projective coordinates.\<close>

fun ladder_rel :: "'a \<times> 'a \<times> 'a \<times> 'a \<Rightarrow> (int \<times> int) \<times> (int \<times> int) \<Rightarrow> bool" where
  "ladder_rel (nqx, nqz, nqpqx, nqpqz) ((X, Z), (X', Z')) \<longleftrightarrow>
     rp nqx X \<and> rp nqz Z \<and> rp nqpqx X' \<and> rp nqpqz Z'"

lemma rp_tight: "rp a x \<Longrightarrow> tight a"
  by (simp add: rp_def)

lemma bits_spec:
  assumes "ladder_rel st S" "rp q Q" "j \<le> 8"
  shows "ladder_rel (bits q j byte st) (mont_ladder Q (byte_bits j byte) S)"
  using assms
proof (induction j arbitrary: byte st S)
  case (Suc j)
  obtain nqx nqz nqpqx nqpqz X Z X' Z'
    where st: "st = (nqx, nqz, nqpqx, nqpqz)" and S: "S = ((X, Z), (X', Z'))"
    by (metis surj_pair)
  from Suc.prems(1) have rel: "rp nqx X" "rp nqz Z" "rp nqpqx X'" "rp nqpqz Z'"
    by (simp_all add: st S)
  show ?case
  proof (cases "bit byte 7")
    case True
    obtain x2 z2 x3 z3 where m: "monty nqpqx nqpqz nqx nqz q = (x2, z2, x3, z3)" by (metis surj_pair)
    note s = monty_spec [OF rel(3,4,1,2) Suc.prems(2) m]
    then have t: "tight x2" "tight z2" "tight x3" "tight z3" by (simp_all add: rp_def)
    from s have "ladder_rel (x3, z3, x2, z2) (mont_add Q (X', Z') (X, Z), mont_double (X', Z'))"
      by (cases "mont_add Q (X', Z') (X, Z)"; cases "mont_double (X', Z')") simp
    moreover have "bits q (Suc j) byte st = bits q j (push_bit 1 byte) (x3, z3, x2, z2)"
      using True by (simp add: st bits_Suc top_bit m rel [THEN rp_tight] t swap)
    ultimately show ?thesis using Suc True by (simp add: S byte_bits_Suc)
  next
    case False
    obtain x2 z2 x3 z3 where m: "monty nqx nqz nqpqx nqpqz q = (x2, z2, x3, z3)" by (metis surj_pair)
    note s = monty_spec [OF rel Suc.prems(2) m]
    then have t: "tight x2" "tight z2" "tight x3" "tight z3" by (simp_all add: rp_def)
    from s have "ladder_rel (x2, z2, x3, z3) (mont_double (X, Z), mont_add Q (X, Z) (X', Z'))"
      by (cases "mont_add Q (X, Z) (X', Z')"; cases "mont_double (X, Z)") simp
    moreover have "bits q (Suc j) byte st = bits q j (push_bit 1 byte) (x2, z2, x3, z3)"
      using False by (simp add: st bits_Suc top_bit m rel [THEN rp_tight] t swap)
    ultimately show ?thesis using Suc False by (simp add: S byte_bits_Suc)
  qed
qed (simp add: byte_bits_def bits_0)

lemma loop_spec:
  assumes "rp q Q" "ladder_rel st S"
  shows "ladder_rel (foldl (\<lambda>st i. bits q 8 (secret ! (31 - i)) st) st is)
    (mont_ladder Q (concat (map (\<lambda>i. byte_bits 8 (secret ! (31 - i))) is)) S)"
  using assms(2) by (induction "is" arbitrary: st S) (simp_all add: mont_ladder_append bits_spec [OF _ assms(1)])

text \<open>The curve function: the ladder on the bytes of a scalar, the quotient, its bytes.\<close>

definition curve_bytes :: "bytes \<Rightarrow> bytes \<Rightarrow> bytes" where
  "curve_bytes secret basepoint =
     (let q = expand basepoint;
          (x, z, nqpqx, nqpqz) = foldl (\<lambda>st i. bits q 8 (secret ! (31 - i)) st) (one, zero, q, one) [0..<32]
      in contract (mul x (recip z)))"

lemma ladder_state:
  assumes "length secret = 32" "length basepoint = 32"
    and "mont_ladder (int (le_val basepoint mod 2 ^ 255)) (rev (map (bit (le_val secret)) [0..<256]))
        ((1, 0), (int (le_val basepoint mod 2 ^ 255), 1)) = ((X, Z), PQ)"
  shows "\<exists>x z xz. foldl (\<lambda>st i. bits (expand basepoint) 8 (secret ! (31 - i)) st)
      (one, zero, expand basepoint, one) [0..<32] = (x, z, xz) \<and> rp x X \<and> rp z Z"
proof -
  let ?Q = "int (le_val basepoint mod 2 ^ 255)"
  define q where "q = expand basepoint"
  have q: "rp q ?Q" unfolding q_def by (rule rp_expand [OF assms(2)])
  obtain x z x' z' where st: "foldl (\<lambda>st i. bits q 8 (secret ! (31 - i)) st) (one, zero, q, one) [0..<32] = (x, z, x', z')"
    by (metis surj_pair)
  have "ladder_rel (one, zero, q, one) ((1, 0), (?Q, 1))" using q zero one by (simp add: rp_def)
  from loop_spec [OF q this, of secret "[0..<32]", folded scalar_bits_def] assms(3)
  have "rp x X" "rp z Z" unfolding st scalar_bits_rev [OF assms(1)] by (cases PQ; simp)+
  with st show ?thesis unfolding q_def by blast
qed

lemma curve_ladder:
  assumes "length secret = 32" "length basepoint = 32"
    and "mont_ladder (int (le_val basepoint mod 2 ^ 255)) (rev (map (bit (le_val secret)) [0..<256]))
        ((1, 0), (int (le_val basepoint mod 2 ^ 255), 1)) = ((X, Z), PQ)"
  shows "\<exists>R. curve_bytes secret basepoint = num_bytes 32 R \<and> int R < p25519 \<and>
    (if Z mod p25519 = 0 then R = 0 else int R * Z mod p25519 = X mod p25519)"
proof -
  obtain x z xz where st: "foldl (\<lambda>st i. bits (expand basepoint) 8 (secret ! (31 - i)) st)
      (one, zero, expand basepoint, one) [0..<32] = (x, z, xz)" and rp: "rp x X" "rp z Z"
    using ladder_state [OF assms] by blast
  let ?m = "fval (mul x (recip z)) mod p25519"
  have "tight (recip z)" using rp recip_inverse by (simp add: rp_def)
  then have t: "tight (mul x (recip z))" using rp mul tight_loose by (simp add: rp_def)
  have R: "int (nat ?m) = ?m" "int (nat ?m) < p25519" using p25519_pos by simp_all
  have q': "if Z mod p25519 = 0 then nat ?m = 0 else int (nat ?m) * Z mod p25519 = X mod p25519"
    using quotient [OF rp] unfolding R(1) mod_mult_left_eq by simp
  have "curve_bytes secret basepoint = num_bytes 32 (nat ?m)"
    by (cases xz) (simp add: curve_bytes_def st contract [OF t])
  with q' R(2) show ?thesis by blast
qed

text \<open>The result in closed form.\<close>

lemma curve_bytes_ladder:
  assumes "length secret = 32" "length basepoint = 32"
    and "mont_ladder (int (le_val basepoint mod 2 ^ 255)) (rev (map (bit (le_val secret)) [0..<256]))
        ((1, 0), (int (le_val basepoint mod 2 ^ 255), 1)) = ((X, Z), PQ)"
  shows "curve_bytes secret basepoint = num_bytes 32 (nat (X * Z ^ nat (p25519 - 2) mod p25519))"
  using ladder_state [OF assms]
  by (auto simp: curve_bytes_def Let_def intro!: contract_rp rp_mul rp_lrp recip split: prod.split)

lemma curve_zero_Z:
  assumes "length secret = 32" "length basepoint = 32"
    and Q: "Q = int (le_val basepoint mod 2 ^ 255)" and bs: "bs = rev (map (bit (le_val secret)) [0..<256])"
    and "\<And>X Z PQ. mont_ladder Q bs ((1, 0), (Q, 1)) = ((X, Z), PQ) \<Longrightarrow> Z = 0"
  shows "curve_bytes secret basepoint = replicate 32 0"
proof -
  obtain X Z PQ where l: "mont_ladder Q bs ((1, 0), (Q, 1)) = ((X, Z), PQ)" by (metis surj_pair)
  from curve_ladder [OF assms(1,2) l [unfolded Q bs]] assms(5) [OF l] show ?thesis
    by (auto simp: num_bytes_zero)
qed

lemma curve_zero_point:
  assumes "length secret = 32"
  shows "curve_bytes secret (replicate 32 0) = replicate 32 0"
proof (rule curve_zero_Z [OF assms length_replicate _ refl])
  show "0 = int (le_val (replicate 32 0) mod 2 ^ 255)" by (simp only: le_val_zero) simp
next
  fix X Z PQ
  assume l: "mont_ladder 0 (rev (map (bit (le_val secret)) [0..<256])) ((1, 0), (0, 1)) = ((X, Z), PQ)"
  show "Z = 0"
    by (rule mont_ladder_zero_point [OF _ _ _ l]) (simp_all only: rev_is_Nil_conv map_is_Nil_conv upt_eq_Nil_conv, simp_all)
qed

lemma curve_zero_scalar:
  assumes "length basepoint = 32"
  shows "curve_bytes (replicate 32 0) basepoint = replicate 32 0"
proof (rule curve_zero_Z [OF length_replicate assms refl])
  show "replicate 256 False = rev (map (bit (le_val (replicate 32 0))) [0..<256])"
  proof -
    have "rev (map (bit (0::nat)) [0..<n]) = replicate n False" for n by (induction n) simp_all
    then show ?thesis unfolding le_val_zero by (rule sym)
  qed
qed (rule mont_ladder_zero_scalar)

end

end
