(* ===== verification/Curve25519.thy ===== *)
theory Curve25519
  imports CurveLadder
begin

text \<open>
  The 64-bit implementation of Curve25519 (\<^verbatim>\<open>src/plugins/utils/curve25519.c\<close>, the
  \<^verbatim>\<open>__amd64__\<close> branch): field elements of five unsigned 64-bit limbs of 51 bits, products in
  128 bits, the reciprocal by exponentiation and the Montgomery ladder. A \<^verbatim>\<open>bits256\<close> is the list
  of its 32 bytes.
\<close>

section \<open>Field elements\<close>

type_synonym u128 = "128 word"

text \<open>\<^verbatim>\<open>bits320\<close> by its five \<^verbatim>\<open>ulongs\<close>.\<close>

datatype bits320 = Ulongs u64 u64 u64 u64 u64

fun fsum :: "bits320 \<Rightarrow> bits320 \<Rightarrow> bits320" where
  "fsum (Ulongs a0 a1 a2 a3 a4) (Ulongs b0 b1 b2 b3 b4) =
     Ulongs (a0 + b0) (a1 + b1) (a2 + b2) (a3 + b3) (a4 + b4)"

definition two54m152 :: u64 where
  "two54m152 = push_bit 54 1 - 152"

definition two54m8 :: u64 where
  "two54m8 = push_bit 54 1 - 8"

text \<open>The difference \<open>in - out\<close>, in the order of the C arguments: \<open>out\<close> first.\<close>

fun fdifference_backwards :: "bits320 \<Rightarrow> bits320 \<Rightarrow> bits320" where
  "fdifference_backwards (Ulongs o0 o1 o2 o3 o4) (Ulongs i0 i1 i2 i3 i4) =
     Ulongs (i0 + two54m152 - o0) (i1 + two54m8 - o1) (i2 + two54m8 - o2)
       (i3 + two54m8 - o3) (i4 + two54m8 - o4)"

section \<open>Bytes and limbs\<close>

fun store_limb_loop :: "nat \<Rightarrow> u64 \<Rightarrow> bytes" where
  "store_limb_loop 0 w = []"
| "store_limb_loop (Suc n) w = ucast (w AND 0xff) # store_limb_loop n (drop_bit 8 w)"

definition store_limb :: "u64 \<Rightarrow> bytes" where
  "store_limb w = store_limb_loop 8 w"

definition load_limb :: "bytes \<Rightarrow> u64" where
  "load_limb b =
     ucast (b ! 0) OR push_bit 8 (ucast (b ! 1)) OR push_bit 16 (ucast (b ! 2))
     OR push_bit 24 (ucast (b ! 3)) OR push_bit 32 (ucast (b ! 4)) OR push_bit 40 (ucast (b ! 5))
     OR push_bit 48 (ucast (b ! 6)) OR push_bit 56 (ucast (b ! 7))"

definition fexpand :: "bytes \<Rightarrow> bits320" where
  "fexpand b = Ulongs
     (load_limb b AND 0x7ffffffffffff)
     (drop_bit 3 (load_limb (drop 6 b)) AND 0x7ffffffffffff)
     (drop_bit 6 (load_limb (drop 12 b)) AND 0x7ffffffffffff)
     (drop_bit 1 (load_limb (drop 19 b)) AND 0x7ffffffffffff)
     (drop_bit 12 (load_limb (drop 24 b)) AND 0x7ffffffffffff)"

section \<open>Multiplication\<close>

text \<open>
  The carry propagation that \<^verbatim>\<open>fmul\<close> and \<^verbatim>\<open>fsquare_times\<close> end with: 128-bit columns to limbs.
\<close>

definition carry51 :: "u128 \<Rightarrow> u128 \<Rightarrow> u128 \<Rightarrow> u128 \<Rightarrow> u128 \<Rightarrow> bits320" where
  "carry51 t0 t1 t2 t3 t4 =
     (let r0 = ucast t0 AND 0x7ffffffffffff :: u64; c = ucast (drop_bit 51 t0) :: u64;
          t1 = t1 + ucast c; r1 = ucast t1 AND 0x7ffffffffffff :: u64; c = ucast (drop_bit 51 t1) :: u64;
          t2 = t2 + ucast c; r2 = ucast t2 AND 0x7ffffffffffff :: u64; c = ucast (drop_bit 51 t2) :: u64;
          t3 = t3 + ucast c; r3 = ucast t3 AND 0x7ffffffffffff :: u64; c = ucast (drop_bit 51 t3) :: u64;
          t4 = t4 + ucast c; r4 = ucast t4 AND 0x7ffffffffffff :: u64; c = ucast (drop_bit 51 t4) :: u64;
          r0 = r0 + c * 19; c = drop_bit 51 r0; r0 = r0 AND 0x7ffffffffffff;
          r1 = r1 + c; c = drop_bit 51 r1; r1 = r1 AND 0x7ffffffffffff;
          r2 = r2 + c
      in Ulongs r0 r1 r2 r3 r4)"

text \<open>\<open>umul a b\<close> is \<^verbatim>\<open>((uint128_t)a) * b\<close>.\<close>

definition umul :: "u64 \<Rightarrow> u64 \<Rightarrow> u128" where
  "umul a b = ucast a * ucast b"

fun fscalar_product :: "bits320 \<Rightarrow> u64 \<Rightarrow> bits320" where
  "fscalar_product (Ulongs i0 i1 i2 i3 i4) scalar =
     (let a = umul i0 scalar; o0 = ucast a AND 0x7ffffffffffff;
          a = umul i1 scalar + ucast (ucast (drop_bit 51 a) :: u64); o1 = ucast a AND 0x7ffffffffffff;
          a = umul i2 scalar + ucast (ucast (drop_bit 51 a) :: u64); o2 = ucast a AND 0x7ffffffffffff;
          a = umul i3 scalar + ucast (ucast (drop_bit 51 a) :: u64); o3 = ucast a AND 0x7ffffffffffff;
          a = umul i4 scalar + ucast (ucast (drop_bit 51 a) :: u64); o4 = ucast a AND 0x7ffffffffffff
      in Ulongs (o0 + ucast (drop_bit 51 a * 19)) o1 o2 o3 o4)"

fun fmul :: "bits320 \<Rightarrow> bits320 \<Rightarrow> bits320" where
  "fmul (Ulongs s0 s1 s2 s3 s4) (Ulongs r0 r1 r2 r3 r4) =
     (let t0 = umul r0 s0;
          t1 = umul r0 s1 + umul r1 s0;
          t2 = umul r0 s2 + umul r2 s0 + umul r1 s1;
          t3 = umul r0 s3 + umul r3 s0 + umul r1 s2 + umul r2 s1;
          t4 = umul r0 s4 + umul r4 s0 + umul r3 s1 + umul r1 s3 + umul r2 s2;
          r4 = r4 * 19; r1 = r1 * 19; r2 = r2 * 19; r3 = r3 * 19;
          t0 = t0 + (umul r4 s1 + umul r1 s4 + umul r2 s3 + umul r3 s2);
          t1 = t1 + (umul r4 s2 + umul r2 s4 + umul r3 s3);
          t2 = t2 + (umul r4 s3 + umul r3 s4);
          t3 = t3 + umul r4 s4
      in carry51 t0 t1 t2 t3 t4)"

text \<open>One round of \<^verbatim>\<open>fsquare_times\<close>, and its \<^verbatim>\<open>do ... while (--count)\<close> loop.\<close>

fun fsquare_round :: "bits320 \<Rightarrow> bits320" where
  "fsquare_round (Ulongs r0 r1 r2 r3 r4) =
     (let d0 = r0 * 2; d1 = r1 * 2; d2 = r2 * 2 * 19; d419 = r4 * 19; d4 = d419 * 2;
          t0 = umul r0 r0 + umul d4 r1 + umul d2 r3;
          t1 = umul d0 r1 + umul d4 r2 + umul r3 (r3 * 19);
          t2 = umul d0 r2 + umul r1 r1 + umul d4 r3;
          t3 = umul d0 r3 + umul d1 r2 + umul r4 d419;
          t4 = umul d0 r4 + umul d1 r3 + umul r2 r2
      in carry51 t0 t1 t2 t3 t4)"

function fsquare_times :: "bits320 \<Rightarrow> u64 \<Rightarrow> bits320" where
  "fsquare_times r count =
     (let r = fsquare_round r; count = count - 1
      in if count \<noteq> 0 then fsquare_times r count else r)"
  by auto
termination
proof (relation "measure (\<lambda>(r, count). unat (count - 1))")
  fix count count' :: u64 and r r' :: bits320
  assume "count' = count - 1" "count' \<noteq> 0"
  with measure_unat [of count']
  show "((r', count'), (r, count)) \<in> measure (\<lambda>(r, count). unat (count - 1))" by simp
qed simp

declare fsquare_times.simps [simp del]

section \<open>Contraction\<close>

text \<open>
  \<^verbatim>\<open>fcontract_iter\<close>: only the first statement after the \<^verbatim>\<open>if\<close> depends on \<^verbatim>\<open>flag\<close>, the top
  limb is masked in both cases.
\<close>

fun fcontract_iter :: "u128 \<times> u128 \<times> u128 \<times> u128 \<times> u128 \<Rightarrow> bool \<Rightarrow> u128 \<times> u128 \<times> u128 \<times> u128 \<times> u128" where
  "fcontract_iter (t0, t1, t2, t3, t4) flag =
     (let t1 = t1 + drop_bit 51 t0; t0 = t0 AND 0x7ffffffffffff;
          t2 = t2 + drop_bit 51 t1; t1 = t1 AND 0x7ffffffffffff;
          t3 = t3 + drop_bit 51 t2; t2 = t2 AND 0x7ffffffffffff;
          t4 = t4 + drop_bit 51 t3; t3 = t3 AND 0x7ffffffffffff;
          t0 = (if flag then t0 + 19 * drop_bit 51 t4 else t0); t4 = t4 AND 0x7ffffffffffff
      in (t0, t1, t2, t3, t4))"

fun fcontract :: "bits320 \<Rightarrow> bytes" where
  "fcontract (Ulongs i0 i1 i2 i3 i4) =
     (let t = (ucast i0, ucast i1, ucast i2, ucast i3, ucast i4);
          t = fcontract_iter (fcontract_iter t True) True;
          t = (case t of (t0, t1, t2, t3, t4) \<Rightarrow> fcontract_iter (t0 + 19, t1, t2, t3, t4) True);
          (t0, t1, t2, t3, t4) = (case t of (t0, t1, t2, t3, t4) \<Rightarrow>
            fcontract_iter (t0 + (0x8000000000000 - 19), t1 + (0x8000000000000 - 1),
              t2 + (0x8000000000000 - 1), t3 + (0x8000000000000 - 1), t4 + (0x8000000000000 - 1)) False)
      in store_limb (ucast (t0 OR push_bit 51 t1))
         @ store_limb (ucast (drop_bit 13 t1 OR push_bit 38 t2))
         @ store_limb (ucast (drop_bit 26 t2 OR push_bit 25 t3))
         @ store_limb (ucast (drop_bit 39 t3 OR push_bit 12 t4)))"

section \<open>The curve\<close>

definition crecip :: "bits320 \<Rightarrow> bits320" where
  "crecip z =
     (let a = fsquare_times z 1;
          t0 = fsquare_times a 2;
          b = fmul t0 z;
          a = fmul b a;
          t0 = fsquare_times a 1;
          b = fmul t0 b;
          t0 = fsquare_times b 5;
          b = fmul t0 b;
          t0 = fsquare_times b 10;
          c = fmul t0 b;
          t0 = fsquare_times c 20;
          t0 = fmul t0 c;
          t0 = fsquare_times t0 10;
          b = fmul t0 b;
          t0 = fsquare_times b 50;
          c = fmul t0 b;
          t0 = fsquare_times c 100;
          t0 = fmul t0 c;
          t0 = fsquare_times t0 50;
          t0 = fmul t0 b;
          t0 = fsquare_times t0 5
      in fmul t0 a)"

text \<open>
  \<^verbatim>\<open>fmonty\<close> with its outputs \<open>(x2, z2, x3, z3)\<close>. The inputs it destroys are the buffers the
  next step writes its outputs to, before reading them.
\<close>

definition fmonty :: "bits320 \<Rightarrow> bits320 \<Rightarrow> bits320 \<Rightarrow> bits320 \<Rightarrow> bits320
    \<Rightarrow> bits320 \<times> bits320 \<times> bits320 \<times> bits320" where
  "fmonty x z xprime zprime qmqp =
     (let origx = x;
          x = fsum x z; z = fdifference_backwards z origx;
          origxprime = xprime;
          xprime = fsum xprime zprime; zprime = fdifference_backwards zprime origxprime;
          xxprime = fmul xprime z; zzprime = fmul x zprime;
          origxprime = xxprime;
          xxprime = fsum xxprime zzprime; zzprime = fdifference_backwards zzprime origxprime;
          x3 = fsquare_times xxprime 1; z3 = fmul (fsquare_times zzprime 1) qmqp;
          xx = fsquare_times x 1; zz = fsquare_times z 1;
          x2 = fmul xx zz;
          zz = fdifference_backwards zz xx;
          zzz = fscalar_product zz 121665;
          z2 = fmul zz (fsum zzz xx)
      in (x2, z2, x3, z3))"

fun swap_conditional :: "bits320 \<Rightarrow> bits320 \<Rightarrow> u64 \<Rightarrow> bits320 \<times> bits320" where
  "swap_conditional (Ulongs a0 a1 a2 a3 a4) (Ulongs b0 b1 b2 b3 b4) iswap =
     (let swap = - iswap;
          x0 = swap AND (a0 XOR b0); x1 = swap AND (a1 XOR b1); x2 = swap AND (a2 XOR b2);
          x3 = swap AND (a3 XOR b3); x4 = swap AND (a4 XOR b4)
      in (Ulongs (a0 XOR x0) (a1 XOR x1) (a2 XOR x2) (a3 XOR x3) (a4 XOR x4),
          Ulongs (b0 XOR x0) (b1 XOR x1) (b2 XOR x2) (b3 XOR x3) (b4 XOR x4)))"

text \<open>
  The state of \<^verbatim>\<open>cmult\<close> is \<open>(nqx, nqz, nqpqx, nqpqz)\<close>; the inner loop takes the bits of a
  byte from the top.
\<close>

fun cmult_bits :: "bits320 \<Rightarrow> nat \<Rightarrow> u8 \<Rightarrow> bits320 \<times> bits320 \<times> bits320 \<times> bits320
    \<Rightarrow> bits320 \<times> bits320 \<times> bits320 \<times> bits320" where
  "cmult_bits q 0 byte st = st"
| "cmult_bits q (Suc j) byte (nqx, nqz, nqpqx, nqpqz) =
     (let b = ucast (drop_bit 7 byte) :: u64;
          (nqx, nqpqx) = swap_conditional nqx nqpqx b;
          (nqz, nqpqz) = swap_conditional nqz nqpqz b;
          (nqx2, nqz2, nqpqx2, nqpqz2) = fmonty nqx nqz nqpqx nqpqz q;
          (nqx2, nqpqx2) = swap_conditional nqx2 nqpqx2 b;
          (nqz2, nqpqz2) = swap_conditional nqz2 nqpqz2 b
      in cmult_bits q j (push_bit 1 byte) (nqx2, nqz2, nqpqx2, nqpqz2))"

definition cmult :: "bytes \<Rightarrow> bits320 \<Rightarrow> bits320 \<times> bits320" where
  "cmult secret q =
     (let (nqx, nqz, nqpqx, nqpqz) = foldl (\<lambda>st i. cmult_bits q 8 (secret ! (31 - i)) st)
            (Ulongs 1 0 0 0 0, Ulongs 0 0 0 0 0, q, Ulongs 1 0 0 0 0) [0..<32]
      in (nqx, nqz))"

definition curve25519 :: "bytes \<Rightarrow> bytes \<Rightarrow> bytes" where
  "curve25519 mysecret basepoint =
     (let bp = fexpand basepoint; (x, z) = cmult mysecret bp in fcontract (fmul x (crecip z)))"

text \<open>\<^verbatim>\<open>rand256\<close> of the 32 random bytes it reads.\<close>

definition rand256 :: "bytes \<Rightarrow> bool \<Rightarrow> bytes" where
  "rand256 randval privkeyflag =
     (if privkeyflag
      then let r = randval[0 := randval ! 0 AND 0xf8]; r = r[31 := r ! 31 AND 0x7f] in r[31 := r ! 31 OR 0x40]
      else randval)"

definition curve25519_basepoint9 :: bytes where
  "curve25519_basepoint9 = (replicate 32 0)[0 := 9]"

definition curve25519_keypair :: "bytes \<Rightarrow> bytes \<times> bytes" where
  "curve25519_keypair rnd =
     (let privkey = rand256 rnd True in (privkey, curve25519 privkey curve25519_basepoint9))"

section \<open>Values and bounds\<close>

fun fval :: "bits320 \<Rightarrow> int" where
  "fval (Ulongs a0 a1 a2 a3 a4) =
     int (unat a0) + 2 ^ 51 * int (unat a1) + 2 ^ 102 * int (unat a2)
     + 2 ^ 153 * int (unat a3) + 2 ^ 204 * int (unat a4)"

fun limbs_le :: "nat \<Rightarrow> bits320 \<Rightarrow> bool" where
  "limbs_le B (Ulongs a0 a1 a2 a3 a4) \<longleftrightarrow>
     unat a0 \<le> B \<and> unat a1 \<le> B \<and> unat a2 \<le> B \<and> unat a3 \<le> B \<and> unat a4 \<le> B"

text \<open>The bound of the results of a multiplication, and the bound of its arguments.\<close>

definition tight51 :: "bits320 \<Rightarrow> bool" where
  "tight51 = limbs_le (2 ^ 51 + 2 ^ 27)"

definition loose51 :: "bits320 \<Rightarrow> bool" where
  "loose51 = limbs_le (2 ^ 54 + 2 ^ 51 + 2 ^ 28)"

lemma mask51: "0x7ffffffffffff = (mask 51 :: 'a::len word)"
  by (simp add: mask_numeral)

lemma ubnd_and_51 [ubnd_rules]:
  "ubnd a m A \<Longrightarrow> ubnd (a AND 0x7ffffffffffff) (m mod 2251799813685248) 2251799813685247"
  using ubnd_and_mask [of a m A 51] by (simp add: mask51 [symmetric])

lemma ubnd_low_51 [ubnd_rules]:
  fixes a :: u128
  assumes "ubnd a m A"
  shows "ubnd (ucast a AND 0x7ffffffffffff :: u64) (m mod 2251799813685248) 2251799813685247"
proof -
  have "ucast a AND mask 51 = (ucast (a AND mask 51) :: u64)"
    by (intro bit_word_eqI) (auto simp: bit_and_iff bit_ucast_iff bit_mask_iff)
  then show ?thesis
    using ubnd_ucast [OF ubnd_and_51 [OF assms], where 'b = 64] by (simp add: mask51)
qed

lemma ubnd_umul [ubnd_rules]:
  "ubnd a m A \<Longrightarrow> ubnd b n B \<Longrightarrow> A * B < 2 ^ 128 \<Longrightarrow> ubnd (umul a b) (m * n) (A * B)"
  unfolding umul_def by (rule ubnd_mult) (simp_all add: ubnd_ucast_up)

text \<open>One step of the carry propagation.\<close>

lemma ubnd_carry_out:
  fixes t :: u128
  assumes "ubnd t n A" "A div 2 ^ 51 < 2 ^ 64"
  shows "ubnd (ucast (drop_bit 51 t) :: u64) (n div 2251799813685248) (A div 2 ^ 51)"
  using ubnd_ucast [OF ubnd_drop_bit [OF assms(1), of 51], where 'b = 64] assms(2) by simp

lemma ubnd_carry_in:
  fixes t :: u128 and c :: u64
  shows "ubnd t n A \<Longrightarrow> ubnd c q C \<Longrightarrow> A + C < 2 ^ 128 \<Longrightarrow> ubnd (t + ucast c) (n + q) (A + C)"
  by (rule ubnd_add) (simp_all add: ubnd_ucast_up)

lemma ubnd_drop_51:
  fixes r :: u64
  shows "ubnd r n A \<Longrightarrow> ubnd (drop_bit 51 r) (n div 2251799813685248) (A div 2 ^ 51)"
  using ubnd_drop_bit [of r n A 51] by simp

lemma mod_div_51: "int n = int (n mod 2251799813685248) + 2251799813685248 * int (n div 2251799813685248)"
  using arg_cong [OF mod_mult_div_eq [of n 2251799813685248, symmetric], of int]
  by (simp only: of_nat_add of_nat_mult of_nat_numeral)

lemma carry51_identity:
  fixes n0 n1 n2 n3 n4 :: int
  assumes "n0 = a0 + 2251799813685248 * q0"
    "m1 = a1 + 2251799813685248 * q1" "m2 = a2 + 2251799813685248 * q2"
    "m3 = a3 + 2251799813685248 * q3" "m4 = a4 + 2251799813685248 * q4"
    "k0 = b0 + 2251799813685248 * p0" "k1 = b1 + 2251799813685248 * p1"
    and "m1 = n1 + q0" "m2 = n2 + q1" "m3 = n3 + q2" "m4 = n4 + q3"
    "k0 = a0 + 19 * q4" "k1 = a1 + p0"
  shows "feq (b0 + 2 ^ 51 * b1 + 2 ^ 102 * (a2 + p1) + 2 ^ 153 * a3 + 2 ^ 204 * a4)
    (n0 + 2 ^ 51 * n1 + 2 ^ 102 * n2 + 2 ^ 153 * n3 + 2 ^ 204 * n4)"
  by (rule feq_modulus [of _ _ "- q4"]) (use assms in \<open>simp add: p25519_def\<close>)

lemma carry51_spec:
  assumes t0: "ubnd t0 n0 (98 * 2 ^ 108)" and t1: "ubnd t1 n1 (98 * 2 ^ 108)"
    and t2: "ubnd t2 n2 (98 * 2 ^ 108)" and t3: "ubnd t3 n3 (98 * 2 ^ 108)"
    and t4: "ubnd t4 n4 (13 * 2 ^ 107)"
  shows "tight51 (carry51 t0 t1 t2 t3 t4) \<and> feq (fval (carry51 t0 t1 t2 t3 t4))
    (int n0 + 2 ^ 51 * int n1 + 2 ^ 102 * int n2 + 2 ^ 153 * int n3 + 2 ^ 204 * int n4)"
proof -
  let ?w = "2251799813685248 :: nat"
  define c0 where "c0 = (ucast (drop_bit 51 t0) :: u64)"
  define u1 where "u1 = t1 + ucast c0"
  define c1 where "c1 = (ucast (drop_bit 51 u1) :: u64)"
  define u2 where "u2 = t2 + ucast c1"
  define c2 where "c2 = (ucast (drop_bit 51 u2) :: u64)"
  define u3 where "u3 = t3 + ucast c2"
  define c3 where "c3 = (ucast (drop_bit 51 u3) :: u64)"
  define u4 where "u4 = t4 + ucast c3"
  define c4 where "c4 = (ucast (drop_bit 51 u4) :: u64)"
  define m1 m2 m3 m4 where "m1 = n1 + n0 div ?w" and "m2 = n2 + m1 div ?w"
    and "m3 = n3 + m2 div ?w" and "m4 = n4 + m3 div ?w"
  define r0 r1 where "r0 = (ucast t0 AND 0x7ffffffffffff) + c4 * 19"
    and "r1 = (ucast u1 AND 0x7ffffffffffff) + drop_bit 51 r0"
  define k0 k1 where "k0 = n0 mod ?w + m4 div ?w * 19" and "k1 = m1 mod ?w + k0 div ?w"
  have c0: "ubnd c0 (n0 div ?w) (98 * 2 ^ 57)"
    unfolding c0_def by (rule ubnd_weaken, rule ubnd_carry_out, rule t0) simp_all
  have u1: "ubnd u1 m1 (99 * 2 ^ 108)"
    unfolding u1_def m1_def by (rule ubnd_weaken, rule ubnd_carry_in, rule t1, rule c0) simp_all
  have c1: "ubnd c1 (m1 div ?w) (99 * 2 ^ 57)"
    unfolding c1_def by (rule ubnd_weaken, rule ubnd_carry_out, rule u1) simp_all
  have u2: "ubnd u2 m2 (99 * 2 ^ 108)"
    unfolding u2_def m2_def by (rule ubnd_weaken, rule ubnd_carry_in, rule t2, rule c1) simp_all
  have c2: "ubnd c2 (m2 div ?w) (99 * 2 ^ 57)"
    unfolding c2_def by (rule ubnd_weaken, rule ubnd_carry_out, rule u2) simp_all
  have u3: "ubnd u3 m3 (99 * 2 ^ 108)"
    unfolding u3_def m3_def by (rule ubnd_weaken, rule ubnd_carry_in, rule t3, rule c2) simp_all
  have c3: "ubnd c3 (m3 div ?w) (99 * 2 ^ 57)"
    unfolding c3_def by (rule ubnd_weaken, rule ubnd_carry_out, rule u3) simp_all
  have u4: "ubnd u4 m4 (105 * 2 ^ 104)"
    unfolding u4_def m4_def by (rule ubnd_weaken, rule ubnd_carry_in, rule t4, rule c3) simp_all
  have c4: "ubnd c4 (m4 div ?w) (105 * 2 ^ 53)"
    unfolding c4_def by (rule ubnd_weaken, rule ubnd_carry_out, rule u4) simp_all
  have r0: "ubnd r0 k0 (2 ^ 64 - 1)"
    unfolding r0_def k0_def
    by (rule ubnd_weaken, rule ubnd_add, rule ubnd_low_51, rule t0, rule ubnd_mult, rule c4,
        rule ubnd_numeral) simp_all
  have r1: "ubnd r1 k1 (2 ^ 51 + 2 ^ 13)"
    unfolding r1_def k1_def
    by (rule ubnd_weaken, rule ubnd_add, rule ubnd_low_51, rule u1, rule ubnd_drop_51, rule r0) simp_all
  have r2: "ubnd ((ucast u2 AND 0x7ffffffffffff :: u64) + drop_bit 51 r1) (m2 mod ?w + k1 div ?w) (2 ^ 51)"
    by (rule ubnd_weaken, rule ubnd_add, rule ubnd_low_51, rule u2, rule ubnd_drop_51, rule r1) simp_all
  have eq: "carry51 t0 t1 t2 t3 t4 = Ulongs (r0 AND 0x7ffffffffffff) (r1 AND 0x7ffffffffffff)
      ((ucast u2 AND 0x7ffffffffffff) + drop_bit 51 r1) (ucast u3 AND 0x7ffffffffffff)
      (ucast u4 AND 0x7ffffffffffff)"
    unfolding carry51_def Let_def r1_def r0_def c4_def u4_def c3_def u3_def c2_def u2_def c1_def
      u1_def c0_def ..
  have vals: "fval (carry51 t0 t1 t2 t3 t4) = int (k0 mod ?w) + 2 ^ 51 * int (k1 mod ?w)
      + 2 ^ 102 * int (m2 mod ?w + k1 div ?w) + 2 ^ 153 * int (m3 mod ?w) + 2 ^ 204 * int (m4 mod ?w)"
    unfolding eq fval.simps ubnd_unat [OF r2] ubnd_unat [OF ubnd_and_51 [OF r0]]
      ubnd_unat [OF ubnd_and_51 [OF r1]] ubnd_unat [OF ubnd_low_51 [OF u3]]
      ubnd_unat [OF ubnd_low_51 [OF u4]] ..
  have "feq (fval (carry51 t0 t1 t2 t3 t4))
    (int n0 + 2 ^ 51 * int n1 + 2 ^ 102 * int n2 + 2 ^ 153 * int n3 + 2 ^ 204 * int n4)"
    unfolding vals of_nat_add
  proof (rule carry51_identity)
    show "int m1 = int n1 + int (n0 div ?w)" "int m2 = int n2 + int (m1 div ?w)"
      "int m3 = int n3 + int (m2 div ?w)" "int m4 = int n4 + int (m3 div ?w)"
      "int k0 = int (n0 mod ?w) + 19 * int (m4 div ?w)" "int k1 = int (m1 mod ?w) + int (k0 div ?w)"
      unfolding m1_def m2_def m3_def m4_def k0_def k1_def by (simp_all only: of_nat_add of_nat_mult of_nat_numeral mult.commute)
  qed (rule mod_div_51)+
  moreover have "tight51 (carry51 t0 t1 t2 t3 t4)"
    using ubnd_le [OF r2] ubnd_unat [OF r2] ubnd_and_51 [OF r0] ubnd_and_51 [OF r1]
      ubnd_low_51 [OF u3] ubnd_low_51 [OF u4]
    unfolding eq tight51_def by (simp add: ubnd_def)
  ultimately show ?thesis by simp
qed

lemma carry51_feq:
  assumes "feq (int n0 + 2 ^ 51 * int n1 + 2 ^ 102 * int n2 + 2 ^ 153 * int n3 + 2 ^ 204 * int n4) v"
    and "ubnd t0 n0 (98 * 2 ^ 108)" "ubnd t1 n1 (98 * 2 ^ 108)" "ubnd t2 n2 (98 * 2 ^ 108)"
    "ubnd t3 n3 (98 * 2 ^ 108)" "ubnd t4 n4 (13 * 2 ^ 107)"
  shows "tight51 (carry51 t0 t1 t2 t3 t4) \<and> feq (fval (carry51 t0 t1 t2 t3 t4)) v"
  using carry51_spec [OF assms(2-6)] assms(1) feq_trans by blast

text \<open>The columns of a product, reduced by \<open>2 ^ 255 = 19\<close>.\<close>

lemma columns_product:
  fixes r0 r1 r2 r3 r4 :: int
  shows "feq (r0 * s0 + (r4 * 19 * s1 + r1 * 19 * s4 + r2 * 19 * s3 + r3 * 19 * s2)
     + 2 ^ 51 * (r0 * s1 + r1 * s0 + (r4 * 19 * s2 + r2 * 19 * s4 + r3 * 19 * s3))
     + 2 ^ 102 * (r0 * s2 + r2 * s0 + r1 * s1 + (r4 * 19 * s3 + r3 * 19 * s4))
     + 2 ^ 153 * (r0 * s3 + r3 * s0 + r1 * s2 + r2 * s1 + r4 * 19 * s4)
     + 2 ^ 204 * (r0 * s4 + r4 * s0 + r3 * s1 + r1 * s3 + r2 * s2))
    ((s0 + 2 ^ 51 * s1 + 2 ^ 102 * s2 + 2 ^ 153 * s3 + 2 ^ 204 * s4)
     * (r0 + 2 ^ 51 * r1 + 2 ^ 102 * r2 + 2 ^ 153 * r3 + 2 ^ 204 * r4))"
  by (rule feq_modulus [of _ _ "- (r4 * s1 + r1 * s4 + r2 * s3 + r3 * s2
        + 2 ^ 51 * (r4 * s2 + r2 * s4 + r3 * s3) + 2 ^ 102 * (r4 * s3 + r3 * s4) + 2 ^ 153 * (r4 * s4))"])
    (simp add: p25519_def algebra_simps)

lemmas column_bounds = ubnd_add ubnd_umul ubnd_mult ubnd_numeral

lemma fmul_spec:
  assumes "loose51 a" "loose51 b"
  shows "tight51 (fmul a b) \<and> feq (fval (fmul a b)) (fval a * fval b)"
proof -
  obtain s0 s1 s2 s3 s4 r0 r1 r2 r3 r4
    where ab: "a = Ulongs s0 s1 s2 s3 s4" "b = Ulongs r0 r1 r2 r3 r4"
    using bits320.exhaust by metis
  let ?L = "20266198591602688 :: nat"
  have L: "ubnd s0 (unat s0) ?L" "ubnd s1 (unat s1) ?L" "ubnd s2 (unat s2) ?L" "ubnd s3 (unat s3) ?L"
    "ubnd s4 (unat s4) ?L" "ubnd r0 (unat r0) ?L" "ubnd r1 (unat r1) ?L" "ubnd r2 (unat r2) ?L"
    "ubnd r3 (unat r3) ?L" "ubnd r4 (unat r4) ?L"
    using assms by (simp_all add: ab loose51_def ubnd_def)
  let ?c0 = "unat r0 * unat s0
        + (unat r4 * 19 * unat s1 + unat r1 * 19 * unat s4 + unat r2 * 19 * unat s3 + unat r3 * 19 * unat s2)"
    and ?c1 = "unat r0 * unat s1 + unat r1 * unat s0
        + (unat r4 * 19 * unat s2 + unat r2 * 19 * unat s4 + unat r3 * 19 * unat s3)"
    and ?c2 = "unat r0 * unat s2 + unat r2 * unat s0 + unat r1 * unat s1
        + (unat r4 * 19 * unat s3 + unat r3 * 19 * unat s4)"
    and ?c3 = "unat r0 * unat s3 + unat r3 * unat s0 + unat r1 * unat s2 + unat r2 * unat s1
        + unat r4 * 19 * unat s4"
    and ?c4 = "unat r0 * unat s4 + unat r4 * unat s0 + unat r3 * unat s1 + unat r1 * unat s3
        + unat r2 * unat s2"
  have cols: "feq (int ?c0 + 2 ^ 51 * int ?c1 + 2 ^ 102 * int ?c2 + 2 ^ 153 * int ?c3 + 2 ^ 204 * int ?c4)
      (fval (Ulongs s0 s1 s2 s3 s4) * fval (Ulongs r0 r1 r2 r3 r4))"
    unfolding fval.simps of_nat_add of_nat_mult of_nat_numeral by (rule columns_product)
  show ?thesis
    unfolding ab fmul.simps Let_def
    by (rule carry51_feq [OF cols]; (rule ubnd_weaken, (rule column_bounds L | simp)+))
qed

text \<open>The columns of a square, with the doubled terms collected.\<close>

lemma columns_square:
  fixes r0 r1 r2 r3 r4 :: int
  shows "feq (r0 * r0 + r4 * 19 * 2 * r1 + r2 * 2 * 19 * r3
     + 2 ^ 51 * (r0 * 2 * r1 + r4 * 19 * 2 * r2 + r3 * (r3 * 19))
     + 2 ^ 102 * (r0 * 2 * r2 + r1 * r1 + r4 * 19 * 2 * r3)
     + 2 ^ 153 * (r0 * 2 * r3 + r1 * 2 * r2 + r4 * (r4 * 19))
     + 2 ^ 204 * (r0 * 2 * r4 + r1 * 2 * r3 + r2 * r2))
    ((r0 + 2 ^ 51 * r1 + 2 ^ 102 * r2 + 2 ^ 153 * r3 + 2 ^ 204 * r4)
     * (r0 + 2 ^ 51 * r1 + 2 ^ 102 * r2 + 2 ^ 153 * r3 + 2 ^ 204 * r4))"
  by (rule feq_modulus [of _ _ "- (2 * r4 * r1 + 2 * r2 * r3
        + 2 ^ 51 * (2 * r4 * r2 + r3 * r3) + 2 ^ 102 * (2 * r4 * r3) + 2 ^ 153 * (r4 * r4))"])
    (simp add: p25519_def algebra_simps)

lemma fsquare_round_spec:
  assumes "loose51 a"
  shows "tight51 (fsquare_round a) \<and> feq (fval (fsquare_round a)) (fval a * fval a)"
proof -
  obtain r0 r1 r2 r3 r4 where a: "a = Ulongs r0 r1 r2 r3 r4" by (rule bits320.exhaust)
  let ?L = "20266198591602688 :: nat"
  have L: "ubnd r0 (unat r0) ?L" "ubnd r1 (unat r1) ?L" "ubnd r2 (unat r2) ?L"
    "ubnd r3 (unat r3) ?L" "ubnd r4 (unat r4) ?L"
    using assms by (simp_all add: a loose51_def ubnd_def)
  let ?c0 = "unat r0 * unat r0 + unat r4 * 19 * 2 * unat r1 + unat r2 * 2 * 19 * unat r3"
    and ?c1 = "unat r0 * 2 * unat r1 + unat r4 * 19 * 2 * unat r2 + unat r3 * (unat r3 * 19)"
    and ?c2 = "unat r0 * 2 * unat r2 + unat r1 * unat r1 + unat r4 * 19 * 2 * unat r3"
    and ?c3 = "unat r0 * 2 * unat r3 + unat r1 * 2 * unat r2 + unat r4 * (unat r4 * 19)"
    and ?c4 = "unat r0 * 2 * unat r4 + unat r1 * 2 * unat r3 + unat r2 * unat r2"
  have cols: "feq (int ?c0 + 2 ^ 51 * int ?c1 + 2 ^ 102 * int ?c2 + 2 ^ 153 * int ?c3 + 2 ^ 204 * int ?c4)
      (fval (Ulongs r0 r1 r2 r3 r4) * fval (Ulongs r0 r1 r2 r3 r4))"
    unfolding fval.simps of_nat_add of_nat_mult of_nat_numeral by (rule columns_square)
  show ?thesis
    unfolding a fsquare_round.simps Let_def
    by (rule carry51_feq [OF cols]; (rule ubnd_weaken, (rule column_bounds L | simp)+))
qed

lemma fsquare_times_funpow:
  "count \<noteq> 0 \<Longrightarrow> fsquare_times r count = (fsquare_round ^^ unat count) r"
proof (induction r count rule: fsquare_times.induct)
  case (1 r count)
  have u: "unat count = Suc (unat (count - 1))"
    using "1.prems" by (simp add: unat_minus_one Suc_leI unat_gt_0 word_gt_0)
  show ?case
  proof (cases "count - 1 = 0")
    case True
    then show ?thesis by (subst fsquare_times.simps) (simp add: u)
  next
    case False
    with 1 have "fsquare_times (fsquare_round r) (count - 1)
        = (fsquare_round ^^ unat (count - 1)) (fsquare_round r)" by blast
    with False show ?thesis
      by (subst fsquare_times.simps) (simp only: Let_def u if_True funpow_Suc_right comp_apply not_False_eq_True)
  qed
qed

lemma fsum_spec:
  assumes "tight51 a" "tight51 b"
  shows "loose51 (fsum a b) \<and> feq (fval (fsum a b)) (fval a + fval b)"
proof -
  have add: "unat (x + y) = unat x + unat y"
    if "unat x \<le> 2 ^ 51 + 2 ^ 27" "unat y \<le> 2 ^ 51 + 2 ^ 27" for x y :: u64
    using that by (simp add: unat_word_ariths)
  show ?thesis
    using assms by (cases a; cases b) (simp add: tight51_def loose51_def add algebra_simps)
qed

lemma fdifference_spec:
  assumes "tight51 a" "tight51 b"
  shows "loose51 (fdifference_backwards b a) \<and> feq (fval (fdifference_backwards b a)) (fval a - fval b)"
proof -
  have k: "unat two54m152 = 2 ^ 54 - 152" "unat two54m8 = 2 ^ 54 - 8"
    by (simp_all add: two54m152_def two54m8_def)
  have sub: "unat (x + c - y) = unat x + unat c - unat y" "unat y \<le> unat x + unat c"
    if "unat x \<le> 2 ^ 51 + 2 ^ 27" "unat y \<le> 2 ^ 51 + 2 ^ 27" "2 ^ 54 - 152 \<le> unat c" "unat c \<le> 2 ^ 54"
    for x y c :: u64
    using that by (simp_all add: unat_sub_if_size unat_word_ariths)
  obtain a0 a1 a2 a3 a4 b0 b1 b2 b3 b4
    where ab: "a = Ulongs a0 a1 a2 a3 a4" "b = Ulongs b0 b1 b2 b3 b4"
    using bits320.exhaust by metis
  have "fval (fdifference_backwards b a) = fval a - fval b + 8 * p25519"
    using assms by (simp add: ab tight51_def sub k of_nat_diff p25519_def del: of_nat_unat)
  moreover have "loose51 (fdifference_backwards b a)"
    using assms by (auto simp: ab tight51_def loose51_def sub k)
  ultimately show ?thesis by (auto intro: feq_modulus)
qed

lemma fscalar_product_spec:
  assumes "loose51 a"
  shows "tight51 (fscalar_product a 121665) \<and> feq (fval (fscalar_product a 121665)) (121665 * fval a)"
proof -
  let ?w = "2251799813685248 :: nat" and ?L = "20266198591602688 :: nat"
  obtain i0 i1 i2 i3 i4 where a: "a = Ulongs i0 i1 i2 i3 i4" by (rule bits320.exhaust)
  define a0 where "a0 = umul i0 121665"
  define a1 where "a1 = umul i1 121665 + ucast (ucast (drop_bit 51 a0) :: u64)"
  define a2 where "a2 = umul i2 121665 + ucast (ucast (drop_bit 51 a1) :: u64)"
  define a3 where "a3 = umul i3 121665 + ucast (ucast (drop_bit 51 a2) :: u64)"
  define a4 where "a4 = umul i4 121665 + ucast (ucast (drop_bit 51 a3) :: u64)"
  define n0 n1 n2 n3 n4 where "n0 = unat i0 * 121665" and "n1 = unat i1 * 121665 + n0 div ?w"
    and "n2 = unat i2 * 121665 + n1 div ?w" and "n3 = unat i3 * 121665 + n2 div ?w"
    and "n4 = unat i4 * 121665 + n3 div ?w"
  have prod: "ubnd (umul i 121665) (unat i * 121665) (?L * 121665)" if "unat i \<le> ?L" for i
    by (rule ubnd_umul, rule ubnd_self [OF that], rule ubnd_numeral) simp_all
  have limb: "unat i0 \<le> ?L" "unat i1 \<le> ?L" "unat i2 \<le> ?L" "unat i3 \<le> ?L" "unat i4 \<le> ?L"
    using assms by (simp_all add: a loose51_def)
  have a0: "ubnd a0 n0 (2 ^ 72)"
    unfolding a0_def n0_def by (rule ubnd_weaken, rule prod, rule limb) simp
  have step: "ubnd (umul i 121665 + ucast (ucast (drop_bit 51 t) :: u64)) (unat i * 121665 + n div ?w) (2 ^ 72)"
    if "unat i \<le> ?L" "ubnd t n (2 ^ 72)" for i n and t :: u128
    by (rule ubnd_weaken, rule ubnd_carry_in, rule prod, rule that, rule ubnd_carry_out, rule that) simp_all
  have a1: "ubnd a1 n1 (2 ^ 72)" unfolding a1_def n1_def by (rule step, rule limb, rule a0)
  have a2: "ubnd a2 n2 (2 ^ 72)" unfolding a2_def n2_def by (rule step, rule limb, rule a1)
  have a3: "ubnd a3 n3 (2 ^ 72)" unfolding a3_def n3_def by (rule step, rule limb, rule a2)
  have a4: "ubnd a4 n4 (2 ^ 72)" unfolding a4_def n4_def by (rule step, rule limb, rule a3)
  have o0: "ubnd ((ucast a0 AND 0x7ffffffffffff) + ucast (drop_bit 51 a4 * 19) :: u64)
      (n0 mod ?w + n4 div ?w * 19) (2 ^ 51 + 2 ^ 27)"
    by (rule ubnd_weaken, rule ubnd_add, rule ubnd_low_51, rule a0, rule ubnd_ucast, rule ubnd_mult,
        rule ubnd_drop_bit [OF a4, of 51, simplified], rule ubnd_numeral) simp_all
  have eq: "fscalar_product a 121665 = Ulongs ((ucast a0 AND 0x7ffffffffffff) + ucast (drop_bit 51 a4 * 19))
      (ucast a1 AND 0x7ffffffffffff) (ucast a2 AND 0x7ffffffffffff) (ucast a3 AND 0x7ffffffffffff)
      (ucast a4 AND 0x7ffffffffffff)"
    unfolding a fscalar_product.simps Let_def a4_def a3_def a2_def a1_def a0_def ..
  note low = ubnd_low_51 [OF a1] ubnd_low_51 [OF a2] ubnd_low_51 [OF a3] ubnd_low_51 [OF a4]
  have "feq (int (n0 mod ?w) + 19 * int (n4 div ?w) + 2 ^ 51 * int (n1 mod ?w) + 2 ^ 102 * int (n2 mod ?w)
      + 2 ^ 153 * int (n3 mod ?w) + 2 ^ 204 * int (n4 mod ?w)) (121665 * fval a)"
    using mod_div_51 [of n0] mod_div_51 [of n1] mod_div_51 [of n2] mod_div_51 [of n3] mod_div_51 [of n4]
      arg_cong [OF n0_def, of int] arg_cong [OF n1_def, of int] arg_cong [OF n2_def, of int]
      arg_cong [OF n3_def, of int] arg_cong [OF n4_def, of int]
    unfolding a fval.simps of_nat_add of_nat_mult of_nat_numeral
    by (intro feq_modulus [of _ _ "- int (n4 div ?w)"]) (simp add: p25519_def del: of_nat_unat of_nat_div of_nat_mod)
  then show ?thesis
    using o0 low unfolding eq tight51_def by (simp add: ubnd_def algebra_simps del: of_nat_unat)
qed

section \<open>The field interface\<close>

interpretation f51: field_rep fval tight51 loose51 fmul fsquare_round fsum
  "\<lambda>a b. fdifference_backwards b a" "\<lambda>a. fscalar_product a 121665"
proof
  show "loose51 a" if "tight51 a" for a
    using that by (cases a) (simp add: tight51_def loose51_def)
qed (simp_all only: fmul_spec fsquare_round_spec fsum_spec fdifference_spec fscalar_product_spec)

lemma fsquare_times_1: "fsquare_times r 1 = fsquare_round r"
  by (simp add: fsquare_times_funpow)

lemma rp_fsquare_times:
  assumes "f51.rp a (x ^ m)" "count \<noteq> 0"
  shows "f51.rp (fsquare_times a count) (x ^ (2 ^ unat count * m))"
  using f51.rp_sqrs_pow [OF assms(1)] assms(2) by (simp add: fsquare_times_funpow)

lemma crecip_spec:
  assumes "f51.rp z x"
  shows "f51.rp (crecip z) (x ^ nat (p25519 - 2))"
proof -
  note sq = rp_fsquare_times
  have z: "f51.rp z (x ^ 1)" using assms by simp
  note a2 = sq [OF z, of 1, simplified]
  note b9 = f51.rp_mul_pow [OF sq [OF a2, of 2, simplified] z, simplified]
  note a11 = f51.rp_mul_pow [OF b9 a2, simplified]
  note b31 = f51.rp_mul_pow [OF sq [OF a11, of 1, simplified] b9, simplified]
  note b10 = f51.rp_mul_pow [OF sq [OF b31, of 5, simplified] b31, simplified]
  note c20 = f51.rp_mul_pow [OF sq [OF b10, of 10, simplified] b10, simplified]
  note t40 = f51.rp_mul_pow [OF sq [OF c20, of 20, simplified] c20, simplified]
  note b50 = f51.rp_mul_pow [OF sq [OF t40, of 10, simplified] b10, simplified]
  note c100 = f51.rp_mul_pow [OF sq [OF b50, of 50, simplified] b50, simplified]
  note t200 = f51.rp_mul_pow [OF sq [OF c100, of 100, simplified] c100, simplified]
  note t250 = f51.rp_mul_pow [OF sq [OF t200, of 50, simplified] b50, simplified]
  note res = f51.rp_mul_pow [OF sq [OF t250, of 5, simplified] a11, simplified]
  have "nat (p25519 - 2) = 2 ^ 255 - 21" by (simp add: p25519_def)
  with res show ?thesis unfolding crecip_def Let_def by simp
qed

section \<open>The ladder\<close>

lemma swap_conditional_simps:
  "swap_conditional a b 0 = (a, b)" "swap_conditional a b 1 = (b, a)"
  by (cases a; cases b; simp add: xor.left_commute [of _ _ "_ XOR _"] xor.assoc xor.left_commute)+

lemma fmonty_eq:
  "fmonty x z x' z' q =
    (let xx = fsquare_round (fsum x z); zz = fsquare_round (fdifference_backwards z x);
         e = fdifference_backwards zz xx;
         a = fmul (fsum x' z') (fdifference_backwards z x); b = fmul (fsum x z) (fdifference_backwards z' x')
     in (fmul xx zz, fmul e (fsum (fscalar_product e 121665) xx), fsquare_round (fsum a b),
         fmul (fsquare_round (fdifference_backwards b a)) q))"
  by (simp add: fmonty_def Let_def fsquare_times_1)

section \<open>Bytes to limbs\<close>

lemma load_byte:
  fixes a :: u64 and b :: u8
  assumes "ubnd a m (2 ^ k - 1)" "k + 8 \<le> 64"
  shows "ubnd (a OR push_bit k (ucast b)) (m + unat b * 2 ^ k) (2 ^ (k + 8) - 1)"
proof -
  have b: "ubnd b (unat b) 255" using unat_u8_less [of b] by (simp add: ubnd_def)
  have "(255 :: nat) * 2 ^ k < 2 ^ (k + 8)" by (simp add: power_add)
  also have "\<dots> \<le> 2 ^ 64" using assms(2) by (intro power_increasing) auto
  finally have "ubnd (push_bit k (ucast b) :: u64) (unat b * 2 ^ k) (255 * 2 ^ k)"
    by (intro ubnd_push_bit ubnd_ucast_up b) simp_all
  then have "ubnd (a OR push_bit k (ucast b)) (m + unat b * 2 ^ k) (2 ^ k - 1 + 255 * 2 ^ k)"
    by (intro ubnd_or_disjoint [OF assms(1)]) simp_all
  then show ?thesis by (rule ubnd_weaken) (simp add: power_add)
qed

lemma load_limb_val:
  assumes "8 \<le> length b"
  shows "unat (load_limb b) = le_val (take 8 b)"
proof -
  have "take 8 b = map ((!) b) [0..<8]"
    using assms by (simp add: list_eq_iff_nth_eq)
  then have t: "take 8 b = [b ! 0, b ! 1, b ! 2, b ! 3, b ! 4, b ! 5, b ! 6, b ! 7]"
    by (simp add: upt_rec eval_nat_numeral)
  have 0: "ubnd (ucast (b ! 0) :: u64) (unat (b ! 0)) (2 ^ 8 - 1)"
    using unat_u8_less [of "b ! 0"] by (intro ubnd_ucast_up) (simp_all add: ubnd_def)
  note 1 = load_byte [OF 0, of "b ! 1", simplified]
  note 2 = load_byte [where k = 16, simplified, OF 1, of "b ! 2"]
  note 3 = load_byte [where k = 24, simplified, OF 2, of "b ! 3"]
  note 4 = load_byte [where k = 32, simplified, OF 3, of "b ! 4"]
  note 5 = load_byte [where k = 40, simplified, OF 4, of "b ! 5"]
  note 6 = load_byte [where k = 48, simplified, OF 5, of "b ! 6"]
  note 7 = load_byte [where k = 56, simplified, OF 6, of "b ! 7"]
  show ?thesis using ubnd_unat [OF 7] by (simp add: load_limb_def t or.assoc)
qed

lemma store_limb_loop_bytes: "store_limb_loop n w = num_bytes n (unat w)"
proof (induction n arbitrary: w)
  case (Suc n)
  have ff: "(0xff :: u64) = mask 8" by (simp add: mask_numeral)
  have "ucast (w AND 0xff) = (of_nat (unat w) :: u8)"
    by (intro bit_word_eqI) (auto simp: bit_simps ff)
  moreover have "unat (drop_bit 8 w) = unat w div 256"
    by (simp add: unat_drop_bit_eq drop_bit_eq_div [where 'a = nat])
  ultimately show ?case using Suc by simp
qed simp

text \<open>The limbs of a number.\<close>

definition dig51 :: "nat \<Rightarrow> nat \<Rightarrow> nat" where
  "dig51 V i = take_bit 51 (drop_bit (51 * i) V)"

lemma dig51_sum:
  "dig51 V 0 + 2 ^ 51 * dig51 V 1 + 2 ^ 102 * dig51 V 2 + 2 ^ 153 * dig51 V 3 + 2 ^ 204 * dig51 V 4
    = take_bit 255 V"
  using bits_split [of 51 V 51] bits_split [of 102 V 51] bits_split [of 153 V 51] bits_split [of 204 V 51]
  by (simp add: dig51_def)

lemma fexpand_spec:
  assumes "length b = 32"
  shows "tight51 (fexpand b) \<and> fval (fexpand b) = int (take_bit 255 (le_val b))"
proof -
  let ?V = "le_val b"
  have load: "unat (load_limb (drop k b)) = take_bit 64 (drop_bit (8 * k) ?V)" if "k \<le> 24" for k
    using that assms
    by (simp add: load_limb_val le_val_slice take_bit_eq_mod drop_bit_eq_div power_mult)
  have limb: "unat (drop_bit n (load_limb (drop k b)) AND 0x7ffffffffffff) = take_bit 51 (drop_bit (n + 8 * k) ?V)"
    if "k \<le> 24" "51 \<le> 64 - n" for k n
    using load [OF that(1)] that(2)
    by (simp add: mask51 unsigned_take_bit_eq unat_drop_bit_eq drop_bit_take_bit min_def
        flip: take_bit_eq_mask)
  have small: "take_bit 51 (X::nat) \<le> 2251799947902976" for X
    using take_bit_nat_less_exp [of 51 X] by simp
  show ?thesis
    using limb [of 0 0] limb [of 6 3] limb [of 12 6] limb [of 19 1] limb [of 24 12] dig51_sum [of ?V]
    by (simp add: fexpand_def tight51_def dig51_def small del: of_nat_unat flip: of_nat_add of_nat_mult)
qed

section \<open>Limbs to bytes\<close>

text \<open>A carry pass leaves the limbs of the number the columns stand for.\<close>

definition cols51 :: "nat \<Rightarrow> nat \<Rightarrow> nat \<Rightarrow> nat \<Rightarrow> nat \<Rightarrow> nat" where
  "cols51 n0 n1 n2 n3 n4 = n0 + 2 ^ 51 * n1 + 2 ^ 102 * n2 + 2 ^ 153 * n3 + 2 ^ 204 * n4"

lemma carry_digits:
  fixes n0 n1 n2 n3 n4 :: nat
  assumes "V = cols51 n0 n1 n2 n3 n4" "m1 = n1 + n0 div 2 ^ 51" "m2 = n2 + m1 div 2 ^ 51"
    "m3 = n3 + m2 div 2 ^ 51" "m4 = n4 + m3 div 2 ^ 51"
  shows "n0 mod 2 ^ 51 = dig51 V 0" "m1 mod 2 ^ 51 = dig51 V 1" "m2 mod 2 ^ 51 = dig51 V 2"
    "m3 mod 2 ^ 51 = dig51 V 3" "m4 mod 2 ^ 51 = dig51 V 4" "m4 div 2 ^ 51 = V div 2 ^ 255"
proof -
  let ?w = "2 ^ 51 :: nat"
  have V: "V = n0 + ?w * (n1 + ?w * (n2 + ?w * (n3 + ?w * n4)))"
    unfolding assms(1) cols51_def by (simp add: algebra_simps)
  then have d1: "V div ?w = m1 + ?w * (n2 + ?w * (n3 + ?w * n4))"
    using assms(2) by (simp add: div_mult_self2 del: power_numeral)
  then have d2: "V div ?w div ?w = m2 + ?w * (n3 + ?w * n4)"
    using assms(3) by (simp add: div_mult_self2 del: power_numeral)
  then have d3: "V div ?w div ?w div ?w = m3 + ?w * n4"
    using assms(4) by (simp add: div_mult_self2 del: power_numeral)
  then have d4: "V div ?w div ?w div ?w div ?w = m4"
    using assms(5) by (simp add: div_mult_self2 del: power_numeral)
  have dg: "dig51 V 0 = V mod ?w" "dig51 V 1 = V div ?w mod ?w" "dig51 V 2 = V div ?w div ?w mod ?w"
    "dig51 V 3 = V div ?w div ?w div ?w mod ?w" "dig51 V 4 = V div ?w div ?w div ?w div ?w mod ?w"
    by (simp_all add: dig51_def take_bit_eq_mod drop_bit_eq_div flip: div_mult2_eq)
  show "n0 mod ?w = dig51 V 0" unfolding dg(1) by (subst V) (rule mod_mult_self2 [symmetric])
  show "m1 mod ?w = dig51 V 1" unfolding dg d1 by (rule mod_mult_self2 [symmetric])
  show "m2 mod ?w = dig51 V 2" unfolding dg d2 by (rule mod_mult_self2 [symmetric])
  show "m3 mod ?w = dig51 V 3" unfolding dg d3 by (rule mod_mult_self2 [symmetric])
  show "m4 mod ?w = dig51 V 4" unfolding dg d4 ..
  show "m4 div ?w = V div 2 ^ 255"
    unfolding d4 [symmetric] by (simp flip: div_mult2_eq)
qed

lemma fcontract_iter_spec:
  assumes t: "ubnd t0 n0 (2 ^ 65)" "ubnd t1 n1 (2 ^ 65)" "ubnd t2 n2 (2 ^ 65)" "ubnd t3 n3 (2 ^ 65)"
      "ubnd t4 n4 (2 ^ 65)"
    and V: "V = cols51 n0 n1 n2 n3 n4"
    and s: "fcontract_iter (t0, t1, t2, t3, t4) flag = (s0, s1, s2, s3, s4)"
  shows "ubnd s0 (dig51 V 0 + (if flag then 19 * (V div 2 ^ 255) else 0)) (2 ^ 52)"
    "ubnd s1 (dig51 V 1) (2 ^ 51 - 1)" "ubnd s2 (dig51 V 2) (2 ^ 51 - 1)"
    "ubnd s3 (dig51 V 3) (2 ^ 51 - 1)" "ubnd s4 (dig51 V 4) (2 ^ 51 - 1)"
proof -
  define u1 where "u1 = t1 + drop_bit 51 t0"
  define u2 where "u2 = t2 + drop_bit 51 u1"
  define u3 where "u3 = t3 + drop_bit 51 u2"
  define u4 where "u4 = t4 + drop_bit 51 u3"
  define m1 m2 m3 m4 where "m1 = n1 + n0 div 2 ^ 51" and "m2 = n2 + m1 div 2 ^ 51"
    and "m3 = n3 + m2 div 2 ^ 51" and "m4 = n4 + m3 div 2 ^ 51"
  have step: "ubnd (t + drop_bit 51 u) (n + m div 2 ^ 51) (2 ^ 66)"
    if "ubnd t n (2 ^ 65)" "ubnd u m (2 ^ 66)" for t u :: u128 and n m
    by (rule ubnd_weaken, rule ubnd_add, rule that, rule ubnd_drop_bit, rule that) simp_all
  have t0: "ubnd t0 n0 (2 ^ 66)" by (rule ubnd_weaken [OF t(1)]) simp
  have u1: "ubnd u1 m1 (2 ^ 66)" unfolding u1_def m1_def by (rule step, rule t, rule t0)
  have u2: "ubnd u2 m2 (2 ^ 66)" unfolding u2_def m2_def by (rule step, rule t, rule u1)
  have u3: "ubnd u3 m3 (2 ^ 66)" unfolding u3_def m3_def by (rule step, rule t, rule u2)
  have u4: "ubnd u4 m4 (2 ^ 66)" unfolding u4_def m4_def by (rule step, rule t, rule u3)
  note dg = carry_digits [OF V m1_def m2_def m3_def m4_def]
  have out: "s0 = (if flag then (t0 AND mask 51) + 19 * drop_bit 51 u4 else t0 AND mask 51)"
    "s1 = u1 AND mask 51" "s2 = u2 AND mask 51" "s3 = u3 AND mask 51" "s4 = u4 AND mask 51"
    using s by (auto simp: Let_def u4_def u3_def u2_def u1_def simp flip: mask51)
  have "ubnd ((t0 AND mask 51) + 19 * drop_bit 51 u4) (n0 mod 2 ^ 51 + 19 * (m4 div 2 ^ 51)) (2 ^ 52)"
    by (rule ubnd_weaken, rule ubnd_add, rule ubnd_and_mask [OF t0], rule ubnd_mult, rule ubnd_numeral,
        simp, rule ubnd_drop_bit [OF u4]) simp_all
  moreover have "ubnd (t0 AND mask 51) (n0 mod 2 ^ 51) (2 ^ 52)"
    by (rule ubnd_weaken, rule ubnd_and_mask [OF t0]) simp
  ultimately show "ubnd s0 (dig51 V 0 + (if flag then 19 * (V div 2 ^ 255) else 0)) (2 ^ 52)"
    unfolding out dg by simp
  show "ubnd s1 (dig51 V 1) (2 ^ 51 - 1)" "ubnd s2 (dig51 V 2) (2 ^ 51 - 1)"
    "ubnd s3 (dig51 V 3) (2 ^ 51 - 1)" "ubnd s4 (dig51 V 4) (2 ^ 51 - 1)"
    unfolding out dg [symmetric] by (rule ubnd_and_mask, rule u1 u2 u3 u4)+
qed

lemma cols51_digits:
  "cols51 (dig51 V 0 + k) (dig51 V 1) (dig51 V 2) (dig51 V 3) (dig51 V 4) = V mod 2 ^ 255 + k"
  using dig51_sum [of V] by (simp add: cols51_def take_bit_eq_mod)

text \<open>The value after a carry pass with the wrap-around of \<open>2 ^ 255\<close>.\<close>

definition fold255 :: "nat \<Rightarrow> nat" where
  "fold255 V = V mod 2 ^ 255 + 19 * (V div 2 ^ 255)"

lemma p25519_nat: "p25519 = int (2 ^ 255 - 19)"
  by (simp add: p25519_def)

lemma fold255_mod: "int (fold255 V) mod p25519 = int V mod p25519"
proof -
  have "V = fold255 V + V div 2 ^ 255 * (2 ^ 255 - 19)"
    using mult_div_mod_eq [of "2 ^ 255" V] by (simp add: fold255_def algebra_simps)
  then have "int V = int (fold255 V) + int (V div 2 ^ 255) * p25519"
    by (metis of_nat_add of_nat_mult p25519_nat)
  then show ?thesis by simp
qed

lemma fold255_twice:
  assumes "V \<le> 2 ^ 270"
  shows "fold255 (fold255 V) < 2 ^ 255"
proof (cases "fold255 V < 2 ^ 255")
  case True
  then show ?thesis by (simp add: fold255_def)
next
  case False
  have "V div 2 ^ 255 \<le> 2 ^ 15" using div_le_mono [OF assms, of "2 ^ 255"] by simp
  then have le: "fold255 V < 2 ^ 255 + 2 ^ 20"
    using mod_less_divisor [of "2 ^ 255" V] by (simp add: fold255_def)
  with False have "fold255 V div 2 ^ 255 = 1" "fold255 V mod 2 ^ 255 = fold255 V - 2 ^ 255"
    by (auto simp: le_mod_geq le_div_geq)
  with le show ?thesis by (subst fold255_def) simp
qed

text \<open>The last reduction: adding 19 makes the numbers from \<open>p\<close> on wrap around.\<close>

lemma fold255_reduce:
  assumes "V < 2 ^ 255"
  shows "fold255 (V + 19) + (2 ^ 255 - 19) = V mod (2 ^ 255 - 19) + 2 ^ 255"
proof (cases "V < 2 ^ 255 - 19")
  case True
  then show ?thesis by (simp add: fold255_def)
next
  case False
  with assms show ?thesis by (simp add: fold255_def le_mod_geq le_div_geq)
qed

lemma dig51_add_255: "i < 5 \<Longrightarrow> dig51 (V + 2 ^ 255) i = dig51 V i"
proof -
  assume "i < 5"
  then have "(2::nat) ^ 255 = 2 ^ (51 * i) * (2 ^ 51 * 2 ^ (204 - 51 * i))" by (simp flip: power_add)
  then have "(V + 2 ^ 255) div 2 ^ (51 * i) = V div 2 ^ (51 * i) + 2 ^ 51 * 2 ^ (204 - 51 * i)"
    by (simp only:) (simp add: mult.assoc)
  then show ?thesis by (simp add: dig51_def take_bit_eq_mod drop_bit_eq_div)
qed

text \<open>One 64-bit word of the output: the top of a limb and the limbs above it.\<close>

lemma store_limb_word:
  fixes lo hi :: u128
  assumes "ubnd lo (take_bit k X) (2 ^ k - 1)" "ubnd hi (take_bit 51 (drop_bit k X)) (2 ^ 51 - 1)"
    and "k \<le> 51" "64 \<le> k + 51 \<or> X < 2 ^ (k + 51)"
  shows "store_limb (ucast (lo OR push_bit k hi)) = num_bytes 8 X"
proof -
  have "(2 ^ 51 - 1) * 2 ^ k \<le> (2 ^ 51 - 1) * (2::nat) ^ 51"
    using power_increasing [OF assms(3), of "2 :: nat"] by (intro mult_le_mono2) simp
  also have "\<dots> < 2 ^ 128" by simp
  finally have "ubnd (push_bit k hi) (take_bit 51 (drop_bit k X) * 2 ^ k) ((2 ^ 51 - 1) * 2 ^ k)"
    by (intro ubnd_push_bit assms(2)) simp
  then have "unat (lo OR push_bit k hi) = take_bit k X + take_bit 51 (drop_bit k X) * 2 ^ k"
    by (intro ubnd_unat [OF ubnd_or_disjoint [OF assms(1)]]) simp_all
  also have "\<dots> = take_bit (k + 51) X" by (simp add: mult.commute flip: bits_split)
  finally have "unat (ucast (lo OR push_bit k hi) :: u64) = take_bit (min 64 (k + 51)) X"
    by (simp add: unsigned_ucast_eq)
  moreover have "take_bit (min 64 (k + 51)) X = X mod 2 ^ 64"
  proof (cases "64 \<le> k + 51")
    case True
    then show ?thesis by (simp add: min_def take_bit_eq_mod)
  next
    case False
    with assms(4) have "X < 2 ^ (k + 51)" by simp
    moreover have "(2::nat) ^ (k + 51) \<le> 2 ^ 64" using False by (intro power_increasing) simp_all
    ultimately show ?thesis using False by (simp add: min_def take_bit_nat_eq_self)
  qed
  ultimately show ?thesis
    by (auto simp: store_limb_def store_limb_loop_bytes intro: num_bytes_cong)
qed

lemma pack_limbs:
  fixes d0 d1 d2 d3 d4 :: u128
  assumes "ubnd d0 (dig51 U 0) (2 ^ 51 - 1)" "ubnd d1 (dig51 U 1) (2 ^ 51 - 1)"
    "ubnd d2 (dig51 U 2) (2 ^ 51 - 1)" "ubnd d3 (dig51 U 3) (2 ^ 51 - 1)"
    "ubnd d4 (dig51 U 4) (2 ^ 51 - 1)" and "U < 2 ^ 255"
  shows "store_limb (ucast (d0 OR push_bit 51 d1)) @ store_limb (ucast (drop_bit 13 d1 OR push_bit 38 d2))
     @ store_limb (ucast (drop_bit 26 d2 OR push_bit 25 d3)) @ store_limb (ucast (drop_bit 39 d3 OR push_bit 12 d4))
     = num_bytes 32 U"
proof -
  have top: "ubnd (drop_bit n d) (take_bit (51 - n) (drop_bit (n + 51 * i) U)) (2 ^ (51 - n) - 1)"
    if "ubnd d (dig51 U i) (2 ^ 51 - 1)" "n \<le> 51" for d :: u128 and i n
  proof -
    have "dig51 U i div 2 ^ n = take_bit (51 - n) (drop_bit (n + 51 * i) U)"
      by (simp add: dig51_def drop_bit_take_bit flip: drop_bit_eq_div)
    with ubnd_drop_bit [OF that(1), of n] have "unat (drop_bit n d) = take_bit (51 - n) (drop_bit (n + 51 * i) U)"
      by (simp add: ubnd_def)
    then show ?thesis
      using take_bit_nat_less_exp [of "51 - n"] by (simp add: ubnd_def Suc_leI le_diff_conv2 less_eq_Suc_le)
  qed
  have w0: "store_limb (ucast (d0 OR push_bit 51 d1)) = num_bytes 8 U"
    using store_limb_word [of d0 51 U d1] assms by (simp add: dig51_def)
  have w1: "store_limb (ucast (drop_bit 13 d1 OR push_bit 38 d2)) = num_bytes 8 (drop_bit 64 U)"
    using store_limb_word [of "drop_bit 13 d1" 38 "drop_bit 64 U" d2] top [OF assms(2), of 13] assms(3)
    by (simp add: dig51_def)
  have w2: "store_limb (ucast (drop_bit 26 d2 OR push_bit 25 d3)) = num_bytes 8 (drop_bit 128 U)"
    using store_limb_word [of "drop_bit 26 d2" 25 "drop_bit 128 U" d3] top [OF assms(3), of 26] assms(4)
    by (simp add: dig51_def)
  have "drop_bit 192 U < 2 ^ 63" using assms(6) by (simp add: drop_bit_eq_div less_mult_imp_div_less)
  then have w3: "store_limb (ucast (drop_bit 39 d3 OR push_bit 12 d4)) = num_bytes 8 (drop_bit 192 U)"
    using store_limb_word [of "drop_bit 39 d3" 12 "drop_bit 192 U" d4] top [OF assms(4), of 39] assms(5)
    by (simp add: dig51_def)
  show ?thesis
    unfolding w0 w1 w2 w3
    using num_bytes_append [of 8 24 U] num_bytes_append [of 8 16 "U div 256 ^ 8"]
      num_bytes_append [of 8 8 "U div 256 ^ 16"]
    by (simp add: drop_bit_eq_div flip: div_mult2_eq)
qed

lemma fval_cols:
  "fval (Ulongs i0 i1 i2 i3 i4) = int (cols51 (unat i0) (unat i1) (unat i2) (unat i3) (unat i4))"
  by (simp add: cols51_def del: of_nat_unat)

lemma fcontract_passes:
  fixes i0 i1 i2 i3 i4 :: u64
  defines "V \<equiv> cols51 (unat i0) (unat i1) (unat i2) (unat i3) (unat i4)"
  assumes a: "fcontract_iter (ucast i0, ucast i1, ucast i2, ucast i3, ucast i4) True = (a0, a1, a2, a3, a4)"
    and b: "fcontract_iter (a0, a1, a2, a3, a4) True = (b0, b1, b2, b3, b4)"
    and c: "fcontract_iter (b0 + 19, b1, b2, b3, b4) True = (c0, c1, c2, c3, c4)"
    and d: "fcontract_iter (c0 + (0x8000000000000 - 19), c1 + (0x8000000000000 - 1),
              c2 + (0x8000000000000 - 1), c3 + (0x8000000000000 - 1), c4 + (0x8000000000000 - 1)) False
        = (d0, d1, d2, d3, d4)"
  defines "U \<equiv> V mod (2 ^ 255 - 19)"
  shows "ubnd d0 (dig51 U 0) (2 ^ 51 - 1)" "ubnd d1 (dig51 U 1) (2 ^ 51 - 1)"
    "ubnd d2 (dig51 U 2) (2 ^ 51 - 1)" "ubnd d3 (dig51 U 3) (2 ^ 51 - 1)"
    "ubnd d4 (dig51 U 4) (2 ^ 51 - 1)"
proof -
  have limb: "ubnd (ucast i :: u128) (unat i) (2 ^ 65)" for i :: u64
  proof -
    have "unat i < 2 ^ 64" using unsigned_less [of i] by simp
    then show ?thesis by (intro ubnd_ucast_up ubnd_self) simp_all
  qed
  have low: "ubnd t n (2 ^ 65)" if "ubnd t n (2 ^ 51 - 1)" for t :: u128 and n
    using that by (rule ubnd_weaken) simp
  have low0: "ubnd t n (2 ^ 65)" if "ubnd t n (2 ^ 52)" for t :: u128 and n
    using that by (rule ubnd_weaken) simp
  define V1 V2 V3 where "V1 = fold255 V" and "V2 = fold255 V1" and "V3 = fold255 (V2 + 19)"
  note A = fcontract_iter_spec [OF limb limb limb limb limb meta_eq_to_obj_eq [OF V_def] a, unfolded if_True]
  have "V1 = cols51 (dig51 V 0 + 19 * (V div 2 ^ 255)) (dig51 V 1) (dig51 V 2) (dig51 V 3) (dig51 V 4)"
    by (simp only: V1_def fold255_def cols51_digits)
  note B = fcontract_iter_spec [OF low0 [OF A(1)] low [OF A(2)] low [OF A(3)] low [OF A(4)] low [OF A(5)]
      this b, unfolded if_True]
  have "ubnd (b0 + 19) (dig51 V1 0 + 19 * (V1 div 2 ^ 255) + 19) (2 ^ 65)"
    by (rule ubnd_weaken, rule ubnd_add, rule B, rule ubnd_numeral) simp_all
  note b19 = this low [OF B(2)] low [OF B(3)] low [OF B(4)] low [OF B(5)]
  have "V2 + 19 = cols51 (dig51 V1 0 + 19 * (V1 div 2 ^ 255) + 19) (dig51 V1 1) (dig51 V1 2) (dig51 V1 3) (dig51 V1 4)"
    by (simp only: V2_def fold255_def cols51_digits add.assoc)
  note C = fcontract_iter_spec [OF b19 this c, unfolded if_True]
  have "(0x8000000000000 - 19 :: u128) = 2251799813685229" "(0x8000000000000 - 1 :: u128) = 2251799813685247"
    by simp_all
  note k = this
  have c0: "ubnd (c0 + (0x8000000000000 - 19)) (dig51 (V2 + 19) 0 + 19 * ((V2 + 19) div 2 ^ 255) + 2251799813685229) (2 ^ 65)"
    unfolding k by (rule ubnd_weaken, rule ubnd_add, rule C, rule ubnd_numeral) simp_all
  have ci: "ubnd (t + (0x8000000000000 - 1)) (n + 2251799813685247) (2 ^ 65)"
    if "ubnd t n (2 ^ 51 - 1)" for t :: u128 and n
    unfolding k by (rule ubnd_weaken, rule ubnd_add, rule that, rule ubnd_numeral) simp_all
  have "V3 + (2 ^ 255 - 19) = cols51 (dig51 (V2 + 19) 0 + 19 * ((V2 + 19) div 2 ^ 255) + 2251799813685229)
      (dig51 (V2 + 19) 1 + 2251799813685247) (dig51 (V2 + 19) 2 + 2251799813685247)
      (dig51 (V2 + 19) 3 + 2251799813685247) (dig51 (V2 + 19) 4 + 2251799813685247)"
    using cols51_digits [of "V2 + 19" "19 * ((V2 + 19) div 2 ^ 255)"]
    by (simp add: V3_def fold255_def cols51_def)
  note D = fcontract_iter_spec [OF c0 ci [OF C(2)] ci [OF C(3)] ci [OF C(4)] ci [OF C(5)] this d]
  have "V \<le> 2 ^ 270"
    using limb [of i0] limb [of i1] limb [of i2] limb [of i3] limb [of i4]
    unfolding V_def cols51_def ubnd_def by simp
  then have V2: "V2 < 2 ^ 255" unfolding V2_def V1_def by (rule fold255_twice)
  have "V2 mod (2 ^ 255 - 19) = U"
    using fold255_mod [of V1] fold255_mod [of V] unfolding U_def V2_def V1_def p25519_nat
    by (simp only: of_nat_eq_iff flip: of_nat_mod)
  with fold255_reduce [OF V2] have V3: "V3 + (2 ^ 255 - 19) = U + 2 ^ 255" by (simp add: V3_def)
  have "dig51 U 0 \<le> 2 ^ 51 - 1" using take_bit_nat_less_exp [of 51 U] by (simp add: dig51_def)
  with D(1) show "ubnd d0 (dig51 U 0) (2 ^ 51 - 1)"
    unfolding V3 by (simp add: dig51_add_255 ubnd_def del: power_numeral)
  show "ubnd d1 (dig51 U 1) (2 ^ 51 - 1)" "ubnd d2 (dig51 U 2) (2 ^ 51 - 1)"
    "ubnd d3 (dig51 U 3) (2 ^ 51 - 1)" "ubnd d4 (dig51 U 4) (2 ^ 51 - 1)"
    using D(2-5) unfolding V3 by (simp_all add: dig51_add_255 del: power_numeral)
qed

lemma fcontract_bytes: "fcontract f = num_bytes 32 (nat (fval f mod p25519))"
proof -
  obtain i0 i1 i2 i3 i4 where f: "f = Ulongs i0 i1 i2 i3 i4" by (rule bits320.exhaust)
  let ?U = "cols51 (unat i0) (unat i1) (unat i2) (unat i3) (unat i4) mod (2 ^ 255 - 19)"
  obtain a0 a1 a2 a3 a4
    where a: "fcontract_iter (ucast i0, ucast i1, ucast i2, ucast i3, ucast i4) True = (a0, a1, a2, a3, a4)"
    by (metis surj_pair)
  obtain b0 b1 b2 b3 b4 where b: "fcontract_iter (a0, a1, a2, a3, a4) True = (b0, b1, b2, b3, b4)"
    by (metis surj_pair)
  obtain c0 c1 c2 c3 c4 where c: "fcontract_iter (b0 + 19, b1, b2, b3, b4) True = (c0, c1, c2, c3, c4)"
    by (metis surj_pair)
  obtain d0 d1 d2 d3 d4
    where d: "fcontract_iter (c0 + (0x8000000000000 - 19), c1 + (0x8000000000000 - 1),
              c2 + (0x8000000000000 - 1), c3 + (0x8000000000000 - 1), c4 + (0x8000000000000 - 1)) False
        = (d0, d1, d2, d3, d4)"
    by (metis surj_pair)
  have U: "nat (fval (Ulongs i0 i1 i2 i3 i4) mod p25519) = ?U"
    unfolding fval_cols p25519_nat by (simp only: nat_int flip: of_nat_mod)
  have "?U < 2 ^ 255 - 19" by (rule mod_less_divisor) simp
  then have "?U < 2 ^ 255" by simp
  then show ?thesis
    unfolding f U fcontract.simps Let_def a b c d prod.case
    by (rule pack_limbs [OF fcontract_passes [OF a b c d]])
qed

section \<open>The curve function\<close>

interpretation c51: ladder_impl fval tight51 loose51 fmul fsquare_round fsum
  "\<lambda>a b. fdifference_backwards b a" "\<lambda>a. fscalar_product a 121665" crecip fexpand fcontract
  "Ulongs 0 0 0 0 0" "Ulongs 1 0 0 0 0" swap_conditional fmonty cmult_bits
proof unfold_locales
  show "tight51 (Ulongs 0 0 0 0 0) \<and> fval (Ulongs 0 0 0 0 0) = 0"
    "tight51 (Ulongs 1 0 0 0 0) \<and> fval (Ulongs 1 0 0 0 0) = 1"
    by (simp_all add: tight51_def)
qed (simp_all only: crecip_spec fexpand_spec fcontract_bytes swap_conditional_simps fmonty_eq
    cmult_bits.simps simp_thms)

lemma curve25519_eq: "curve25519 mysecret basepoint = c51.curve_bytes mysecret basepoint"
  by (simp add: curve25519_def cmult_def c51.curve_bytes_def Let_def split: prod.split)

lemma curve25519_zero_point:
  "length mysecret = 32 \<Longrightarrow> curve25519 mysecret (replicate 32 0) = replicate 32 0"
  unfolding curve25519_eq by (rule c51.curve_zero_point)

lemma curve25519_zero_scalar:
  "length basepoint = 32 \<Longrightarrow> curve25519 (replicate 32 0) basepoint = replicate 32 0"
  unfolding curve25519_eq by (rule c51.curve_zero_scalar)

section \<open>Properties\<close>

text \<open>
  The reciprocal is the inverse: for every element whose value is not a multiple of the
  prime, the product with its reciprocal is 1; the reciprocal of zero is zero.
\<close>

lemma crecip_inverse:
  assumes "tight51 z"
  shows "tight51 (crecip z) \<and>
    (if fval z mod p25519 = 0 then fval (crecip z) mod p25519 = 0
     else fval (crecip z) * fval z mod p25519 = 1)"
  using assms by (rule c51.recip_inverse)

text \<open>
  The 64-bit field multiplication is exact: for limbs up to \<open>2 ^ 54 + 2 ^ 51 + 2 ^ 28\<close> (the
  bound of the sums and differences the ladder forms) no intermediate result overflows its 64
  or 128 bits, the result is congruent to the product modulo \<open>2 ^ 255 - 19\<close>, and its limbs are
  again small enough for the sums and differences; a squaring is the product of the element
  with itself.
\<close>

lemma fmul_correct:
  assumes "loose51 a" "loose51 b"
  shows "fval (fmul a b) mod p25519 = fval a * fval b mod p25519 \<and> tight51 (fmul a b)
    \<and> fval (fsquare_times a 1) mod p25519 = fval (fmul a a) mod p25519 \<and> tight51 (fsquare_times a 1)"
  using fmul_spec [OF assms] fmul_spec [OF assms(1,1)] fsquare_round_spec [OF assms(1)]
  by (simp add: feq_def fsquare_times_1)

text \<open>
  Converting a field element to bytes gives its unique representative: the 32 little-endian
  bytes of the value modulo \<open>2 ^ 255 - 19\<close>, whatever the limbs; expanding them again gives an
  element of that value.
\<close>

lemma fcontract_canonical:
  "fcontract f = num_bytes 32 (nat (fval f mod p25519)) \<and> fval (fexpand (fcontract f)) = fval f mod p25519"
proof -
  have "0 \<le> fval f mod p25519" "fval f mod p25519 < p25519" using p25519_pos by simp_all
  then have "int (nat (fval f mod p25519)) = fval f mod p25519" "nat (fval f mod p25519) < 2 ^ 255"
    by (auto simp: p25519_def nat_less_iff)
  then show ?thesis
    using fexpand_spec [of "fcontract f"]
    by (simp add: fcontract_bytes le_val_num_bytes take_bit_nat_eq_self)
qed

text \<open>
  C9. The curve function computes the Montgomery ladder over the field: with the ladder's
  projective result \<open>(X, Z)\<close> for the bits of the scalar, from the most significant one, and the
  coordinate of the base point, the output is the 32 bytes of the reduced quotient \<open>X / Z\<close>, and
  zero when \<open>Z\<close> is zero.
\<close>

theorem curve25519_refines_ladder:
  assumes "length mysecret = 32" "length basepoint = 32"
    and "mont_ladder (int (le_val basepoint mod 2 ^ 255)) (rev (map (bit (le_val mysecret)) [0..<256]))
        ((1, 0), (int (le_val basepoint mod 2 ^ 255), 1)) = ((X, Z), PQ)"
  shows "\<exists>R. curve25519 mysecret basepoint = num_bytes 32 R \<and> int R < p25519 \<and>
    (if Z mod p25519 = 0 then R = 0 else int R * Z mod p25519 = X mod p25519)"
  unfolding curve25519_eq using assms by (rule c51.curve_ladder)

theorem curve25519_refines_ladder_witness:
  "\<exists>R. curve25519 (replicate 32 0) (replicate 32 0) = num_bytes 32 R \<and> int R < p25519"
proof -
  let ?zero = "replicate 32 0 :: bytes"
  obtain X Z PQ where "mont_ladder (int (le_val ?zero mod 2 ^ 255)) (rev (map (bit (le_val ?zero)) [0..<256]))
      ((1, 0), (int (le_val ?zero mod 2 ^ 255), 1)) = ((X, Z), PQ)"
    by (metis surj_pair)
  from curve25519_refines_ladder [OF _ _ this] show ?thesis by auto
qed

text \<open>
  C38. The bound the multiplication is documented with, limbs below \<open>2 ^ 55\<close>, is too large: with
  all limbs \<open>2 ^ 55 - 1\<close> a carry exceeds 64 bits and is truncated, and the result is not
  congruent to the product.
\<close>

theorem fmul_documented_bound_fails:
  "\<exists>a b. limbs_le (2 ^ 55 - 1) a \<and> limbs_le (2 ^ 55 - 1) b
    \<and> fval (fmul a b) mod p25519 \<noteq> fval a * fval b mod p25519"
proof -
  let ?m = "36028797018963967 :: u64"
  let ?a = "Ulongs ?m ?m ?m ?m ?m"
  have "fmul ?a ?a = Ulongs 108909 5531 1481 5623 1573" by code_simp
  moreover have "fval (Ulongs 108909 5531 1481 5623 1573) = 40443416697910331458150310624949179468370606707043716359621028205" by simp
  moreover have "fval ?a = 926336713898529949053698502227340662620186754465935147974406917216750836645887" by simp
  moreover have "\<not> feq 40443416697910331458150310624949179468370606707043716359621028205 (926336713898529949053698502227340662620186754465935147974406917216750836645887 * 926336713898529949053698502227340662620186754465935147974406917216750836645887)"
  proof
    assume "feq 40443416697910331458150310624949179468370606707043716359621028205 (926336713898529949053698502227340662620186754465935147974406917216750836645887 * 926336713898529949053698502227340662620186754465935147974406917216750836645887)"
    also have "feq (926336713898529949053698502227340662620186754465935147974406917216750836645887 * 926336713898529949053698502227340662620186754465935147974406917216750836645887) 251068000035024798390091155170159885891726648629205172936612358509"
      by (rule feq_modulus [of _ _ 14821387422376485355501265990165418044474288835775608533286274131827575129904740])
        code_simp
    finally show False by (simp add: feq_def p25519_def)
  qed
  ultimately have "fval (fmul ?a ?a) mod p25519 \<noteq> fval ?a * fval ?a mod p25519"
    by (simp only: feq_def not_False_eq_True)
  moreover have "limbs_le (2 ^ 55 - 1) ?a" by simp
  ultimately show ?thesis by blast
qed

end
