(* ===== verification/Donna25519.thy ===== *)
theory Donna25519
  imports CurveLadder
begin

text \<open>
  The portable implementation of the field (\<^verbatim>\<open>src/plugins/utils/curve25519-donna.c\<close>): elements
  of ten signed 64-bit limbs, of 26 and 25 bits in turn, multiplied through 32-bit halves, and
  the three functions on 32-byte numbers the card layer is built on (\<^verbatim>\<open>fmul_donna\<close>,
  \<^verbatim>\<open>crecip_donna\<close>, \<^verbatim>\<open>xoverz_donna\<close>). An array of limbs is the list of its elements.
\<close>

section \<open>Multiplication\<close>

type_synonym limb = "64 word"
type_synonym s32 = "32 word"

text \<open>\<open>lmul a b\<close> is \<^verbatim>\<open>((limb) ((s32) a)) * ((s32) b)\<close>.\<close>

definition lmul :: "limb \<Rightarrow> limb \<Rightarrow> limb" where
  "lmul a b = scast (ucast a :: s32) * scast (ucast b :: s32)"

text \<open>
  The nineteen columns of \<^verbatim>\<open>fproduct\<close> and of \<^verbatim>\<open>fsquare_inner\<close> in terms of the products of two
  limbs.
\<close>

definition fproduct_cols :: "(nat \<Rightarrow> nat \<Rightarrow> 'r::comm_ring_1) \<Rightarrow> 'r list" where
  "fproduct_cols p =
     [p 0 0,
      p 0 1 + p 1 0,
      2 * p 1 1 + p 0 2 + p 2 0,
      p 1 2 + p 2 1 + p 0 3 + p 3 0,
      p 2 2 + 2 * (p 1 3 + p 3 1) + p 0 4 + p 4 0,
      p 2 3 + p 3 2 + p 1 4 + p 4 1 + p 0 5 + p 5 0,
      2 * (p 3 3 + p 1 5 + p 5 1) + p 2 4 + p 4 2 + p 0 6 + p 6 0,
      p 3 4 + p 4 3 + p 2 5 + p 5 2 + p 1 6 + p 6 1 + p 0 7 + p 7 0,
      p 4 4 + 2 * (p 3 5 + p 5 3 + p 1 7 + p 7 1) + p 2 6 + p 6 2 + p 0 8 + p 8 0,
      p 4 5 + p 5 4 + p 3 6 + p 6 3 + p 2 7 + p 7 2 + p 1 8 + p 8 1 + p 0 9 + p 9 0,
      2 * (p 5 5 + p 3 7 + p 7 3 + p 1 9 + p 9 1) + p 4 6 + p 6 4 + p 2 8 + p 8 2,
      p 5 6 + p 6 5 + p 4 7 + p 7 4 + p 3 8 + p 8 3 + p 2 9 + p 9 2,
      p 6 6 + 2 * (p 5 7 + p 7 5 + p 3 9 + p 9 3) + p 4 8 + p 8 4,
      p 6 7 + p 7 6 + p 5 8 + p 8 5 + p 4 9 + p 9 4,
      2 * (p 7 7 + p 5 9 + p 9 5) + p 6 8 + p 8 6,
      p 7 8 + p 8 7 + p 6 9 + p 9 6,
      p 8 8 + 2 * (p 7 9 + p 9 7),
      p 8 9 + p 9 8,
      2 * p 9 9]"

definition fproduct :: "limb list \<Rightarrow> limb list \<Rightarrow> limb list" where
  "fproduct in2 in1 = fproduct_cols (\<lambda>i j. lmul (in2 ! i) (in1 ! j))"

definition fsquare_cols :: "(nat \<Rightarrow> nat \<Rightarrow> 'r::comm_ring_1) \<Rightarrow> 'r list" where
  "fsquare_cols p =
     [p 0 0,
      2 * p 0 1,
      2 * (p 1 1 + p 0 2),
      2 * (p 1 2 + p 0 3),
      p 2 2 + 4 * p 1 3 + 2 * p 0 4,
      2 * (p 2 3 + p 1 4 + p 0 5),
      2 * (p 3 3 + p 2 4 + p 0 6 + 2 * p 1 5),
      2 * (p 3 4 + p 2 5 + p 1 6 + p 0 7),
      p 4 4 + 2 * (p 2 6 + p 0 8 + 2 * (p 1 7 + p 3 5)),
      2 * (p 4 5 + p 3 6 + p 2 7 + p 1 8 + p 0 9),
      2 * (p 5 5 + p 4 6 + p 2 8 + 2 * (p 3 7 + p 1 9)),
      2 * (p 5 6 + p 4 7 + p 3 8 + p 2 9),
      p 6 6 + 2 * (p 4 8 + 2 * (p 5 7 + p 3 9)),
      2 * (p 6 7 + p 5 8 + p 4 9),
      2 * (p 7 7 + p 6 8 + 2 * p 5 9),
      2 * (p 7 8 + p 6 9),
      p 8 8 + 4 * p 7 9,
      2 * p 8 9,
      2 * p 9 9]"

definition fsquare_inner :: "limb list \<Rightarrow> limb list" where
  "fsquare_inner in1 = fsquare_cols (\<lambda>i j. lmul (in1 ! i) (in1 ! j))"

text \<open>\<^verbatim>\<open>freduce_degree\<close>, from limb 8 down; each limb takes 19 times the limb ten places up.\<close>

definition freduce_degree :: "limb list \<Rightarrow> limb list" where
  "freduce_degree output = foldl (\<lambda>t i.
     let t = t[i := t ! i + push_bit 4 (t ! (i + 10))];
         t = t[i := t ! i + push_bit 1 (t ! (i + 10))]
     in t[i := t ! i + t ! (i + 10)]) output [8, 7, 6, 5, 4, 3, 2, 1, 0]"

definition div_by_2_26 :: "limb \<Rightarrow> limb" where
  "div_by_2_26 v =
     (let highword = ucast (drop_bit 32 v) :: s32; sgn_mask = signed_drop_bit 31 highword;
          roundoff = drop_bit 6 sgn_mask
      in signed_drop_bit 26 (v + scast roundoff))"

definition div_by_2_25 :: "limb \<Rightarrow> limb" where
  "div_by_2_25 v =
     (let highword = ucast (drop_bit 32 v) :: s32; sgn_mask = signed_drop_bit 31 highword;
          roundoff = drop_bit 7 sgn_mask
      in signed_drop_bit 25 (v + scast roundoff))"

text \<open>The two halves of the loop body of \<^verbatim>\<open>freduce_coefficients\<close>, for an even and an odd limb.\<close>

definition reduce_even :: "limb list \<Rightarrow> nat \<Rightarrow> limb list" where
  "reduce_even t i = (let over = div_by_2_26 (t ! i); t = t[i := t ! i - push_bit 26 over]
     in t[i + 1 := t ! (i + 1) + over])"

definition reduce_odd :: "limb list \<Rightarrow> nat \<Rightarrow> limb list" where
  "reduce_odd t i = (let over = div_by_2_25 (t ! i); t = t[i := t ! i - push_bit 25 over]
     in t[i + 1 := t ! (i + 1) + over])"

definition freduce_coefficients :: "limb list \<Rightarrow> limb list" where
  "freduce_coefficients output =
     (let t = output[10 := 0];
          t = foldl (\<lambda>t i. reduce_odd (reduce_even t i) (i + 1)) t [0, 2, 4, 6, 8];
          t = t[0 := t ! 0 + push_bit 4 (t ! 10)];
          t = t[0 := t ! 0 + push_bit 1 (t ! 10)];
          t = t[0 := t ! 0 + t ! 10];
          t = t[10 := 0]
      in reduce_even t 0)"

definition fmul32 :: "limb list \<Rightarrow> limb list \<Rightarrow> limb list" where
  "fmul32 in1 in2 = take 10 (freduce_coefficients (freduce_degree (fproduct in1 in2)))"

definition fsquare :: "limb list \<Rightarrow> limb list" where
  "fsquare in1 = take 10 (freduce_coefficients (freduce_degree (fsquare_inner in1)))"

section \<open>Bytes\<close>

text \<open>The macro \<^verbatim>\<open>F(n,start,shift,mask)\<close> of \<^verbatim>\<open>fexpand32\<close>.\<close>

definition fexpand_limb :: "bytes \<Rightarrow> nat \<Rightarrow> nat \<Rightarrow> limb \<Rightarrow> limb" where
  "fexpand_limb input start shift m =
     signed_drop_bit shift (ucast (input ! start) OR push_bit 8 (ucast (input ! (start + 1)))
       OR push_bit 16 (ucast (input ! (start + 2))) OR push_bit 24 (ucast (input ! (start + 3)))) AND m"

definition fexpand32 :: "bytes \<Rightarrow> limb list" where
  "fexpand32 input =
     [fexpand_limb input 0 0 0x3ffffff, fexpand_limb input 3 2 0x1ffffff,
      fexpand_limb input 6 3 0x3ffffff, fexpand_limb input 9 5 0x1ffffff,
      fexpand_limb input 12 6 0x3ffffff, fexpand_limb input 16 0 0x1ffffff,
      fexpand_limb input 19 1 0x3ffffff, fexpand_limb input 22 3 0x1ffffff,
      fexpand_limb input 25 4 0x3ffffff, fexpand_limb input 28 6 0x1ffffff]"

definition s32_eq :: "s32 \<Rightarrow> s32 \<Rightarrow> s32" where
  "s32_eq a b =
     (let a = NOT (a XOR b); a = a AND push_bit 16 a; a = a AND push_bit 8 a; a = a AND push_bit 4 a;
          a = a AND push_bit 2 a; a = a AND push_bit 1 a
      in signed_drop_bit 31 a)"

definition s32_gte :: "s32 \<Rightarrow> s32 \<Rightarrow> s32" where
  "s32_gte a b = NOT (signed_drop_bit 31 (a - b))"

text \<open>The width of a limb, and the borrow that makes a negative limb non-negative.\<close>

definition limb_width :: "nat \<Rightarrow> nat" where
  "limb_width i = (if i AND 1 = 1 then 25 else 26)"

definition borrow32 :: "nat \<Rightarrow> s32 \<Rightarrow> s32" where
  "borrow32 k x = (let m = signed_drop_bit 31 x in - signed_drop_bit k (x AND m))"

definition borrow_limb :: "s32 list \<Rightarrow> nat \<Rightarrow> s32 list" where
  "borrow_limb t i = (let k = limb_width i; c = borrow32 k (t ! i); t = t[i := t ! i + push_bit k c]
     in t[i + 1 := t ! (i + 1) - c])"

definition borrow_top :: "s32 list \<Rightarrow> s32 list" where
  "borrow_top t = (let c = borrow32 25 (t ! 9); t = t[9 := t ! 9 + push_bit 25 c] in t[0 := t ! 0 - c * 19])"

definition limb_mask :: "nat \<Rightarrow> s32" where
  "limb_mask i = (if i AND 1 = 1 then 0x1ffffff else 0x3ffffff)"

definition carry_limb32 :: "s32 list \<Rightarrow> nat \<Rightarrow> s32 list" where
  "carry_limb32 t i = (let c = signed_drop_bit (limb_width i) (t ! i); t = t[i := t ! i AND limb_mask i]
     in t[i + 1 := t ! (i + 1) + c])"

definition carry_top32 :: "s32 list \<Rightarrow> s32 list" where
  "carry_top32 t = (let c = signed_drop_bit 25 (t ! 9); t = t[9 := t ! 9 AND 0x1ffffff]
     in t[0 := t ! 0 + 19 * c])"

text \<open>The conditional subtraction of the modulus.\<close>

definition modulus_mask :: "s32 list \<Rightarrow> s32" where
  "modulus_mask t = foldl (\<lambda>m i. m AND s32_eq (t ! i) (limb_mask i)) (s32_gte (t ! 0) 0x3ffffed) [1..<10]"

definition sub_modulus :: "s32 list \<Rightarrow> s32 list" where
  "sub_modulus t =
     (let m = modulus_mask t; t = t[0 := t ! 0 - (m AND 0x3ffffed)]
      in foldl (\<lambda>t i. t[i := t ! i - (m AND limb_mask i)]) t [1..<10])"

text \<open>The macro \<^verbatim>\<open>F(i,s)\<close> of \<^verbatim>\<open>fcontract32\<close>, on a shifted limb.\<close>

definition store_limb32 :: "bytes \<Rightarrow> nat \<Rightarrow> s32 \<Rightarrow> bytes" where
  "store_limb32 out s x =
     (let out = out[s := out ! s OR ucast (x AND 0xff)];
          out = out[s + 1 := ucast (signed_drop_bit 8 x AND 0xff)];
          out = out[s + 2 := ucast (signed_drop_bit 16 x AND 0xff)]
      in out[s + 3 := ucast (signed_drop_bit 24 x AND 0xff)])"

definition fcontract32 :: "bytes \<Rightarrow> limb list \<Rightarrow> bytes" where
  "fcontract32 output input_limbs =
     (let t = map (\<lambda>i. ucast (input_limbs ! i) :: s32) [0..<10];
          t = ((\<lambda>t. borrow_top (foldl borrow_limb t [0..<9])) ^^ 2) t;
          t = borrow_limb t 0;
          t = ((\<lambda>t. carry_top32 (foldl carry_limb32 t [0..<9])) ^^ 2) t;
          t = sub_modulus t;
          t = t[1 := push_bit 2 (t ! 1)]; t = t[2 := push_bit 3 (t ! 2)];
          t = t[3 := push_bit 5 (t ! 3)]; t = t[4 := push_bit 6 (t ! 4)];
          t = t[6 := push_bit 1 (t ! 6)]; t = t[7 := push_bit 3 (t ! 7)];
          t = t[8 := push_bit 4 (t ! 8)]; t = t[9 := push_bit 6 (t ! 9)];
          out = output[0 := 0]; out = out[16 := 0];
          out = store_limb32 out 0 (t ! 0); out = store_limb32 out 3 (t ! 1);
          out = store_limb32 out 6 (t ! 2); out = store_limb32 out 9 (t ! 3);
          out = store_limb32 out 12 (t ! 4); out = store_limb32 out 16 (t ! 5);
          out = store_limb32 out 19 (t ! 6); out = store_limb32 out 22 (t ! 7);
          out = store_limb32 out 25 (t ! 8)
      in store_limb32 out 28 (t ! 9))"

section \<open>The curve\<close>

definition fsum32 :: "limb list \<Rightarrow> limb list \<Rightarrow> limb list" where
  "fsum32 output in1 = map (\<lambda>i. output ! i + in1 ! i) [0..<10]"

definition fdifference_backwards32 :: "limb list \<Rightarrow> limb list \<Rightarrow> limb list" where
  "fdifference_backwards32 output in1 = map (\<lambda>i. in1 ! i - output ! i) [0..<10]"

definition fscalar_product32 :: "limb list \<Rightarrow> limb \<Rightarrow> limb list" where
  "fscalar_product32 in1 scalar = map (\<lambda>i. in1 ! i * scalar) [0..<10]"

text \<open>
  \<^verbatim>\<open>fmonty\<close> with its outputs \<open>(x2, z2, x3, z3)\<close>: a product, \<^verbatim>\<open>freduce_degree\<close> and
  \<^verbatim>\<open>freduce_coefficients\<close> on one buffer are \<open>fmul32\<close>, and of the long buffers only the ten limbs
  that are read again are kept.
\<close>

definition fmonty32 :: "limb list \<Rightarrow> limb list \<Rightarrow> limb list \<Rightarrow> limb list \<Rightarrow> limb list
    \<Rightarrow> limb list \<times> limb list \<times> limb list \<times> limb list" where
  "fmonty32 x z xprime zprime qmqp =
     (let origx = x;
          x = fsum32 x z; z = fdifference_backwards32 z origx;
          origxprime = xprime;
          xprime = fsum32 xprime zprime; zprime = fdifference_backwards32 zprime origxprime;
          xxprime = fmul32 xprime z; zzprime = fmul32 x zprime;
          origxprime = xxprime;
          xxprime = fsum32 xxprime zzprime; zzprime = fdifference_backwards32 zzprime origxprime;
          xxxprime = fsquare xxprime; zzzprime = fsquare zzprime;
          zzprime = fmul32 zzzprime qmqp;
          xx = fsquare x; zz = fsquare z;
          x2 = fmul32 xx zz;
          zz = fdifference_backwards32 zz xx;
          zzz = take 10 (freduce_coefficients (fscalar_product32 zz 121665 @ replicate 9 0));
          zzz = fsum32 zzz xx;
          z2 = fmul32 zz zzz
      in (x2, z2, xxxprime, zzprime))"

definition swap_conditional32 :: "limb list \<Rightarrow> limb list \<Rightarrow> limb \<Rightarrow> limb list \<times> limb list" where
  "swap_conditional32 a b iswap =
     (let swap = ucast (- iswap) :: s32;
          x = map (\<lambda>i. swap AND (ucast (a ! i) XOR ucast (b ! i))) [0..<10]
      in (map (\<lambda>i. scast (ucast (a ! i) XOR x ! i)) [0..<10],
          map (\<lambda>i. scast (ucast (b ! i) XOR x ! i)) [0..<10]))"

fun cmult32_bits :: "limb list \<Rightarrow> nat \<Rightarrow> u8 \<Rightarrow> limb list \<times> limb list \<times> limb list \<times> limb list
    \<Rightarrow> limb list \<times> limb list \<times> limb list \<times> limb list" where
  "cmult32_bits q 0 byte st = st"
| "cmult32_bits q (Suc j) byte (nqx, nqz, nqpqx, nqpqz) =
     (let b = ucast (drop_bit 7 byte) :: limb;
          (nqx, nqpqx) = swap_conditional32 nqx nqpqx b;
          (nqz, nqpqz) = swap_conditional32 nqz nqpqz b;
          (nqx2, nqz2, nqpqx2, nqpqz2) = fmonty32 nqx nqz nqpqx nqpqz q;
          (nqx2, nqpqx2) = swap_conditional32 nqx2 nqpqx2 b;
          (nqz2, nqpqz2) = swap_conditional32 nqz2 nqpqz2 b
      in cmult32_bits q j (push_bit 1 byte) (nqx2, nqz2, nqpqx2, nqpqz2))"

definition cmult32 :: "bytes \<Rightarrow> limb list \<Rightarrow> limb list \<times> limb list" where
  "cmult32 n q =
     (let one = (replicate 10 0)[0 := 1]; zero = replicate 10 0;
          (nqx, nqz, nqpqx, nqpqz) = foldl (\<lambda>st i. cmult32_bits q 8 (n ! (31 - i)) st)
            (one, zero, q, one) [0..<32]
      in (nqx, nqz))"

text \<open>\<^verbatim>\<open>for (i = 2; i < n; i += 2)\<close> with two squarings in its body.\<close>

definition fsquare_pairs :: "nat \<Rightarrow> limb list \<Rightarrow> limb list" where
  "fsquare_pairs n t = ((\<lambda>t. fsquare (fsquare t)) ^^ ((n - 2) div 2)) t"

definition crecip32 :: "limb list \<Rightarrow> limb list" where
  "crecip32 z =
     (let z2 = fsquare z; t1 = fsquare z2; t0 = fsquare t1;
          z9 = fmul32 t0 z;
          z11 = fmul32 z9 z2;
          t0 = fsquare z11;
          z2_5_0 = fmul32 t0 z9;
          t0 = fsquare z2_5_0; t1 = fsquare t0; t0 = fsquare t1; t1 = fsquare t0; t0 = fsquare t1;
          z2_10_0 = fmul32 t0 z2_5_0;
          t0 = fsquare z2_10_0; t1 = fsquare t0; t1 = fsquare_pairs 10 t1;
          z2_20_0 = fmul32 t1 z2_10_0;
          t0 = fsquare z2_20_0; t1 = fsquare t0; t1 = fsquare_pairs 20 t1;
          t0 = fmul32 t1 z2_20_0;
          t1 = fsquare t0; t0 = fsquare t1; t0 = fsquare_pairs 10 t0;
          z2_50_0 = fmul32 t0 z2_10_0;
          t0 = fsquare z2_50_0; t1 = fsquare t0; t1 = fsquare_pairs 50 t1;
          z2_100_0 = fmul32 t1 z2_50_0;
          t1 = fsquare z2_100_0; t0 = fsquare t1; t0 = fsquare_pairs 100 t0;
          t1 = fmul32 t0 z2_100_0;
          t0 = fsquare t1; t1 = fsquare t0; t1 = fsquare_pairs 50 t1;
          t0 = fmul32 t1 z2_50_0;
          t1 = fsquare t0; t0 = fsquare t1; t1 = fsquare t0; t0 = fsquare t1; t1 = fsquare t0
      in fmul32 t1 z11)"

text \<open>
  The functions on 32-byte numbers. The buffer that receives the result is taken to be zero;
  its former contents have no influence on the result.
\<close>

definition curve25519_donna :: "bytes \<Rightarrow> bytes \<Rightarrow> bytes" where
  "curve25519_donna secret basepoint =
     (let e = secret[0 := secret ! 0 AND 248]; e = e[31 := e ! 31 AND 127]; e = e[31 := e ! 31 OR 64];
          bp = fexpand32 basepoint; (x, z) = cmult32 e bp; zmone = crecip32 z
      in fcontract32 (replicate 32 0) (fmul32 x zmone))"

definition xoverz_donna :: "bytes \<Rightarrow> bytes" where
  "xoverz_donna a =
     (let basepoint = (replicate 32 0)[0 := 9]; bp = fexpand32 basepoint; (x, z) = cmult32 a bp;
          zmone = crecip32 z
      in fcontract32 (replicate 32 0) (fmul32 x zmone))"

definition fmul_donna :: "bytes \<Rightarrow> bytes \<Rightarrow> bytes" where
  "fmul_donna a b = fcontract32 (replicate 32 0) (fmul32 (fexpand32 a) (fexpand32 b))"

definition crecip_donna :: "bytes \<Rightarrow> bytes" where
  "crecip_donna a = fcontract32 (replicate 32 0) (crecip32 (fexpand32 a))"

section \<open>Values and bounds\<close>

text \<open>Limb \<open>i\<close> has the weight \<open>2 ^ \<lceil>25.5 i\<rceil>\<close>.\<close>

definition wt :: "nat \<Rightarrow> nat" where
  "wt i = (51 * i + 1) div 2"

definition lval :: "nat \<Rightarrow> (nat \<Rightarrow> int) \<Rightarrow> int" where
  "lval n x = (\<Sum>i<n. 2 ^ wt i * x i)"

definition limbs_bnd :: "nat \<Rightarrow> limb list \<Rightarrow> int \<Rightarrow> bool" where
  "limbs_bnd n t B \<longleftrightarrow> n \<le> length t \<and> (\<forall>i<n. \<bar>sint (t ! i)\<bar> \<le> B)"

lemmas eval_lval = lval_def wt_def lessThan_nat_numeral lessThan_Suc pred_numeral_simps

lemma fproduct_cols_value:
  fixes x y :: "nat \<Rightarrow> int"
  shows "lval 19 ((!) (fproduct_cols (\<lambda>i j. x i * y j))) = lval 10 x * lval 10 y"
  unfolding fproduct_cols_def by (simp add: eval_lval) (simp add: algebra_simps)

lemma fsquare_cols_value:
  fixes x :: "nat \<Rightarrow> int"
  shows "fsquare_cols (\<lambda>i j. x i * x j) = fproduct_cols (\<lambda>i j. x i * x j)"
  unfolding fproduct_cols_def fsquare_cols_def by (simp add: algebra_simps)

lemmas column_sbnds = sbnd_add sbnd_mult sbnd_numeral

lemma fproduct_cols_bound:
  fixes pw :: "nat \<Rightarrow> nat \<Rightarrow> limb"
  assumes p: "\<And>i j. i < 10 \<Longrightarrow> j < 10 \<Longrightarrow> sbnd (pw i j) (pz i j) (2 ^ 54)"
  shows "list_all2 (\<lambda>w n. sbnd w n (14 * 2 ^ 54)) (fproduct_cols pw) (fproduct_cols pz)"
  unfolding fproduct_cols_def list.rel_inject
  by (intro conjI; (rule sbnd_weaken, (rule column_sbnds p | simp)+)?) simp

lemma fsquare_cols_bound:
  fixes pw :: "nat \<Rightarrow> nat \<Rightarrow> limb"
  assumes p: "\<And>i j. i < 10 \<Longrightarrow> j < 10 \<Longrightarrow> sbnd (pw i j) (pz i j) (2 ^ 54)"
  shows "list_all2 (\<lambda>w n. sbnd w n (14 * 2 ^ 54)) (fsquare_cols pw) (fsquare_cols pz)"
  unfolding fsquare_cols_def list.rel_inject
  by (intro conjI; (rule sbnd_weaken, (rule column_sbnds p | simp)+)?) simp

text \<open>The low half of a limb that fits 32 bits is the limb.\<close>

lemma sbnd_low32:
  fixes a :: limb
  assumes "sbnd a m A" "A < 2 ^ 31"
  shows "sbnd (ucast a :: s32) m A"
proof -
  have "sint (ucast a :: s32) = signed_take_bit 31 (signed_take_bit 63 (uint a))"
    by (simp add: signed_ucast_eq signed_take_bit_signed_take_bit)
  also have "\<dots> = signed_take_bit 31 (sint a)" by (simp add: sint_uint)
  also have "\<dots> = m" using assms by (intro signed_take_bit_self [THEN trans]) (auto simp: sbnd_def)
  finally show ?thesis using assms by (simp add: sbnd_def)
qed

lemma sbnd_lmul:
  assumes "sbnd a m (2 ^ 27)" "sbnd b n (2 ^ 27)"
  shows "sbnd (lmul a b) (m * n) (2 ^ 54)"
proof -
  have "sbnd (lmul a b) (m * n) (2 ^ 27 * 2 ^ 27)"
    unfolding lmul_def by (intro sbnd_mult sbnd_scast sbnd_low32 assms) simp_all
  then show ?thesis by simp
qed

lemma list_all2_limbs:
  assumes "list_all2 (\<lambda>w n. sbnd w n B) t z"
  shows "limbs_bnd (length z) t B" "i < length z \<Longrightarrow> sint (t ! i) = z ! i"
  using assms by (auto simp: limbs_bnd_def list_all2_conv_all_nth sbnd_def)

text \<open>The value of the first \<open>n\<close> limbs.\<close>

abbreviation limbs_val :: "nat \<Rightarrow> limb list \<Rightarrow> int" where
  "limbs_val n t \<equiv> lval n (\<lambda>i. sint (t ! i))"

lemma lval_cong: "(\<And>i. i < n \<Longrightarrow> x i = y i) \<Longrightarrow> lval n x = lval n y"
  by (simp add: lval_def)

lemma fproduct_spec:
  assumes "limbs_bnd 10 a (2 ^ 27)" "limbs_bnd 10 b (2 ^ 27)"
  shows "length (fproduct a b) = 19 \<and> limbs_bnd 19 (fproduct a b) (14 * 2 ^ 54)
    \<and> limbs_val 19 (fproduct a b) = limbs_val 10 a * limbs_val 10 b"
proof -
  let ?z = "fproduct_cols (\<lambda>i j. sint (a ! i) * sint (b ! j))"
  have "list_all2 (\<lambda>w n. sbnd w n (14 * 2 ^ 54)) (fproduct a b) ?z"
    unfolding fproduct_def using assms
    by (intro fproduct_cols_bound sbnd_lmul) (auto simp: limbs_bnd_def sbnd_def)
  note l = list_all2_limbs [OF this]
  have len: "length ?z = 19" "length (fproduct a b) = 19" by (simp_all add: fproduct_cols_def fproduct_def)
  have "limbs_val 19 (fproduct a b) = lval 19 ((!) ?z)" using l(2) len by (intro lval_cong) simp
  with l(1) len show ?thesis by (simp add: fproduct_cols_value)
qed

lemma fsquare_inner_spec:
  assumes "limbs_bnd 10 a (2 ^ 27)"
  shows "length (fsquare_inner a) = 19 \<and> limbs_bnd 19 (fsquare_inner a) (14 * 2 ^ 54)
    \<and> limbs_val 19 (fsquare_inner a) = limbs_val 10 a * limbs_val 10 a"
proof -
  let ?z = "fsquare_cols (\<lambda>i j. sint (a ! i) * sint (a ! j))"
  have "list_all2 (\<lambda>w n. sbnd w n (14 * 2 ^ 54)) (fsquare_inner a) ?z"
    unfolding fsquare_inner_def using assms
    by (intro fsquare_cols_bound sbnd_lmul) (auto simp: limbs_bnd_def sbnd_def)
  note l = list_all2_limbs [OF this]
  have len: "length ?z = 19" "length (fsquare_inner a) = 19"
    by (simp_all add: fsquare_cols_def fsquare_inner_def)
  have "limbs_val 19 (fsquare_inner a) = lval 19 ((!) ?z)" using l(2) len by (intro lval_cong) simp
  with l(1) len show ?thesis by (simp add: fsquare_cols_value fproduct_cols_value)
qed

section \<open>Reduction\<close>

definition degree_limb :: "limb list \<Rightarrow> nat \<Rightarrow> limb" where
  "degree_limb t i = t ! i + push_bit 4 (t ! (i + 10)) + push_bit 1 (t ! (i + 10)) + t ! (i + 10)"

lemma freduce_degree_nth:
  assumes "length t = 19"
  shows "length (freduce_degree t) = 19"
    and "j < 19 \<Longrightarrow> freduce_degree t ! j = (if j < 9 then degree_limb t j else t ! j)"
proof -
  let ?step = "\<lambda>t i. let t = t[i := t ! i + push_bit 4 (t ! (i + 10))];
         t = t[i := t ! i + push_bit 1 (t ! (i + 10))]
     in t[i := t ! i + t ! (i + 10)]"
  have step: "?step u i = u[i := degree_limb u i]" if "length u = 19" "i < 9" for u :: "limb list" and i
    using that by (simp add: degree_limb_def add.assoc)
  have fold: "length (foldl ?step u is) = 19 \<and>
      (\<forall>j<19. foldl ?step u is ! j = (if j \<in> set is then degree_limb u j else u ! j))"
    if "length u = 19" "distinct is" "\<forall>i\<in>set is. i < 9" for u :: "limb list" and "is"
    using that
  proof (induction "is" arbitrary: u)
    case (Cons i "is")
    let ?u = "u[i := degree_limb u i]"
    have same: "degree_limb ?u j = degree_limb u j" if "j \<in> set is" for j
      using that Cons.prems by (auto simp: degree_limb_def nth_list_update)
    have "foldl ?step u (i # is) = foldl ?step ?u is" using Cons.prems step [of u i] by simp
    with Cons.IH [of ?u] Cons.prems same show ?case by (auto simp: nth_list_update)
  qed simp
  have "length (freduce_degree t) = 19 \<and> (\<forall>j<19. freduce_degree t ! j
      = (if j \<in> set [8, 7, 6, 5, 4, 3, 2, 1, 0] then degree_limb t j else t ! j))"
    unfolding freduce_degree_def by (rule fold [OF assms]) simp_all
  moreover have "set [8, 7, 6, 5, 4, 3, 2, 1, 0 :: nat] = {..<9}" by auto
  ultimately show "length (freduce_degree t) = 19"
    "j < 19 \<Longrightarrow> freduce_degree t ! j = (if j < 9 then degree_limb t j else t ! j)"
    by simp_all
qed

lemma wt_10: "wt (i + 10) = wt i + 255"
  by (simp add: wt_def)

lemma freduce_degree_spec:
  assumes "length t = 19" "limbs_bnd 19 t (14 * 2 ^ 54)"
  shows "length (freduce_degree t) = 19 \<and> limbs_bnd 10 (freduce_degree t) (280 * 2 ^ 54)
    \<and> feq (limbs_val 10 (freduce_degree t)) (limbs_val 19 t)"
proof -
  have b: "sbnd (t ! i) (sint (t ! i)) (14 * 2 ^ 54)" if "i < 19" for i
    using that assms(2) by (simp add: limbs_bnd_def sbnd_def)
  have limb: "sbnd (degree_limb t i) (sint (t ! i) + 19 * sint (t ! (i + 10))) (280 * 2 ^ 54)"
    if "i < 9" for i
  proof -
    have "sbnd (degree_limb t i) (sint (t ! i) + sint (t ! (i + 10)) * 2 ^ 4 + sint (t ! (i + 10)) * 2 ^ 1
        + sint (t ! (i + 10))) (14 * 2 ^ 54 + 14 * 2 ^ 54 * 2 ^ 4 + 14 * 2 ^ 54 * 2 ^ 1 + 14 * 2 ^ 54)"
      unfolding degree_limb_def using that by (intro sbnd_add sbnd_push_bit b) simp_all
    then show ?thesis by (simp add: sbnd_def add.commute)
  qed
  have val: "sint (freduce_degree t ! i) = sint (t ! i) + (if i < 9 then 19 * sint (t ! (i + 10)) else 0)"
    if "i < 10" for i
    using that limb [of i] freduce_degree_nth(2) [OF assms(1), of i] by (auto simp: sbnd_def)
  have bnd: "\<bar>sint (freduce_degree t ! i)\<bar> \<le> 280 * 2 ^ 54" if "i < 10" for i
    using that limb [of i] b [of i] freduce_degree_nth(2) [OF assms(1), of i] by (auto simp: sbnd_def)
  let ?h = "\<Sum>i<9. 2 ^ wt i * sint (t ! (i + 10))"
  have "limbs_val 10 (freduce_degree t) = limbs_val 10 t + 19 * ?h"
    using val by (simp add: lval_def lessThan_nat_numeral lessThan_Suc algebra_simps)
  moreover have "limbs_val 19 t = limbs_val 10 t + 2 ^ 255 * ?h"
  proof -
    have "(\<Sum>i<19. f i) = (\<Sum>i<10. f i) + (\<Sum>i<9. f (i + 10))" for f :: "nat \<Rightarrow> int"
      by (simp add: lessThan_nat_numeral lessThan_Suc)
    then show ?thesis by (simp add: lval_def wt_10 power_add sum_distrib_left mult.assoc mult.left_commute)
  qed
  ultimately have "limbs_val 10 (freduce_degree t) = limbs_val 19 t + (- ?h) * p25519"
    by (simp add: p25519_def algebra_simps)
  then have "feq (limbs_val 10 (freduce_degree t)) (limbs_val 19 t)" by (rule feq_modulus)
  then show ?thesis using bnd freduce_degree_nth(1) [OF assms(1)] by (simp add: limbs_bnd_def)
qed

section \<open>Carries\<close>

text \<open>Division by \<open>2 ^ k\<close> rounding toward zero.\<close>

definition tdiv :: "nat \<Rightarrow> int \<Rightarrow> int" where
  "tdiv k n = (if n < 0 then (n + (2 ^ k - 1)) div 2 ^ k else n div 2 ^ k)"

lemma tdiv_rem: "\<bar>n - tdiv k n * 2 ^ k\<bar> < 2 ^ k"
proof (cases "n < 0")
  case True
  let ?m = "n + (2 ^ k - 1)"
  have "?m - ?m div 2 ^ k * 2 ^ k = ?m mod 2 ^ k" by (simp add: minus_div_mult_eq_mod)
  moreover have "0 \<le> ?m mod 2 ^ k" "?m mod 2 ^ k < 2 ^ k" by simp_all
  ultimately have "\<bar>n - ?m div 2 ^ k * 2 ^ k\<bar> < 2 ^ k" by linarith
  with True show ?thesis by (simp add: tdiv_def)
next
  case False
  then show ?thesis by (simp add: tdiv_def minus_div_mult_eq_mod)
qed

lemma tdiv_abs: "\<bar>tdiv k n\<bar> * 2 ^ k \<le> \<bar>n\<bar>"
proof (cases "n < 0")
  case True
  let ?m = "n + (2 ^ k - 1)"
  have m: "?m div 2 ^ k * 2 ^ k = ?m - ?m mod 2 ^ k" by (simp add: minus_mod_eq_div_mult)
  have "?m mod 2 ^ k \<le> 2 ^ k - 1" using pos_mod_bound [of "2 ^ k" ?m] by simp
  with m have "n \<le> ?m div 2 ^ k * 2 ^ k" by linarith
  moreover have "?m div 2 ^ k \<le> 0" using True zdiv_mono1 [of ?m "2 ^ k - 1" "2 ^ k"] by simp
  ultimately show ?thesis using True by (simp add: tdiv_def)
next
  case False
  then have "n div 2 ^ k * 2 ^ k \<le> n" by (simp add: minus_mod_eq_div_mult [symmetric])
  with False show ?thesis by (simp add: tdiv_def pos_imp_zdiv_nonneg_iff)
qed

lemma tdiv_bound:
  assumes "\<bar>n\<bar> \<le> C * 2 ^ k"
  shows "\<bar>tdiv k n\<bar> \<le> C"
proof -
  have "\<bar>tdiv k n\<bar> * 2 ^ k \<le> C * 2 ^ k" using tdiv_abs assms by (rule order_trans)
  then show ?thesis by simp
qed

text \<open>The sign mask the divisions build from the high word.\<close>

lemma sign_mask:
  "signed_drop_bit 31 (ucast (drop_bit 32 v) :: s32) = (if sint v < 0 then - 1 else 0)" for v :: limb
proof -
  have msb: "bit v 63 \<longleftrightarrow> sint v < 0" using bit_last_iff [of v] by simp
  show ?thesis
    by (intro bit_word_eqI)
      (auto simp: bit_signed_drop_bit_iff bit_ucast_iff bit_drop_bit_eq msb bit_minus_1_iff
        not_le less_Suc_eq_le min_def dest: bit_imp_le_length)
qed

lemma rounding_div:
  fixes v :: limb
  assumes v: "\<bar>sint v\<bar> \<le> 281 * 2 ^ 54" and r: "sbnd r (2 ^ k - 1) (2 ^ 31)"
  shows "sint (signed_drop_bit k (v + (if sint v < 0 then r else 0))) = tdiv k (sint v)"
proof (cases "sint v < 0")
  case True
  have "sbnd (v + r) (sint v + (2 ^ k - 1)) (281 * 2 ^ 54 + 2 ^ 31)"
    using v by (intro sbnd_add r) (simp_all add: sbnd_def)
  from sbnd_signed_drop_bit [OF this, of k] True show ?thesis by (simp add: tdiv_def)
next
  case False
  then show ?thesis by (simp add: tdiv_def sint_signed_drop_bit_eq drop_bit_eq_div)
qed

lemma roundoff:
  "scast (drop_bit 6 (if sint v < 0 then - 1 else 0 :: s32)) = (if sint v < 0 then 0x3ffffff else 0 :: limb)"
  "scast (drop_bit 7 (if sint v < 0 then - 1 else 0 :: s32)) = (if sint v < 0 then 0x1ffffff else 0 :: limb)"
  by (cases "sint v < 0"; simp; code_simp)+

lemma div_by_spec:
  assumes "\<bar>sint v\<bar> \<le> 281 * 2 ^ 54"
  shows "sint (div_by_2_26 v) = tdiv 26 (sint v)" "sint (div_by_2_25 v) = tdiv 25 (sint v)"
  using rounding_div [OF assms, of "0x3ffffff" 26] rounding_div [OF assms, of "0x1ffffff" 25]
  by (simp_all add: div_by_2_26_def div_by_2_25_def Let_def sign_mask roundoff sbnd_def)

text \<open>One carry from a limb to the next.\<close>

definition carry_limb :: "(limb \<Rightarrow> limb) \<Rightarrow> nat \<Rightarrow> limb list \<Rightarrow> nat \<Rightarrow> limb list" where
  "carry_limb dv k t i = (let over = dv (t ! i); t = t[i := t ! i - push_bit k over]
     in t[i + 1 := t ! (i + 1) + over])"

lemma reduce_carry:
  "reduce_even = carry_limb div_by_2_26 26" "reduce_odd = carry_limb div_by_2_25 25"
  by (simp_all add: fun_eq_iff reduce_even_def reduce_odd_def carry_limb_def)

lemma length_reduce [simp]: "length (reduce_even t i) = length t" "length (reduce_odd t i) = length t"
  by (simp_all add: reduce_even_def reduce_odd_def Let_def)

lemma lval_update2:
  assumes "Suc i < n" "2 ^ wt (Suc i) = 2 ^ k * (2::int) ^ wt i"
    and "y i = x i - q * 2 ^ k" "y (Suc i) = x (Suc i) + q" "\<And>j. j \<noteq> i \<Longrightarrow> j \<noteq> Suc i \<Longrightarrow> y j = x j"
  shows "lval n y = lval n x"
proof -
  let ?R = "{..<n} - {i, Suc i}"
  have split: "lval n f = (\<Sum>j\<in>?R. 2 ^ wt j * f j) + 2 ^ wt i * f i + 2 ^ wt (Suc i) * f (Suc i)" for f
  proof -
    have "{..<n} = insert i (insert (Suc i) ?R)" using assms(1) by auto
    then have "lval n f = (\<Sum>j\<in>insert i (insert (Suc i) ?R). 2 ^ wt j * f j)" unfolding lval_def by (rule arg_cong)
    then show ?thesis by simp
  qed
  have "(\<Sum>j\<in>?R. 2 ^ wt j * y j) = (\<Sum>j\<in>?R. 2 ^ wt j * x j)" using assms(5) by (intro sum.cong) auto
  then show ?thesis unfolding split by (simp add: assms(2-4) algebra_simps)
qed

lemma carry_limb_spec:
  fixes t :: "limb list"
  assumes len: "Suc i < n" "n \<le> length t" and w: "wt (Suc i) = wt i + k" "k \<le> 26"
    and dv: "\<forall>v. \<bar>sint v\<bar> \<le> 281 * 2 ^ 54 \<longrightarrow> sint (dv v) = tdiv k (sint v)"
    and ti: "\<bar>sint (t ! i)\<bar> \<le> C * 2 ^ k" "C * 2 ^ k \<le> 281 * 2 ^ 54"
    and tj: "\<bar>sint (t ! (Suc i))\<bar> \<le> B" "B + C < 2 ^ 63"
  defines "u \<equiv> carry_limb dv k t i"
  shows "length u = length t" "limbs_val n u = limbs_val n t" "\<bar>sint (u ! i)\<bar> < 2 ^ k"
    "\<bar>sint (u ! (Suc i))\<bar> \<le> B + C" "\<And>j. j \<noteq> i \<Longrightarrow> j \<noteq> Suc i \<Longrightarrow> u ! j = t ! j"
proof -
  let ?x = "sint (t ! i)"
  have q: "sint (dv (t ! i)) = tdiv k ?x" using dv ti by simp
  have qC: "sbnd (dv (t ! i)) (tdiv k ?x) C" using q tdiv_bound [OF ti(1)] by (simp add: sbnd_def)
  have u: "u = t[i := t ! i - push_bit k (dv (t ! i)), Suc i := t ! (Suc i) + dv (t ! i)]"
    by (simp add: u_def carry_limb_def Let_def)
  have small: "(2::int) ^ k < 2 ^ 63" using power_increasing [OF w(2), of "2 :: int"] by simp
  have "sbnd (push_bit k (dv (t ! i))) (tdiv k ?x * 2 ^ k) (C * 2 ^ k)"
    using ti by (intro sbnd_push_bit qC) simp
  then have p: "sint (push_bit k (dv (t ! i))) = tdiv k ?x * 2 ^ k" by (rule sbnd_sint)
  have "sint (t ! i - push_bit k (dv (t ! i))) = ?x - tdiv k ?x * 2 ^ k"
    using tdiv_rem [of ?x k] small by (subst sint_diff_small) (simp_all add: p)
  then have ui: "sint (u ! i) = ?x - tdiv k ?x * 2 ^ k" using len by (simp add: u)
  have "sbnd (t ! (Suc i) + dv (t ! i)) (sint (t ! (Suc i)) + tdiv k ?x) (B + C)"
    using tj by (intro sbnd_add qC) (simp_all add: sbnd_def)
  then have uj: "sint (u ! (Suc i)) = sint (t ! (Suc i)) + tdiv k ?x" "\<bar>sint (u ! (Suc i))\<bar> \<le> B + C"
    using len by (simp_all add: u sbnd_def)
  show "length u = length t" by (simp add: u)
  show "\<bar>sint (u ! i)\<bar> < 2 ^ k" unfolding ui by (rule tdiv_rem)
  show "\<bar>sint (u ! (Suc i))\<bar> \<le> B + C" by (rule uj)
  show other: "u ! j = t ! j" if "j \<noteq> i" "j \<noteq> Suc i" for j using that by (simp add: u)
  show "limbs_val n u = limbs_val n t"
    by (rule lval_update2 [OF len(1), where k = k and q = "tdiv k ?x"])
      (simp_all add: ui uj(1) other w power_add mult.commute)
qed

text \<open>
  The state of the carry chain before limb \<open>j\<close>: the limbs below it are reduced, limb \<open>j\<close> has
  room for the carry it received, the limbs above it are as on entry.
\<close>

definition chain_inv :: "int \<Rightarrow> nat \<Rightarrow> limb list \<Rightarrow> bool" where
  "chain_inv V j t \<longleftrightarrow> 11 \<le> length t \<and> limbs_val 11 t = V
     \<and> (\<forall>i<j. \<bar>sint (t ! i)\<bar> < 2 ^ (if even i then 26 else 25))
     \<and> \<bar>sint (t ! j)\<bar> \<le> (if j < 10 then 281 * 2 ^ 54 else 281 * 2 ^ 29)
     \<and> (\<forall>i. j < i \<and> i < 10 \<longrightarrow> \<bar>sint (t ! i)\<bar> \<le> 280 * 2 ^ 54) \<and> (j < 10 \<longrightarrow> t ! 10 = 0)"

lemma chain_step:
  assumes inv: "chain_inv V j t" and j: "j < 10"
    and k: "k = (if even j then 26 else 25)"
    and dv: "\<forall>v. \<bar>sint v\<bar> \<le> 281 * 2 ^ 54 \<longrightarrow> sint (dv v) = tdiv k (sint v)"
  shows "chain_inv V (Suc j) (carry_limb dv k t j)"
proof -
  let ?u = "carry_limb dv k t j" and ?B = "if Suc j < 10 then 280 * 2 ^ 54 else 0 :: int"
  have w: "wt (Suc j) = wt j + k" "k \<le> 26" by (cases "even j"; auto simp: k wt_def elim!: evenE oddE)+
  let ?C = "if even j then 281 * 2 ^ 28 else 281 * 2 ^ 29 :: int"
  have C: "\<bar>sint (t ! j)\<bar> \<le> ?C * 2 ^ k" "?C * 2 ^ k \<le> 281 * 2 ^ 54"
    using inv j by (auto simp: chain_inv_def k)
  have BC: "?B + ?C < 2 ^ 63" by simp
  have B: "\<bar>sint (t ! Suc j)\<bar> \<le> ?B"
    using inv j by (cases "Suc j < 10") (auto simp: chain_inv_def less_Suc_eq numeral_eq_Suc)
  have len: "Suc j < 11" "11 \<le> length t" using inv j by (auto simp: chain_inv_def)
  note u = carry_limb_spec [OF len w dv C B BC]
  have low: "\<bar>sint (?u ! i)\<bar> < 2 ^ (if even i then 26 else 25)" if "i < Suc j" for i
    using that u(3) u(5) [of i] inv by (cases "i = j") (auto simp: chain_inv_def k)
  have high: "\<bar>sint (?u ! i)\<bar> \<le> 280 * 2 ^ 54" if "Suc j < i" "i < 10" for i
    using that u(5) [of i] inv by (simp add: chain_inv_def)
  show ?thesis unfolding chain_inv_def
  proof (intro conjI)
    show "\<bar>sint (?u ! Suc j)\<bar> \<le> (if Suc j < 10 then 281 * 2 ^ 54 else 281 * 2 ^ 29)"
      using u(4) j by (auto split: if_splits)
    show "Suc j < 10 \<longrightarrow> ?u ! 10 = 0" using u(5) [of 10] inv j by (auto simp: chain_inv_def)
  qed (use u(1,2) low high inv len in \<open>auto simp: chain_inv_def\<close>)
qed

lemma chain_pair:
  assumes "chain_inv V j t" "even j" "j < 10"
  shows "chain_inv V (j + 2) (reduce_odd (reduce_even t j) (j + 1))"
proof -
  have "Suc j < 10" using assms(2,3) by (auto elim!: evenE)
  have "chain_inv V (Suc j) (carry_limb div_by_2_26 26 t j)"
    using assms by (intro chain_step) (simp_all add: div_by_spec)
  note 1 = this
  have "chain_inv V (Suc (Suc j)) (carry_limb div_by_2_25 25 (carry_limb div_by_2_26 26 t j) (Suc j))"
    using assms(2) \<open>Suc j < 10\<close> by (intro chain_step [OF 1]) (simp_all add: div_by_spec)
  then show ?thesis by (simp add: reduce_carry)
qed

lemma chain_loop:
  assumes "chain_inv V 0 t"
  shows "chain_inv V 10 (foldl (\<lambda>t i. reduce_odd (reduce_even t i) (i + 1)) t [0, 2, 4, 6, 8])"
proof -
  have 2: "chain_inv V 2 (reduce_odd (reduce_even t 0) (0 + 1))" using chain_pair [OF assms] by (simp add: numeral_2_eq_2)
  note 4 = chain_pair [OF 2, simplified]
  note 6 = chain_pair [OF 4, simplified]
  note 8 = chain_pair [OF 6, simplified]
  show ?thesis using chain_pair [OF 8] by simp
qed

lemma freduce_coefficients_spec:
  assumes "11 \<le> length t" "limbs_bnd 10 t (280 * 2 ^ 54)"
  shows "length (freduce_coefficients t) = length t
    \<and> limbs_bnd 10 (freduce_coefficients t) (2 ^ 26 - 1)
    \<and> feq (limbs_val 10 (freduce_coefficients t)) (limbs_val 10 t)"
proof -
  let ?loop = "foldl (\<lambda>t i. reduce_odd (reduce_even t i) (i + 1)) (t[10 := 0]) [0, 2, 4, 6, 8]"
  have split: "limbs_val 11 u = limbs_val 10 u + 2 ^ 255 * sint (u ! 10)" for u
    by (simp add: eval_lval)
  have "limbs_val 10 (t[10 := 0]) = limbs_val 10 t" by (intro lval_cong) simp
  then have "limbs_val 11 (t[10 := 0]) = limbs_val 10 t" using assms(1) by (simp add: split)
  moreover have bt: "\<bar>sint (t ! i)\<bar> \<le> 280 * 2 ^ 54" if "i < 10" for i
    using that assms(2) by (simp add: limbs_bnd_def)
  ultimately have "chain_inv (limbs_val 10 t) 0 (t[10 := 0])"
    using assms(1) order_trans [OF bt [of 0], of "281 * 2 ^ 54"] by (auto simp: chain_inv_def)
  then have loop: "chain_inv (limbs_val 10 t) 10 ?loop" by (rule chain_loop)
  define u where "u = ?loop"
  note inv = loop [folded u_def, unfolded chain_inv_def]
  have len: "length u = length t" unfolding u_def by simp
  define z where "z = u ! 0 + push_bit 4 (u ! 10) + push_bit 1 (u ! 10) + u ! 10"
  have u10: "sbnd (u ! 10) (sint (u ! 10)) (281 * 2 ^ 29)" using inv by (simp add: sbnd_def)
  have lim: "\<bar>sint (u ! i)\<bar> < 2 ^ (if even i then 26 else 25)" if "i < 10" for i using that inv by blast
  have u0: "sbnd (u ! 0) (sint (u ! 0)) (2 ^ 26)" using lim [of 0] by (simp add: sbnd_def)
  have "sbnd z (sint (u ! 0) + sint (u ! 10) * 2 ^ 4 + sint (u ! 10) * 2 ^ 1 + sint (u ! 10))
      (2 ^ 26 + 281 * 2 ^ 29 * 2 ^ 4 + 281 * 2 ^ 29 * 2 ^ 1 + 281 * 2 ^ 29)"
    unfolding z_def by (intro sbnd_add sbnd_push_bit u0 u10) simp_all
  then have z: "sint z = sint (u ! 0) + 19 * sint (u ! 10)" "\<bar>sint z\<bar> \<le> 2 ^ 16 * 2 ^ 26"
    by (simp_all add: sbnd_def)
  define v where "v = u[0 := z, 10 := 0]"
  have ne: "u \<noteq> []" using len assms(1) by auto
  have v: "freduce_coefficients t = reduce_even v 0"
    using ne unfolding freduce_coefficients_def Let_def u_def [symmetric] v_def z_def
    by (simp add: algebra_simps)
  have "limbs_val 10 v = limbs_val 10 u + 19 * sint (u ! 10)"
    using ne z(1) by (simp add: eval_lval v_def)
  also have "\<dots> = limbs_val 10 t + (- sint (u ! 10)) * p25519"
    using inv split [of u] by (simp add: p25519_def algebra_simps)
  finally have vt: "feq (limbs_val 10 v) (limbs_val 10 t)" by (rule feq_modulus)
  have v1: "\<bar>sint (v ! Suc 0)\<bar> \<le> 2 ^ 25" using lim [of 1] by (simp add: v_def)
  have vb: "\<bar>sint (v ! i)\<bar> < 2 ^ 26" if "1 < i" "i < 10" for i
    using that lim [of i] by (simp add: v_def split: if_splits)
  have lv: "Suc 0 < 10" "10 \<le> length v" using len assms(1) by (simp_all add: v_def)
  have v0: "\<bar>sint (v ! 0)\<bar> \<le> 2 ^ 16 * 2 ^ 26" using z ne by (simp add: v_def)
  have w: "wt (Suc 0) = wt 0 + 26" "26 \<le> (26::nat)" "2 ^ 16 * 2 ^ 26 \<le> (281 * 2 ^ 54 :: int)"
    "2 ^ 25 + 2 ^ 16 < (2 ^ 63 :: int)" by (simp_all add: wt_def)
  have dv: "\<forall>v. \<bar>sint v\<bar> \<le> 281 * 2 ^ 54 \<longrightarrow> sint (div_by_2_26 v) = tdiv 26 (sint v)"
    by (simp add: div_by_spec)
  note r = carry_limb_spec [OF lv w(1,2) dv v0 w(3) v1 w(4), folded reduce_carry, folded v]
  have rb: "\<bar>sint (freduce_coefficients t ! i)\<bar> \<le> 2 ^ 26 - 1" if "i < 10" for i
    using that r(3,4) r(5) [of i] vb [of i] by (cases "i = 0"; cases "i = Suc 0") auto
  show ?thesis using rb r(1,2) vt len assms(1) by (simp add: limbs_bnd_def v_def)
qed

section \<open>The field interface\<close>

text \<open>The bound of the results of a multiplication, and the bound of its arguments.\<close>

definition fval32 :: "limb list \<Rightarrow> int" where
  "fval32 a = limbs_val 10 a"

definition tight32 :: "limb list \<Rightarrow> bool" where
  "tight32 a \<longleftrightarrow> length a = 10 \<and> limbs_bnd 10 a (2 ^ 26 - 1)"

definition loose32 :: "limb list \<Rightarrow> bool" where
  "loose32 a \<longleftrightarrow> length a = 10 \<and> limbs_bnd 10 a (2 ^ 27)"

lemma tight_loose32: "tight32 a \<Longrightarrow> loose32 a"
  by (auto simp: tight32_def loose32_def limbs_bnd_def)

lemma take_10_spec:
  assumes "11 \<le> length t" "limbs_bnd 10 t (280 * 2 ^ 54)"
  shows "tight32 (take 10 (freduce_coefficients t)) \<and> feq (fval32 (take 10 (freduce_coefficients t))) (limbs_val 10 t)"
proof -
  note r = freduce_coefficients_spec [OF assms]
  have "limbs_val 10 (take 10 (freduce_coefficients t)) = limbs_val 10 (freduce_coefficients t)"
    by (intro lval_cong) simp
  with r assms(1) show ?thesis by (auto simp: tight32_def fval32_def limbs_bnd_def)
qed

lemma reduce_product_spec:
  assumes "length t = 19" "limbs_bnd 19 t (14 * 2 ^ 54)"
  defines "r \<equiv> take 10 (freduce_coefficients (freduce_degree t))"
  shows "tight32 r \<and> feq (fval32 r) (limbs_val 19 t)"
proof -
  note d = freduce_degree_spec [OF assms(1,2)]
  then have "tight32 r \<and> feq (fval32 r) (limbs_val 10 (freduce_degree t))"
    unfolding r_def by (intro take_10_spec) auto
  with d feq_trans show ?thesis by blast
qed

lemma fmul32_spec:
  assumes "loose32 a" "loose32 b"
  shows "tight32 (fmul32 a b) \<and> feq (fval32 (fmul32 a b)) (fval32 a * fval32 b)"
  using reduce_product_spec [of "fproduct a b"] fproduct_spec [of a b] assms
  by (simp add: fmul32_def loose32_def fval32_def)

lemma fsquare_spec:
  assumes "loose32 a"
  shows "tight32 (fsquare a) \<and> feq (fval32 (fsquare a)) (fval32 a * fval32 a)"
  using reduce_product_spec [of "fsquare_inner a"] fsquare_inner_spec [of a] assms
  by (simp add: fsquare_def loose32_def fval32_def)

lemma lval_linear:
  "lval n (\<lambda>i. x i + y i) = lval n x + lval n y" "lval n (\<lambda>i. x i - y i) = lval n x - lval n y"
  "lval n (\<lambda>i. x i * c) = lval n x * c"
  by (simp_all add: lval_def distrib_left right_diff_distrib sum.distrib sum_subtractf
      sum_distrib_right mult.assoc)

lemma fsum32_spec:
  assumes "tight32 a" "tight32 b"
  shows "loose32 (fsum32 a b) \<and> feq (fval32 (fsum32 a b)) (fval32 a + fval32 b)"
proof -
  have s: "sbnd (a ! i + b ! i) (sint (a ! i) + sint (b ! i)) (2 ^ 27)" if "i < 10" for i
    using assms that by (intro sbnd_weaken [OF sbnd_add [where A = "2 ^ 26 - 1" and B = "2 ^ 26 - 1"]]) (auto simp: tight32_def limbs_bnd_def sbnd_def)
  have "fval32 (fsum32 a b) = lval 10 (\<lambda>i. sint (a ! i) + sint (b ! i))"
    unfolding fval32_def using s by (intro lval_cong) (simp add: fsum32_def sbnd_def)
  with s show ?thesis by (auto simp: lval_linear fval32_def loose32_def limbs_bnd_def fsum32_def sbnd_def)
qed

lemma fdifference32_spec:
  assumes "tight32 a" "tight32 b"
  shows "loose32 (fdifference_backwards32 b a) \<and> feq (fval32 (fdifference_backwards32 b a)) (fval32 a - fval32 b)"
proof -
  have s: "sbnd (a ! i - b ! i) (sint (a ! i) - sint (b ! i)) (2 ^ 27)" if "i < 10" for i
    using assms that by (intro sbnd_weaken [OF sbnd_diff [where A = "2 ^ 26 - 1" and B = "2 ^ 26 - 1"]]) (auto simp: tight32_def limbs_bnd_def sbnd_def)
  have "fval32 (fdifference_backwards32 b a) = lval 10 (\<lambda>i. sint (a ! i) - sint (b ! i))"
    unfolding fval32_def using s by (intro lval_cong) (simp add: fdifference_backwards32_def sbnd_def)
  with s show ?thesis
    by (auto simp: lval_linear fval32_def loose32_def limbs_bnd_def fdifference_backwards32_def sbnd_def)
qed

text \<open>The product with \<open>(A - 2) / 4\<close>, on the long buffer of \<^verbatim>\<open>fmonty\<close>.\<close>

definition scale32 :: "limb list \<Rightarrow> limb list" where
  "scale32 a = take 10 (freduce_coefficients (fscalar_product32 a 121665 @ replicate 9 0))"

lemma scale32_spec:
  assumes "loose32 a"
  shows "tight32 (scale32 a) \<and> feq (fval32 (scale32 a)) (121665 * fval32 a)"
proof -
  let ?t = "fscalar_product32 a 121665 @ replicate 9 0"
  have s: "sbnd (a ! i * 121665) (sint (a ! i) * 121665) (2 ^ 27 * 121665)" if "i < 10" for i
    using assms that by (intro sbnd_mult sbnd_numeral) (auto simp: loose32_def limbs_bnd_def sbnd_def)
  have nth: "?t ! i = a ! i * 121665" if "i < 10" for i
    using that by (simp add: fscalar_product32_def nth_append)
  have len: "11 \<le> length ?t" by (simp add: fscalar_product32_def)
  have bnd: "\<bar>sint (?t ! i)\<bar> \<le> 280 * 2 ^ 54" if "i < 10" for i
  proof -
    have "\<bar>sint (a ! i * 121665)\<bar> \<le> 2 ^ 27 * 121665" using s [OF that] by (simp only: sbnd_def)
    then show ?thesis unfolding nth [OF that] by simp
  qed
  have "limbs_val 10 ?t = lval 10 (\<lambda>i. sint (a ! i) * 121665)"
    using s nth by (intro lval_cong) (simp add: sbnd_def)
  then have "limbs_val 10 ?t = 121665 * fval32 a" by (simp add: lval_linear fval32_def)
  with take_10_spec [OF len] bnd len show ?thesis by (simp add: limbs_bnd_def scale32_def)
qed

interpretation f32: field_rep fval32 tight32 loose32 fmul32 fsquare fsum32
  "\<lambda>a b. fdifference_backwards32 b a" scale32
  by unfold_locales (simp_all only: tight_loose32 fmul32_spec fsquare_spec fsum32_spec
      fdifference32_spec scale32_spec)

lemma rp_fsquare_pairs:
  assumes "f32.rp t (x ^ m)"
  shows "f32.rp (fsquare_pairs n t) (x ^ (2 ^ (2 * ((n - 2) div 2)) * m))"
proof -
  have "(\<lambda>t. fsquare (fsquare t)) ^^ k = fsquare ^^ (2 * k)" for k
    by (induction k) (auto simp: fun_eq_iff)
  then show ?thesis unfolding fsquare_pairs_def using f32.rp_sqrs_pow [OF assms] by simp
qed

lemma crecip32_spec:
  assumes "f32.rp z x"
  shows "f32.rp (crecip32 z) (x ^ nat (p25519 - 2))"
proof -
  note sq = f32.rp_sqr_pow and mp = f32.rp_mul_pow and pairs = rp_fsquare_pairs
  have z1: "f32.rp z (x ^ 1)" using assms by simp
  note z2 = sq [OF z1, simplified]
  note z9 = mp [OF sq [OF sq [OF z2]] z1, simplified]
  note z11 = mp [OF z9 z2, simplified]
  note z5 = mp [OF sq [OF z11] z9, simplified]
  note z10 = mp [OF sq [OF sq [OF sq [OF sq [OF sq [OF z5]]]]] z5, simplified]
  note z20 = mp [OF pairs [OF sq [OF sq [OF z10]], of 10] z10, simplified]
  note z40 = mp [OF pairs [OF sq [OF sq [OF z20]], of 20] z20, simplified]
  note z50 = mp [OF pairs [OF sq [OF sq [OF z40]], of 10] z10, simplified]
  note z100 = mp [OF pairs [OF sq [OF sq [OF z50]], of 50] z50, simplified]
  note z200 = mp [OF pairs [OF sq [OF sq [OF z100]], of 100] z100, simplified]
  note z250 = mp [OF pairs [OF sq [OF sq [OF z200]], of 50] z50, simplified]
  note res = mp [OF sq [OF sq [OF sq [OF sq [OF sq [OF z250]]]]] z11, simplified]
  have "nat (p25519 - 2) = 2 ^ 255 - 21" by (simp add: p25519_def)
  with res show ?thesis unfolding crecip32_def Let_def by simp
qed

section \<open>Bytes to limbs\<close>

definition lw :: "nat \<Rightarrow> nat" where
  "lw i = (if even i then 26 else 25)"

lemma wt_Suc: "wt (Suc i) = wt i + lw i"
  by (cases "even i") (auto simp: lw_def wt_def elim!: evenE oddE)

lemma limb_width_lw: "limb_width i = lw i"
  by (simp add: limb_width_def lw_def and_one_eq odd_iff_mod_2_eq_one)

lemma signed_drop_bit_pos:
  fixes a :: "'a::len word"
  assumes "\<not> bit a (LENGTH('a) - 1)"
  shows "signed_drop_bit k a = drop_bit k a"
proof (rule bit_word_eqI)
  fix n assume "n < LENGTH('a)"
  then show "bit (signed_drop_bit k a) n = bit (drop_bit k a) n"
    using assms by (auto simp: bit_signed_drop_bit_iff bit_drop_bit_eq dest: bit_imp_le_length)
qed

lemma bit_fexpand_limb:
  assumes "start + 3 < length input" "shift + w \<le> 32" "n < w"
  shows "bit (fexpand_limb input start shift (mask w)) n = bit (le_val input) (8 * start + shift + n)"
proof -
  define m where "m = shift + n"
  have m: "m < 32" "n < 64" using assms by (simp_all add: m_def)
  have byte: "bit (le_val input) (8 * start + (8 * k + j)) = bit (input ! (start + k)) j"
    if "j < 8" "k < 4" for j k
  proof -
    have "(8 * start + (8 * k + j)) div 8 = start + k" "(8 * start + (8 * k + j)) mod 8 = j" using that by simp_all
    then show ?thesis using assms that by (subst bit_le_val) simp_all
  qed
  have "bit (fexpand_limb input start shift (mask w)) n \<longleftrightarrow>
     bit (input ! start) m \<or> 8 \<le> m \<and> bit (input ! (start + 1)) (m - 8)
     \<or> 16 \<le> m \<and> bit (input ! (start + 2)) (m - 16) \<or> 24 \<le> m \<and> bit (input ! (start + 3)) (m - 24)"
    using assms m by (auto simp: fexpand_limb_def bit_signed_drop_bit_iff bit_and_iff bit_or_iff
        bit_push_bit_iff bit_ucast_iff bit_mask_iff m_def)
  also have "\<dots> \<longleftrightarrow> bit (input ! (start + m div 8)) (m mod 8)"
  proof -
    have hi: "\<not> bit b j" if "8 \<le> j" for b :: u8 and j using that bit_imp_le_length [of b j] by auto
    consider "m < 8" | "8 \<le> m" "m < 16" | "16 \<le> m" "m < 24" | "24 \<le> m" "m < 32" using m by linarith
    then show ?thesis
      by cases (simp_all add: hi le_div_geq le_mod_geq numeral_3_eq_3)
  qed
  also have "\<dots> \<longleftrightarrow> bit (le_val input) (8 * start + m)"
    using byte [of "m mod 8" "m div 8"] m by simp
  finally show ?thesis by (simp add: m_def add.assoc)
qed

lemma fexpand_limb_val:
  assumes "start + 3 < length input" "shift + w \<le> 32" "w \<le> 31"
  shows "sint (fexpand_limb input start shift (mask w)) = int (take_bit w (drop_bit (8 * start + shift) (le_val input)))"
proof -
  let ?l = "fexpand_limb input start shift (mask w)"
  have hi: "bit ?l n \<Longrightarrow> n < w" for n by (simp add: fexpand_limb_def bit_and_iff bit_mask_iff)
  from this [of 63] have "\<not> bit ?l 63" using assms(3) by auto
  then have "sint ?l = uint ?l" by (simp add: sint_pos)
  also have "uint ?l = int (take_bit w (drop_bit (8 * start + shift) (le_val input)))"
  proof (rule bit_eqI)
    fix n
    show "bit (uint ?l) n = bit (int (take_bit w (drop_bit (8 * start + shift) (le_val input)))) n"
      using bit_fexpand_limb [OF assms(1,2), of n] hi [of n] assms(3)
      by (auto simp: bit_uint_iff bit_of_nat_iff bit_take_bit_iff bit_drop_bit_eq add.commute)
  qed
  finally show ?thesis .
qed

lemma lval_digits: "lval n (\<lambda>i. int (take_bit (lw i) (drop_bit (wt i) V))) = int (take_bit (wt n) V)"
proof (induction n)
  case (Suc n)
  then show ?case by (simp add: lval_def wt_Suc flip: bits_split)
qed (simp add: lval_def wt_def)

lemma fexpand32_spec:
  assumes "length b = 32"
  shows "tight32 (fexpand32 b) \<and> fval32 (fexpand32 b) = int (take_bit 255 (le_val b))"
proof -
  let ?d = "\<lambda>i. int (take_bit (lw i) (drop_bit (wt i) (le_val b)))"
  have m: "0x3ffffff = (mask 26 :: limb)" "0x1ffffff = (mask 25 :: limb)" by (simp_all add: mask_numeral)
  have s: "sint (fexpand32 b ! i) = ?d i" if "i < 10" for i
  proof -
    have "i \<in> {0, 1, 2, 3, 4, 5, 6, 7, 8, 9}" using that by auto
    then show ?thesis unfolding fexpand32_def m
      by (elim insertE; simp add: fexpand_limb_val assms lw_def wt_def)
  qed
  have "?d i \<le> 2 ^ 26 - 1" for i
  proof -
    have "take_bit (lw i) (drop_bit (wt i) (le_val b)) < 2 ^ lw i" by (rule take_bit_nat_less_exp)
    also have "\<dots> \<le> (2::nat) ^ 26" by (intro power_increasing) (simp_all add: lw_def)
    finally show ?thesis by simp
  qed
  then have "tight32 (fexpand32 b)" using s by (simp add: tight32_def limbs_bnd_def) (simp add: fexpand32_def)
  moreover have "fval32 (fexpand32 b) = lval 10 ?d" unfolding fval32_def using s by (intro lval_cong) simp
  ultimately show ?thesis unfolding lval_digits by (simp add: wt_def)
qed

section \<open>The swap\<close>

lemma scast_low32:
  fixes a :: limb
  assumes "\<bar>sint a\<bar> < 2 ^ 31"
  shows "scast (ucast a :: s32) = a"
proof -
  have "sbnd (scast (ucast a :: s32) :: limb) (sint a) (\<bar>sint a\<bar>)"
    using assms by (intro sbnd_scast sbnd_low32) (simp_all add: sbnd_def)
  then show ?thesis by (simp add: sbnd_def signed_word_eqI)
qed

lemma swap_conditional32_spec:
  assumes "tight32 a" "tight32 b"
  shows "swap_conditional32 a b 0 = (a, b) \<and> swap_conditional32 a b 1 = (b, a)"
proof -
  have c: "scast (ucast (a ! i) :: s32) = a ! i" "scast (ucast (b ! i) :: s32) = b ! i" if "i < 10" for i
    using assms that by (auto simp: tight32_def limbs_bnd_def intro!: scast_low32 intro: le_less_trans [where y = "2 ^ 26 - 1"])
  have x: "u XOR (u XOR v) = v" "v XOR (u XOR v) = u" for u v :: s32
    by (simp_all only: xor.assoc [symmetric] xor_self_eq xor.left_neutral) (simp only: xor.commute [of v u] xor.assoc xor_self_eq xor.right_neutral)
  have m: "ucast (- 1 :: limb) = (- 1 :: s32)" by code_simp
  have l: "length a = 10" "length b = 10" using assms by (simp_all add: tight32_def)
  show ?thesis unfolding swap_conditional32_def Let_def
    by (simp add: m list_eq_iff_nth_eq l c x)
qed

end
