(* ===== verification/DonnaBytes.thy ===== *)
theory DonnaBytes
  imports Donna25519
begin

text \<open>
  The contraction of the ten-limb elements (\<^verbatim>\<open>fcontract32\<close> of
  \<^verbatim>\<open>src/plugins/utils/curve25519-donna.c\<close>): the borrows that make the limbs non-negative, the
  carries that bring them to their widths, the subtraction of the modulus and the packing into 32
  bytes. With it the implementation provides the interface of the ladder, and its functions on
  bytes are those of the field.
\<close>

section \<open>Limbs of 32 bits\<close>

definition sv :: "s32 list \<Rightarrow> nat \<Rightarrow> int" where
  "sv t i = sint (t ! i)"

lemma foldl_upt_invariant:
  assumes "P 0 t" "\<And>j t. j < n \<Longrightarrow> P j t \<Longrightarrow> P (Suc j) (f t j)"
  shows "P n (foldl f t [0..<n])"
  using assms by (induction n) auto

lemma limb_cases:
  assumes "k < 10"
  obtains "k = 0" | "k = 9" | "0 < k" "k < (9::nat)"
  using assms by fastforce

lemma lw_cases: "lw i = 25 \<or> lw i = 26"
  by (simp add: lw_def)

text \<open>Moving \<open>q\<close> units of a limb to the next keeps the value.\<close>

lemma lval_move:
  assumes "Suc i < n"
  shows "lval n (x(i := x i - q * 2 ^ lw i, Suc i := x (Suc i) + q)) = lval n x"
  by (rule lval_update2 [OF assms, where k = "lw i" and q = q]) (simp_all add: wt_Suc power_add mult.commute)

lemma lval_Suc: "lval (Suc n) x = lval n x + 2 ^ wt n * x n"
  by (simp add: lval_def)

lemma lval_upd_0: "0 < n \<Longrightarrow> lval n (x(0 := v)) = lval n x + (v - x 0)"
proof (induction n)
  case (Suc n)
  then show ?case by (cases n) (simp_all add: lval_def wt_def)
qed simp

lemma lval_upd_top: "lval (Suc n) (x(n := v)) = lval (Suc n) x + 2 ^ wt n * (v - x n)"
  by (simp add: lval_def algebra_simps)

section \<open>Borrows\<close>

text \<open>The units a negative limb takes from the next.\<close>

definition nb :: "nat \<Rightarrow> int \<Rightarrow> int" where
  "nb k x = (if x < 0 then x div 2 ^ k else 0)"

lemma nb_bounds:
  assumes "- (C * 2 ^ k) \<le> x" "0 \<le> C"
  shows "- C \<le> nb k x" "nb k x \<le> 0" "0 \<le> x - nb k x * 2 ^ k" "x - nb k x * 2 ^ k \<le> max x (2 ^ k - 1)"
proof -
  have "(- C) * 2 ^ k div 2 ^ k \<le> x div 2 ^ k" using assms(1) by (intro zdiv_mono1) simp_all
  then have "- C \<le> x div 2 ^ k" by (subst (asm) nonzero_mult_div_cancel_right) simp_all
  then show "- C \<le> nb k x" using assms(2) by (simp add: nb_def)
  show "nb k x \<le> 0" by (auto simp: nb_def intro: div_nonpos_pos_le0)
  have "x - x div 2 ^ k * 2 ^ k = x mod 2 ^ k" by (simp add: minus_div_mult_eq_mod)
  moreover have "0 \<le> x mod 2 ^ k" "x mod 2 ^ k < 2 ^ k" by simp_all
  ultimately show "0 \<le> x - nb k x * 2 ^ k" "x - nb k x * 2 ^ k \<le> max x (2 ^ k - 1)"
    unfolding nb_def max_def by (auto simp only: split: if_splits; linarith)+
qed

lemma sign_mask32: "signed_drop_bit 31 x = (if sint x < 0 then - 1 else 0)" for x :: s32
proof -
  have msb: "bit x 31 \<longleftrightarrow> sint x < 0" using bit_last_iff [of x] by simp
  show ?thesis
    by (intro bit_word_eqI) (auto simp: bit_signed_drop_bit_iff msb bit_minus_1_iff not_le less_Suc_eq_le
        dest: bit_imp_le_length)
qed

lemma borrow32_spec:
  assumes "\<bar>sint x\<bar> \<le> 2 ^ 27"
  shows "sint (borrow32 k x) = - nb k (sint x)"
proof -
  let ?y = "if sint x < 0 then x else 0"
  have y: "x AND signed_drop_bit 31 x = ?y" by (simp add: sign_mask32)
  have s: "sint (signed_drop_bit k ?y) = nb k (sint x)"
    by (simp add: nb_def sint_signed_drop_bit_eq drop_bit_eq_div)
  have "- (2 ^ 27 * 2 ^ k) \<le> sint x"
  proof -
    have "2 ^ 27 * 1 \<le> 2 ^ 27 * (2::int) ^ k" by (intro mult_left_mono) simp_all
    with assms show ?thesis by linarith
  qed
  from nb_bounds(1,2) [OF this] have "\<bar>nb k (sint x)\<bar> \<le> 2 ^ 27" by simp
  then show ?thesis unfolding borrow32_def Let_def y
    by (simp add: sint_word_ariths s signed_take_bit_self)
qed

lemma borrow_limb_sv:
  assumes len: "length t = 10" "i < 9" and x: "\<bar>sv t i\<bar> \<le> 2 ^ 27" "\<bar>sv t (Suc i)\<bar> \<le> 2 ^ 27"
    and low: "- (4 * 2 ^ lw i) \<le> sv t i"
  defines "n \<equiv> nb (lw i) (sv t i)"
  shows "length (borrow_limb t i) = 10 \<and>
    sv (borrow_limb t i) = (sv t)(i := sv t i - n * 2 ^ lw i, Suc i := sv t (Suc i) + n)"
proof -
  let ?c = "borrow32 (lw i) (t ! i)"
  have c: "sint ?c = - n" using borrow32_spec x(1) by (simp add: n_def sv_def)
  note n = nb_bounds [OF low, folded n_def]
  have cb: "sbnd ?c (- n) 4" using c n(1,2) by (simp add: sbnd_def)
  have k: "(2::int) ^ lw i \<le> 2 ^ 26" using lw_cases [of i] by auto
  have "sbnd (push_bit (lw i) ?c) (- n * 2 ^ lw i) (4 * 2 ^ lw i)"
    using cb k by (intro sbnd_push_bit) simp_all
  moreover have "\<bar>sv t i\<bar> \<le> 2 ^ 27" by (rule x)
  ultimately have "sbnd (t ! i + push_bit (lw i) ?c) (sv t i + - n * 2 ^ lw i) (2 ^ 27 + 4 * 2 ^ lw i)"
    using k by (intro sbnd_add) (simp_all add: sbnd_def sv_def)
  then have a: "sint (t ! i + push_bit (lw i) ?c) = sv t i - n * 2 ^ lw i" by (simp add: sbnd_def)
  have "sbnd (t ! Suc i - ?c) (sv t (Suc i) - (- n)) (2 ^ 27 + 4)"
    using cb x(2) by (intro sbnd_diff) (simp_all add: sbnd_def sv_def)
  then have b: "sint (t ! Suc i - ?c) = sv t (Suc i) + n" by (simp add: sbnd_def)
  have "borrow_limb t i = t[i := t ! i + push_bit (lw i) ?c, Suc i := t ! Suc i - ?c]"
    by (simp add: borrow_limb_def Let_def limb_width_lw)
  with len a b show ?thesis by (simp add: fun_eq_iff sv_def)
qed

lemma borrow_top_sv:
  assumes len: "length t = 10" and x: "\<bar>sv t 9\<bar> \<le> 2 ^ 27" "\<bar>sv t 0\<bar> \<le> 2 ^ 27"
  defines "n \<equiv> nb 25 (sv t 9)"
  shows "length (borrow_top t) = 10 \<and>
    sv (borrow_top t) = (sv t)(9 := sv t 9 - n * 2 ^ 25, 0 := sv t 0 + 19 * n)"
proof -
  let ?c = "borrow32 25 (t ! 9)"
  have c: "sint ?c = - n" using borrow32_spec x(1) by (simp add: n_def sv_def)
  have "- (4 * 2 ^ 25) \<le> sv t 9" using x(1) by simp
  note n = nb_bounds [OF this, folded n_def]
  have cb: "sbnd ?c (- n) 4" using c n(1,2) by (simp add: sbnd_def)
  have "sbnd (t ! 9 + push_bit 25 ?c) (sv t 9 + - n * 2 ^ 25) (2 ^ 27 + 4 * 2 ^ 25)"
    using x(1) by (intro sbnd_add sbnd_push_bit cb) (simp_all add: sbnd_def sv_def)
  then have a: "sint (t ! 9 + push_bit 25 ?c) = sv t 9 - n * 2 ^ 25" by (simp add: sbnd_def)
  have "sbnd (t ! 0 - ?c * 19) (sv t 0 - (- n) * 19) (2 ^ 27 + 4 * 19)"
    using x(2) by (intro sbnd_diff sbnd_mult sbnd_numeral cb) (simp_all add: sbnd_def sv_def)
  then have b: "sint (t ! 0 - ?c * 19) = sv t 0 + 19 * n" by (simp add: sbnd_def)
  have "borrow_top t = t[9 := t ! 9 + push_bit 25 ?c, 0 := t ! 0 - ?c * 19]"
    by (simp add: borrow_top_def Let_def)
  with len a b show ?thesis by (simp add: fun_eq_iff sv_def nth_list_update)
qed

text \<open>
  The state of the first pass before limb \<open>j\<close>: a limb may owe three units to its successor.
\<close>

definition borrow1_inv :: "int \<Rightarrow> nat \<Rightarrow> s32 list \<Rightarrow> bool" where
  "borrow1_inv V j t \<longleftrightarrow> length t = 10 \<and> lval 10 (sv t) = V
     \<and> (\<forall>i<j. 0 \<le> sv t i \<and> sv t i < 2 ^ 26) \<and> - (2 ^ 26 + 2) \<le> sv t j \<and> sv t j < 2 ^ 26
     \<and> (\<forall>i. j < i \<and> i < 10 \<longrightarrow> \<bar>sv t i\<bar> < 2 ^ 26)"

lemma borrow1_step:
  assumes "borrow1_inv V j t" "j < 9"
  shows "borrow1_inv V (Suc j) (borrow_limb t j)"
proof -
  note inv = assms(1) [unfolded borrow1_inv_def]
  define n where "n = nb (lw j) (sv t j)"
  have next_limb: "\<bar>sv t (Suc j)\<bar> < 2 ^ 26" using inv assms(2) by auto
  have low: "- (3 * 2 ^ lw j) \<le> sv t j" using inv lw_cases [of j] by auto
  note nb = nb_bounds [OF low, folded n_def]
  have len: "length t = 10" and bj: "\<bar>sv t j\<bar> \<le> 2 ^ 27" using inv by auto
  have bs: "\<bar>sv t (Suc j)\<bar> \<le> 2 ^ 27" using next_limb by simp
  have low4: "- (4 * 2 ^ lw j) \<le> sv t j" using inv lw_cases [of j] by auto
  have u: "length (borrow_limb t j) = 10"
    "sv (borrow_limb t j) = (sv t)(j := sv t j - n * 2 ^ lw j, Suc j := sv t (Suc j) + n)"
    using borrow_limb_sv [OF len assms(2) bj bs low4] by (simp_all add: n_def)
  have "sv t j - n * 2 ^ lw j < 2 ^ 26" using nb(4) inv lw_cases [of j] by (auto simp: max_def split: if_splits)
  then have "0 \<le> sv (borrow_limb t j) i \<and> sv (borrow_limb t j) i < 2 ^ 26" if "i < Suc j" for i
    using that nb(3) inv by (auto simp: u(2) less_Suc_eq)
  moreover have "lval 10 (sv (borrow_limb t j)) = V"
    unfolding u(2) using inv assms(2) by (simp add: lval_move)
  moreover have "- (2 ^ 26 + 2) \<le> sv (borrow_limb t j) (Suc j)" "sv (borrow_limb t j) (Suc j) < 2 ^ 26"
    using nb(1,2) next_limb by (simp_all add: u(2))
  moreover have "\<bar>sv (borrow_limb t j) i\<bar> < 2 ^ 26" if "Suc j < i" "i < 10" for i
    using that inv by (simp add: u(2))
  ultimately show ?thesis unfolding borrow1_inv_def using u(1) by blast
qed

definition borrow_pass :: "s32 list \<Rightarrow> s32 list" where
  "borrow_pass t = borrow_top (foldl borrow_limb t [0..<9])"

lemma lval_top_0:
  "lval 10 (x(9 := x 9 - n * 2 ^ 25, 0 := x 0 + 19 * n)) = lval 10 x + (- n) * p25519"
proof -
  have "lval 10 (x(9 := x 9 - n * 2 ^ 25)) = lval 10 x - n * 2 ^ 255"
    using lval_upd_top [of 9 x "x 9 - n * 2 ^ 25"] by (simp add: wt_def)
  then show ?thesis by (simp add: lval_upd_0 p25519_def algebra_simps)
qed

lemma borrow_pass1:
  assumes "length t = 10" "\<forall>i<10. \<bar>sv t i\<bar> < 2 ^ 26"
  shows "length (borrow_pass t) = 10 \<and> feq (lval 10 (sv (borrow_pass t))) (lval 10 (sv t))
    \<and> (\<forall>i<10. sv (borrow_pass t) i < 2 ^ 26 \<and> (if i = 0 then - 57 else 0) \<le> sv (borrow_pass t) i)"
proof -
  define u where "u = foldl borrow_limb t [0..<9]"
  have "\<bar>sv t 0\<bar> < 2 ^ 26" using assms(2) by simp
  then have "- (2 ^ 26 + 2) \<le> sv t 0" "sv t 0 < 2 ^ 26" by simp_all
  then have "borrow1_inv (lval 10 (sv t)) 0 t" using assms unfolding borrow1_inv_def by blast
  then have inv: "borrow1_inv (lval 10 (sv t)) 9 u"
    unfolding u_def by (rule foldl_upt_invariant) (rule borrow1_step)
  note i = this [unfolded borrow1_inv_def]
  define n where "n = nb 25 (sv u 9)"
  have u0: "0 \<le> sv u 0" "sv u 0 < 2 ^ 26" using i by auto
  have len: "length u = 10" and b9: "\<bar>sv u 9\<bar> \<le> 2 ^ 27" using i by auto
  have b0: "\<bar>sv u 0\<bar> \<le> 2 ^ 27" using u0 by simp
  have "- (3 * 2 ^ 25) \<le> sv u 9" using i by simp
  note nb = nb_bounds [OF this, folded n_def]
  have p: "length (borrow_pass t) = 10"
    "sv (borrow_pass t) = (sv u)(9 := sv u 9 - n * 2 ^ 25, 0 := sv u 0 + 19 * n)"
    using borrow_top_sv [OF len b9 b0] by (simp_all add: n_def borrow_pass_def u_def)
  have "feq (lval 10 (sv (borrow_pass t))) (lval 10 (sv u))"
    unfolding p(2) by (rule feq_modulus [OF lval_top_0])
  moreover have "sv (borrow_pass t) k < 2 ^ 26 \<and> (if k = 0 then - 57 else 0) \<le> sv (borrow_pass t) k"
    if "k < 10" for k
  proof -
    have n9: "sv u 9 - n * 2 ^ 25 < 2 ^ 26" using nb(4) i by (auto simp: max_def split: if_splits)
    from that show ?thesis
    proof (cases rule: limb_cases)
      case 1
      then show ?thesis using nb(1,2) u0 by (simp add: p(2))
    next
      case 2
      then show ?thesis using nb(3) n9 by (simp add: p(2))
    next
      case 3
      then show ?thesis using i by (simp add: p(2))
    qed
  qed
  ultimately show ?thesis using p(1) i by simp
qed

text \<open>
  The bound \<open>- 57\<close> is attained: three limbs of \<open>1 - 2 ^ 26\<close> at the top owe three units each. The
  source's remark that the first pass borrows at most one unit from the first limb, which would
  then be at least \<open>- 19\<close>, is too optimistic; the second pass absorbs the difference.
\<close>

lemma borrow_pass_attains:
  "let t = borrow_pass (replicate 7 0 @ replicate 3 (- 67108863)) in sint (t ! 0) = - 57"
  by code_simp

text \<open>
  The second pass: only the first limb may be negative, and a borrow that runs through all the
  limbs leaves the first one large.
\<close>

definition borrow2_inv :: "int \<Rightarrow> nat \<Rightarrow> s32 list \<Rightarrow> bool" where
  "borrow2_inv V j t \<longleftrightarrow> length t = 10 \<and> lval 10 (sv t) = V
     \<and> (\<forall>i<10. i \<noteq> j \<longrightarrow> 0 \<le> sv t i) \<and> (\<forall>i<10. sv t i < 2 ^ 26)
     \<and> (if j = 0 then - 57 \<le> sv t 0 else - 1 \<le> sv t j \<and> (sv t j < 0 \<longrightarrow> 2 ^ 26 - 57 \<le> sv t 0))"

lemma nb_small: "- (2 ^ k) \<le> x \<Longrightarrow> nb k x = (if x < 0 then - 1 else 0)"
proof (cases "x < 0")
  case True
  assume "- (2 ^ k) \<le> x"
  then have "- 1 \<le> nb k x" using nb_bounds(1) [of 1 k x] by simp
  moreover have "x div 2 ^ k < 0" using True by (intro div_neg_pos_less0) simp_all
  ultimately show ?thesis using True by (simp add: nb_def)
qed (simp add: nb_def)

lemma borrow2_step:
  assumes "borrow2_inv V j t" "j < 9"
  shows "borrow2_inv V (Suc j) (borrow_limb t j)"
proof -
  note inv = assms(1) [unfolded borrow2_inv_def]
  have low: "- 57 \<le> sv t j" using inv by (auto split: if_splits)
  define n where "n = nb (lw j) (sv t j)"
  have n: "n = (if sv t j < 0 then - 1 else 0)" unfolding n_def using low lw_cases [of j] by (intro nb_small) auto
  have lims: "sv t j < 2 ^ 26" "0 \<le> sv t (Suc j)" "sv t (Suc j) < 2 ^ 26" using inv assms(2) by auto
  have "\<bar>sv t j\<bar> \<le> 2 ^ 27" "\<bar>sv t (Suc j)\<bar> \<le> 2 ^ 27" "- (4 * 2 ^ lw j) \<le> sv t j" using low lims lw_cases [of j] by auto
  then have u: "length (borrow_limb t j) = 10"
    "sv (borrow_limb t j) = (sv t)(j := sv t j - n * 2 ^ lw j, Suc j := sv t (Suc j) + n)"
    using borrow_limb_sv [of t j] inv assms(2) by (auto simp: n_def)
  have "lval 10 (sv (borrow_limb t j)) = V"
    unfolding u(2) using inv assms(2) by (simp add: lval_move)
  moreover have "0 \<le> sv (borrow_limb t j) i" if "i < 10" "i \<noteq> Suc j" for i
    using that inv n low lw_cases [of j] by (auto simp: u(2))
  moreover have "sv (borrow_limb t j) i < 2 ^ 26" if "i < 10" for i
    using that inv n low lims lw_cases [of j] by (auto simp: u(2))
  moreover have "- 1 \<le> sv (borrow_limb t j) (Suc j)" using lims n by (simp add: u(2))
  moreover have "2 ^ 26 - 57 \<le> sv (borrow_limb t j) 0" if "sv (borrow_limb t j) (Suc j) < 0"
  proof -
    have neg: "sv t j < 0" using that lims(2) n by (auto simp: u(2) split: if_splits)
    then show ?thesis using inv n unfolding u(2) by (cases "j = 0") (auto simp: lw_def split: if_splits)
  qed
  ultimately show ?thesis unfolding borrow2_inv_def using u(1) by simp
qed

lemma borrow_pass2:
  assumes "length t = 10" "\<forall>i<10. sv t i < 2 ^ 26 \<and> (if i = 0 then - 57 else 0) \<le> sv t i"
  shows "length (borrow_pass t) = 10 \<and> feq (lval 10 (sv (borrow_pass t))) (lval 10 (sv t))
    \<and> (\<forall>i<10. 0 \<le> sv (borrow_pass t) i \<and> sv (borrow_pass t) i < 2 ^ 26)"
proof -
  define u where "u = foldl borrow_limb t [0..<9]"
  have "- 57 \<le> sv t 0" using assms(2) [rule_format, of 0] by simp
  then have "borrow2_inv (lval 10 (sv t)) 0 t" using assms by (auto simp: borrow2_inv_def)
  then have inv: "borrow2_inv (lval 10 (sv t)) 9 u"
    unfolding u_def by (rule foldl_upt_invariant) (rule borrow2_step)
  note i = this [unfolded borrow2_inv_def]
  define n where "n = nb 25 (sv u 9)"
  have u9: "- 1 \<le> sv u 9" "sv u 9 < 0 \<Longrightarrow> 2 ^ 26 - 57 \<le> sv u 0" "sv u 9 < 2 ^ 26" using i by auto
  have u0: "0 \<le> sv u 0" "sv u 0 < 2 ^ 26" using i by auto
  have len: "length u = 10" using i by simp
  have b9: "\<bar>sv u 9\<bar> \<le> 2 ^ 27" and b0: "\<bar>sv u 0\<bar> \<le> 2 ^ 27" using u0 u9(1,3) by simp_all
  have n: "n = (if sv u 9 < 0 then - 1 else 0)" unfolding n_def using u9(1) by (intro nb_small) simp
  have p: "length (borrow_pass t) = 10"
    "sv (borrow_pass t) = (sv u)(9 := sv u 9 - n * 2 ^ 25, 0 := sv u 0 + 19 * n)"
    using borrow_top_sv [OF len b9 b0] by (simp_all add: n_def borrow_pass_def u_def)
  have "feq (lval 10 (sv (borrow_pass t))) (lval 10 (sv u))"
    unfolding p(2) by (rule feq_modulus [OF lval_top_0])
  moreover have "0 \<le> sv (borrow_pass t) k \<and> sv (borrow_pass t) k < 2 ^ 26" if "k < 10" for k
  proof -
    from that show ?thesis
    proof (cases rule: limb_cases)
      case 1
      then show ?thesis using n u9(2) u0 by (cases "sv u 9 < 0") (simp_all add: p(2))
    next
      case 2
      then show ?thesis using n u9(1,3) by (simp add: p(2))
    next
      case 3
      then show ?thesis using i by (simp add: p(2))
    qed
  qed
  ultimately show ?thesis using p(1) i by simp
qed

lemma borrow_limb_nonneg:
  assumes "length t = 10" "\<forall>i<10. 0 \<le> sv t i \<and> sv t i < 2 ^ 26"
  shows "length (borrow_limb t 0) = 10 \<and> sv (borrow_limb t 0) = sv t"
proof -
  have "0 \<le> sv t 0" "sv t 0 < 2 ^ 26" "0 \<le> sv t (Suc 0)" "sv t (Suc 0) < 2 ^ 26" using assms(2) by auto
  then show ?thesis using borrow_limb_sv [of t 0] assms(1) by (simp add: nb_def lw_def)
qed

section \<open>Carries\<close>

text \<open>Limbs within their widths.\<close>

definition proper :: "nat \<Rightarrow> (nat \<Rightarrow> int) \<Rightarrow> bool" where
  "proper n x \<longleftrightarrow> (\<forall>i<n. 0 \<le> x i \<and> x i < 2 ^ lw i)"

lemma proper_lval:
  assumes "proper n x"
  shows "0 \<le> lval n x \<and> lval n x < 2 ^ wt n"
  using assms
proof (induction n)
  case (Suc n)
  then have IH: "0 \<le> lval n x" "lval n x < 2 ^ wt n" and x: "0 \<le> x n" "x n \<le> 2 ^ lw n - 1"
    by (auto simp: proper_def)
  have "2 ^ wt n * x n \<le> 2 ^ wt n * (2 ^ lw n - 1)" using x by (intro mult_left_mono) simp_all
  with IH x show ?case by (simp add: lval_Suc wt_Suc power_add algebra_simps)
qed (simp add: lval_def)

lemma proper_first:
  assumes "proper n x" "0 < n"
  shows "x 0 \<le> lval n x"
proof -
  have "2 ^ wt 0 * x 0 \<le> lval n x"
    unfolding lval_def using assms by (intro member_le_sum) (auto simp: proper_def)
  then show ?thesis by (simp add: wt_def)
qed

lemma limb_mask_lw: "limb_mask i = mask (lw i)"
  by (simp add: limb_mask_def lw_def mask_numeral and_one_eq odd_iff_mod_2_eq_one)

lemma sint_and_mask:
  fixes a :: s32
  assumes "k < 32"
  shows "sint (a AND mask k) = sint a mod 2 ^ k"
proof -
  have "\<not> bit (a AND mask k) 31" using assms by (simp add: bit_and_iff bit_mask_iff)
  then have "sint (a AND mask k) = uint (take_bit k a)" by (simp add: sint_pos take_bit_eq_mask)
  also have "\<dots> = take_bit k (uint a)" by (simp add: unsigned_take_bit_eq)
  also have "\<dots> = take_bit k (sint a)"
    using assms by (intro bit_eqI) (auto simp: bit_take_bit_iff bit_uint_iff bit_sint_iff)
  finally show ?thesis by (simp add: take_bit_eq_mod)
qed

lemma carry_limb32_sv:
  assumes len: "length t = 10" "i < 9" and x: "\<bar>sv t i\<bar> \<le> 2 ^ 27" "\<bar>sv t (Suc i)\<bar> \<le> 2 ^ 27"
    and c: "\<bar>sv t i div 2 ^ lw i\<bar> \<le> 4"
  shows "length (carry_limb32 t i) = 10 \<and> sv (carry_limb32 t i)
    = (sv t)(i := sv t i - sv t i div 2 ^ lw i * 2 ^ lw i, Suc i := sv t (Suc i) + sv t i div 2 ^ lw i)"
proof -
  let ?c = "signed_drop_bit (lw i) (t ! i)"
  have "sbnd ?c (sv t i div 2 ^ lw i) 4"
    using c by (simp add: sbnd_def sv_def sint_signed_drop_bit_eq drop_bit_eq_div)
  then have "sbnd (t ! Suc i + ?c) (sv t (Suc i) + sv t i div 2 ^ lw i) (2 ^ 27 + 4)"
    using x(2) by (intro sbnd_add) (simp_all add: sbnd_def sv_def)
  then have b: "sint (t ! Suc i + ?c) = sv t (Suc i) + sv t i div 2 ^ lw i" by (simp add: sbnd_def)
  have a: "sint (t ! i AND mask (lw i)) = sv t i - sv t i div 2 ^ lw i * 2 ^ lw i"
    using lw_cases [of i] by (subst sint_and_mask) (auto simp: sv_def minus_div_mult_eq_mod)
  have "carry_limb32 t i = t[i := t ! i AND mask (lw i), Suc i := t ! Suc i + ?c]"
    by (simp add: carry_limb32_def Let_def limb_width_lw limb_mask_lw)
  with len a b show ?thesis by (simp add: fun_eq_iff sv_def)
qed

lemma carry_top32_sv:
  assumes len: "length t = 10" and x: "\<bar>sv t 0\<bar> \<le> 2 ^ 27" and c: "\<bar>sv t 9 div 2 ^ 25\<bar> \<le> 4"
  shows "length (carry_top32 t) = 10 \<and> sv (carry_top32 t)
    = (sv t)(9 := sv t 9 - sv t 9 div 2 ^ 25 * 2 ^ 25, 0 := sv t 0 + 19 * (sv t 9 div 2 ^ 25))"
proof -
  let ?c = "signed_drop_bit 25 (t ! 9)"
  have "sbnd ?c (sv t 9 div 2 ^ 25) 4"
    using c by (simp add: sbnd_def sv_def sint_signed_drop_bit_eq drop_bit_eq_div)
  then have "sbnd (t ! 0 + 19 * ?c) (sv t 0 + 19 * (sv t 9 div 2 ^ 25)) (2 ^ 27 + 19 * 4)"
    using x by (intro sbnd_add sbnd_mult sbnd_numeral) (simp_all add: sbnd_def sv_def)
  then have b: "sint (t ! 0 + 19 * ?c) = sv t 0 + 19 * (sv t 9 div 2 ^ 25)" by (simp add: sbnd_def)
  have m: "0x1ffffff = (mask 25 :: s32)" by (simp add: mask_numeral)
  have a: "sint (t ! 9 AND 0x1ffffff) = sv t 9 - sv t 9 div 2 ^ 25 * 2 ^ 25"
    unfolding m by (subst sint_and_mask) (auto simp: sv_def minus_div_mult_eq_mod)
  have "carry_top32 t = t[9 := t ! 9 AND 0x1ffffff, 0 := t ! 0 + 19 * ?c]"
    by (simp add: carry_top32_def Let_def)
  with len a b show ?thesis by (simp add: fun_eq_iff sv_def nth_list_update)
qed

definition carry_inv :: "int \<Rightarrow> nat \<Rightarrow> s32 list \<Rightarrow> bool" where
  "carry_inv V j t \<longleftrightarrow> length t = 10 \<and> lval 10 (sv t) = V \<and> proper j (sv t)
     \<and> 0 \<le> sv t j \<and> sv t j \<le> 2 ^ 26 + 64 \<and> (\<forall>i. j < i \<and> i < 10 \<longrightarrow> 0 \<le> sv t i \<and> sv t i < 2 ^ 26)"

lemma div_lw_bounds:
  fixes x :: int
  assumes "0 \<le> x" "x \<le> 2 ^ 26 + 64"
  shows "0 \<le> x div 2 ^ lw i" "x div 2 ^ lw i \<le> 2"
proof -
  show "0 \<le> x div 2 ^ lw i" using assms(1) by (simp add: pos_imp_zdiv_nonneg_iff)
  have "x div 2 ^ lw i \<le> (2 ^ 26 + 64) div 2 ^ lw i" using assms(2) by (rule zdiv_mono1) simp
  also have "\<dots> \<le> 2" using lw_cases [of i] by auto
  finally show "x div 2 ^ lw i \<le> 2" .
qed

lemma carry_step:
  assumes "carry_inv V j t" "j < 9"
  shows "carry_inv V (Suc j) (carry_limb32 t j)"
proof -
  note inv = assms(1) [unfolded carry_inv_def]
  let ?x = "sv t j" and ?c = "sv t j div 2 ^ lw j"
  have c: "0 \<le> ?c" "?c \<le> 2" by (rule div_lw_bounds; use inv in simp)+
  have sj: "0 \<le> sv t (Suc j)" "sv t (Suc j) < 2 ^ 26" using inv assms(2) by auto
  have bj: "\<bar>?x\<bar> \<le> 2 ^ 27" using inv by simp
  have bs: "\<bar>sv t (Suc j)\<bar> \<le> 2 ^ 27" and c4: "\<bar>?c\<bar> \<le> 4" using c sj by simp_all
  have u: "length (carry_limb32 t j) = 10"
    "sv (carry_limb32 t j) = (sv t)(j := ?x - ?c * 2 ^ lw j, Suc j := sv t (Suc j) + ?c)"
    using carry_limb32_sv [OF _ assms(2) bj bs c4] inv by simp_all
  have "0 \<le> ?x mod 2 ^ lw j" "?x mod 2 ^ lw j < 2 ^ lw j" by simp_all
  then have "proper (Suc j) (sv (carry_limb32 t j))"
    using inv by (auto simp: proper_def u(2) less_Suc_eq minus_div_mult_eq_mod)
  moreover have "lval 10 (sv (carry_limb32 t j)) = V" using inv assms(2) by (simp add: u(2) lval_move)
  ultimately show ?thesis using u(1) c sj inv by (simp add: carry_inv_def u(2))
qed

definition carry_pass :: "s32 list \<Rightarrow> s32 list" where
  "carry_pass t = carry_top32 (foldl carry_limb32 t [0..<9])"

text \<open>
  A carry pass folds the value: what exceeds 255 bits comes back multiplied by 19. It is added
  to the first of limbs that are otherwise within their widths.
\<close>

lemma carry_pass_spec:
  assumes "length t = 10" "0 \<le> sv t 0" "sv t 0 \<le> 2 ^ 26 + 64" "\<forall>i. 0 < i \<and> i < 10 \<longrightarrow> 0 \<le> sv t i \<and> sv t i < 2 ^ 26"
  obtains y c where "length (carry_pass t) = 10" "proper 10 y" "0 \<le> c" "c \<le> 2"
    "lval 10 (sv t) = lval 10 y + c * 2 ^ 255" "sv (carry_pass t) = y(0 := y 0 + 19 * c)"
proof -
  define u where "u = foldl carry_limb32 t [0..<9]"
  have "carry_inv (lval 10 (sv t)) 0 t" using assms by (simp add: carry_inv_def proper_def)
  then have inv: "carry_inv (lval 10 (sv t)) 9 u"
    unfolding u_def by (rule foldl_upt_invariant) (rule carry_step)
  note i = this [unfolded carry_inv_def]
  define c where "c = sv u 9 div 2 ^ 25"
  have c: "0 \<le> c" "c \<le> 2" using div_lw_bounds [of "sv u 9" 1] i by (simp_all add: c_def lw_def)
  have "0 \<le> sv u 0 \<and> sv u 0 < 2 ^ lw 0" using i unfolding proper_def by simp
  then have "0 \<le> sv u 0" "sv u 0 < 2 ^ 26" by (simp_all add: lw_def)
  then have p: "length (carry_pass t) = 10"
    "sv (carry_pass t) = (sv u)(9 := sv u 9 - c * 2 ^ 25, 0 := sv u 0 + 19 * c)"
    using carry_top32_sv [of u] i c by (auto simp: c_def carry_pass_def u_def)
  let ?y = "(sv u)(9 := sv u 9 - c * 2 ^ 25)"
  have "0 \<le> sv u 9 mod 2 ^ 25" "sv u 9 mod 2 ^ 25 < 2 ^ 25" by simp_all
  then have "proper 10 ?y" using i
    by (auto simp: proper_def c_def lw_def minus_div_mult_eq_mod)
  moreover have "lval 10 (sv t) = lval 10 ?y + c * 2 ^ 255"
    using i lval_upd_top [of 9 "sv u" "sv u 9 - c * 2 ^ 25"] by (simp add: wt_def)
  ultimately show ?thesis using that [of ?y c] c p by simp
qed

lemma carry_passes:
  assumes "length t = 10" "\<forall>i<10. 0 \<le> sv t i \<and> sv t i < 2 ^ 26"
  defines "u \<equiv> carry_pass (carry_pass t)"
  shows "length u = 10 \<and> proper 10 (sv u) \<and> feq (lval 10 (sv u)) (lval 10 (sv t))"
proof -
  have t0: "0 \<le> sv t 0" "sv t 0 \<le> 2 ^ 26 + 64" using assms(2) [rule_format, of 0] by simp_all
  have ti: "\<forall>i. 0 < i \<and> i < 10 \<longrightarrow> 0 \<le> sv t i \<and> sv t i < 2 ^ 26" using assms(2) by blast
  obtain y c where y: "length (carry_pass t) = 10" "proper 10 y" "0 \<le> c" "c \<le> 2"
    "lval 10 (sv t) = lval 10 y + c * 2 ^ 255" "sv (carry_pass t) = y(0 := y 0 + 19 * c)"
    using assms(1) t0 ti by (rule carry_pass_spec)
  have y0: "0 \<le> y 0 \<and> y 0 < 2 ^ lw 0" using y(2) unfolding proper_def by simp
  have yi: "0 \<le> y i \<and> y i < 2 ^ 26" if "i < 10" for i
    using y(2) that lw_cases [of i] by (auto simp: proper_def dest!: spec [of _ i])
  have s0: "0 \<le> sv (carry_pass t) 0" "sv (carry_pass t) 0 \<le> 2 ^ 26 + 64"
    using y0 y(3,4) by (simp_all add: y(6) lw_def)
  have si: "\<forall>i. 0 < i \<and> i < 10 \<longrightarrow> 0 \<le> sv (carry_pass t) i \<and> sv (carry_pass t) i < 2 ^ 26"
    using yi by (simp add: y(6))
  obtain z d where z: "length u = 10" "proper 10 z" "0 \<le> d" "d \<le> 2"
    "lval 10 (sv (carry_pass t)) = lval 10 z + d * 2 ^ 255" "sv u = z(0 := z 0 + 19 * d)"
    unfolding u_def using y(1) s0 si by (rule carry_pass_spec)
  have ly: "0 \<le> lval 10 y" "lval 10 y < 2 ^ 255" and lz: "0 \<le> lval 10 z" "lval 10 z < 2 ^ 255"
    using proper_lval [OF y(2)] proper_lval [OF z(2)] by (simp_all add: wt_def)
  have V1: "lval 10 (sv (carry_pass t)) = lval 10 y + 19 * c" by (simp add: y(6) lval_upd_0)
  have "z 0 + 19 * d < 2 ^ 26"
  proof (cases "d = 0")
    case True
    then show ?thesis using z(2) unfolding proper_def by (auto simp: lw_def dest!: spec [of _ 0])
  next
    case False
    then have "1 \<le> d" using z(3) by simp
    then have "lval 10 z < 38" using z(5) V1 ly y(4) by simp
    then have "z 0 < 38" using proper_first [OF z(2)] by simp
    then show ?thesis using z(4) by simp
  qed
  moreover have "0 \<le> z 0" using z(2) unfolding proper_def by (auto dest!: spec [of _ 0])
  ultimately have "proper 10 (sv u)" using z(2,3) by (auto simp: z(6) proper_def lw_def)
  moreover have "lval 10 (sv u) = lval 10 (sv t) + (- c - d) * p25519"
    using z(5) V1 y(5) by (simp add: z(6) lval_upd_0 p25519_def algebra_simps)
  then have "feq (lval 10 (sv u)) (lval 10 (sv t))" by (rule feq_modulus)
  ultimately show ?thesis using z(1) by simp
qed

section \<open>The modulus\<close>

text \<open>Folding a word onto itself collects the bits at a set of distances.\<close>

lemma and_shift:
  fixes w z :: s32
  assumes "\<forall>n. l \<le> n \<and> n < 32 \<longrightarrow> bit w n = (\<forall>k\<in>S. bit z (n - k))"
  shows "\<forall>n. l + s \<le> n \<and> n < 32 \<longrightarrow>
    bit (w AND push_bit s w) n = (\<forall>k\<in>S \<union> (\<lambda>k. s + k) ` S. bit z (n - k))"
proof (intro allI impI)
  fix n assume n: "l + s \<le> n \<and> n < 32"
  then have "bit w (n - s) = (\<forall>k\<in>S. bit z (n - s - k))" 
    using assms [rule_format, of "n - s"] by linarith
  with n assms show "bit (w AND push_bit s w) n = (\<forall>k\<in>S \<union> (\<lambda>k. s + k) ` S. bit z (n - k))"
    by (auto simp: bit_and_iff bit_push_bit_iff)
qed

lemma s32_eq_spec: "s32_eq a b = (if a = b then - 1 else 0)"
proof -
  define z where "z = NOT (a XOR b)"
  define r where "r = (let a = z; a = a AND push_bit 16 a; a = a AND push_bit 8 a; a = a AND push_bit 4 a;
          a = a AND push_bit 2 a in a AND push_bit 1 a)"
  have z: "\<forall>n. 0 \<le> n \<and> n < 32 \<longrightarrow> bit z n = (\<forall>k\<in>{0}. bit z (n - k))" by simp
  note fold = and_shift [OF and_shift [OF and_shift [OF and_shift [OF and_shift [OF z, of 16], of 8], of 4], of 2], of 1]
  let ?f = "\<lambda>s S. S \<union> (\<lambda>k. s + k) ` S :: nat set"
  have S: "?f 1 (?f 2 (?f 4 (?f 8 (?f 16 {0})))) = set [0..<32]" by code_simp
  have all: "(\<forall>k\<in>set [0..<32]. bit z (31 - k)) \<longleftrightarrow> (\<forall>n<32. bit z n)"
  proof (intro iffI allI impI)
    fix n :: nat assume a: "\<forall>k\<in>set [0..<32]. bit z (31 - k)" and n: "n < 32"
    from n have "31 - n \<in> set [0..<32]" by simp
    from bspec [OF a this] n show "bit z n" by simp
  qed simp
  have "bit r 31 \<longleftrightarrow> (\<forall>k\<in>set [0..<32]. bit z (31 - k))"
    unfolding r_def Let_def using fold [unfolded S, rule_format, of 31] by simp
  also have "\<dots> \<longleftrightarrow> (\<forall>n<32. bit z n)" by (rule all)
  also have "\<dots> \<longleftrightarrow> a = b"
    by (auto simp: z_def bit_not_iff bit_xor_iff intro!: bit_word_eqI)
  finally have "bit r 31 \<longleftrightarrow> a = b" .
  then have "sint r < 0 \<longleftrightarrow> a = b" using bit_last_iff [of r] by simp
  moreover have "s32_eq a b = signed_drop_bit 31 r" by (simp add: s32_eq_def r_def z_def Let_def)
  ultimately show ?thesis by (simp add: sign_mask32)
qed

lemma s32_gte_spec:
  assumes "\<bar>sint a - sint b\<bar> < 2 ^ 31"
  shows "s32_gte a b = (if sint b \<le> sint a then - 1 else 0)"
proof -
  have "sint (a - b) = sint a - sint b" using assms by (intro sint_diff_small) simp
  then show ?thesis by (simp add: s32_gte_def sign_mask32)
qed

lemma modulus_mask_spec:
  assumes "length t = 10" "proper 10 (sv t)"
  shows "modulus_mask t = (if 2 ^ 26 - 19 \<le> sv t 0 \<and> (\<forall>i\<in>{1..<10}. t ! i = limb_mask i) then - 1 else 0)"
proof -
  have fold: "foldl (\<lambda>m i. m AND s32_eq (t ! i) (limb_mask i)) m is
    = (if \<forall>i\<in>set is. t ! i = limb_mask i then m else 0)" for m "is"
    by (induction "is" arbitrary: m) (auto simp: s32_eq_spec)
  have "0 \<le> sv t 0 \<and> sv t 0 < 2 ^ lw 0" using assms(2) unfolding proper_def by simp
  then have "\<bar>sint (t ! 0) - sint (0x3ffffed :: s32)\<bar> < 2 ^ 31" by (auto simp: sv_def lw_def)
  then have "s32_gte (t ! 0) 0x3ffffed = (if sint (0x3ffffed :: s32) \<le> sint (t ! 0) then - 1 else 0)"
    by (rule s32_gte_spec)
  then have g: "s32_gte (t ! 0) 0x3ffffed = (if 2 ^ 26 - 19 \<le> sv t 0 then - 1 else 0)" by (simp add: sv_def)
  show ?thesis unfolding modulus_mask_def fold g set_upt by auto
qed

text \<open>A number of proper limbs reaches the modulus exactly when the mask is all ones.\<close>

definition top_limb :: "nat \<Rightarrow> int" where
  "top_limb i = (if i = 0 then 2 ^ 26 - 19 else 2 ^ lw i - 1)"

lemma lval_top_limb: "lval 10 top_limb = p25519"
  by (simp add: eval_lval top_limb_def lw_def p25519_def)

lemma lval_mono: "(\<And>i. i < n \<Longrightarrow> x i \<le> y i) \<Longrightarrow> lval n x \<le> lval n y"
  unfolding lval_def by (intro sum_mono mult_left_mono) simp_all

lemma proper_ge_modulus:
  assumes "proper 10 x"
  shows "p25519 \<le> lval 10 x \<longleftrightarrow> 2 ^ 26 - 19 \<le> x 0 \<and> (\<forall>i\<in>{1..<10}. x i = 2 ^ lw i - 1)"
proof
  assume "2 ^ 26 - 19 \<le> x 0 \<and> (\<forall>i\<in>{1..<10}. x i = 2 ^ lw i - 1)"
  then have "lval 10 top_limb \<le> lval 10 x" by (intro lval_mono) (auto simp: top_limb_def)
  then show "p25519 \<le> lval 10 x" by (simp add: lval_top_limb)
next
  assume ge: "p25519 \<le> lval 10 x"
  have max: "x i = 2 ^ lw i - 1" if i: "i \<in> {1..<10}" for i
  proof (rule ccontr)
    assume ne: "x i \<noteq> 2 ^ lw i - 1"
    let ?m = "\<lambda>i. 2 ^ lw i - 1 :: int"
    have "0 \<le> x i \<and> x i < 2 ^ lw i" using assms i unfolding proper_def by simp
    with ne have "x i \<le> ?m i - 1" by simp
    moreover have "x j \<le> ?m j" if "j < 10" for j using assms that by (simp add: proper_def)
    ultimately have "lval 10 x \<le> lval 10 (?m(i := ?m i - 1))" by (intro lval_mono) auto
    also have "\<dots> = lval 10 ?m - 2 ^ wt i"
    proof -
      have "lval 10 (f(i := v)) = lval 10 f + 2 ^ wt i * (v - f i)" for f :: "nat \<Rightarrow> int" and v
        using i unfolding lval_def by (subst (1 2) sum.remove [of _ i]) (auto simp: algebra_simps)
      then show ?thesis by simp
    qed
    also have "lval 10 ?m = 2 ^ 255 - 1" by (simp add: eval_lval lw_def)
    finally have le: "lval 10 x \<le> 2 ^ 255 - 1 - 2 ^ wt i" .
    define W where "W = (2::int) ^ wt i"
    have "2 ^ 26 \<le> W" unfolding W_def using i by (intro power_increasing) (auto simp: wt_def)
    with le [folded W_def] show False using ge by (simp add: p25519_def)
  qed
  have "lval 10 x = lval 10 (top_limb(0 := x 0))" using max by (intro lval_cong) (auto simp: top_limb_def)
  also have "\<dots> = p25519 + (x 0 - (2 ^ 26 - 19))" by (simp add: lval_upd_0 lval_top_limb top_limb_def)
  finally show "2 ^ 26 - 19 \<le> x 0 \<and> (\<forall>i\<in>{1..<10}. x i = 2 ^ lw i - 1)" using ge max by simp
qed

lemma limb_mask_sint: "sint (limb_mask i) = 2 ^ lw i - 1"
  using lw_cases [of i] sint_and_mask [of "lw i" "- 1"] by (auto simp: limb_mask_lw)

lemma sub_modulus_nth:
  assumes "length t = 10"
  shows "length (sub_modulus t) = 10"
    and "i < 10 \<Longrightarrow> sub_modulus t ! i = t ! i - (modulus_mask t AND (if i = 0 then 0x3ffffed else limb_mask i))"
proof -
  let ?m = "modulus_mask t"
  have fold: "length (foldl (\<lambda>t i. t[i := t ! i - (m AND limb_mask i)]) u [1..<n]) = length u \<and>
    (\<forall>i. foldl (\<lambda>t i. t[i := t ! i - (m AND limb_mask i)]) u [1..<n] ! i
       = (if 1 \<le> i \<and> i < n then u ! i - (m AND limb_mask i) else u ! i))" if "n \<le> length u" for m u n
    using that
  proof (induction n)
    case (Suc n)
    then show ?case by (cases "n = 0") (auto simp: nth_list_update)
  qed simp
  from fold [of 10 "t[0 := t ! 0 - (?m AND 0x3ffffed)]" ?m] assms
  show "length (sub_modulus t) = 10"
    and "i < 10 \<Longrightarrow> sub_modulus t ! i = t ! i - (?m AND (if i = 0 then 0x3ffffed else limb_mask i))"
    unfolding sub_modulus_def Let_def by (auto simp: nth_list_update not_less_eq_eq)
qed

lemma sub_modulus_spec:
  assumes "length t = 10" "proper 10 (sv t)"
  shows "length (sub_modulus t) = 10 \<and> proper 10 (sv (sub_modulus t))
    \<and> lval 10 (sv (sub_modulus t)) = lval 10 (sv t) mod p25519"
proof -
  let ?V = "lval 10 (sv t)"
  have V: "0 \<le> ?V" "?V < 2 ^ 255" using proper_lval [OF assms(2)] by (simp_all add: wt_def)
  have eq: "(t ! i = limb_mask i) = (sv t i = 2 ^ lw i - 1)" for i
    by (metis limb_mask_sint signed_word_eqI sv_def)
  note mask = modulus_mask_spec [OF assms, unfolded eq, folded proper_ge_modulus [OF assms(2)]]
  note nth = sub_modulus_nth [OF assms(1)]
  show ?thesis
  proof (cases "p25519 \<le> ?V")
    case True
    have x: "2 ^ 26 - 19 \<le> sv t 0" "sv t 0 < 2 ^ 26" "\<And>i. i \<in> {1..<10} \<Longrightarrow> sv t i = 2 ^ lw i - 1"
      using True assms(2) unfolding proper_ge_modulus [OF assms(2)] by (auto simp: proper_def lw_def dest!: spec [of _ 0])
    have s0: "sv (sub_modulus t) 0 = sv t 0 - top_limb 0"
    proof -
      have "sint (t ! 0 - 0x3ffffed) = sint (t ! 0) - sint (0x3ffffed :: s32)"
        using x(1,2) by (intro sint_diff_small) (simp add: sv_def)
      then show ?thesis using nth(2) [of 0] mask True by (simp add: sv_def top_limb_def)
    qed
    have si: "sv (sub_modulus t) i = sv t i - top_limb i" if "i \<in> {1..<10}" for i
    proof -
      have "t ! i = limb_mask i" using x(3) [OF that] eq by simp
      then show ?thesis using that nth(2) [of i] mask True x(3) by (simp add: sv_def top_limb_def limb_mask_sint)
    qed
    have s: "sv (sub_modulus t) i = sv t i - top_limb i" if "i < 10" for i using s0 si that by (cases "i = 0") auto
    have "lval 10 (sv (sub_modulus t)) = lval 10 (\<lambda>i. sv t i - top_limb i)" using s by (rule lval_cong)
    also have "\<dots> = ?V - p25519" by (simp add: lval_linear lval_top_limb)
    also have "\<dots> = ?V mod p25519"
    proof -
      have "(?V - p25519) mod p25519 = ?V - p25519" using True V by (intro mod_pos_pos_trivial) (simp_all add: p25519_def)
      then show ?thesis by simp
    qed
    finally show ?thesis using nth(1) s s0 si x by (auto simp: proper_def top_limb_def lw_def)
  next
    case False
    then have "sv (sub_modulus t) i = sv t i" if "i < 10" for i using nth(2) [OF that] mask by (simp add: sv_def)
    then have "lval 10 (sv (sub_modulus t)) = ?V" "proper 10 (sv (sub_modulus t))"
      using assms(2) by (auto simp: proper_def intro: lval_cong)
    with False V nth(1) show ?thesis by simp
  qed
qed

section \<open>Packing\<close>

lemma low_byte: "ucast (x AND 0xff :: s32) = (ucast x :: u8)"
proof -
  have m: "0xff = (mask 8 :: s32)" by (simp add: mask_numeral)
  show ?thesis unfolding m by (intro bit_word_eqI) (auto simp: bit_ucast_iff bit_and_iff bit_mask_iff)
qed

lemma shifted_byte:
  assumes "k \<le> 24"
  shows "(ucast (signed_drop_bit k x) :: u8) = of_nat (unat (x :: s32) div 2 ^ k)"
proof (rule bit_word_eqI)
  fix n assume "n < LENGTH(8)"
  then have n: "n < 8" by simp
  have "unat x div 2 ^ k = unat (drop_bit k x)" by (simp add: unat_drop_bit_eq drop_bit_eq_div [where 'a = nat])
  then have "of_nat (unat x div 2 ^ k) = (ucast (drop_bit k x) :: u8)" by (simp only: of_nat_unat)
  with n assms show "bit (ucast (signed_drop_bit k x) :: u8) n = bit (of_nat (unat x div 2 ^ k) :: u8) n"
    by (auto simp: bit_ucast_iff bit_signed_drop_bit_iff bit_drop_bit_eq)
qed

lemma store_limb32_bytes:
  "store_limb32 out s x =
     out[s := out ! s OR of_nat (unat x), s + 1 := of_nat (unat x div 256),
       s + 2 := of_nat (unat x div 65536), s + 3 := of_nat (unat x div 16777216)]"
  using shifted_byte [of 8 x] shifted_byte [of 16 x] shifted_byte [of 24 x] shifted_byte [of 0 x]
  by (simp add: store_limb32_def Let_def low_byte)

lemma le_val_take_Suc: "n < length b \<Longrightarrow> le_val (take (Suc n) b) = le_val (take n b) + 256 ^ n * unat (b ! n)"
  by (simp add: take_Suc_conv_app_nth le_val_append)

lemma four_bytes:
  assumes "y < 2 ^ 32"
  shows "y mod 256 + 256 * (y div 256 mod 256 + 256 * (y div 65536 mod 256 + 256 * (y div 16777216))) = (y::nat)"
    and "y div 16777216 mod 256 = y div 16777216"
proof -
  have q: "y div 65536 = y div 256 div 256" "y div 16777216 = y div 256 div 256 div 256"
    by (simp_all flip: div_mult2_eq)
  have sum: "r0 + 256 * (r1 + 256 * (r2 + 256 * q3)) = y"
    if "256 * q1 + r0 = y" "256 * q2 + r1 = q1" "256 * q3 + r2 = q2" for q1 q2 q3 r0 r1 r2 y :: nat
    using that by simp
  show "y mod 256 + 256 * (y div 256 mod 256 + 256 * (y div 65536 mod 256 + 256 * (y div 16777216))) = y"
    unfolding q by (rule sum; rule mult_div_mod_eq)
  show "y div 16777216 mod 256 = y div 16777216" using assms by (simp add: less_mult_imp_div_less)
qed

text \<open>
  Storing a limb: the bytes up to the one it starts in hold a number below the limb's weight,
  and the limb's bits are added above it.
\<close>

lemma store_limb32_val:
  assumes len: "s + 3 < length out" and w: "w = 8 * s + r" "r < 8" "r + k \<le> 32"
    and P: "le_val (take (Suc s) out) = P" "P < 2 ^ w" and x: "unat x < 2 ^ k"
  defines "u \<equiv> store_limb32 out s (push_bit r x)"
  shows "le_val (take (s + 4) u) = P + 2 ^ w * unat x \<and> length u = length out
    \<and> (\<forall>j. s + 4 \<le> j \<longrightarrow> u ! j = out ! j)"
proof -
  define y where "y = unat x * 2 ^ r"
  have "y < 2 ^ k * 2 ^ r" using x by (simp add: y_def)
  also have "\<dots> = 2 ^ (r + k)" by (simp add: power_add)
  also have "\<dots> \<le> 2 ^ 32" using w(3) by (intro power_increasing) simp_all
  finally have y: "y < 2 ^ 32" .
  have py: "unat (push_bit r x) = y"
    using y unfolding y_def by (simp add: unsigned_push_bit_eq push_bit_eq_mult [where 'a = nat] take_bit_nat_eq_self)
  have u: "u = out[s := out ! s OR of_nat y, s + 1 := of_nat (y div 256),
      s + 2 := of_nat (y div 65536), s + 3 := of_nat (y div 16777216)]"
    unfolding u_def store_limb32_bytes py ..
  have P': "le_val (take s out) + 256 ^ s * unat (out ! s) = P" using P(1) len by (simp add: le_val_take_Suc)
  have low: "unat (out ! s) < 2 ^ r"
  proof -
    have "256 ^ s * unat (out ! s) \<le> P" using P' by linarith
    also have "\<dots> < 256 ^ s * 2 ^ r" using P(2) by (simp add: w(1) power_add power_mult)
    finally show ?thesis by simp
  qed
  have "ubnd (out ! s OR of_nat y) (unat (out ! s) + y mod 256) 255"
  proof -
    have "y mod 256 = unat x * 2 ^ r mod (2 ^ (8 - r) * 2 ^ r)"
      using w(2) by (simp add: y_def flip: power_add)
    then have m: "y mod 256 = unat x mod 2 ^ (8 - r) * 2 ^ r" by (simp add: mult_mod_left)
    have "ubnd (out ! s OR of_nat y) (unat (out ! s) + unat x mod 2 ^ (8 - r) * 2 ^ r) (2 ^ r - 1 + 255)"
      using low by (intro ubnd_or_disjoint) (auto simp: ubnd_def unat_of_nat take_bit_eq_mod simp flip: m)
    moreover have "unat (out ! s OR of_nat y) \<le> 255" using unat_u8_less [of "out ! s OR of_nat y"] by simp
    ultimately show ?thesis by (simp add: ubnd_def m)
  qed
  then have b0: "unat (out ! s OR of_nat y) = unat (out ! s) + y mod 256" by (rule ubnd_unat)
  have "le_val (take (s + 4) u) = le_val (take s out) + 256 ^ s * (unat (out ! s) + y)"
  proof -
    have "take 4 (drop s u) = map (\<lambda>i. u ! (s + i)) [0..<4]"
      using len by (intro nth_equalityI) (auto simp: u)
    also have "[0..<4] = [0, 1, 2, 3]" by (simp add: upt_rec)
    finally have "le_val (take (s + 4) u) = le_val (take s u)
        + 256 ^ s * le_val [u ! s, u ! (s + 1), u ! (s + 2), u ! (s + 3)]"
      using len by (simp only: take_add le_val_append list.map) (simp add: u)
    moreover have "take s u = take s out" by (simp add: u)
    moreover have "le_val [u ! s, u ! (s + 1), u ! (s + 2), u ! (s + 3)] = unat (out ! s) + y"
      using four_bytes [OF y] len b0 by (simp add: u nth_list_update unat_of_nat take_bit_eq_mod)
    ultimately show ?thesis by simp
  qed
  moreover have "2 ^ w * unat x = 256 ^ s * y" by (simp add: w(1) power_add power_mult y_def)
  moreover have "length u = length out" "\<forall>j. s + 4 \<le> j \<longrightarrow> u ! j = out ! j" by (simp_all add: u)
  ultimately show ?thesis using P' by (simp add: distrib_left)
qed

text \<open>The state of the packing before limb \<open>i\<close>, which starts in byte \<open>s\<close>.\<close>

definition pack_inv :: "(nat \<Rightarrow> int) \<Rightarrow> nat \<Rightarrow> nat \<Rightarrow> bytes \<Rightarrow> bool" where
  "pack_inv x i s out \<longleftrightarrow> length out = 32 \<and> int (le_val (take (Suc s) out)) = lval i x \<and> (i \<le> 5 \<longrightarrow> out ! 16 = 0)"

lemma pack_step:
  assumes inv: "pack_inv (sv t) i s out" and x: "proper 10 (sv t)" "i < 10"
    and s: "wt i = 8 * s + r" "r < 8" "s + 3 < 32" "i \<le> 4 \<Longrightarrow> s + 3 < 16" "r + lw i \<le> 32"
  shows "pack_inv (sv t) (Suc i) (s + 3) (store_limb32 out s (push_bit r (t ! i)))"
    and "i = 4 \<Longrightarrow> s = 12 \<Longrightarrow> pack_inv (sv t) (Suc i) (s + 4) (store_limb32 out s (push_bit r (t ! i)))"
proof -
  let ?u = "store_limb32 out s (push_bit r (t ! i))"
  have len: "length out = 32" and val: "int (le_val (take (Suc s) out)) = lval i (sv t)"
    and z: "i \<le> 5 \<Longrightarrow> out ! 16 = 0"
    using inv by (simp_all add: pack_inv_def)
  have "proper i (sv t)" using x by (auto simp: proper_def)
  then have "int (le_val (take (Suc s) out)) < int (2 ^ wt i)" using proper_lval [of i "sv t"] val by simp
  then have P: "le_val (take (Suc s) out) < 2 ^ wt i" by (simp only: of_nat_less_iff)
  have xi: "0 \<le> sv t i" "sv t i < 2 ^ lw i" using x by (simp_all add: proper_def)
  then have "\<not> bit (t ! i) 31" using bit_last_iff [of "t ! i"] by (simp add: sv_def)
  then have ti: "int (unat (t ! i)) = sv t i" using sint_pos [of "t ! i"] by (simp add: sv_def)
  then have "int (unat (t ! i)) < int (2 ^ lw i)" using xi by simp
  then have "unat (t ! i) < 2 ^ lw i" by (simp only: of_nat_less_iff)
  from store_limb32_val [OF _ s(1,2,5) refl P this] len s(3)
  have u: "le_val (take (s + 4) ?u) = le_val (take (Suc s) out) + 2 ^ wt i * unat (t ! i)" "length ?u = 32"
    "\<And>j. s + 4 \<le> j \<Longrightarrow> ?u ! j = out ! j"
    by simp_all
  have v: "int (le_val (take (s + 4) ?u)) = lval (Suc i) (sv t)"
    unfolding u(1) lval_Suc using val ti by simp
  have sixteen: "?u ! 16 = 0" if "i \<le> 4" using u(3) [of 16] s(4) z that by simp
  then show "pack_inv (sv t) (Suc i) (s + 3) ?u" using u(2) v by (simp add: pack_inv_def numeral_eq_Suc)
  show "pack_inv (sv t) (Suc i) (s + 4) ?u" if "i = 4" "s = 12"
    using that u(2) v sixteen le_val_take_Suc [of 16 ?u] by (simp add: pack_inv_def)
qed

definition pack32 :: "bytes \<Rightarrow> s32 list \<Rightarrow> bytes" where
  "pack32 output t =
     (let out = output[0 := 0]; out = out[16 := 0];
          out = store_limb32 out 0 (push_bit 0 (t ! 0)); out = store_limb32 out 3 (push_bit 2 (t ! 1));
          out = store_limb32 out 6 (push_bit 3 (t ! 2)); out = store_limb32 out 9 (push_bit 5 (t ! 3));
          out = store_limb32 out 12 (push_bit 6 (t ! 4)); out = store_limb32 out 16 (push_bit 0 (t ! 5));
          out = store_limb32 out 19 (push_bit 1 (t ! 6)); out = store_limb32 out 22 (push_bit 3 (t ! 7));
          out = store_limb32 out 25 (push_bit 4 (t ! 8))
      in store_limb32 out 28 (push_bit 6 (t ! 9)))"

lemma pack32_spec:
  assumes "length buf = 32" "proper 10 (sv t)"
  shows "pack32 buf t = num_bytes 32 (nat (lval 10 (sv t)))"
proof -
  note step = pack_step(1) [OF _ assms(2)] and step4 = pack_step(2) [OF _ assms(2)]
  note side = wt_def lw_def numeral_2_eq_2 [symmetric]
  define o0 where "o0 = buf[0 := 0, 16 := 0]"
  define o1 where "o1 = store_limb32 o0 0 (push_bit 0 (t ! 0))"
  define o2 where "o2 = store_limb32 o1 3 (push_bit 2 (t ! 1))"
  define o3 where "o3 = store_limb32 o2 6 (push_bit 3 (t ! 2))"
  define o4 where "o4 = store_limb32 o3 9 (push_bit 5 (t ! 3))"
  define o5 where "o5 = store_limb32 o4 12 (push_bit 6 (t ! 4))"
  define o6 where "o6 = store_limb32 o5 16 (push_bit 0 (t ! 5))"
  define o7 where "o7 = store_limb32 o6 19 (push_bit 1 (t ! 6))"
  define o8 where "o8 = store_limb32 o7 22 (push_bit 3 (t ! 7))"
  define o9 where "o9 = store_limb32 o8 25 (push_bit 4 (t ! 8))"
  define o10 where "o10 = store_limb32 o9 28 (push_bit 6 (t ! 9))"
  have "take (Suc 0) o0 = [0]" using assms(1) by (cases buf) (simp_all add: o0_def)
  then have 0: "pack_inv (sv t) 0 0 o0" using assms(1) by (simp add: pack_inv_def lval_def o0_def)
  have 1: "pack_inv (sv t) 1 3 o1" using step [OF 0, of 0] by (simp add: o1_def side)
  have 2: "pack_inv (sv t) 2 6 o2" using step [OF 1, of 2] by (simp add: o2_def side)
  have 3: "pack_inv (sv t) 3 9 o3" using step [OF 2, of 3] by (simp add: o3_def side)
  have 4: "pack_inv (sv t) 4 12 o4" using step [OF 3, of 5] by (simp add: o4_def side)
  have 5: "pack_inv (sv t) 5 16 o5" using step4 [OF 4, of 6] by (simp add: o5_def side)
  have 6: "pack_inv (sv t) 6 19 o6" using step [OF 5, of 0] by (simp add: o6_def side)
  have 7: "pack_inv (sv t) 7 22 o7" using step [OF 6, of 1] by (simp add: o7_def side)
  have 8: "pack_inv (sv t) 8 25 o8" using step [OF 7, of 3] by (simp add: o8_def side)
  have 9: "pack_inv (sv t) 9 28 o9" using step [OF 8, of 4] by (simp add: o9_def side)
  have 10: "pack_inv (sv t) 10 31 o10" using step [OF 9, of 6] by (simp add: o10_def side)
  from 10 have "int (le_val o10) = lval 10 (sv t)" "length o10 = 32" by (auto simp: pack_inv_def)
  then have "num_bytes 32 (nat (lval 10 (sv t))) = o10" by (metis nat_int num_bytes_le_val)
  then show ?thesis
    by (simp only: pack32_def Let_def o0_def o1_def o2_def o3_def o4_def o5_def o6_def o7_def o8_def o9_def o10_def)
qed

lemma length_foldl_update:
  assumes "\<And>t i. length (f t i) = length t"
  shows "length (foldl f t is) = length t"
  using assms by (induction "is" arbitrary: t) simp_all

lemma length_passes:
  "length (borrow_pass t) = length t" "length (carry_pass t) = length t"
  "length (borrow_limb t i) = length t" "length (sub_modulus t) = length t"
  by (simp_all add: borrow_pass_def carry_pass_def borrow_top_def carry_top32_def sub_modulus_def Let_def
      length_foldl_update borrow_limb_def carry_limb32_def)

lemma pack32_shifted:
  assumes "length t = 10"
  shows "(let t = t[1 := push_bit 2 (t ! 1)]; t = t[2 := push_bit 3 (t ! 2)];
          t = t[3 := push_bit 5 (t ! 3)]; t = t[4 := push_bit 6 (t ! 4)];
          t = t[6 := push_bit 1 (t ! 6)]; t = t[7 := push_bit 3 (t ! 7)];
          t = t[8 := push_bit 4 (t ! 8)]; t = t[9 := push_bit 6 (t ! 9)];
          out = buf[0 := 0]; out = out[16 := 0];
          out = store_limb32 out 0 (t ! 0); out = store_limb32 out 3 (t ! 1);
          out = store_limb32 out 6 (t ! 2); out = store_limb32 out 9 (t ! 3);
          out = store_limb32 out 12 (t ! 4); out = store_limb32 out 16 (t ! 5);
          out = store_limb32 out 19 (t ! 6); out = store_limb32 out 22 (t ! 7);
          out = store_limb32 out 25 (t ! 8)
      in store_limb32 out 28 (t ! 9)) = pack32 buf t"
  using assms by (simp add: pack32_def Let_def nth_list_update)

lemma fcontract32_pack:
  "fcontract32 buf f =
    pack32 buf (sub_modulus (carry_pass (carry_pass (borrow_limb (borrow_pass (borrow_pass
      (map (\<lambda>i. ucast (f ! i)) [0..<10]))) 0))))"
proof -
  have pass: "((\<lambda>t. borrow_top (foldl borrow_limb t [0..<9])) ^^ 2) t = borrow_pass (borrow_pass t)"
    "((\<lambda>t. carry_top32 (foldl carry_limb32 t [0..<9])) ^^ 2) t = carry_pass (carry_pass t)" for t
    by (simp_all add: borrow_pass_def carry_pass_def numeral_2_eq_2)
  show ?thesis unfolding fcontract32_def pass
    by (subst Let_def, subst Let_def, subst Let_def, subst Let_def, subst Let_def, rule pack32_shifted)
      (simp add: length_passes)
qed

lemma fcontract32_bytes:
  assumes "tight32 f" "length buf = 32"
  shows "fcontract32 buf f = num_bytes 32 (nat (fval32 f mod p25519))"
proof -
  define t where "t = map (\<lambda>i. ucast (f ! i) :: s32) [0..<10]"
  have lim: "sbnd (ucast (f ! i) :: s32) (sint (f ! i)) (2 ^ 26 - 1)" if "i < 10" for i
    using assms(1) that by (intro sbnd_low32) (auto simp: tight32_def limbs_bnd_def sbnd_def)
  have st: "sv t i = sint (f ! i)" "\<bar>sv t i\<bar> < 2 ^ 26" if "i < 10" for i
    using lim [OF that] that by (simp_all add: sbnd_def sv_def t_def)
  have V: "lval 10 (sv t) = fval32 f" unfolding fval32_def using st(1) by (rule lval_cong)
  have len: "length t = 10" by (simp add: t_def)
  define a where "a = borrow_pass t"
  have a: "length a = 10 \<and> feq (lval 10 (sv a)) (lval 10 (sv t))
    \<and> (\<forall>i<10. sv a i < 2 ^ 26 \<and> (if i = 0 then - 57 else 0) \<le> sv a i)"
    unfolding a_def using st(2) by (intro borrow_pass1 len) simp
  define b where "b = borrow_pass a"
  have b: "length b = 10 \<and> feq (lval 10 (sv b)) (lval 10 (sv a)) \<and> (\<forall>i<10. 0 \<le> sv b i \<and> sv b i < 2 ^ 26)"
    unfolding b_def using a by (intro borrow_pass2) simp_all
  define c where "c = borrow_limb b 0"
  have c: "length c = 10 \<and> sv c = sv b" unfolding c_def using b by (intro borrow_limb_nonneg) simp_all
  define d where "d = carry_pass (carry_pass c)"
  have d: "length d = 10 \<and> proper 10 (sv d) \<and> feq (lval 10 (sv d)) (lval 10 (sv c))"
    unfolding d_def using b c by (intro carry_passes) simp_all
  have e: "length (sub_modulus d) = 10 \<and> proper 10 (sv (sub_modulus d))
    \<and> lval 10 (sv (sub_modulus d)) = lval 10 (sv d) mod p25519"
    using d by (intro sub_modulus_spec) simp_all
  have "feq (lval 10 (sv d)) (lval 10 (sv t))" using a b c d by (metis feq_trans)
  then have "lval 10 (sv (sub_modulus d)) = fval32 f mod p25519" using e V by (simp add: feq_def)
  moreover have "pack32 buf (sub_modulus d) = num_bytes 32 (nat (lval 10 (sv (sub_modulus d))))"
    using e by (intro pack32_spec assms) simp
  ultimately show ?thesis
    unfolding fcontract32_pack d_def c_def b_def a_def t_def by simp
qed

section \<open>The curve\<close>

lemma fmonty32_eq:
  "fmonty32 x z x' z' q =
    (let xx = fsquare (fsum32 x z); zz = fsquare (fdifference_backwards32 z x);
         e = fdifference_backwards32 zz xx;
         a = fmul32 (fsum32 x' z') (fdifference_backwards32 z x);
         b = fmul32 (fsum32 x z) (fdifference_backwards32 z' x')
     in (fmul32 xx zz, fmul32 e (fsum32 (scale32 e) xx), fsquare (fsum32 a b),
         fmul32 (fsquare (fdifference_backwards32 b a)) q))"
  by (simp add: fmonty32_def scale32_def Let_def)

lemma unit32:
  "tight32 (replicate 10 0) \<and> fval32 (replicate 10 0) = 0"
  "tight32 ((replicate 10 0)[0 := 1]) \<and> fval32 ((replicate 10 0)[0 := 1]) = 1"
  by (auto simp: tight32_def limbs_bnd_def fval32_def eval_lval nth_list_update)

interpretation c32: ladder_impl fval32 tight32 loose32 fmul32 fsquare fsum32
  "\<lambda>a b. fdifference_backwards32 b a" scale32 crecip32 fexpand32 "fcontract32 (replicate 32 0)"
  "replicate 10 0" "(replicate 10 0)[0 := 1]" swap_conditional32 fmonty32 cmult32_bits
  by unfold_locales (simp_all only: crecip32_spec fexpand32_spec fcontract32_bytes length_replicate unit32
      swap_conditional32_spec fmonty32_eq cmult32_bits.simps simp_thms)

end
