(* ===== verification/CurveAgree.thy ===== *)
theory CurveAgree
  imports Curve25519 DonnaBytes
begin

text \<open>
  The functions on 32-byte numbers of the two implementations of Curve25519
  (\<^verbatim>\<open>src/plugins/utils/curve25519.c\<close>, \<^verbatim>\<open>src/plugins/utils/curve25519-donna.c\<close>) against each
  other and against the field: the curve functions agree, and \<^verbatim>\<open>fmul_donna\<close>, \<^verbatim>\<open>crecip_donna\<close>
  are multiplication and inversion modulo \<open>2 ^ 255 - 19\<close>.
\<close>

section \<open>Byte strings as field elements\<close>

definition fe :: "bytes \<Rightarrow> int" where
  "fe a = int (le_val a mod 2 ^ 255)"

definition fe_bytes :: "int \<Rightarrow> bytes" where
  "fe_bytes x = num_bytes 32 (nat (x mod p25519))"

lemma length_fe_bytes [simp]: "length (fe_bytes x) = 32"
  by (simp add: fe_bytes_def)

lemma fe_fe_bytes [simp]: "fe (fe_bytes x) = x mod p25519"
proof -
  have x: "0 \<le> x mod p25519" "x mod p25519 < 2 ^ 255"
    using pos_mod_bound [OF p25519_pos, of x] by (simp_all add: p25519_def)
  then have "nat (x mod p25519) < 2 ^ 255" by (simp add: nat_less_iff)
  with x show ?thesis by (simp add: fe_def fe_bytes_def le_val_num_bytes)
qed

lemma fe_bytes_cong: "feq x y \<Longrightarrow> fe_bytes x = fe_bytes y"
  by (simp add: fe_bytes_def feq_def)

text \<open>A byte string below the modulus is the canonical one of its value.\<close>

lemma fe_bytes_canonical:
  assumes "length a = 32" "int (le_val a) < p25519"
  shows "fe_bytes (fe a) = a"
proof -
  have "le_val a < 2 ^ 255" using assms(2) by (simp add: p25519_def)
  then have "nat (fe a mod p25519) = le_val a" using assms(2) by (simp add: fe_def)
  then show ?thesis using assms(1) by (simp add: fe_bytes_def num_bytes_le_val)
qed

lemma fmul_donna_eq:
  "length a = 32 \<Longrightarrow> length b = 32 \<Longrightarrow> fmul_donna a b = fe_bytes (fe a * fe b)"
  by (simp only: fmul_donna_def c32.bytes_mul fe_bytes_def fe_def)

lemma crecip_donna_eq:
  "length a = 32 \<Longrightarrow> crecip_donna a = fe_bytes (fe a ^ nat (p25519 - 2))"
  by (simp only: crecip_donna_def c32.bytes_recip fe_bytes_def fe_def)

lemma length_fmul_donna: "length a = 32 \<Longrightarrow> length b = 32 \<Longrightarrow> length (fmul_donna a b) = 32"
  by (simp add: fmul_donna_eq)

lemma length_crecip_donna: "length a = 32 \<Longrightarrow> length (crecip_donna a) = 32"
  by (simp add: crecip_donna_eq)

lemma crecip_fmul_cancel:
  assumes "length a = 32" "length b = 32" "fe a mod p25519 \<noteq> 0"
  shows "fmul_donna (crecip_donna a) (fmul_donna a b) = fe_bytes (fe b)"
    and "fmul_donna a (fmul_donna (crecip_donna a) b) = fe_bytes (fe b)"
proof -
  define r where "r = fe a ^ nat (p25519 - 2)"
  have "\<not> feq (fe a) 0" using assms(3) by (simp add: feq_def)
  then have "feq (r * fe a * fe b) (1 * fe b)" unfolding r_def by (intro feq_mult fermat_inverse feq_refl)
  then have inv: "feq (r * fe a * fe b) (fe b)" by simp
  have rec: "crecip_donna a = fe_bytes r" using assms(1) by (simp only: crecip_donna_eq r_def)
  have "feq ((r mod p25519) * (fe a * fe b mod p25519)) (r * (fe a * fe b))"
    by (intro feq_mult; simp only: feq_mod feq_refl)
  then have "feq ((r mod p25519) * (fe a * fe b mod p25519)) (fe b)"
    using inv by (simp only: mult.assoc) (rule feq_trans)
  then show "fmul_donna (crecip_donna a) (fmul_donna a b) = fe_bytes (fe b)"
    using assms by (simp add: fmul_donna_eq rec fe_bytes_cong)
  have "feq (fe a * ((r mod p25519) * fe b mod p25519)) (fe a * (r * fe b))"
    by (intro feq_mult feq_refl, simp only: feq_mod, intro feq_mult feq_refl, simp only: feq_mod feq_refl)
  moreover have "fe a * (r * fe b) = r * fe a * fe b" by (simp only: ac_simps)
  ultimately have "feq (fe a * ((r mod p25519) * fe b mod p25519)) (fe b)"
    using inv by (simp only:) (rule feq_trans)
  then show "fmul_donna a (fmul_donna (crecip_donna a) b) = fe_bytes (fe b)"
    using assms by (simp add: fmul_donna_eq rec fe_bytes_cong)
qed

section \<open>The two curve functions\<close>

text \<open>The clamping of the secret in \<^verbatim>\<open>curve25519_donna\<close>.\<close>

definition donna_clamp :: "bytes \<Rightarrow> bytes" where
  "donna_clamp secret = (let e = secret[0 := secret ! 0 AND 248]; e = e[31 := e ! 31 AND 127] in e[31 := e ! 31 OR 64])"

lemma c32_agrees:
  assumes "length secret = 32" "length basepoint = 32"
  shows "c32.curve_bytes secret basepoint = curve25519 secret basepoint"
proof -
  obtain X Z PQ where l: "mont_ladder (int (le_val basepoint mod 2 ^ 255)) (rev (map (bit (le_val secret)) [0..<256]))
        ((1, 0), (int (le_val basepoint mod 2 ^ 255), 1)) = ((X, Z), PQ)"
    by (metis surj_pair)
  show ?thesis
    unfolding curve25519_eq c32.curve_bytes_ladder [OF assms l] c51.curve_bytes_ladder [OF assms l] ..
qed

lemma curve25519_donna_eq: "curve25519_donna secret basepoint = c32.curve_bytes (donna_clamp secret) basepoint"
  by (simp add: curve25519_donna_def cmult32_def c32.curve_bytes_def donna_clamp_def Let_def split: prod.split)

lemma xoverz_donna_eq: "xoverz_donna a = c32.curve_bytes a curve25519_basepoint9"
  by (simp add: xoverz_donna_def cmult32_def c32.curve_bytes_def curve25519_basepoint9_def Let_def split: prod.split)

lemma length_curve25519: "length a = 32 \<Longrightarrow> length b = 32 \<Longrightarrow> length (curve25519 a b) = 32"
  using c51.curve_bytes_ladder [of a b] unfolding curve25519_eq by (metis length_num_bytes surj_pair)

lemma xoverz_donna_curve: "length a = 32 \<Longrightarrow> xoverz_donna a = curve25519 a curve25519_basepoint9"
  unfolding xoverz_donna_eq by (rule c32_agrees) (simp_all add: curve25519_basepoint9_def)

section \<open>The scalar one\<close>

lemma feq_mult_nonzero: "\<not> feq a 0 \<Longrightarrow> \<not> feq b 0 \<Longrightarrow> \<not> feq (a * b) 0"
proof
  assume a: "\<not> feq a 0" and b: "\<not> feq b 0" and ab: "feq (a * b) 0"
  have "feq (a ^ nat (p25519 - 2) * a * b) (1 * b)" by (intro feq_mult fermat_inverse a feq_refl)
  then have "feq b (a ^ nat (p25519 - 2) * (a * b))" by (simp add: feq_sym mult.assoc)
  also have "feq \<dots> (a ^ nat (p25519 - 2) * 0)" by (intro feq_mult feq_refl ab)
  finally show False using b by simp
qed

text \<open>While no bit of the scalar has been read the first point is at infinity and the second is the base point.\<close>

lemma ladder_zeros:
  assumes "\<not> feq q 0" "\<not> feq a 0" "\<not> feq c 0"
  shows "\<exists>a' c'. mont_ladder q (replicate n False) ((a, 0), (q * c, c)) = ((a', 0), (q * c', c')) \<and> \<not> feq a' 0 \<and> \<not> feq c' 0"
  using assms(2,3)
proof (induction n arbitrary: a c)
  case (Suc n)
  let ?c = "4 * a ^ 2 * c ^ 2 * q"
  have "mont_double (a, 0) = (a * a * (a * a), 0)" by (simp add: mont_double_def Let_def power2_eq_square)
  moreover have "mont_add q (a, 0) (q * c, c) = (q * ?c, ?c)"
    by (simp add: mont_add_def Let_def power2_eq_square algebra_simps)
  moreover have "\<not> feq (4::int) 0" by (simp add: feq_def p25519_def)
  ultimately show ?case using Suc.IH [of "a * a * (a * a)" ?c] Suc.prems assms(1)
    by (simp add: feq_mult_nonzero power2_eq_square)
qed auto

lemma rev_bits_one: "rev (map (bit (1::nat)) [0..<Suc n]) = replicate n False @ [True]"
  by (induction n) (simp_all add: bit_Suc_0_iff)

lemma curve25519_one:
  assumes "length b = 32" "fe b mod p25519 \<noteq> 0"
  shows "curve25519 (1 # replicate 31 0) b = fe_bytes (fe b)"
proof -
  let ?one = "1 # replicate 31 0 :: bytes"
  define q where "q = int (le_val b mod 2 ^ 255)"
  have q: "\<not> feq q 0" using assms(2) by (simp add: q_def fe_def feq_def)
  have "le_val ?one = 1" by (simp add: le_val_zero)
  then have bits: "rev (map (bit (le_val ?one)) [0..<256]) = replicate 255 False @ [True]"
  proof -
    have "256 = Suc 255" by simp
    then show ?thesis using rev_bits_one [of 255] \<open>le_val ?one = 1\<close> by (simp only:)
  qed
  have "\<not> feq (1::int) 0" by (simp add: feq_def p25519_def)
  with ladder_zeros [OF q, of 1 1 255] obtain a c where
    l: "mont_ladder q (replicate 255 False) ((1, 0), (q, 1)) = ((a, 0), (q * c, c))" and nz: "\<not> feq a 0" "\<not> feq c 0"
    by auto
  let ?c = "4 * a ^ 2 * c ^ 2 * q"
  have "mont_add q (q * c, c) (a, 0) = (q * ?c, ?c)"
    by (simp add: mont_add_def Let_def power2_eq_square algebra_simps)
  then have "mont_ladder q (rev (map (bit (le_val ?one)) [0..<256])) ((1, 0), (q, 1)) = ((q * ?c, ?c), mont_double (q * c, c))"
    unfolding bits mont_ladder_append l by simp
  from c51.curve_bytes_ladder [OF _ assms(1) this [unfolded q_def], folded q_def]
  have r: "curve25519 ?one b = fe_bytes (q * ?c * ?c ^ nat (p25519 - 2))" by (simp add: curve25519_eq fe_bytes_def)
  have "\<not> feq (4::int) 0" by (simp add: feq_def p25519_def)
  then have "\<not> feq ?c 0" using nz q by (intro feq_mult_nonzero) (simp_all add: power2_eq_square feq_mult_nonzero)
  then have "feq (q * (?c ^ nat (p25519 - 2) * ?c)) (q * 1)" by (intro feq_mult feq_refl fermat_inverse)
  then have "feq (q * ?c * ?c ^ nat (p25519 - 2)) q" unfolding mult_1_right by (simp only: ac_simps)
  moreover have "fe b = q" by (simp add: q_def fe_def)
  ultimately show ?thesis unfolding r by (simp only: fe_bytes_cong)
qed

section \<open>Properties\<close>

text \<open>
  Multiplying by the reciprocal undoes a multiplication: for a factor that is not a multiple of
  the modulus and a number below the modulus, \<^verbatim>\<open>fmul_donna(crecip_donna(a), fmul_donna(a, b))\<close>
  and \<^verbatim>\<open>fmul_donna(a, fmul_donna(crecip_donna(a), b))\<close> are \<open>b\<close>.
\<close>

lemma fmul_donna_roundtrip:
  assumes "length a = 32" "length b = 32" "int (le_val a mod 2 ^ 255) mod p25519 \<noteq> 0" "int (le_val b) < p25519"
  shows "fmul_donna (crecip_donna a) (fmul_donna a b) = b \<and> fmul_donna a (fmul_donna (crecip_donna a) b) = b"
  using crecip_fmul_cancel [OF assms(1,2)] fe_bytes_canonical [OF assms(2,4)] assms(3) by (simp add: fe_def)

text \<open>
  C10. The two implementations of the curve agree: for every secret and every base point of 32
  bytes, the portable function is the 64-bit function of the clamped secret, and the ratio the
  card layers are built on is the curve function at the base point 9.
\<close>

theorem curve_implementations_agree:
  assumes "length secret = 32" "length basepoint = 32"
  shows "curve25519_donna secret basepoint = curve25519 (donna_clamp secret) basepoint
    \<and> xoverz_donna secret = curve25519 secret curve25519_basepoint9"
proof -
  have "length (donna_clamp secret) = 32" using assms(1) by (simp add: donna_clamp_def Let_def)
  then show ?thesis
    using c32_agrees [of "donna_clamp secret"] xoverz_donna_curve assms by (simp add: curve25519_donna_eq)
qed

theorem curve_implementations_agree_witness:
  "xoverz_donna (replicate 32 1) = curve25519 (replicate 32 1) curve25519_basepoint9"
  using curve_implementations_agree [OF length_replicate length_replicate] by (rule conjunct2)

end
