(* ===== verification/Acct777.thy ===== *)
theory Acct777
  imports CurveAgree
begin

text \<open>
  Account keys and signatures (the \<^verbatim>\<open>acct777_*\<close> functions of \<^verbatim>\<open>src/plugins/utils/bits777.c\<close>), on
  the verified curve functions: \<^verbatim>\<open>curve25519\<close> is the 64-bit one of
  \<^verbatim>\<open>src/plugins/utils/curve25519.c\<close>, which takes the secret as it is (the function the portable
  build has under this name clamps the secret first), and \<^verbatim>\<open>curve25519_donna\<close> is the one of
  \<^verbatim>\<open>curve25519-donna.c\<close>. The hash function is vendored and an argument: \<open>sha256\<close> is
  \<^verbatim>\<open>calc_sha256\<close>, or \<^verbatim>\<open>calc_sha256cat\<close> of the concatenated inputs. \<open>gpriv\<close> and \<open>gpub\<close> are
  the genesis keys, which every node knows.
\<close>

section \<open>Keys, lock hashes and signatures\<close>

record acct777_sig =
  sigbits :: bytes
  sigpubkey :: bytes
  signer64bits :: u64
  sigtimestamp :: u32

definition clamp25519 :: "bytes \<Rightarrow> bytes" where
  "clamp25519 k = k[0 := k ! 0 AND 248, 31 := (k ! 31 AND 127) OR 64]"

definition basepoint9 :: bytes where
  "basepoint9 = 9 # replicate 31 0"

definition acct777_pubkey :: "bytes \<Rightarrow> bytes" where
  "acct777_pubkey privkey = curve25519_donna (clamp25519 privkey) basepoint9"

text \<open>\<^verbatim>\<open>acct.txid\<close> is the first eight bytes of the hash as a little-endian word.\<close>

fun le_u64 :: "bytes \<Rightarrow> u64" where
  "le_u64 [] = 0"
| "le_u64 (b # bs) = ucast b OR push_bit 8 (le_u64 bs)"

definition acct777_nxt64bits :: "(bytes \<Rightarrow> bytes) \<Rightarrow> bytes \<Rightarrow> u64" where
  "acct777_nxt64bits sha256 pubkey = le_u64 (take 8 (sha256 pubkey))"

definition acct777_hashiter ::
  "(bytes \<Rightarrow> bytes) \<Rightarrow> bytes \<Rightarrow> bytes \<Rightarrow> u32 \<Rightarrow> u8 \<Rightarrow> bytes" where
  "acct777_hashiter sha256 privkey pubkey lockdays chainlen =
     (let lockseed = ucast ((ucast chainlen AND 0x7f) OR push_bit 7 lockdays) :: u16;
          signbuf = [ucast (lockseed AND 0xff), ucast (drop_bit 8 lockseed AND 0xff)];
          shared = curve25519 (clamp25519 privkey) pubkey
      in sha256 (shared @ signbuf))"

fun lockhash_loop ::
  "(bytes \<Rightarrow> bytes) \<Rightarrow> bytes \<Rightarrow> u32 \<Rightarrow> nat \<Rightarrow> bytes \<Rightarrow> bytes" where
  "lockhash_loop sha256 pubkey lockdays 0 lockhash = lockhash"
| "lockhash_loop sha256 pubkey lockdays (Suc n) lockhash =
     lockhash_loop sha256 pubkey lockdays n
       (acct777_hashiter sha256 lockhash pubkey lockdays (word_of_nat (Suc n)))"

definition acct777_lockhash ::
  "(bytes \<Rightarrow> bytes) \<Rightarrow> bytes \<Rightarrow> bytes \<Rightarrow> u32 \<Rightarrow> u8 \<Rightarrow> bytes" where
  "acct777_lockhash sha256 gpriv pubkey lockdays chainlen =
     lockhash_loop sha256 pubkey lockdays (unat chainlen) gpriv"

text \<open>\<open>rnd\<close> is the fresh private key drawn by \<^verbatim>\<open>randombytes\<close>; the result is (invoicehash, key).\<close>

definition acct777_invoicehash ::
  "(bytes \<Rightarrow> bytes) \<Rightarrow> bytes \<Rightarrow> bytes \<Rightarrow> u16 \<Rightarrow> u8 \<Rightarrow> bytes \<times> bytes" where
  "acct777_invoicehash sha256 gpub rnd lockdays chainlen =
     (foldl (\<lambda>lockhash i. acct777_hashiter sha256 lockhash gpub
         (word_of_nat (unat chainlen - i)) (ucast lockdays)) rnd [0..<unat chainlen], rnd)"

definition acct777_sign ::
  "(bytes \<Rightarrow> bytes) \<Rightarrow>
     bytes \<Rightarrow> bytes \<Rightarrow> u32 \<Rightarrow> bytes \<Rightarrow> acct777_sig" where
  "acct777_sign sha256 privkey otherpubkey timestamp data =
     (let buf = map (\<lambda>i. ucast (drop_bit (8 * i) timestamp AND 0xff)) [0..<4] @ curve25519 privkey otherpubkey;
          pub = acct777_pubkey privkey
      in \<lparr>sigbits = sha256 (buf @ data), sigpubkey = pub,
          signer64bits = acct777_nxt64bits sha256 pub, sigtimestamp = timestamp\<rparr>)"

text \<open>The account that signed, or 0.\<close>

definition acct777_validate ::
  "(bytes \<Rightarrow> bytes) \<Rightarrow> bytes \<Rightarrow>
     acct777_sig \<Rightarrow> u32 \<Rightarrow> bytes \<Rightarrow> u64" where
  "acct777_validate sha256 gpriv sig timestamp data =
     (let checksig = acct777_sign sha256 gpriv (sigpubkey sig) timestamp data
      in if sigbits checksig \<noteq> sigbits sig then 0 else acct777_nxt64bits sha256 (sigpubkey sig))"

definition acct777_signtx ::
  "(bytes \<Rightarrow> bytes) \<Rightarrow> bytes \<Rightarrow>
     bytes \<Rightarrow> u32 \<Rightarrow> bytes \<Rightarrow> acct777_sig" where
  "acct777_signtx sha256 gpub privkey timestamp data =
     acct777_sign sha256 privkey gpub timestamp data"

definition acct777_swaptx ::
  "(bytes \<Rightarrow> bytes) \<Rightarrow> bytes \<Rightarrow> bytes \<Rightarrow>
     bytes \<Rightarrow> acct777_sig \<Rightarrow> u32 \<Rightarrow> bytes \<Rightarrow> acct777_sig \<times> u64" where
  "acct777_swaptx sha256 gpriv gpub privkey sig timestamp data =
     (if acct777_validate sha256 gpriv sig timestamp data \<noteq> signer64bits sig then (sig, 0)
      else let s = acct777_sign sha256 privkey gpub timestamp data in (s, signer64bits s))"

section \<open>Keys and accepted signatures\<close>

text \<open>
  The public key of an account, which the portable curve function computes, is the one
  \<^verbatim>\<open>curve25519_keypair\<close> gives its owner.
\<close>

lemma acct777_pubkey_keypair:
  assumes "length rnd = 32"
  shows "(case curve25519_keypair rnd of (privkey, pubkey) \<Rightarrow> acct777_pubkey privkey = pubkey)"
proof -
  let ?k = "rand256 rnd True"
  have len: "length ?k = 32" "length basepoint9 = 32" using assms by (simp_all add: rand256_def Let_def basepoint9_def)
  have c: "clamp25519 ?k = ?k" "donna_clamp ?k = ?k"
    using assms by (auto simp: clamp25519_def donna_clamp_def rand256_def Let_def nth_list_update intro!: nth_equalityI bit_word_eqI)
      (auto simp: bit_simps)
  have "basepoint9 = curve25519_basepoint9" unfolding basepoint9_def curve25519_basepoint9_def by code_simp
  then have "acct777_pubkey ?k = curve25519 ?k curve25519_basepoint9"
    using c32_agrees [OF len] by (simp add: acct777_pubkey_def curve25519_donna_eq c)
  then show ?thesis by (simp add: curve25519_keypair_def Let_def)
qed

text \<open>
  The account a signature is accepted for depends on the genesis keys, the message and the claimed
  public key only, so that whoever knows the genesis secret can sign for every account.
\<close>

lemma acct777_validate_iff:
  "acct777_validate sha256 gpriv sig timestamp data =
     (if sigbits sig = sha256 (map (\<lambda>i. ucast (drop_bit (8 * i) timestamp AND 0xff)) [0..<4] @ curve25519 gpriv (sigpubkey sig) @ data)
      then acct777_nxt64bits sha256 (sigpubkey sig) else 0)"
  by (auto simp: acct777_validate_def acct777_sign_def Let_def)

lemma acct777_forgeable:
  "acct777_validate sha256 gpriv
     ((acct777_sign sha256 gpriv victim timestamp data)\<lparr>sigpubkey := victim\<rparr>) timestamp data
   = acct777_nxt64bits sha256 victim"
  by (simp add: acct777_validate_iff acct777_sign_def Let_def)

end
