(* ===== verification/PangeaTable.thy ===== *)
theory PangeaTable
  imports Prelude
begin

text \<open>
  The poker table (\<^verbatim>\<open>src/plugins/games/pangea/pangea777.c\<close>, structures from
  \<^verbatim>\<open>pangea777.c\<close> and \<^verbatim>\<open>src/plugins/common/hostnet777.c\<close>): who sits where, and in which
  order the seated players act. A player has two numbers: its slot, the index of its account
  in \<^verbatim>\<open>addrs\<close>, and its index among the players of the running hand, its position in
  \<^verbatim>\<open>active\<close>. Balances are kept by slot; everything about the hand is kept by index.
\<close>

section \<open>Signed and unsigned 64-bit readings\<close>

text \<open>Amounts are \<^verbatim>\<open>int64_t\<close> or \<^verbatim>\<open>uint64_t\<close>; the conversions wrap.\<close>

definition as_u64 :: "int \<Rightarrow> int" where
  "as_u64 x = x mod 2 ^ 64"

definition as_s64 :: "int \<Rightarrow> int" where
  "as_s64 x = (x + 2 ^ 63) mod 2 ^ 64 - 2 ^ 63"

lemma as_u64_id [simp]: "0 \<le> x \<Longrightarrow> x < 2 ^ 64 \<Longrightarrow> as_u64 x = x"
  by (simp add: as_u64_def)

lemma as_s64_id [simp]: "- (2 ^ 63) \<le> x \<Longrightarrow> x < 2 ^ 63 \<Longrightarrow> as_s64 x = x"
  by (simp add: as_s64_def)

lemma as_s64_wrap: "as_s64 (2 ^ 64 + x) = as_s64 x"
  using mod_add_self1 [of "2 ^ 64" "x + 2 ^ 63 :: int"] by (simp add: as_s64_def)

lemma as_u64_bounds: "0 \<le> as_u64 x" "as_u64 x < 2 ^ 64"
  by (simp_all add: as_u64_def)

section \<open>Constants and structures\<close>

definition CARDS777_MAXPLAYERS :: nat where "CARDS777_MAXPLAYERS = 9"

definition CARDS777_FOLD :: int where "CARDS777_FOLD = -1"
definition CARDS777_START :: int where "CARDS777_START = 1"
definition CARDS777_ANTE :: int where "CARDS777_ANTE = 2"
definition CARDS777_SMALLBLIND :: int where "CARDS777_SMALLBLIND = 3"
definition CARDS777_BIGBLIND :: int where "CARDS777_BIGBLIND = 4"
definition CARDS777_CHECK :: int where "CARDS777_CHECK = 5"
definition CARDS777_CALL :: int where "CARDS777_CALL = 6"
definition CARDS777_BET :: int where "CARDS777_BET = 7"
definition CARDS777_RAISE :: int where "CARDS777_RAISE = 8"
definition CARDS777_FULLRAISE :: int where "CARDS777_FULLRAISE = 9"
definition CARDS777_SENTCARDS :: int where "CARDS777_SENTCARDS = 10"
definition CARDS777_ALLIN :: int where "CARDS777_ALLIN = 11"
definition CARDS777_FACEUP :: int where "CARDS777_FACEUP = 12"
definition CARDS777_WINNINGS :: int where "CARDS777_WINNINGS = 13"
definition CARDS777_RAKES :: int where "CARDS777_RAKES = 14"
definition CARDS777_CHANGES :: int where "CARDS777_CHANGES = 15"
definition CARDS777_SNAPSHOT :: int where "CARDS777_SNAPSHOT = 16"

lemmas action_defs [defs] = CARDS777_FOLD_def CARDS777_START_def CARDS777_ANTE_def
  CARDS777_SMALLBLIND_def CARDS777_BIGBLIND_def CARDS777_CHECK_def CARDS777_CALL_def
  CARDS777_BET_def CARDS777_RAISE_def CARDS777_FULLRAISE_def CARDS777_SENTCARDS_def
  CARDS777_ALLIN_def CARDS777_FACEUP_def CARDS777_WINNINGS_def CARDS777_RAKES_def
  CARDS777_CHANGES_def CARDS777_SNAPSHOT_def

text \<open>The fields of \<^verbatim>\<open>struct pangea_info\<close> the table logic reads or writes.\<close>

record pangea_info =
  numaddrs :: nat
  balances :: "int list"
  addrs :: "u64 list"
  active :: "u64 list"
  numactive :: nat
  myslot :: nat
  myind :: int
  isbot :: "nat list"

text \<open>
  The fields of \<^verbatim>\<open>struct cards777_handinfo\<close> that the betting logic uses; \<open>checkprod\<close> is
  the low word of the deck product, \<open>final\<close> the fully encoded cards.
\<close>

record handinfo =
  checkprod :: u64
  final :: "bytes list"
  betsize :: int
  hand_hostrake :: int
  hand_pangearake :: int
  lastraise :: int
  bets :: "int list"
  hand_snapshot :: "int list"
  won :: "int list"
  handmask :: u32
  lastbettor :: nat
  betstarted :: nat
  finished :: nat
  cardi :: nat
  userinput_starttime :: nat
  handranks :: "nat list"
  betstatus :: "int list"
  actions :: "int list"
  turnis :: "int list"
  numactions :: nat
  undergun :: nat
  community :: "nat list"

text \<open>The fields of \<^verbatim>\<open>struct cards777_pubdata\<close>, with the table it points to.\<close>

record pubdata =
  snapshot :: "int list"
  maxrake :: int
  hostrake :: int
  bigblind :: int
  ante :: int
  pangearake :: int
  button :: nat
  readymask :: u32
  numhands :: nat
  rakemillis :: int
  summaries :: u64
  mismatches :: u64
  summary :: bytes
  coinstr :: string
  M_players :: nat
  N_players :: nat
  table :: pangea_info
  hand :: handinfo

section \<open>Seats and turns\<close>

text \<open>The first index below \<open>n\<close> holding \<open>x\<close>, or \<open>-1\<close>.\<close>

function search_from :: "'a list \<Rightarrow> nat \<Rightarrow> 'a \<Rightarrow> nat \<Rightarrow> int" where
  "search_from xs n x i =
     (if i \<ge> n then -1 else if xs ! i = x then int i else search_from xs n x (Suc i))"
  by pat_completeness auto

termination search_from
  by (relation "measure (\<lambda>(xs, n, x, i). n - i)") auto

declare search_from.simps [simp del]

definition pangea_search :: "pangea_info \<Rightarrow> u64 \<Rightarrow> int" where
  "pangea_search sp nxt64bits = search_from (active sp) (numactive sp) nxt64bits 0"

definition pangea_tableaddr :: "pangea_info \<Rightarrow> u64 \<Rightarrow> int" where
  "pangea_tableaddr sp destbits = search_from (addrs sp) (numaddrs sp) destbits 0"

definition pangea_slotA :: "pangea_info \<Rightarrow> nat" where
  "pangea_slotA sp = 0"

definition pangea_slotB :: "pangea_info \<Rightarrow> int" where
  "pangea_slotB sp = pangea_search sp (active sp ! 1)"

definition pangea_slot :: "pangea_info \<Rightarrow> nat \<Rightarrow> int" where
  "pangea_slot sp ind = pangea_tableaddr sp (active sp ! ind)"

definition pangea_ind :: "pangea_info \<Rightarrow> nat \<Rightarrow> int" where
  "pangea_ind sp slot = pangea_search sp (addrs sp ! slot)"

definition pangea_lastnode :: "pangea_info \<Rightarrow> int" where
  "pangea_lastnode sp = pangea_search sp (active sp ! (numactive sp - 1))"

definition pangea_nextnode :: "pangea_info \<Rightarrow> int" where
  "pangea_nextnode sp = (if myind sp < int (numactive sp) - 1 then myind sp + 1 else -1)"

definition pangea_prevnode :: "pangea_info \<Rightarrow> int" where
  "pangea_prevnode sp = (if myind sp > 0 then myind sp - 1 else -1)"

text \<open>
  \<^verbatim>\<open>pangea_neworder\<close>: \<open>None\<close> for the null list re-installs the current order. The host
  must stay first and every listed account must have a slot, else nothing changes.
\<close>

definition pangea_neworder :: "pubdata \<Rightarrow> u64 list option \<Rightarrow> pubdata \<times> int" where
  "pangea_neworder dp newactive =
     (let sp = table dp;
          act = (case newactive of None \<Rightarrow> take (numactive sp) (active sp) | Some a \<Rightarrow> a);
          n = length act
      in if act ! 0 \<noteq> addrs sp ! 0 then (dp, -1)
         else if list_ex (\<lambda>i. pangea_tableaddr sp (act ! i) < 0) [1..<n] then (dp, -1)
         else
           let sp = sp\<lparr>active := buf_write 0 act (active sp), numactive := n\<rparr>;
               sp = sp\<lparr>myind := pangea_ind sp (myslot sp)\<rparr>
           in (dp\<lparr>N_players := n, M_players := n div 2 + 1, table := sp\<rparr>, int n))"

definition pangea_inactivate :: "pubdata \<Rightarrow> u64 \<Rightarrow> pubdata \<times> nat" where
  "pangea_inactivate dp nxt64bits =
     (let act = filter (\<lambda>a. a \<noteq> nxt64bits) (take (numactive (table dp)) (active (table dp)))
      in (fst (pangea_neworder dp (Some act)), length act))"

lemma search_from_hit:
  "i \<le> k \<Longrightarrow> k < n \<Longrightarrow> xs ! k = x \<Longrightarrow> (\<forall>j. i \<le> j \<and> j < k \<longrightarrow> xs ! j \<noteq> x) \<Longrightarrow>
     search_from xs n x i = int k"
proof (induction xs n x i rule: search_from.induct)
  case (1 xs n x i)
  show ?case
  proof (cases "i = k")
    case True
    then show ?thesis using 1 by (subst search_from.simps) simp
  next
    case False
    then have "xs ! i \<noteq> x" "i < n" "Suc i \<le> k" using 1 by auto
    then show ?thesis using 1 by (subst search_from.simps) simp
  qed
qed

lemma search_from_distinct:
  "k < n \<Longrightarrow> n \<le> length xs \<Longrightarrow> distinct (take n xs) \<Longrightarrow> search_from xs n (xs ! k) 0 = int k"
  using nth_eq_iff_index_eq [of "take n xs"] by (intro search_from_hit) fastforce+

lemma search_from_range:
  "search_from xs n x i = -1 \<and> (\<forall>j. i \<le> j \<and> j < n \<longrightarrow> xs ! j \<noteq> x)
   \<or> (\<exists>k. i \<le> k \<and> k < n \<and> search_from xs n x i = int k \<and> xs ! k = x)"
proof (induction xs n x i rule: search_from.induct)
  case (1 xs n x i)
  show ?case
  proof (cases "i < n \<and> xs ! i \<noteq> x")
    case True
    then have "search_from xs n x i = search_from xs n x (Suc i)" by (simp add: search_from.simps)
    then show ?thesis using 1 True by (auto simp: Suc_le_eq) (metis le_eq_less_or_eq)+
  next
    case False
    then show ?thesis by (subst (1 2) search_from.simps) auto
  qed
qed

text \<open>
  A well-formed table: nine slots, distinct accounts, the hand's players distinct, seated,
  and led by the host.
\<close>

definition table_wf :: "pangea_info \<Rightarrow> bool" where
  "table_wf sp \<longleftrightarrow> numaddrs sp \<le> CARDS777_MAXPLAYERS \<and> numactive sp \<le> numaddrs sp
     \<and> length (balances sp) = CARDS777_MAXPLAYERS \<and> length (addrs sp) = CARDS777_MAXPLAYERS
     \<and> length (active sp) = CARDS777_MAXPLAYERS
     \<and> distinct (take (numaddrs sp) (addrs sp)) \<and> distinct (take (numactive sp) (active sp))
     \<and> set (take (numactive sp) (active sp)) \<subseteq> set (take (numaddrs sp) (addrs sp))"

lemma pangea_slot_range:
  assumes wf: "table_wf sp" and i: "i < numactive sp"
  shows "0 \<le> pangea_slot sp i" "nat (pangea_slot sp i) < numaddrs sp"
    "addrs sp ! nat (pangea_slot sp i) = active sp ! i"
proof -
  have "active sp ! i \<in> set (take (numactive sp) (active sp))"
    using wf i by (auto simp: table_wf_def in_set_conv_nth intro!: exI [of _ i])
  then have "active sp ! i \<in> set (take (numaddrs sp) (addrs sp))"
    using wf by (auto simp: table_wf_def)
  then obtain k where k: "k < numaddrs sp" "addrs sp ! k = active sp ! i"
    using wf by (auto simp: in_set_conv_nth)
  then show "0 \<le> pangea_slot sp i" "nat (pangea_slot sp i) < numaddrs sp"
    "addrs sp ! nat (pangea_slot sp i) = active sp ! i"
    using search_from_range [of "addrs sp" "numaddrs sp" "active sp ! i" 0]
    by (auto simp: pangea_slot_def pangea_tableaddr_def)
qed

lemma pangea_slot_inj:
  "table_wf sp \<Longrightarrow> i < numactive sp \<Longrightarrow> j < numactive sp \<Longrightarrow>
     pangea_slot sp i = pangea_slot sp j \<longleftrightarrow> i = j"
  using pangea_slot_range(3) [of sp i] pangea_slot_range(3) [of sp j]
    nth_eq_iff_index_eq [of "take (numactive sp) (active sp)" i j]
  by (fastforce simp: table_wf_def)

text \<open>Re-installing the current order only refreshes the derived fields.\<close>

lemma pangea_neworder_None:
  assumes wf: "table_wf (table dp)" "0 < numactive (table dp)"
    and host: "active (table dp) ! 0 = addrs (table dp) ! 0"
  shows "pangea_neworder dp None =
    (dp\<lparr>N_players := numactive (table dp), M_players := numactive (table dp) div 2 + 1,
        table := (table dp)\<lparr>myind := pangea_ind (table dp) (myslot (table dp))\<rparr>\<rparr>, int (numactive (table dp)))"
proof -
  let ?sp = "table dp" and ?act = "take (numactive (table dp)) (active (table dp))"
  have len: "length ?act = numactive ?sp" using wf by (simp add: table_wf_def)
  have h: "?act ! 0 = addrs ?sp ! 0" using wf host by simp
  have known: "\<not> list_ex (\<lambda>i. pangea_tableaddr ?sp (?act ! i) < 0) [1..<length ?act]"
    using pangea_slot_range(1) [OF wf(1)] by (auto simp: list_ex_iff pangea_slot_def not_less)
  have "?sp\<lparr>active := buf_write 0 ?act (active ?sp), numactive := length ?act\<rparr> = ?sp"
    using len by (simp add: buf_write_def)
  then show ?thesis
    unfolding pangea_neworder_def Let_def option.case using h known len by (simp only: if_False simp_thms)
qed

text \<open>Seat and turn order agree: nobody who holds a seat before a player is out of the hand.\<close>

definition seats_aligned :: "pangea_info \<Rightarrow> bool" where
  "seats_aligned sp \<longleftrightarrow> take (numactive sp) (active sp) = take (numactive sp) (addrs sp)"

lemma aligned_slot:
  assumes wf: "table_wf sp" and al: "seats_aligned sp" and i: "i < numactive sp"
  shows "pangea_slot sp i = int i"
proof -
  have "active sp ! i = addrs sp ! i"
    using al i by (metis seats_aligned_def nth_take)
  moreover have "i < numaddrs sp" using wf i by (simp add: table_wf_def)
  ultimately show ?thesis
    using wf by (simp add: pangea_slot_def pangea_tableaddr_def search_from_distinct table_wf_def)
qed

section \<open>Properties\<close>

text \<open>
  Seats and turns are inverse to each other: at a well-formed table the slot of a player
  of the hand is an occupied seat, looking up that seat's turn gives the player back, and
  two players never share a seat.
\<close>

lemma pangea_ind_slot:
  assumes wf: "table_wf sp" and i: "i < numactive sp"
  shows "0 \<le> pangea_slot sp i \<and> pangea_slot sp i < int (numaddrs sp)
    \<and> pangea_ind sp (nat (pangea_slot sp i)) = int i
    \<and> (\<forall>j<numactive sp. pangea_slot sp j = pangea_slot sp i \<longrightarrow> j = i)"
proof -
  have "pangea_ind sp (nat (pangea_slot sp i)) = int i"
    using pangea_slot_range(3) [OF wf i] wf i
    by (simp add: pangea_ind_def pangea_search_def search_from_distinct table_wf_def)
  then show ?thesis
    using pangea_slot_range [OF wf i] pangea_slot_inj [OF wf _ i] by auto
qed

definition witness_table :: pangea_info where
  "witness_table = \<lparr>numaddrs = 3, balances = [10, 20, 30, 0, 0, 0, 0, 0, 0],
     addrs = [11, 22, 33, 0, 0, 0, 0, 0, 0], active = [11, 33, 0, 0, 0, 0, 0, 0, 0],
     numactive = 2, myslot = 0, myind = 0, isbot = replicate 9 0\<rparr>"

lemma witness_table_wf: "table_wf witness_table"
  by code_simp

text \<open>
  C32. Reordering keeps the table well formed: \<^verbatim>\<open>pangea_neworder\<close> with distinct accounts
  either rejects the list and changes nothing, or installs exactly that order, with the
  host first and the recovery threshold a strict majority of the players.
\<close>

theorem pangea_neworder_correct:
  assumes wf: "table_wf (table dp)" and act: "distinct act" "act \<noteq> []"
    "length act \<le> numaddrs (table dp)"
    and r: "pangea_neworder dp (Some act) = (dp', ret)"
  shows "ret = -1 \<and> dp' = dp
    \<or> ret = int (length act) \<and> table_wf (table dp') \<and> N_players dp' = length act
      \<and> take (numactive (table dp')) (active (table dp')) = act \<and> hd act = addrs (table dp) ! 0
      \<and> 2 * M_players dp' > N_players dp' \<and> balances (table dp') = balances (table dp)
      \<and> addrs (table dp') = addrs (table dp)"
proof (cases "ret = -1")
  case True
  then have "dp' = dp" using r by (auto simp: pangea_neworder_def Let_def split: if_splits)
  with True show ?thesis by blast
next
  case False
  let ?sp = "table dp"
  have host: "act ! 0 = addrs ?sp ! 0"
    and known: "\<And>i. 1 \<le> i \<Longrightarrow> i < length act \<Longrightarrow> 0 \<le> pangea_tableaddr ?sp (act ! i)"
    and dp': "ret = int (length act)" "N_players dp' = length act" "M_players dp' = length act div 2 + 1"
      "active (table dp') = buf_write 0 act (active ?sp)" "numactive (table dp') = length act"
      "numaddrs (table dp') = numaddrs ?sp" "addrs (table dp') = addrs ?sp"
      "balances (table dp') = balances ?sp"
    using r False by (auto simp: pangea_neworder_def Let_def list_ex_iff not_less split: if_splits)
  have le: "length act \<le> length (active ?sp)" using wf act by (simp add: table_wf_def)
  then have tk: "take (length act) (buf_write 0 act (active ?sp)) = act" by (simp add: buf_write_def)
  have "act ! i \<in> set (take (numaddrs ?sp) (addrs ?sp))" if "i < length act" for i
  proof (cases "i = 0")
    case True
    moreover have "0 < numaddrs ?sp" using act by (cases act) auto
    ultimately show ?thesis using host wf
      by (auto simp: in_set_conv_nth table_wf_def CARDS777_MAXPLAYERS_def intro!: exI [of _ 0])
  next
    case False
    then show ?thesis
      using known [of i] that search_from_range [of "addrs ?sp" "numaddrs ?sp" "act ! i" 0] wf
      by (auto simp: pangea_tableaddr_def in_set_conv_nth table_wf_def)
  qed
  then have "set act \<subseteq> set (take (numaddrs ?sp) (addrs ?sp))" by (auto simp: in_set_conv_nth)
  moreover have "hd act = addrs ?sp ! 0" using host act by (simp add: hd_conv_nth)
  ultimately show ?thesis
    using dp' tk wf act le by (auto simp: table_wf_def)
qed

definition witness_hand :: handinfo where
  "witness_hand = \<lparr>checkprod = 5, final = [], betsize = 0, hand_hostrake = 0, hand_pangearake = 0,
     lastraise = 0, bets = replicate 9 0, hand_snapshot = replicate 10 0, won = replicate 9 0,
     handmask = 0, lastbettor = 0, betstarted = 1, finished = 0, cardi = 0, userinput_starttime = 0,
     handranks = replicate 9 0, betstatus = replicate 9 0, actions = replicate 9 0,
     turnis = replicate 9 0, numactions = 0, undergun = 0, community = replicate 5 255\<rparr>"

definition witness_pubdata :: pubdata where
  "witness_pubdata = \<lparr>snapshot = replicate 9 0, maxrake = 0, hostrake = 0, bigblind = 4, ante = 0,
     pangearake = 0, button = 0, readymask = 0, numhands = 1, rakemillis = 10, summaries = 0,
     mismatches = 0, summary = [], coinstr = ''BTCD'', M_players = 2, N_players = 2,
     table = witness_table, hand = witness_hand\<rparr>"

theorem pangea_neworder_correct_witness:
  "\<exists>dp'. pangea_neworder witness_pubdata (Some [11, 33, 22]) = (dp', 3) \<and> table_wf (table dp')
     \<and> N_players dp' = 3 \<and> 2 * M_players dp' > N_players dp'"
proof -
  obtain dp' ret where r: "pangea_neworder witness_pubdata (Some [11, 33, 22]) = (dp', ret)"
    by fastforce
  have "snd (pangea_neworder witness_pubdata (Some [11, 33, 22])) = 3" by code_simp
  with r have "ret = 3" by simp
  moreover have "table_wf (table witness_pubdata)" "distinct [11, 33, 22 :: u64]"
    "length [11, 33, 22 :: u64] \<le> numaddrs (table witness_pubdata)"
    by code_simp+
  ultimately show ?thesis
    using pangea_neworder_correct [OF _ _ _ _ r] r by auto
qed

end
