(* ===== verification/PangeaSummary.thy ===== *)
theory PangeaSummary
  imports PangeaTable Bits777
begin

text \<open>
  The hand summary of the poker table (\<^verbatim>\<open>pangea_summary\<close>, \<^verbatim>\<open>pangea_parsesummary\<close> and the
  reading loop of \<^verbatim>\<open>pangea_dispsummary\<close> in \<^verbatim>\<open>src/plugins/games/pangea/pangeafunds.c\<close>,
  \<^verbatim>\<open>hostnet777_copybits\<close> in \<^verbatim>\<open>src/plugins/common/hostnet777.c\<close>): the log of a hand that
  every player keeps and that the players compare at its end.
\<close>

section \<open>Little-endian integers\<close>

fun le_bytes :: "nat \<Rightarrow> int \<Rightarrow> bytes" where
  "le_bytes 0 x = []"
| "le_bytes (Suc n) x = word_of_int x # le_bytes n (x div 256)"

fun le_int :: "bytes \<Rightarrow> int" where
  "le_int [] = 0"
| "le_int (b # bs) = uint b + 256 * le_int bs"

lemma length_le_bytes [simp]: "length (le_bytes n x) = n"
  by (induction n arbitrary: x) auto

lemma le_int_le_bytes: "le_int (le_bytes n x) = x mod 256 ^ n"
proof (induction n arbitrary: x)
  case (Suc n)
  have "uint (word_of_int x :: u8) = x mod 256"
    by (simp add: uint_word_of_int)
  then show ?case using Suc by (simp add: zmod_zmult2_eq add.commute)
qed simp

lemma le_int_bounds: "0 \<le> le_int bs \<and> le_int bs < 256 ^ length bs"
proof (induction bs)
  case (Cons b bs)
  have "0 \<le> uint b" "uint b < 256" using uint_lt2p [of b] by simp_all
  then show ?case using Cons by simp
qed simp

lemma le_bytes_le_int: "le_bytes (length bs) (le_int bs) = bs"
proof (induction bs)
  case (Cons b bs)
  have b: "0 \<le> uint b" "uint b < 256" using uint_lt2p [of b] by simp_all
  then have "(uint b + 256 * le_int bs) div 256 = le_int bs"
    by simp
  moreover have "(word_of_int (uint b + 256 * le_int bs) :: u8) = b"
    using b by (simp add: word_uint_eq_iff uint_word_of_int del: of_int_add of_int_mult)
  ultimately show ?case using Cons by simp
qed simp

section \<open>Copying\<close>

text \<open>
  \<^verbatim>\<open>hostnet777_copybits\<close> clears \<open>len\<close> bytes of its target and sets the bits of the
  source one by one; with \<open>reverse\<close> the two buffers swap roles. The result is the
  pair (dest, src) after the call.
\<close>

definition copy_bits_loop :: "bytes \<Rightarrow> bytes \<Rightarrow> nat \<Rightarrow> bytes" where
  "copy_bits_loop dest src len =
     foldl (\<lambda>d i. if GETBIT src i then SETBIT d i else d)
       (buf_write 0 (replicate len 0) dest) [0..<8 * len]"

definition hostnet777_copybits :: "bool \<Rightarrow> bytes \<Rightarrow> bytes \<Rightarrow> nat \<Rightarrow> (bytes \<times> bytes) \<times> nat" where
  "hostnet777_copybits reverse dest src len =
     (if reverse then (dest, copy_bits_loop src dest len) else (copy_bits_loop dest src len, src), len)"

lemma copy_bits_loop:
  assumes "len \<le> length src" "len \<le> length dest"
  shows "copy_bits_loop dest src len = buf_write 0 (take len src) dest"
proof (rule bytes_eq_by_bits)
  let ?z = "buf_write 0 (replicate len 0) dest"
  have z: "length ?z = length dest" using assms by simp
  have fold: "GETBIT (copy_bits_loop dest src len) i = (GETBIT ?z i \<or> i < 8 * len \<and> GETBIT src i)
      \<and> length (copy_bits_loop dest src len) = length ?z" for i
    using assms GETBIT_fold_SETBIT [of "[0..<8 * len]" ?z "GETBIT src" i]
    by (auto simp: copy_bits_loop_def)
  then show "length (copy_bits_loop dest src len) = length (buf_write 0 (take len src) dest)"
    using assms by simp
  fix i
  show "GETBIT (copy_bits_loop dest src len) i = GETBIT (buf_write 0 (take len src) dest) i"
    using assms fold [of i] by (auto simp: GETBIT_bit nth_buf_write div_less_iff_less_mult)
qed

lemma hostnet777_copybits_eq:
  "len \<le> length dest \<Longrightarrow> len \<le> length src \<Longrightarrow> hostnet777_copybits reverse dest src len =
     (if reverse then (dest, buf_write 0 (take len dest) src) else (buf_write 0 (take len src) dest, src), len)"
  by (simp add: hostnet777_copybits_def copy_bits_loop)

text \<open>Reading \<open>n\<close> bytes of \<open>log\<close> at \<open>len\<close> into a fresh variable, and appending.\<close>

definition read_bits :: "bytes \<Rightarrow> nat \<Rightarrow> nat \<Rightarrow> bytes" where
  "read_bits log len n = snd (fst (hostnet777_copybits True (drop len log) (replicate n 0) n))"

definition append_bits :: "bytes \<Rightarrow> bytes \<Rightarrow> bytes" where
  "append_bits log arg =
     log @ fst (fst (hostnet777_copybits False (replicate (length arg) 0) arg (length arg)))"

lemma read_bits_eq: "len + n \<le> length log \<Longrightarrow> read_bits log len n = take n (drop len log)"
  by (simp add: read_bits_def hostnet777_copybits_eq buf_write_def)

lemma append_bits_eq: "append_bits log arg = log @ arg"
  by (simp add: append_bits_def hostnet777_copybits_eq buf_write_def)

section \<open>Writing and parsing entries\<close>

text \<open>
  \<open>summary\<close> is what has been written of \<^verbatim>\<open>dp->summary\<close>, its length \<^verbatim>\<open>dp->summarysize\<close>. The
  array has \<open>SUMMARY_SIZE\<close> bytes, cleared when a hand starts, and nothing checks the size: a
  longer log stands for a run that has written behind the array.
\<close>

definition SUMMARY_SIZE :: nat where
  "SUMMARY_SIZE = 65536"

definition summary_array :: "pubdata \<Rightarrow> bytes" where
  "summary_array dp = take SUMMARY_SIZE (summary dp @ replicate SUMMARY_SIZE 0)"

definition summary_overrun :: "pubdata \<Rightarrow> bool" where
  "summary_overrun dp \<longleftrightarrow> SUMMARY_SIZE < length (summary dp)"

text \<open>The type of an entry as stored: the action code in a \<^verbatim>\<open>uint8_t\<close>.\<close>

definition pangea_summary :: "pubdata \<Rightarrow> int \<Rightarrow> bytes \<Rightarrow> bytes \<Rightarrow> pubdata" where
  "pangea_summary dp type arg0 arg1 =
     dp\<lparr>summary := append_bits (append_bits (append_bits (summary dp) [word_of_int type]) arg0) arg1\<rparr>"

text \<open>The sizes of the two arguments, by entry type; \<open>valA\<close> is the first argument.\<close>

definition summary_size0 :: "u8 \<Rightarrow> nat" where
  "summary_size0 type =
     (if uint type = CARDS777_START \<or> uint type = CARDS777_SNAPSHOT then 4
      else if uint type = CARDS777_CHANGES then 4
      else if uint type = CARDS777_RAKES then 8
      else if uint type = CARDS777_FACEUP then 2
      else 1)"

definition summary_size1 :: "u8 \<Rightarrow> bytes \<Rightarrow> nat" where
  "summary_size1 type arg0 =
     (if uint type = CARDS777_FACEUP then 32
      else if uint type = CARDS777_START then 32 * (52 + 1)
      else if uint type = CARDS777_SNAPSHOT then 8 * CARDS777_MAXPLAYERS
      else if uint type = CARDS777_CHANGES then 8 * nat (le_int arg0 mod 16)
      else 8)"

text \<open>\<^verbatim>\<open>*valAp\<close>: \<^verbatim>\<open>handid\<close> is an \<^verbatim>\<open>int32_t\<close> and is sign-extended, the others are unsigned.\<close>

definition summary_valA :: "u8 \<Rightarrow> bytes \<Rightarrow> int" where
  "summary_valA type arg0 =
     (if uint type = CARDS777_START \<or> uint type = CARDS777_SNAPSHOT
      then as_u64 ((le_int arg0 + 2 ^ 31) mod 2 ^ 32 - 2 ^ 31) else le_int arg0)"

record summary_item =
  item_type :: u8
  item_valA :: int
  item_bits64 :: bytes
  item_card :: bytes

text \<open>\<open>None\<close> is the return value \<open>-1\<close>; otherwise the new position and the outputs.\<close>

definition pangea_parsesummary :: "bytes \<Rightarrow> nat \<Rightarrow> (nat \<times> summary_item) option" where
  "pangea_parsesummary log len =
     (let type = read_bits log len 1 ! 0; len = len + 1
      in if type = 0 then None
         else
           let n0 = summary_size0 type;
               arg0 = read_bits log len n0;
               len = len + n0;
               n1 = summary_size1 type arg0;
               arg1 = read_bits log len n1;
               zero = replicate 8 0
           in Some (len + n1, \<lparr>item_type = type, item_valA = summary_valA type arg0,
                item_bits64 = (if uint type = CARDS777_FACEUP then zero else buf_write 0 arg1 zero),
                item_card = (if uint type = CARDS777_FACEUP then arg1 else replicate 32 0)\<rparr>))"

text \<open>
  The loop of \<^verbatim>\<open>pangea_dispsummary\<close> over the first \<open>summarysize\<close> bytes of the array. The code
  ignores the error return of the parser; \<open>None\<close> marks the run that hits it.
\<close>

function parse_items :: "bytes \<Rightarrow> nat \<Rightarrow> nat \<Rightarrow> summary_item list option" where
  "parse_items log summarysize len =
     (if len < summarysize then
        (case pangea_parsesummary log len of
           None \<Rightarrow> None
         | Some (len', item) \<Rightarrow>
             (case parse_items log summarysize len' of None \<Rightarrow> None | Some items \<Rightarrow> Some (item # items)))
      else Some [])"
  by pat_completeness auto

termination parse_items
  by (relation "measure (\<lambda>(log, summarysize, len). summarysize - len)")
    (auto simp: pangea_parsesummary_def Let_def split: if_splits)

declare parse_items.simps [simp del]

section \<open>What the table logs\<close>

text \<open>
  The entries by what they stand for, with the arguments as the places that log them pass them:
  the start of a hand with its number and the 53 public keys (\<^verbatim>\<open>pangea_newhand\<close>), the balances
  at its start (\<^verbatim>\<open>pangea_startbets\<close>), a card shown by a player or, with 255, a community card
  (\<^verbatim>\<open>pangea_faceup\<close>), the balances at its end with the number of players in the low four bits of
  the changes, the rakes (\<^verbatim>\<open>pangea_finish\<close>), and a fold, a bet or a share of the pot of a player
  (\<^verbatim>\<open>pangea_fold\<close>, \<^verbatim>\<open>pangea_bet\<close>, \<^verbatim>\<open>pangea_splitpot\<close>).
\<close>

datatype summary_event =
    HandStart int "bytes list"
  | BalanceSnapshot int "int list"
  | CardShown nat nat bytes
  | HandChanges int "int list"
  | HandRakes int int
  | PlayerAction int nat int

fun event_call :: "summary_event \<Rightarrow> int \<times> bytes \<times> bytes" where
  "event_call (HandStart handid pubs) = (CARDS777_START, le_bytes 4 handid, concat pubs)"
| "event_call (BalanceSnapshot handid bals) = (CARDS777_SNAPSHOT, le_bytes 4 handid, concat (map (le_bytes 8) bals))"
| "event_call (CardShown cardno player priv) = (CARDS777_FACEUP, le_bytes 2 (int (cardno * 256 + player)), priv)"
| "event_call (HandChanges changes bals) = (CARDS777_CHANGES, le_bytes 4 changes, concat (map (le_bytes 8) bals))"
| "event_call (HandRakes rake prake) = (CARDS777_RAKES, le_bytes 8 rake, le_bytes 8 prake)"
| "event_call (PlayerAction action player amount) = (action, [word_of_nat player], le_bytes 8 amount)"

fun event_ok :: "summary_event \<Rightarrow> bool" where
  "event_ok (HandStart handid pubs) \<longleftrightarrow> - (2 ^ 31) \<le> handid \<and> handid < 2 ^ 31 \<and> length pubs = 53
     \<and> list_all (\<lambda>k. length k = 32) pubs"
| "event_ok (BalanceSnapshot handid bals) \<longleftrightarrow> - (2 ^ 31) \<le> handid \<and> handid < 2 ^ 31 \<and> length bals = 9"
| "event_ok (CardShown cardno player priv) \<longleftrightarrow> cardno < 256 \<and> player < 256 \<and> length priv = 32"
| "event_ok (HandChanges changes bals) \<longleftrightarrow> 0 \<le> changes \<and> changes < 2 ^ 32 \<and> changes mod 16 = int (length bals)"
| "event_ok (HandRakes rake prake) \<longleftrightarrow> 0 \<le> rake \<and> rake < 2 ^ 64"
| "event_ok (PlayerAction action player amount) \<longleftrightarrow> action \<in> {- 1, 2, 3, 4, 5, 6, 7, 8, 9, 10, 11, 13} \<and> player < 256"

text \<open>
  The outputs of the parser for an event, with the numbers that were logged: the type, the first
  value as a \<^verbatim>\<open>uint64_t\<close>, the 64-bit words (the first one cleared when there are none) and the card.
\<close>

fun event_item :: "summary_event \<Rightarrow> summary_item" where
  "event_item (HandStart handid pubs) =
     \<lparr>item_type = 1, item_valA = handid mod 2 ^ 64, item_bits64 = concat pubs, item_card = replicate 32 0\<rparr>"
| "event_item (BalanceSnapshot handid bals) =
     \<lparr>item_type = 16, item_valA = handid mod 2 ^ 64, item_bits64 = concat (map (le_bytes 8) bals), item_card = replicate 32 0\<rparr>"
| "event_item (CardShown cardno player priv) =
     \<lparr>item_type = 12, item_valA = int (cardno * 256 + player), item_bits64 = replicate 8 0, item_card = priv\<rparr>"
| "event_item (HandChanges changes bals) =
     \<lparr>item_type = 15, item_valA = changes,
      item_bits64 = (if bals = [] then replicate 8 0 else concat (map (le_bytes 8) bals)), item_card = replicate 32 0\<rparr>"
| "event_item (HandRakes rake prake) =
     \<lparr>item_type = 14, item_valA = rake, item_bits64 = le_bytes 8 prake, item_card = replicate 32 0\<rparr>"
| "event_item (PlayerAction action player amount) =
     \<lparr>item_type = word_of_int action, item_valA = int player, item_bits64 = le_bytes 8 amount, item_card = replicate 32 0\<rparr>"

definition log_event :: "pubdata \<Rightarrow> summary_event \<Rightarrow> pubdata" where
  "log_event dp e = (case event_call e of (type, arg0, arg1) \<Rightarrow> pangea_summary dp type arg0 arg1)"

section \<open>Reading an entry back\<close>

text \<open>An entry whose arguments have the sizes of its type.\<close>

definition entry_wf :: "u8 \<times> bytes \<times> bytes \<Rightarrow> bool" where
  "entry_wf = (\<lambda>(type, arg0, arg1). type \<noteq> 0 \<and> length arg0 = summary_size0 type
     \<and> length arg1 = summary_size1 type arg0)"

definition entry_bytes :: "u8 \<times> bytes \<times> bytes \<Rightarrow> bytes" where
  "entry_bytes = (\<lambda>(type, arg0, arg1). type # arg0 @ arg1)"

definition entry_item :: "u8 \<times> bytes \<times> bytes \<Rightarrow> summary_item" where
  "entry_item = (\<lambda>(type, arg0, arg1).
     \<lparr>item_type = type, item_valA = summary_valA type arg0,
      item_bits64 = (if uint type = CARDS777_FACEUP then replicate 8 0
                     else buf_write 0 arg1 (replicate 8 0)),
      item_card = (if uint type = CARDS777_FACEUP then arg1 else replicate 32 0)\<rparr>)"

lemma summary_pangea_summary:
  "summary (pangea_summary dp type arg0 arg1) = summary dp @ entry_bytes (word_of_int type, arg0, arg1)"
  by (simp add: pangea_summary_def append_bits_eq entry_bytes_def)

lemma pangea_parsesummary_entry:
  assumes "entry_wf e"
  shows "pangea_parsesummary (pre @ entry_bytes e @ post) (length pre) =
    Some (length pre + length (entry_bytes e), entry_item e)"
proof -
  obtain type arg0 arg1 where e: "e = (type, arg0, arg1)" by (cases e)
  have t: "read_bits (pre @ entry_bytes e @ post) (length pre) 1 ! 0 = type"
    by (simp add: read_bits_eq e entry_bytes_def)
  have 0: "read_bits (pre @ entry_bytes e @ post) (length pre + 1) (summary_size0 type) = arg0"
    using assms by (simp add: read_bits_eq e entry_bytes_def entry_wf_def)
  have 1: "read_bits (pre @ entry_bytes e @ post) (length pre + 1 + summary_size0 type)
      (summary_size1 type arg0) = arg1"
    using assms by (simp add: read_bits_eq e entry_bytes_def entry_wf_def)
  show ?thesis
    using assms unfolding pangea_parsesummary_def Let_def t 0 1
    by (simp add: e entry_bytes_def entry_wf_def entry_item_def)
qed

lemma parse_items_entries:
  assumes "list_all entry_wf es"
  shows "parse_items (pre @ concat (map entry_bytes es) @ post) (length (pre @ concat (map entry_bytes es))) (length pre)
    = Some (map entry_item es)"
  using assms
proof (induction es arbitrary: pre)
  case Nil
  then show ?case by (simp add: parse_items.simps)
next
  case (Cons e es)
  let ?rest = "concat (map entry_bytes es)"
  have "parse_items (pre @ entry_bytes e @ ?rest @ post) (length (pre @ entry_bytes e @ ?rest)) (length pre + length (entry_bytes e))
    = Some (map entry_item es)"
    using Cons.IH [of "pre @ entry_bytes e"] Cons.prems by simp
  moreover have "entry_bytes e \<noteq> []" by (cases e) (simp add: entry_bytes_def)
  ultimately show ?case
    using pangea_parsesummary_entry [of e pre "?rest @ post"] Cons.prems
    by (subst parse_items.simps) simp
qed

text \<open>Every event is written with the sizes the parser expects and read back with its own values.\<close>

definition event_entry :: "summary_event \<Rightarrow> u8 \<times> bytes \<times> bytes" where
  "event_entry e = (case event_call e of (type, arg0, arg1) \<Rightarrow> (word_of_int type, arg0, arg1))"

lemma summary_log_event: "summary (log_event dp e) = summary dp @ entry_bytes (event_entry e)"
  by (simp add: log_event_def event_entry_def summary_pangea_summary split: prod.split)

lemma length_concat_le_bytes: "length (concat (map (le_bytes n) xs)) = n * length xs"
  by (induction xs) simp_all

lemma handid_signed: "- (2 ^ 31) \<le> h \<Longrightarrow> h < 2 ^ 31 \<Longrightarrow> as_u64 ((le_int (le_bytes 4 h) + 2 ^ 31) mod 2 ^ 32 - 2 ^ 31) = h mod 2 ^ 64"
  by (simp add: le_int_le_bytes as_u64_def mod_simps)

lemma event_entry_ok:
  assumes "event_ok e"
  shows "entry_wf (event_entry e)" "entry_item (event_entry e) = event_item e"
proof -
  have "entry_wf (event_entry e) \<and> entry_item (event_entry e) = event_item e"
  proof (cases e)
    case (HandStart handid pubs)
    then have l: "length (concat pubs) = 32 * 53"
      using assms by (auto simp: length_concat list_all_iff sum_list_triv cong: map_cong)
    with HandStart assms show ?thesis
      by (simp add: event_entry_def entry_wf_def entry_item_def summary_size0_def summary_size1_def summary_valA_def
          action_defs handid_signed [simplified] buf_write_def)
  next
    case (BalanceSnapshot handid bals)
    with assms show ?thesis
      by (simp add: event_entry_def entry_wf_def entry_item_def summary_size0_def summary_size1_def summary_valA_def
          action_defs handid_signed [simplified] length_concat_le_bytes buf_write_def CARDS777_MAXPLAYERS_def)
  next
    case (CardShown cardno player priv)
    with assms show ?thesis
      by (simp add: event_entry_def entry_wf_def entry_item_def summary_size0_def summary_size1_def summary_valA_def
          action_defs le_int_le_bytes)
  next
    case (HandChanges changes bals)
    with assms show ?thesis
      by (auto simp: event_entry_def entry_wf_def entry_item_def summary_size0_def summary_size1_def summary_valA_def
          action_defs le_int_le_bytes length_concat_le_bytes buf_write_def Suc_le_eq)
  next
    case (HandRakes rake prake)
    with assms show ?thesis
      by (simp add: event_entry_def entry_wf_def entry_item_def summary_size0_def summary_size1_def summary_valA_def
          action_defs le_int_le_bytes buf_write_def)
  next
    case (PlayerAction action player amount)
    then have "uint (word_of_nat player :: u8) = int player" using assms by (simp add: uint_nat unat_of_nat)
    moreover have "uint (- 1 :: u8) = 255" by (simp add: unsigned_minus_1_eq_mask mask_eq_exp_minus_1)
    ultimately show ?thesis using PlayerAction assms
      by (auto simp: event_entry_def entry_wf_def entry_item_def summary_size0_def summary_size1_def summary_valA_def
          action_defs buf_write_def)
  qed
  then show "entry_wf (event_entry e)" "entry_item (event_entry e) = event_item e" by simp_all
qed

section \<open>Properties\<close>

text \<open>
  C21. Reading a log back: whatever sequence of events a hand logs with \<^verbatim>\<open>pangea_summary\<close>
  into the empty log, as long as it fits into the array of 65536 bytes, parsing the array up to the size
  of the log returns exactly these events, in order, each with the type and the numbers that were
  logged: a hand number as a signed number, a card number and player, the changes, the rakes, the
  player and the amount, the balances, the public keys and the card.
\<close>

theorem pangea_summary_roundtrip:
  assumes "list_all event_ok events" "summary dp = []"
    and "\<not> summary_overrun (foldl log_event dp events)"
  shows "parse_items (summary_array (foldl log_event dp events)) (length (summary (foldl log_event dp events))) 0
    = Some (map event_item events)"
proof -
  let ?log = "concat (map entry_bytes (map event_entry events))"
  have "summary (foldl log_event d es) = summary d @ concat (map entry_bytes (map event_entry es))" for d es
    by (induction es arbitrary: d) (auto simp: summary_log_event)
  then have log: "summary (foldl log_event dp events) = ?log" using assms(2) by simp
  then have "summary_array (foldl log_event dp events) = ?log @ replicate (SUMMARY_SIZE - length ?log) 0"
    using assms(3) by (simp add: summary_array_def summary_overrun_def min_def)
  moreover have "list_all entry_wf (map event_entry events)"
    using assms(1) by (auto simp: list_all_iff event_entry_ok)
  moreover have "map entry_item (map event_entry events) = map event_item events"
    using assms(1) by (auto simp: list_all_iff event_entry_ok)
  ultimately show ?thesis
    using parse_items_entries [of "map event_entry events" "[]"] unfolding log by simp
qed

theorem pangea_summary_roundtrip_witness:
  "let dp = foldl log_event witness_pubdata [PlayerAction 6 1 40, CardShown 4 255 (replicate 32 7), HandRakes 77 5]
   in parse_items (summary_array dp) (length (summary dp)) 0
    = Some [\<lparr>item_type = 6, item_valA = 1, item_bits64 = le_bytes 8 40, item_card = replicate 32 0\<rparr>,
        \<lparr>item_type = 12, item_valA = 1279, item_bits64 = replicate 8 0, item_card = replicate 32 7\<rparr>,
        \<lparr>item_type = 14, item_valA = 77, item_bits64 = le_bytes 8 5, item_card = replicate 32 0\<rparr>]"
proof -
  let ?es = "[PlayerAction 6 1 40, CardShown 4 255 (replicate 32 7), HandRakes 77 5]"
  have "\<not> summary_overrun (foldl log_event witness_pubdata ?es)"
    by (simp add: summary_overrun_def SUMMARY_SIZE_def summary_log_event event_entry_def entry_bytes_def witness_pubdata_def)
  from pangea_summary_roundtrip [OF _ _ this] show ?thesis by (simp add: witness_pubdata_def)
qed

end
