(* ===== verification/PangeaBetting.thy ===== *)
theory PangeaBetting
  imports PangeaSummary
begin

text \<open>
  Betting (\<^verbatim>\<open>src/plugins/games/pangea/pangeafunds.c\<close>): folding, betting, antes, blinds and
  buy-ins. Balances are kept by seat, bets by turn; \<^verbatim>\<open>pangea_bet\<close> files the bet under the
  seat number, so the two have to agree. Amounts are 64-bit, signed and unsigned
  where the code has them so; theorems about sums ask for totals below \<open>2 ^ 63\<close>.
\<close>

section \<open>Operations\<close>

definition pangea_fold :: "pubdata \<Rightarrow> nat \<Rightarrow> pubdata" where
  "pangea_fold dp player =
     (let h = hand dp;
          h = h\<lparr>handmask := handmask h OR push_bit player 1,
                betstatus := (betstatus h)[player := CARDS777_FOLD],
                actions := (actions h)[player := CARDS777_FOLD]\<rparr>
      in pangea_summary (dp\<lparr>hand := h\<rparr>) CARDS777_FOLD [word_of_nat player]
           (le_bytes 8 (bets h ! player)))"

definition pangea_totalbet :: "pubdata \<Rightarrow> int" where
  "pangea_totalbet dp = foldl (\<lambda>acc j. as_u64 (acc + bets (hand dp) ! j)) 0 [0..<N_players dp]"

text \<open>The number of players still in the hand, and the first of them or \<open>-1\<close>.\<close>

definition pangea_actives :: "pubdata \<Rightarrow> nat \<times> int" where
  "pangea_actives dp =
     foldl (\<lambda>(n, activej) i.
         if betstatus (hand dp) ! i \<noteq> CARDS777_FOLD
         then (n + 1, if activej < 0 then int i else activej) else (n, activej))
       (0, -1) [0..<N_players dp]"

text \<open>The all-in and clipping step: the hand, the bet and the action that go on.\<close>

definition bet_adjust :: "handinfo \<Rightarrow> nat \<Rightarrow> int \<Rightarrow> int \<Rightarrow> int \<Rightarrow> handinfo \<times> int \<times> int" where
  "bet_adjust h player bal bet action =
     (if bet > 0 \<and> bet \<ge> bal
      then (h\<lparr>betstatus := (betstatus h)[player := CARDS777_ALLIN]\<rparr>, bal, CARDS777_ALLIN)
      else if bet > betsize h \<and> bet > lastraise h \<and> bet < as_s64 (2 * lastraise h)
      then (h, lastraise h, CARDS777_RAISE)
      else (h, bet, action))"

text \<open>The bookkeeping of raises; \<open>sumbet\<close> is the player's bet so far.\<close>

definition bet_raise :: "handinfo \<Rightarrow> nat \<Rightarrow> int \<Rightarrow> int \<Rightarrow> int \<Rightarrow> handinfo \<times> int" where
  "bet_raise h player sumbet bet action =
     (let (h, action) =
            (if bet \<ge> as_s64 (2 * lastraise h)
             then (h\<lparr>lastraise := bet, numactions := 0\<rparr>,
                   if action = CARDS777_CHECK then CARDS777_FULLRAISE else action)
             else (h, action));
          sumbet = as_u64 (sumbet + bet);
          (h, action) =
            (if sumbet > as_u64 (betsize h)
             then let h = h\<lparr>numactions := 0, betsize := as_s64 sumbet, lastbettor := player\<rparr>
                  in if sumbet > as_u64 (lastraise h) \<and> action = CARDS777_ALLIN
                     then (h\<lparr>lastraise := as_s64 sumbet\<rparr>, action)
                     else if action = CARDS777_CHECK then (h, CARDS777_BET) else (h, action)
             else (h, action))
      in (h, if bet > 0 \<and> action = CARDS777_CHECK then CARDS777_CALL else action))"

text \<open>Moving the money: from the balance of the seat to the bet filed under the seat number.\<close>

definition bet_transfer :: "pubdata \<Rightarrow> nat \<Rightarrow> int \<Rightarrow> pubdata" where
  "bet_transfer dp slot bet =
     dp\<lparr>table := (table dp)\<lparr>balances :=
          (balances (table dp))[slot := as_s64 (balances (table dp) ! slot - bet)]\<rparr>,
        hand := (hand dp)\<lparr>bets := (bets (hand dp))[slot := as_s64 (bets (hand dp) ! slot + bet)]\<rparr>\<rparr>"

definition pangea_bet :: "pubdata \<Rightarrow> nat \<Rightarrow> int \<Rightarrow> int \<Rightarrow> pubdata \<times> int" where
  "pangea_bet dp player bet action =
     (let player = player mod N_players dp;
          slot = nat (pangea_slot (table dp) player)
      in if betstatus (hand dp) ! player = CARDS777_ALLIN then (dp, CARDS777_ALLIN)
         else if betstatus (hand dp) ! player = CARDS777_FOLD then (dp, CARDS777_FOLD)
         else
           let (h, bet, action) =
                 bet_adjust (hand dp) player (balances (table dp) ! slot) bet action;
               sumbet = as_u64 (bets h ! player)
           in if as_u64 (sumbet + bet) < as_u64 (betsize h) \<and> action \<noteq> CARDS777_ALLIN
              then (pangea_fold (dp\<lparr>hand := h\<rparr>) player, CARDS777_FOLD)
              else
                let (h, action) = bet_raise h player sumbet bet action;
                    dp = pangea_summary (dp\<lparr>hand := h\<rparr>) action [word_of_nat player] (le_bytes 8 bet)
                in (bet_transfer dp slot bet, action))"

text \<open>
  \<^verbatim>\<open>pangea_antes\<close>: log the balances, fold those without funds, collect the antes, find the
  players who can pay the blinds (folding the others on the way) and post the blinds.
\<close>

definition antes_snapshot :: "pubdata \<Rightarrow> pubdata" where
  "antes_snapshot dp =
     (let dp = dp\<lparr>snapshot := buf_write 0 (take (numaddrs (table dp)) (balances (table dp))) (snapshot dp)\<rparr>
      in pangea_summary dp CARDS777_SNAPSHOT (le_bytes 4 (int (numhands dp) - 1))
           (concat (map (le_bytes 8) (snapshot dp))))"

definition antes_foldbroke :: "pubdata \<Rightarrow> pubdata" where
  "antes_foldbroke dp =
     foldl (\<lambda>dp i. if balances (table dp) ! nat (pangea_slot (table dp) i) \<le> 0 then pangea_fold dp i else dp)
       dp [0..<N_players dp]"

definition antes_collect :: "pubdata \<Rightarrow> pubdata" where
  "antes_collect dp =
     (if ante dp \<noteq> 0 then
        foldl (\<lambda>dp i.
            if i \<noteq> button dp \<and> i \<noteq> (button dp + 1) mod N_players dp
            then if as_u64 (balances (table dp) ! nat (pangea_slot (table dp) i)) < ante dp
                 then pangea_fold dp i
                 else fst (pangea_bet dp i (as_s64 (ante dp)) CARDS777_ANTE)
            else dp)
          dp [0..<N_players dp]
      else dp)"

definition blind_threshold :: "pubdata \<Rightarrow> nat \<Rightarrow> int" where
  "blind_threshold dp n =
     (if n = 0 then as_u64 (bigblind dp div 2 - 1) else if n = 1 then as_u64 (bigblind dp - 1) else 0)"

definition antes_actives :: "pubdata \<Rightarrow> pubdata \<times> nat list" where
  "antes_actives dp =
     foldl (\<lambda>(dp, acts) i.
         let j = (1 + button dp + i) mod N_players dp
         in if as_u64 (balances (table dp) ! nat (pangea_slot (table dp) j)) > blind_threshold dp (length acts)
            then (dp, acts @ [j]) else (pangea_fold dp j, acts))
       (dp, []) [0..<N_players dp]"

definition pangea_antes :: "pubdata \<Rightarrow> pubdata" where
  "pangea_antes dp =
     (let (dp, acts) = antes_actives (antes_collect (antes_foldbroke (antes_snapshot dp)))
      in if length acts < 2 then dp
         else
           let dp = fst (pangea_bet dp (acts ! 0) (as_s64 (bigblind dp div 2)) CARDS777_SMALLBLIND);
               dp = dp\<lparr>button := (acts ! 0 + N_players dp - 1) mod N_players dp\<rparr>
           in fst (pangea_bet dp (acts ! 1) (as_s64 (bigblind dp)) CARDS777_BIGBLIND))"

definition pangea_checkantes :: "pubdata \<Rightarrow> pubdata" where
  "pangea_checkantes dp =
     (if list_all (\<lambda>i. bets (hand dp) ! i = 0) [0..<N_players dp] \<and> checkprod (hand dp) \<noteq> 0
      then pangea_antes dp else dp)"

text \<open>
  \<^verbatim>\<open>pangea_addfunds\<close>; \<open>amount\<close> is the value taken from the message. The record of the
  buy-in transaction is not part of the table state here.
\<close>

definition pangea_addfunds :: "pubdata \<Rightarrow> nat \<Rightarrow> int \<Rightarrow> pubdata" where
  "pangea_addfunds dp senderind amount =
     (let slot = nat (pangea_slot (table dp) senderind);
          dp = (if balances (table dp) ! slot = 0
                then dp\<lparr>table := (table dp)\<lparr>balances := (balances (table dp))[slot := as_s64 amount]\<rparr>\<rparr>
                else dp)
      in pangea_checkantes dp)"

section \<open>Where the money is\<close>

text \<open>A hand with all amounts non-negative and a total that fits the signed range.\<close>

definition total_money :: "pubdata \<Rightarrow> int" where
  "total_money dp = sum_list (balances (table dp)) + sum_list (bets (hand dp))"

definition money_wf :: "pubdata \<Rightarrow> bool" where
  "money_wf dp \<longleftrightarrow> table_wf (table dp) \<and> 0 < N_players dp \<and> N_players dp = numactive (table dp)
     \<and> length (bets (hand dp)) = CARDS777_MAXPLAYERS
     \<and> length (betstatus (hand dp)) = CARDS777_MAXPLAYERS
     \<and> list_all (\<lambda>b. 0 \<le> b) (balances (table dp)) \<and> list_all (\<lambda>b. 0 \<le> b) (bets (hand dp))
     \<and> 0 \<le> lastraise (hand dp) \<and> lastraise (hand dp) < 2 ^ 62
     \<and> total_money dp < 2 ^ 62"

lemma sum_list_nonneg_nth:
  fixes xs :: "int list"
  shows "list_all (\<lambda>b. 0 \<le> b) xs \<Longrightarrow> i < length xs \<Longrightarrow> 0 \<le> xs ! i \<and> xs ! i \<le> sum_list xs"
proof (induction xs arbitrary: i)
  case (Cons x xs)
  then have "0 \<le> sum_list xs" by (auto simp: list_all_iff intro: sum_list_nonneg)
  then show ?case using Cons by (cases i) fastforce+
qed simp


lemma money_wf_slot:
  assumes "money_wf dp"
  shows "i mod N_players dp < numactive (table dp)" "i mod N_players dp < CARDS777_MAXPLAYERS"
    "nat (pangea_slot (table dp) (i mod N_players dp)) < CARDS777_MAXPLAYERS"
proof -
  show p: "i mod N_players dp < numactive (table dp)" using assms by (auto simp: money_wf_def)
  show "i mod N_players dp < CARDS777_MAXPLAYERS"
    "nat (pangea_slot (table dp) (i mod N_players dp)) < CARDS777_MAXPLAYERS"
    using assms p pangea_slot_range(2) [OF _ p] unfolding money_wf_def table_wf_def
    by (meson less_le_trans order_trans)+
qed

lemma money_wf_slot_id [simp]:
  "money_wf dp \<Longrightarrow> j < numactive (table dp) \<Longrightarrow> nat (pangea_slot (table dp) j) < CARDS777_MAXPLAYERS"
  using pangea_slot_range(2) [of "table dp" j] by (auto simp: money_wf_def table_wf_def)

text \<open>What the betting rules read and write of the hand apart from the money.\<close>

lemma bet_adjust_frame:
  assumes "bet_adjust h player bal bet action = (h', bet', action')"
  shows "bets h' = bets h" "betsize h' = betsize h" "lastraise h' = lastraise h"
    "length (betstatus h') = length (betstatus h)"
    "0 \<le> bal \<Longrightarrow> bal < 2 ^ 62 \<Longrightarrow> 0 \<le> lastraise h \<Longrightarrow> lastraise h < 2 ^ 62 \<Longrightarrow> 0 \<le> bet \<Longrightarrow>
      0 \<le> bet' \<and> bet' \<le> bal"
  using assms by (auto simp: bet_adjust_def split: if_splits)

lemma bet_raise_frame:
  assumes "bet_raise h player sumbet bet action = (h', action')"
  shows "bets h' = bets h" "betstatus h' = betstatus h"
    "lastraise h' \<in> {lastraise h, bet, as_s64 (as_u64 (sumbet + bet))}"
  using assms by (auto simp: bet_raise_def Let_def split: if_splits prod.splits)

lemma pangea_summary_frame [simp]:
  "table (pangea_summary dp t a b) = table dp" "hand (pangea_summary dp t a b) = hand dp"
  "N_players (pangea_summary dp t a b) = N_players dp" "button (pangea_summary dp t a b) = button dp"
  "ante (pangea_summary dp t a b) = ante dp" "bigblind (pangea_summary dp t a b) = bigblind dp"
  "snapshot (pangea_summary dp t a b) = snapshot dp" "maxrake (pangea_summary dp t a b) = maxrake dp"
  "hostrake (pangea_summary dp t a b) = hostrake dp" "pangearake (pangea_summary dp t a b) = pangearake dp"
  "rakemillis (pangea_summary dp t a b) = rakemillis dp" "coinstr (pangea_summary dp t a b) = coinstr dp"
  "numhands (pangea_summary dp t a b) = numhands dp" "M_players (pangea_summary dp t a b) = M_players dp"
  "summaries (pangea_summary dp t a b) = summaries dp" "mismatches (pangea_summary dp t a b) = mismatches dp"
  by (simp_all add: pangea_summary_def)

lemma pangea_fold_frame [simp]:
  "table (pangea_fold dp i) = table dp" "bets (hand (pangea_fold dp i)) = bets (hand dp)"
  "N_players (pangea_fold dp i) = N_players dp" "lastraise (hand (pangea_fold dp i)) = lastraise (hand dp)"
  "betstatus (hand (pangea_fold dp i)) = (betstatus (hand dp))[i := CARDS777_FOLD]"
  by (simp_all add: pangea_fold_def Let_def)

lemma money_wf_fold: "money_wf dp \<Longrightarrow> money_wf (pangea_fold dp i) \<and> total_money (pangea_fold dp i) = total_money dp"
  by (simp add: money_wf_def total_money_def)

text \<open>
  One bet, seen as a transfer: nothing moves, or an amount \<open>b\<close> within the player's
  balance goes from the balance to the bet of its seat.
\<close>

lemma pangea_bet_transfer:
  assumes wf: "money_wf dp" and bet: "0 \<le> bet"
    and r: "pangea_bet dp player bet action = (dp', action')"
  defines "slot \<equiv> nat (pangea_slot (table dp) (player mod N_players dp))"
  obtains (none) "balances (table dp') = balances (table dp)" "bets (hand dp') = bets (hand dp)"
      "lastraise (hand dp') = lastraise (hand dp)" "N_players dp' = N_players dp"
      "table dp' = table dp" "length (betstatus (hand dp')) = length (betstatus (hand dp))"
  | (moved) b where "0 \<le> b" "b \<le> balances (table dp) ! slot"
      "table dp' = (table dp)\<lparr>balances := (balances (table dp))[slot := balances (table dp) ! slot - b]\<rparr>"
      "bets (hand dp') = (bets (hand dp))[slot := bets (hand dp) ! slot + b]"
      "0 \<le> lastraise (hand dp')" "lastraise (hand dp') < 2 ^ 62" "N_players dp' = N_players dp"
      "length (betstatus (hand dp')) = length (betstatus (hand dp))"
proof -
  let ?p = "player mod N_players dp" and ?bal = "balances (table dp) ! slot"
  have slot: "slot < CARDS777_MAXPLAYERS" and p: "?p < CARDS777_MAXPLAYERS"
    using money_wf_slot [OF wf] by (simp_all add: slot_def)
  have bal: "0 \<le> ?bal" "?bal \<le> sum_list (balances (table dp))"
    and bs: "0 \<le> bets (hand dp) ! slot" "bets (hand dp) ! slot \<le> sum_list (bets (hand dp))"
    and bp: "0 \<le> bets (hand dp) ! ?p" "bets (hand dp) ! ?p \<le> sum_list (bets (hand dp))"
    using wf slot p sum_list_nonneg_nth [of "balances (table dp)" slot]
      sum_list_nonneg_nth [of "bets (hand dp)" slot] sum_list_nonneg_nth [of "bets (hand dp)" ?p]
    by (auto simp: money_wf_def table_wf_def)
  have tot: "sum_list (balances (table dp)) + sum_list (bets (hand dp)) < 2 ^ 62"
    and lr: "0 \<le> lastraise (hand dp)" "lastraise (hand dp) < 2 ^ 62"
    using wf by (auto simp: money_wf_def total_money_def)
  obtain h b a where adj: "bet_adjust (hand dp) ?p ?bal bet action = (h, b, a)" by (cases "bet_adjust (hand dp) ?p ?bal bet action")
  note fr = bet_adjust_frame [OF adj]
  have b: "0 \<le> b" "b \<le> ?bal" using fr(5) bal bs tot lr bet by linarith+
  obtain h' a' where rs: "bet_raise h ?p (as_u64 (bets h ! ?p)) b a = (h', a')" by (cases "bet_raise h ?p (as_u64 (bets h ! ?p)) b a")
  note fr' = bet_raise_frame [OF rs]
  have "as_u64 (bets h ! ?p) = bets (hand dp) ! ?p" using fr(1) bp bal tot by (simp add: as_u64_def)
  then have "0 \<le> lastraise h'" "lastraise h' < 2 ^ 62"
    using fr'(3) fr(3) lr b bal bp tot by (auto simp: as_u64_def as_s64_def)
  moreover have "as_s64 (?bal - b) = ?bal - b" "as_s64 (bets (hand dp) ! slot + b) = bets (hand dp) ! slot + b"
    using b bal bs tot by (auto intro!: as_s64_id)
  ultimately show ?thesis
    using r adj rs fr fr' none moved [of b] b
    by (auto simp: pangea_bet_def Let_def slot_def [symmetric] bet_transfer_def split: if_splits prod.splits)
qed

lemma money_wf_bet:
  assumes wf: "money_wf dp" and bet: "0 \<le> bet"
    and r: "pangea_bet dp player bet action = (dp', action')"
  shows "money_wf dp' \<and> total_money dp' = total_money dp"
proof (cases rule: pangea_bet_transfer [OF wf bet r, case_names none moved])
  case none
  then show ?thesis using wf by (simp add: money_wf_def total_money_def)
next
  case (moved b)
  let ?s = "nat (pangea_slot (table dp) (player mod N_players dp))"
  have s: "?s < length (balances (table dp))" "?s < length (bets (hand dp))"
    using money_wf_slot [OF wf, of player] wf by (simp_all add: money_wf_def table_wf_def)
  have "sum_list (balances (table dp')) = sum_list (balances (table dp)) - b"
    "sum_list (bets (hand dp')) = sum_list (bets (hand dp)) + b"
    using sum_list_update_add [OF s(1), of "- b"] sum_list_update_add [OF s(2), of b] moved by simp_all
  then have "total_money dp' = total_money dp" by (simp add: total_money_def)
  moreover have "list_all (\<lambda>b. 0 \<le> b) (balances (table dp'))" "list_all (\<lambda>b. 0 \<le> b) (bets (hand dp'))"
    using wf moved s by (auto simp: money_wf_def list_all_length nth_list_update)
  moreover have "table_wf (table dp')" using wf moved by (simp add: money_wf_def table_wf_def)
  ultimately show ?thesis using wf moved by (simp add: money_wf_def)
qed


text \<open>The pot: without overflow it is the sum of the bets of the players of the hand.\<close>

lemma sum_list_take_le:
  fixes xs :: "int list"
  shows "list_all (\<lambda>b. 0 \<le> b) xs \<Longrightarrow> 0 \<le> sum_list (take n xs) \<and> sum_list (take n xs) \<le> sum_list xs"
proof -
  assume nn: "list_all (\<lambda>b. 0 \<le> b) xs"
  have "0 \<le> sum_list (take n xs)" "0 \<le> sum_list (drop n xs)"
    using nn by (auto simp: list_all_iff intro!: sum_list_nonneg dest: in_set_takeD in_set_dropD)
  moreover have "sum_list xs = sum_list (take n xs) + sum_list (drop n xs)"
    by (metis append_take_drop_id sum_list_append)
  ultimately show ?thesis by linarith
qed

lemma foldl_u64_sum:
  fixes xs :: "int list"
  assumes "list_all (\<lambda>b. 0 \<le> b) xs" "sum_list xs < 2 ^ 64" "n \<le> length xs"
  shows "foldl (\<lambda>acc j. as_u64 (acc + xs ! j)) 0 [0..<n] = sum_list (take n xs)"
  using assms(3)
proof (induction n)
  case (Suc n)
  have "sum_list (take (Suc n) xs) = sum_list (take n xs) + xs ! n"
    using Suc.prems by (simp add: take_Suc_conv_app_nth)
  moreover have "0 \<le> sum_list (take (Suc n) xs)" "sum_list (take (Suc n) xs) < 2 ^ 64"
    using sum_list_take_le [OF assms(1), of "Suc n"] assms(2) by linarith+
  ultimately show ?case using Suc by simp
qed simp

lemma pangea_totalbet_sum:
  assumes "money_wf dp"
  shows "pangea_totalbet dp = sum_list (take (N_players dp) (bets (hand dp)))"
proof -
  have "sum_list (bets (hand dp)) < 2 ^ 64"
    using assms sum_list_take_le [of "balances (table dp)" "length (balances (table dp))"]
    by (auto simp: money_wf_def total_money_def)
  then show ?thesis
    using assms by (simp add: pangea_totalbet_def foldl_u64_sum money_wf_def table_wf_def)
qed

lemma sum_list_take_update:
  fixes xs :: "int list"
  assumes "i < length xs"
  shows "sum_list (take n (xs[i := xs ! i + b])) = sum_list (take n xs) + (if i < n then b else 0)"
proof (cases "i < n")
  case True
  then show ?thesis using assms sum_list_update_add [of i "take n xs" b] by (simp add: take_update_swap)
next
  case False
  then show ?thesis by simp
qed

section \<open>Antes and blinds\<close>

text \<open>Every step of the antes keeps the money; \<open>keeps\<close> is what each of them preserves.\<close>

definition keeps :: "pubdata \<Rightarrow> pubdata \<Rightarrow> bool" where
  "keeps dp dp' \<longleftrightarrow> money_wf dp' \<and> total_money dp' = total_money dp \<and> bigblind dp' = bigblind dp
     \<and> ante dp' = ante dp \<and> N_players dp' = N_players dp"

lemma pangea_fold_config [simp]:
  "bigblind (pangea_fold dp i) = bigblind dp" "ante (pangea_fold dp i) = ante dp"
  "button (pangea_fold dp i) = button dp"
  by (simp_all add: pangea_fold_def Let_def)

lemma pangea_bet_config:
  "pangea_bet dp p b a = (dp', a') \<Longrightarrow>
     bigblind dp' = bigblind dp \<and> ante dp' = ante dp \<and> N_players dp' = N_players dp"
  by (auto simp: pangea_bet_def Let_def bet_transfer_def split: if_splits prod.splits)

lemma keeps_fold: "keeps dp0 dp \<Longrightarrow> keeps dp0 (pangea_fold dp i)"
  by (auto simp: keeps_def money_wf_fold)

lemma keeps_bet: "keeps dp0 dp \<Longrightarrow> 0 \<le> b \<Longrightarrow> keeps dp0 (fst (pangea_bet dp p b a))"
  using money_wf_bet [of dp b p a] pangea_bet_config [of dp p b a]
  by (cases "pangea_bet dp p b a") (auto simp: keeps_def)

lemma keeps_refl: "money_wf dp \<Longrightarrow> keeps dp dp"
  by (simp add: keeps_def)

lemma keeps_snapshot: "keeps dp0 dp \<Longrightarrow> keeps dp0 (antes_snapshot dp)"
  by (simp add: keeps_def antes_snapshot_def Let_def money_wf_def total_money_def)

lemma keeps_foldbroke: "keeps dp0 dp \<Longrightarrow> keeps dp0 (antes_foldbroke dp)"
  unfolding antes_foldbroke_def by (rule foldl_invariant) (auto intro: keeps_fold)

lemma keeps_collect:
  assumes "keeps dp0 dp" "0 \<le> ante dp0" "ante dp0 < 2 ^ 63"
  shows "keeps dp0 (antes_collect dp)"
proof -
  have step: "keeps dp0 (if P then if Q then pangea_fold d i else fst (pangea_bet d i (as_s64 (ante d)) a) else d)"
    if d: "keeps dp0 d" for P Q d i a
  proof -
    have "0 \<le> as_s64 (ante d)" using d assms by (simp add: keeps_def)
    then show ?thesis using d by (simp add: keeps_fold keeps_bet)
  qed
  show ?thesis
  proof (cases "ante dp = 0")
    case False
    then show ?thesis
      unfolding antes_collect_def using assms(1) step by (simp only: if_True not_False_eq_True) (rule foldl_invariant)
  qed (use assms in \<open>simp add: antes_collect_def\<close>)
qed

lemma keeps_actives: "keeps dp0 dp \<Longrightarrow> keeps dp0 (fst (antes_actives dp))"
  unfolding antes_actives_def
  by (rule foldl_invariant [where I = "\<lambda>s. keeps dp0 (fst s)"])
    (auto simp: Let_def intro: keeps_fold split: prod.splits)

lemma keeps_button: "keeps dp0 dp \<Longrightarrow> keeps dp0 (dp\<lparr>button := b\<rparr>)"
  by (simp add: keeps_def money_wf_def total_money_def)

lemma keeps_antes:
  assumes "money_wf dp" "0 \<le> ante dp" "ante dp < 2 ^ 63" "0 \<le> bigblind dp" "bigblind dp < 2 ^ 63"
  shows "keeps dp (pangea_antes dp)"
proof -
  obtain d acts where da: "antes_actives (antes_collect (antes_foldbroke (antes_snapshot dp))) = (d, acts)"
    by fastforce
  have d: "keeps dp d"
    using keeps_actives [of dp "antes_collect (antes_foldbroke (antes_snapshot dp))"] da assms
    by (simp add: keeps_collect keeps_foldbroke keeps_snapshot keeps_refl)
  have bb: "0 \<le> as_s64 (bigblind e div 2)" "0 \<le> as_s64 (bigblind e)" if "keeps dp e" for e
    using that assms by (simp_all add: keeps_def)
  show ?thesis
    unfolding pangea_antes_def da using d bb
    by (auto simp: Let_def intro!: keeps_bet keeps_button)
qed

section \<open>Properties\<close>

text \<open>
  C2. A bet never creates or destroys money: in a hand with non-negative amounts, a
  non-negative bet moves an amount the player has from its balance to the bets, leaves
  every other balance alone and keeps the hand well formed, whether the bet is a call, a
  raise, all-in, clipped or turned into a fold.
\<close>

theorem pangea_bet_conserves:
  assumes "money_wf dp" "0 \<le> bet" and "pangea_bet dp player bet action = (dp', action')"
  shows "money_wf dp' \<and> total_money dp' = total_money dp
    \<and> (let slot = nat (pangea_slot (table dp) (player mod N_players dp))
       in (\<forall>s. s \<noteq> slot \<longrightarrow> balances (table dp') ! s = balances (table dp) ! s)
          \<and> 0 \<le> balances (table dp') ! slot \<and> balances (table dp') ! slot \<le> balances (table dp) ! slot)"
proof -
  let ?s = "nat (pangea_slot (table dp) (player mod N_players dp))"
  have s: "?s < length (balances (table dp))"
    using money_wf_slot [OF assms(1), of player] assms(1) by (simp add: money_wf_def table_wf_def)
  then have "0 \<le> balances (table dp) ! ?s"
    using assms(1) by (simp add: money_wf_def list_all_length)
  then show ?thesis
    using money_wf_bet [OF assms] s
    by (cases rule: pangea_bet_transfer [OF assms, case_names none moved]) (auto simp: Let_def)
qed

theorem pangea_bet_conserves_witness:
  "money_wf witness_pubdata \<and> total_money (fst (pangea_bet witness_pubdata 1 6 CARDS777_CHECK)) = 60"
proof -
  have wf: "money_wf witness_pubdata" by code_simp
  have "total_money witness_pubdata = 60" by code_simp
  then show ?thesis
    using pangea_bet_conserves [OF wf, of 6 1 CARDS777_CHECK] wf
    by (metis prod.collapse zero_le_numeral)
qed

text \<open>
  Posting antes and blinds keeps the money: whatever players fold for lack of funds,
  the balances and bets after \<^verbatim>\<open>pangea_antes\<close> are non-negative and add up to the same total.
\<close>

lemma pangea_antes_conserves:
  assumes "money_wf dp" "0 \<le> ante dp" "ante dp < 2 ^ 63" "0 \<le> bigblind dp" "bigblind dp < 2 ^ 63"
  shows "money_wf (pangea_antes dp) \<and> total_money (pangea_antes dp) = total_money dp
    \<and> money_wf (pangea_checkantes dp) \<and> total_money (pangea_checkantes dp) = total_money dp"
  using keeps_antes [OF assms] assms(1) by (simp add: keeps_def pangea_checkantes_def)

text \<open>
  When seats and turns agree, the bet reaches the pot: the pot grows by exactly what
  leaves the player's balance.
\<close>

lemma pangea_bet_reaches_pot:
  assumes "money_wf dp" "0 \<le> bet" and "seats_aligned (table dp)"
    and "pangea_bet dp player bet action = (dp', action')"
  shows "pangea_totalbet dp' + balances (table dp') ! (player mod N_players dp)
    = pangea_totalbet dp + balances (table dp) ! (player mod N_players dp)"
proof -
  let ?p = "player mod N_players dp"
  have p: "?p < numactive (table dp)" "?p < CARDS777_MAXPLAYERS" using money_wf_slot [OF assms(1)] by auto
  have slot: "nat (pangea_slot (table dp) ?p) = ?p"
    using aligned_slot [OF _ assms(3) p(1)] assms(1) by (simp add: money_wf_def)
  have wf': "money_wf dp'" using money_wf_bet [OF assms(1,2,4)] by blast
  have len: "?p < length (balances (table dp))" "?p < length (bets (hand dp))" "?p < N_players dp"
    using p assms(1) by (auto simp: money_wf_def table_wf_def)
  show ?thesis
    unfolding pangea_totalbet_sum [OF wf'] pangea_totalbet_sum [OF assms(1)]
    using len sum_list_take_update [OF len(2)]
    by (cases rule: pangea_bet_transfer [OF assms(1,2,4), case_names none moved]) (simp_all add: slot)
qed

definition witness_aligned :: pubdata where
  "witness_aligned = witness_pubdata\<lparr>table := witness_table\<lparr>active := addrs witness_table\<rparr>\<rparr>"

text \<open>A bet that neither folds the player, nor is all-in, nor is clipped moves exactly its amount.\<close>

lemma bet_raise_started: "bet_raise h p sumbet bet a = (h', a') \<Longrightarrow> bets h' = bets h \<and> betstatus h' = betstatus h \<and> betstarted h' = betstarted h"
  by (auto simp: bet_raise_def Let_def split: if_splits prod.splits)

lemma pangea_bet_moves:
  assumes "betstatus (hand dp) ! (player mod N_players dp) \<notin> {CARDS777_FOLD, CARDS777_ALLIN}"
    and "bet_adjust (hand dp) (player mod N_players dp) (balances (table dp) ! slot) bet action = (hand dp, bet, action)"
    and "as_u64 (betsize (hand dp)) \<le> as_u64 (as_u64 (bets (hand dp) ! (player mod N_players dp)) + bet)"
    and slot: "slot = nat (pangea_slot (table dp) (player mod N_players dp))"
  shows "\<exists>dp' action'. pangea_bet dp player bet action = (dp', action')
    \<and> table dp' = (table dp)\<lparr>balances := (balances (table dp))[slot := as_s64 (balances (table dp) ! slot - bet)]\<rparr>
    \<and> bets (hand dp') = (bets (hand dp))[slot := as_s64 (bets (hand dp) ! slot + bet)]
    \<and> betstatus (hand dp') = betstatus (hand dp) \<and> N_players dp' = N_players dp
    \<and> betstarted (hand dp') = betstarted (hand dp)"
proof -
  let ?p = "player mod N_players dp"
  obtain h' a' where rs: "bet_raise (hand dp) ?p (as_u64 (bets (hand dp) ! ?p)) bet action = (h', a')" by fastforce
  have "pangea_bet dp player bet action =
      (bet_transfer (pangea_summary (dp\<lparr>hand := h'\<rparr>) a' [word_of_nat ?p] (le_bytes 8 bet)) slot bet, a')"
    using assms(1,3) rs assms(2) [unfolded slot]
    by (simp add: pangea_bet_def Let_def slot)
  then show ?thesis using bet_raise_started [OF rs] by (simp add: bet_transfer_def)
qed

lemma money_wf_range:
  assumes "money_wf dp" "i < CARDS777_MAXPLAYERS" "j < CARDS777_MAXPLAYERS"
  shows "0 \<le> balances (table dp) ! i" "0 \<le> bets (hand dp) ! j" "balances (table dp) ! i + bets (hand dp) ! j < 2 ^ 62"
  using assms sum_list_nonneg_nth [of "balances (table dp)" i] sum_list_nonneg_nth [of "bets (hand dp)" j]
  by (auto simp: money_wf_def table_wf_def total_money_def)

text \<open>
  C33. When seats and turns do not agree, the bet can leave the table. \<^verbatim>\<open>pangea_bet\<close> files a bet
  under the seat number: if that is not the number of a player of the hand, a bet that meets the
  bet to call, is less than the player's balance and is no raise to be clipped is debited in full from the
  balance, and the pot does not grow.
\<close>

theorem pangea_bet_misses_pot:
  assumes "money_wf dp" "slot = nat (pangea_slot (table dp) (player mod N_players dp))"
    and "int (N_players dp) \<le> pangea_slot (table dp) (player mod N_players dp)"
    and "betstatus (hand dp) ! (player mod N_players dp) \<noteq> CARDS777_FOLD"
    and "betstatus (hand dp) ! (player mod N_players dp) \<noteq> CARDS777_ALLIN"
    and "0 < bet" "bet < balances (table dp) ! slot"
    and "0 \<le> betsize (hand dp)" "betsize (hand dp) \<le> bets (hand dp) ! (player mod N_players dp) + bet"
    and "bet \<le> betsize (hand dp) \<or> 2 * lastraise (hand dp) \<le> bet"
  shows "\<exists>dp' action'. pangea_bet dp player bet action = (dp', action')
    \<and> balances (table dp') ! slot = balances (table dp) ! slot - bet
    \<and> pangea_totalbet dp' = pangea_totalbet dp"
proof -
  let ?p = "player mod N_players dp"
  have p: "slot < CARDS777_MAXPLAYERS" "?p < CARDS777_MAXPLAYERS" using money_wf_slot [OF assms(1), of player] assms(2) by auto
  have len: "slot < length (bets (hand dp))" "slot < length (balances (table dp))"
    using p assms(1) by (auto simp: money_wf_def table_wf_def)
  note rng = money_wf_range [OF assms(1) p]
  have adj: "bet_adjust (hand dp) ?p (balances (table dp) ! slot) bet action = (hand dp, bet, action)"
    using assms(1,7,10) by (auto simp: bet_adjust_def money_wf_def)
  have "as_u64 (betsize (hand dp)) \<le> as_u64 (as_u64 (bets (hand dp) ! ?p) + bet)"
    using rng assms(6-9) by (simp add: as_u64_def)
  from pangea_bet_moves [OF _ adj this assms(2)] assms(4,5) obtain dp' a'
    where r: "pangea_bet dp player bet action = (dp', a')"
      "table dp' = (table dp)\<lparr>balances := (balances (table dp))[slot := as_s64 (balances (table dp) ! slot - bet)]\<rparr>" by auto
  have "0 \<le> bet" using assms(6) by simp
  have wf': "money_wf dp'" using money_wf_bet [OF assms(1) \<open>0 \<le> bet\<close> r(1)] by blast
  have "pangea_totalbet dp' = pangea_totalbet dp"
    unfolding pangea_totalbet_sum [OF wf'] pangea_totalbet_sum [OF assms(1)]
    using assms(2,3) sum_list_take_update [OF len(1)]
    by (cases rule: pangea_bet_transfer [OF assms(1) \<open>0 \<le> bet\<close> r(1), case_names none moved]) simp_all
  moreover have "balances (table dp') ! slot = balances (table dp) ! slot - bet"
    using r(2) len(2) rng assms(6,7) by simp
  ultimately show ?thesis using r(1) by blast
qed

theorem pangea_bet_misses_pot_witness:
  "\<exists>dp' action'. pangea_bet witness_pubdata 1 6 CARDS777_CHECK = (dp', action')
    \<and> balances (table dp') ! 2 = balances (table witness_pubdata) ! 2 - 6
    \<and> pangea_totalbet dp' = pangea_totalbet witness_pubdata"
proof -
  have wf: "money_wf witness_pubdata" by code_simp
  show ?thesis by (rule pangea_bet_misses_pot [OF wf]) code_simp+
qed

text \<open>A negative bet larger than what the player has bet so far passes the check of the bet to call by wrapping round.\<close>

lemma pangea_bet_negative:
  assumes "money_wf dp"
    and "betstatus (hand dp) ! (player mod N_players dp) \<notin> {CARDS777_FOLD, CARDS777_ALLIN}"
    and "bets (hand dp) ! (player mod N_players dp) < k" "k < 2 ^ 62" "0 \<le> betsize (hand dp)" "betsize (hand dp) < 2 ^ 63"
    and slot: "slot = nat (pangea_slot (table dp) (player mod N_players dp))"
  shows "\<exists>dp' action'. pangea_bet dp player (- k) CARDS777_CHECK = (dp', action')
    \<and> table dp' = (table dp)\<lparr>balances := (balances (table dp))[slot := balances (table dp) ! slot + k]\<rparr>
    \<and> betstatus (hand dp') = betstatus (hand dp) \<and> N_players dp' = N_players dp
    \<and> betstarted (hand dp') = betstarted (hand dp)"
proof -
  let ?p = "player mod N_players dp"
  have "slot < CARDS777_MAXPLAYERS" "?p < CARDS777_MAXPLAYERS" using money_wf_slot [OF assms(1), of player] assms(7) by auto
  note rng = money_wf_range [OF assms(1) this]
  have adj: "bet_adjust (hand dp) ?p (balances (table dp) ! slot) (- k) CARDS777_CHECK = (hand dp, - k, CARDS777_CHECK)"
    using assms(1,3,5) rng by (auto simp: bet_adjust_def money_wf_def)
  have "as_u64 (as_u64 (bets (hand dp) ! ?p) + - k) = 2 ^ 64 + (bets (hand dp) ! ?p - k)"
  proof -
    have "as_u64 (as_u64 (bets (hand dp) ! ?p) + - k) = (2 ^ 64 + (bets (hand dp) ! ?p - k)) mod 2 ^ 64"
      by (simp add: as_u64_def mod_simps)
    also have "\<dots> = 2 ^ 64 + (bets (hand dp) ! ?p - k)" using assms(3,4) rng by (intro mod_pos_pos_trivial) simp_all
    finally show ?thesis .
  qed
  then have "as_u64 (betsize (hand dp)) \<le> as_u64 (as_u64 (bets (hand dp) ! ?p) + - k)"
    using assms(3-6) rng by (simp add: as_u64_def)
  from pangea_bet_moves [OF assms(2) adj this slot] show ?thesis
    using rng assms(3,4) by auto
qed

end
