(* ===== verification/PangeaPot.thy ===== *)
theory PangeaPot
  imports PangeaBetting
begin

text \<open>
  Settling a hand (\<^verbatim>\<open>src/plugins/games/pangea/pangeafunds.c\<close>): side pots, the split of a pot
  among the best hands, the rakes, and \<^verbatim>\<open>pangea_finish\<close>, which pays out the hand. Pots and
  payouts are \<^verbatim>\<open>uint64_t\<close>.
\<close>

section \<open>Splitting an amount\<close>

definition PANGEA_MINRAKE_MILLIS :: int where "PANGEA_MINRAKE_MILLIS = 5"
definition SATOSHIDEN :: int where "SATOSHIDEN = 100000000"
definition PANGEA_BTCMAXRAKE :: int where "PANGEA_BTCMAXRAKE = SATOSHIDEN div 100"
definition PANGEA_MAXRAKE :: int where "PANGEA_MAXRAKE = 3 * SATOSHIDEN"

text \<open>\<^verbatim>\<open>pangea_winnings\<close>: the share of each winner, the network's rake and the host's rake.\<close>

definition winnings_split :: "int \<Rightarrow> int \<Rightarrow> int \<Rightarrow> int \<Rightarrow> int \<times> int" where
  "winnings_split pot numwinners rakemil maxrk =
     (if numwinners > 0 then
        let split = as_u64 (pot * as_u64 (1000 - rakemil)) div as_u64 (1000 * numwinners);
            prake = as_u64 (pot - split * numwinners)
        in if prake > maxrk
           then let split = as_u64 (pot - maxrk) div numwinners
                in (split, as_u64 (pot - split * numwinners))
           else (split, prake)
      else (0, pot))"

definition pangea_winnings :: "int \<Rightarrow> int \<Rightarrow> int \<Rightarrow> int \<Rightarrow> int \<times> int \<times> int" where
  "pangea_winnings pot numwinners rakemil maxrk =
     (let (split, prake) = winnings_split pot numwinners rakemil maxrk;
          rake = (if rakemil > PANGEA_MINRAKE_MILLIS
                  then as_u64 (prake * as_u64 (rakemil - PANGEA_MINRAKE_MILLIS)) div rakemil else 0)
      in (split, as_u64 (prake - rake), rake))"

section \<open>Side pots\<close>

text \<open>
  One row of \<^verbatim>\<open>sidepots\<close> is the list of the players' contributions to that pot. A row is cut at
  the smallest contribution of a player still in the hand, as long as such a player
  contributed more; what is cut off is the next row. The loop ends at \<open>N\<close> rows.
\<close>

definition row_minbet :: "int list \<Rightarrow> int list \<Rightarrow> int" where
  "row_minbet status row =
     foldl (\<lambda>minbet j. let bet = row ! j in
         if bet \<noteq> 0 \<and> status ! j \<noteq> CARDS777_FOLD \<and> (minbet = 0 \<or> bet < minbet) then bet else minbet)
       0 [0..<length row]"

definition row_nonz :: "int list \<Rightarrow> int list \<Rightarrow> int \<Rightarrow> nat" where
  "row_nonz status row minbet =
     length (filter (\<lambda>j. row ! j > minbet \<and> status ! j \<noteq> CARDS777_FOLD) [0..<length row])"

fun sidepot_rows :: "nat \<Rightarrow> int list \<Rightarrow> int list \<Rightarrow> int list list" where
  "sidepot_rows 0 status row = []"
| "sidepot_rows (Suc k) status row =
     (let minbet = row_minbet status row
      in if row_nonz status row minbet > 0
         then map (\<lambda>b. if b > minbet then minbet else b) row
              # sidepot_rows k status (map (\<lambda>b. if b > minbet then as_u64 (b - minbet) else 0) row)
         else [row])"

definition pangea_sidepots :: "pubdata \<Rightarrow> int list \<Rightarrow> int list list" where
  "pangea_sidepots dp bs =
     sidepot_rows (Suc (N_players dp - 1)) (betstatus (hand dp)) (map as_u64 (take (N_players dp) bs))"

section \<open>Paying a pot\<close>

definition pot_total :: "int list \<Rightarrow> int" where
  "pot_total sidepot = foldl (\<lambda>acc j. as_u64 (acc + sidepot ! j)) 0 [0..<length sidepot]"

definition splitpot_bestrank :: "handinfo \<Rightarrow> int list \<Rightarrow> nat" where
  "splitpot_bestrank h sidepot =
     foldl (\<lambda>best j. if sidepot ! j \<noteq> 0 \<and> betstatus h ! j \<noteq> CARDS777_FOLD \<and> handranks h ! j > best
                     then handranks h ! j else best) 0 [0..<length sidepot]"

definition splitpot_winners :: "handinfo \<Rightarrow> int list \<Rightarrow> nat list" where
  "splitpot_winners h sidepot =
     filter (\<lambda>j. betstatus h ! j \<noteq> CARDS777_FOLD \<and> sidepot ! j > 0
                 \<and> handranks h ! j = splitpot_bestrank h sidepot) [0..<length sidepot]"

text \<open>The cap on the rake, from the number of players who bet.\<close>

definition splitpot_maxrake :: "pubdata \<Rightarrow> int" where
  "splitpot_maxrake dp =
     (let maxrakes = [0, 0, 1, 2, 2, 3, 3, 3, 3, 3];
          n = length (filter (\<lambda>j. bets (hand dp) ! j > 0) [0..<N_players dp]);
          maxrk = as_u64 (maxrakes ! n * bigblind dp)
      in if maxrk > maxrake dp
         then let maxrk = maxrake dp
              in if coinstr dp = ''BTC'' \<and> maxrk < PANGEA_BTCMAXRAKE then PANGEA_BTCMAXRAKE
                 else if maxrk < PANGEA_MAXRAKE then PANGEA_MAXRAKE else maxrk
         else maxrk)"

definition pay_winner :: "int \<Rightarrow> pubdata \<Rightarrow> nat \<Rightarrow> pubdata" where
  "pay_winner split dp j =
     (let dp = pangea_summary dp CARDS777_WINNINGS [word_of_nat j] (le_bytes 8 split);
          slot = nat (pangea_slot (table dp) j)
      in dp\<lparr>table := (table dp)\<lparr>balances :=
              (balances (table dp))[slot := as_s64 (balances (table dp) ! slot + split)]\<rparr>,
            hand := (hand dp)\<lparr>won := (won (hand dp))[j := as_s64 (won (hand dp) ! j + split)]\<rparr>\<rparr>)"

text \<open>The result is the table after paying, the accumulated network rake and the host's rake.\<close>

definition pangea_splitpot :: "pubdata \<Rightarrow> int \<Rightarrow> int list \<Rightarrow> int \<Rightarrow> pubdata \<times> int \<times> int" where
  "pangea_splitpot dp pangearakep sidepot rakemil =
     (let winners = splitpot_winners (hand dp) sidepot
      in if winners = [] then (dp, pangearakep, 0)
         else
           let (split, prake, rake) =
                 pangea_winnings (pot_total sidepot) (int (length winners)) rakemil (splitpot_maxrake dp)
           in (foldl (pay_winner split) dp winners, as_u64 (pangearakep + prake), as_s64 rake))"

text \<open>Bits of the players who went broke or came back, by turn.\<close>

definition finish_changes :: "pubdata \<Rightarrow> int \<times> int" where
  "finish_changes dp =
     foldl (\<lambda>(busted, rebuy) j.
         let slot = nat (pangea_slot (table dp) j); bal = balances (table dp) ! slot
         in if snapshot dp ! slot > 0 \<and> bal \<le> 0 then (busted + 2 ^ j, rebuy)
            else if snapshot dp ! slot \<le> 0 \<and> bal > 0 then (busted, rebuy + 2 ^ j)
            else (busted, rebuy))
       (0, 0) [0..<N_players dp]"

text \<open>Paying all the side pots in turn, with the accumulated host and network rakes.\<close>

definition finish_pots :: "pubdata \<Rightarrow> int \<Rightarrow> int list list \<Rightarrow> pubdata \<times> int \<times> int" where
  "finish_pots dp rakemil pots =
     foldl (\<lambda>(dp, prake, rake) pot.
         let (dp, prake, r) = pangea_splitpot dp prake pot rakemil
         in (dp, prake, as_u64 (rake + r)))
       (dp, 0, 0) pots"

text \<open>
  \<^verbatim>\<open>pangea_finish\<close> pays the hand once; \<open>now\<close> is the time. The messages it sends and the
  status it prints leave the table alone.
\<close>

definition pangea_finish :: "nat \<Rightarrow> pubdata \<Rightarrow> pubdata" where
  "pangea_finish now dp =
     (if finished (hand dp) = 0 then
        let pots = pangea_sidepots dp (bets (hand dp));
            rakemil = (if community (hand dp) ! 0 = 0xff then 0 else rakemillis dp);
            (dp, prake, rake) = finish_pots dp rakemil pots;
            dp = dp\<lparr>hostrake := as_u64 (hostrake dp + rake), pangearake := as_u64 (pangearake dp + prake),
                    hand := (hand dp)\<lparr>hand_hostrake := as_s64 rake, hand_pangearake := as_s64 prake,
                                      finished := now\<rparr>\<rparr>;
            (busted, rebuy) = finish_changes dp;
            changes = (rebuy mod 2 ^ 16) * 2 ^ 20 + (busted mod 2 ^ 16) * 2 ^ 4 + int (N_players dp) mod 16;
            dp = pangea_summary dp CARDS777_CHANGES (le_bytes 4 changes)
                   (concat (map (\<lambda>j. le_bytes 8 (balances (table dp) ! nat (pangea_slot (table dp) j)))
                      [0..<N_players dp]))
        in pangea_summary dp CARDS777_RAKES (le_bytes 8 rake) (le_bytes 8 prake)
      else dp)"


section \<open>What a split gives\<close>

lemma winnings_split_bounds:
  assumes "0 \<le> pot" "pot * 1000 < 2 ^ 64" "0 < n" "n \<le> 9" "0 \<le> rm" "rm \<le> 1000" "0 \<le> maxrk"
    and r: "winnings_split pot n rm maxrk = (split, prake)"
  shows "0 \<le> split" "0 \<le> prake" "split * n + prake = pot" "prake \<le> maxrk + n - 1"
proof -
  define s where "s = pot * (1000 - rm) div (1000 * n)"
  have "pot * (1000 - rm) \<le> pot * 1000" using assms by (intro mult_left_mono) auto
  then have u: "as_u64 (pot * as_u64 (1000 - rm)) div as_u64 (1000 * n) = s"
    using assms by (simp add: s_def as_u64_def)
  have "s * (1000 * n) \<le> pot * (1000 - rm)"
    using div_mult_mod_eq [of "pot * (1000 - rm)" "1000 * n"]
      pos_mod_sign [of "1000 * n" "pot * (1000 - rm)"] assms(3) unfolding s_def by linarith
  also have "\<dots> \<le> pot * 1000" using assms by (intro mult_left_mono) auto
  finally have s: "0 \<le> s" "s * n \<le> pot" using assms by (auto simp: s_def pos_imp_zdiv_nonneg_iff)
  have "0 \<le> s * n" using s assms by simp
  then have p: "as_u64 (pot - s * n) = pot - s * n" using s assms by (intro as_u64_id) linarith+
  show "0 \<le> split" "0 \<le> prake" "split * n + prake = pot" "prake \<le> maxrk + n - 1"
  proof -
    consider "pot - s * n \<le> maxrk" | "maxrk < pot - s * n" by linarith
    then have "0 \<le> split \<and> 0 \<le> prake \<and> split * n + prake = pot \<and> prake \<le> maxrk + n - 1"
    proof cases
      case 1
      then show ?thesis using r s p assms(3) unfolding winnings_split_def Let_def u by auto
    next
      case 2
      define t where "t = (pot - maxrk) div n"
      have "0 \<le> s * n" using s assms by simp
      then have lt: "maxrk < pot" using 2 by linarith
      then have au: "as_u64 (pot - maxrk) div n = t" using assms by (simp add: t_def)
      have t: "0 \<le> t" "t * n + (pot - maxrk) mod n = pot - maxrk"
        using lt assms(3) by (auto simp: t_def pos_imp_zdiv_nonneg_iff)
      have md: "0 \<le> (pot - maxrk) mod n" "(pot - maxrk) mod n < n" using assms(3) by auto
      have "0 \<le> t * n" using t assms(3) by simp
      then have "as_u64 (pot - t * n) = pot - t * n" using t md assms by (intro as_u64_id) linarith+
      then have eq: "split = t" "prake = pot - t * n"
        using r 2 assms(3) p unfolding winnings_split_def Let_def u au by auto
      show ?thesis unfolding eq using t md assms(3,7) by (intro conjI) linarith+
    qed
    then show "0 \<le> split" "0 \<le> prake" "split * n + prake = pot" "prake \<le> maxrk + n - 1" by auto
  qed
qed

lemma pangea_winnings_bounds:
  assumes "0 \<le> pot" "pot * 1000 < 2 ^ 64" "0 < n" "n \<le> 9" "0 \<le> rm" "rm \<le> 1000" "0 \<le> maxrk"
    and r: "pangea_winnings pot n rm maxrk = (split, prake, rake)"
  shows "0 \<le> split" "0 \<le> prake" "0 \<le> rake" "split * n + prake + rake = pot"
    "prake + rake \<le> maxrk + n - 1"
proof -
  obtain p where sp: "winnings_split pot n rm maxrk = (split, p)"
    using r by (auto simp: pangea_winnings_def Let_def split: prod.splits)
  note b = winnings_split_bounds [OF assms(1-7) sp]
  have p: "0 \<le> p" "p * 1000 < 2 ^ 64"
  proof -
    have "0 \<le> split * n" using b(1) assms(3) by simp
    then show "0 \<le> p" "p * 1000 < 2 ^ 64" using b assms(2) by linarith+
  qed
  have "0 \<le> rake \<and> rake \<le> p \<and> prake = p - rake"
  proof (cases "rm > PANGEA_MINRAKE_MILLIS")
    case True
    have "p * (rm - PANGEA_MINRAKE_MILLIS) \<le> p * rm" "p * rm \<le> p * 1000"
      using p assms True by (auto intro!: mult_left_mono simp: PANGEA_MINRAKE_MILLIS_def)
    then have rk: "as_u64 (p * as_u64 (rm - PANGEA_MINRAKE_MILLIS)) = p * (rm - PANGEA_MINRAKE_MILLIS)"
      using p assms True by (simp add: PANGEA_MINRAKE_MILLIS_def)
    have le: "p * (rm - PANGEA_MINRAKE_MILLIS) div rm \<le> p"
    proof -
      have "p * (rm - PANGEA_MINRAKE_MILLIS) div rm \<le> p * rm div rm"
        using True \<open>p * (rm - PANGEA_MINRAKE_MILLIS) \<le> p * rm\<close>
        by (intro zdiv_mono1) (auto simp: PANGEA_MINRAKE_MILLIS_def)
      then show ?thesis using True by (simp add: PANGEA_MINRAKE_MILLIS_def)
    qed
    moreover have "0 \<le> p * (rm - PANGEA_MINRAKE_MILLIS) div rm"
      using p True by (simp add: pos_imp_zdiv_nonneg_iff PANGEA_MINRAKE_MILLIS_def)
    ultimately show ?thesis using r sp rk True p by (auto simp: pangea_winnings_def Let_def)
  next
    case False
    then show ?thesis using r sp p by (auto simp: pangea_winnings_def)
  qed
  then show "0 \<le> split" "0 \<le> prake" "0 \<le> rake" "split * n + prake + rake = pot"
    "prake + rake \<le> maxrk + n - 1" using b by auto
qed

section \<open>What the side pots are\<close>

text \<open>The players still in the hand who contributed to a row.\<close>

definition contributors :: "int list \<Rightarrow> int list \<Rightarrow> nat set" where
  "contributors status row = {j. j < length row \<and> row ! j > 0 \<and> status ! j \<noteq> CARDS777_FOLD}"

lemma finite_contributors [simp]: "finite (contributors status row)"
  by (simp add: contributors_def)

lemma row_minbet_prefix:
  fixes status row :: "int list"
  assumes "list_all (\<lambda>b. 0 \<le> b) row" "n \<le> length row"
  defines "mb \<equiv> foldl (\<lambda>minbet j. let bet = row ! j in
      if bet \<noteq> 0 \<and> status ! j \<noteq> CARDS777_FOLD \<and> (minbet = 0 \<or> bet < minbet) then bet else minbet) 0 [0..<n]"
  shows "0 \<le> mb \<and> (\<forall>j<n. row ! j > 0 \<and> status ! j \<noteq> CARDS777_FOLD \<longrightarrow> 0 < mb \<and> mb \<le> row ! j)
    \<and> (mb = 0 \<or> (\<exists>j<n. row ! j = mb \<and> status ! j \<noteq> CARDS777_FOLD))"
  using assms(2) unfolding mb_def
proof (induction n)
  case (Suc n)
  have "0 \<le> row ! n" using assms(1) Suc.prems by (simp add: list_all_length)
  then show ?case using Suc by (auto simp: Let_def less_Suc_eq)
qed simp

lemma row_minbet:
  assumes "list_all (\<lambda>b. 0 \<le> b) row"
  shows "0 \<le> row_minbet status row"
    "j \<in> contributors status row \<Longrightarrow> 0 < row_minbet status row \<and> row_minbet status row \<le> row ! j"
    "row_minbet status row = 0 \<or> (\<exists>j\<in>contributors status row. row ! j = row_minbet status row)"
  using row_minbet_prefix [OF assms order_refl, of status]
  by (auto simp: row_minbet_def contributors_def)

lemma row_nonz_iff: "row_nonz status row m > 0 \<longleftrightarrow> (\<exists>j<length row. row ! j > m \<and> status ! j \<noteq> CARDS777_FOLD)"
  by (auto simp: row_nonz_def filter_empty_conv)

abbreviation cut_off :: "int \<Rightarrow> int list \<Rightarrow> int list" where
  "cut_off m row \<equiv> map (\<lambda>b. if b > m then as_u64 (b - m) else 0) row"

abbreviation cut_at :: "int \<Rightarrow> int list \<Rightarrow> int list" where
  "cut_at m row \<equiv> map (\<lambda>b. if b > m then m else b) row"

text \<open>One cut: what is left over has fewer contributors, and some as long as the loop goes on.\<close>

lemma sidepot_cut:
  assumes nn: "list_all (\<lambda>b. 0 \<le> b \<and> b < 2 ^ 64) row"
    and nz: "row_nonz status row (row_minbet status row) > 0"
  defines "m \<equiv> row_minbet status row"
  shows "0 < m" "contributors status (cut_off m row) \<subset> contributors status row"
    "contributors status (cut_off m row) \<noteq> {}" "list_all (\<lambda>b. 0 \<le> b \<and> b < 2 ^ 64) (cut_off m row)"
    "\<And>j. j < length row \<Longrightarrow> cut_at m row ! j + cut_off m row ! j = row ! j"
proof -
  have nn0: "list_all (\<lambda>b. 0 \<le> b) row" using nn by (auto simp: list_all_iff)
  note mb = row_minbet [OF nn0, where status = status, folded m_def]
  obtain i where i: "i < length row" "row ! i > m" "status ! i \<noteq> CARDS777_FOLD"
    using nz by (auto simp: row_nonz_iff m_def)
  then have "i \<in> contributors status row" using mb(1) by (auto simp: contributors_def)
  then show m: "0 < m" using mb(2) by blast
  have sub: "as_u64 (row ! j - m) = row ! j - m" if "j < length row" "row ! j > m" for j
    using that nn m by (intro as_u64_id) (auto simp: list_all_length)
  then show "\<And>j. j < length row \<Longrightarrow> cut_at m row ! j + cut_off m row ! j = row ! j" by auto
  show "list_all (\<lambda>b. 0 \<le> b \<and> b < 2 ^ 64) (cut_off m row)"
    using as_u64_bounds by (auto simp: list_all_iff)
  have "i \<in> contributors status (cut_off m row)" using i sub by (auto simp: contributors_def)
  then show "contributors status (cut_off m row) \<noteq> {}" by blast
  obtain k where k: "k \<in> contributors status row" "row ! k = m" using m mb(3) by auto
  then have "k \<notin> contributors status (cut_off m row)" by (auto simp: contributors_def)
  moreover have "contributors status (cut_off m row) \<subseteq> contributors status row"
    using m by (auto simp: contributors_def split: if_splits)
  ultimately show "contributors status (cut_off m row) \<subset> contributors status row" using k by blast
qed


text \<open>
  What the rows promise: every player's contributions add up to its bet, and within a row
  the players still in the hand who contributed put in the same amount.
\<close>

definition pots_ok :: "int list \<Rightarrow> int list \<Rightarrow> int list list \<Rightarrow> bool" where
  "pots_ok status row pots \<longleftrightarrow>
     (\<forall>j<length row. (\<Sum>r\<leftarrow>pots. r ! j) = row ! j)
     \<and> (\<forall>r\<in>set pots. length r = length row \<and> list_all (\<lambda>b. 0 \<le> b \<and> b < 2 ^ 64) r
         \<and> (\<exists>m. \<forall>j\<in>contributors status r. r ! j = m)
         \<and> (contributors status row \<noteq> {} \<longrightarrow> contributors status r \<noteq> {}))"

lemma sidepot_stop:
  assumes nn: "list_all (\<lambda>b. 0 \<le> b \<and> b < 2 ^ 64) row"
    and nz: "\<not> row_nonz status row (row_minbet status row) > 0"
  shows "pots_ok status row [row]"
proof -
  have "list_all (\<lambda>b. 0 \<le> b) row" using nn by (auto simp: list_all_iff)
  note mb = row_minbet [OF this, where status = status]
  have "row ! j = row_minbet status row" if "j \<in> contributors status row" for j
  proof -
    have "\<not> row ! j > row_minbet status row"
      using nz that unfolding row_nonz_iff contributors_def by blast
    then show ?thesis using mb(2) [OF that] by linarith
  qed
  then show ?thesis using nn by (auto simp: pots_ok_def)
qed

lemma sidepot_cons:
  assumes nn: "list_all (\<lambda>b. 0 \<le> b \<and> b < 2 ^ 64) row"
    and nz: "row_nonz status row (row_minbet status row) > 0"
    and rec: "pots_ok status (cut_off (row_minbet status row) row) pots"
  shows "pots_ok status row (cut_at (row_minbet status row) row # pots)"
proof -
  let ?m = "row_minbet status row"
  note cut = sidepot_cut [OF nn nz]
  have nn0: "list_all (\<lambda>b. 0 \<le> b) row" using nn by (auto simp: list_all_iff)
  have c: "contributors status (cut_at ?m row) = contributors status row"
    using cut(1) by (auto simp: contributors_def split: if_splits)
  have "cut_at ?m row ! j = ?m" if "j \<in> contributors status row" for j
    using that row_minbet(2) [OF nn0, of j status] by (auto simp: contributors_def)
  moreover have "list_all (\<lambda>b. 0 \<le> b \<and> b < 2 ^ 64) (cut_at ?m row)"
    using nn cut(1) by (auto simp: list_all_iff)
  moreover have "(\<Sum>r\<leftarrow>cut_at ?m row # pots. r ! j) = row ! j" if "j < length row" for j
    using rec cut(5) [OF that] that unfolding pots_ok_def by simp
  ultimately show ?thesis using rec c cut(3) unfolding pots_ok_def by auto
qed

lemma sidepot_rows_correct:
  assumes "list_all (\<lambda>b. 0 \<le> b \<and> b < 2 ^ 64) row" "card (contributors status row) \<le> Suc k"
  shows "pots_ok status row (sidepot_rows (Suc k) status row)
    \<and> length (sidepot_rows (Suc k) status row) \<le> Suc k"
  using assms
proof (induction k arbitrary: row)
  case (0 row)
  let ?m = "row_minbet status row"
  have "\<not> row_nonz status row ?m > 0"
  proof
    assume nz: "row_nonz status row ?m > 0"
    then have "card (contributors status (cut_off ?m row)) < card (contributors status row)"
      using sidepot_cut(2) [OF 0(1) nz] by (simp add: psubset_card_mono)
    moreover have "0 < card (contributors status (cut_off ?m row))"
      using sidepot_cut(3) [OF 0(1) nz] by (simp add: card_gt_0_iff)
    ultimately show False using 0(2) by linarith
  qed
  then show ?case using sidepot_stop [OF 0(1)] by (simp add: Let_def)
next
  case (Suc k row)
  let ?m = "row_minbet status row"
  show ?case
  proof (cases "row_nonz status row ?m > 0")
    case True
    have "card (contributors status (cut_off ?m row)) < card (contributors status row)"
      using sidepot_cut(2) [OF Suc.prems(1) True] by (simp add: psubset_card_mono)
    then have "pots_ok status (cut_off ?m row) (sidepot_rows (Suc k) status (cut_off ?m row))
        \<and> length (sidepot_rows (Suc k) status (cut_off ?m row)) \<le> Suc k"
      using Suc.prems sidepot_cut(4) [OF Suc.prems(1) True] by (intro Suc.IH) auto
    then show ?thesis
      using True sidepot_cons [OF Suc.prems(1) True]
      by (simp only: sidepot_rows.simps(2) [of "Suc k"] Let_def if_True) simp
  next
    case False
    then show ?thesis using sidepot_stop [OF Suc.prems(1)]
      by (simp only: sidepot_rows.simps(2) [of "Suc k"] Let_def if_False) simp
  qed
qed

lemma contributors_card: "card (contributors status row) \<le> length row"
proof -
  have "contributors status row \<subseteq> {..<length row}" by (auto simp: contributors_def)
  then show ?thesis using card_mono [of "{..<length row}"] by simp
qed

lemma pangea_sidepots_ok:
  assumes "money_wf dp"
  shows "pots_ok (betstatus (hand dp)) (take (N_players dp) (bets (hand dp))) (pangea_sidepots dp (bets (hand dp)))
    \<and> length (pangea_sidepots dp (bets (hand dp))) \<le> N_players dp"
proof -
  let ?row = "take (N_players dp) (bets (hand dp))"
  have rows: "list_all (\<lambda>b. 0 \<le> b \<and> b < 2 ^ 64) ?row"
  proof -
    have "0 \<le> b \<and> b < 2 ^ 64" if b: "b \<in> set (bets (hand dp))" for b
    proof -
      obtain i where i: "i < length (bets (hand dp))" "b = bets (hand dp) ! i"
        using b by (auto simp: in_set_conv_nth)
      then have "0 \<le> b" "b \<le> sum_list (bets (hand dp))"
        using assms sum_list_nonneg_nth [of "bets (hand dp)" i] by (auto simp: money_wf_def)
      moreover have "0 \<le> sum_list (balances (table dp))"
        using assms by (auto simp: money_wf_def list_all_iff intro!: sum_list_nonneg)
      ultimately show ?thesis using assms by (simp add: money_wf_def total_money_def)
    qed
    then show ?thesis by (auto simp: list_all_iff dest!: in_set_takeD)
  qed
  then have "map as_u64 ?row = ?row" by (intro map_idI) (auto simp: list_all_iff)
  moreover have "length ?row = N_players dp" using assms by (simp add: money_wf_def table_wf_def)
  then have "card (contributors (betstatus (hand dp)) ?row) \<le> Suc (N_players dp - 1)"
    using contributors_card [of "betstatus (hand dp)" ?row] assms by (simp add: money_wf_def)
  moreover have "Suc (N_players dp - 1) = N_players dp" using assms by (simp add: money_wf_def)
  ultimately show ?thesis
    using sidepot_rows_correct [OF rows] unfolding pangea_sidepots_def by metis
qed


section \<open>Paying conserves money\<close>

lemma pot_total_sum:
  "list_all (\<lambda>b. 0 \<le> b) r \<Longrightarrow> sum_list r < 2 ^ 64 \<Longrightarrow> pot_total r = sum_list r"
  by (simp add: pot_total_def foldl_u64_sum)

text \<open>A pot with a contributor still in the hand has a winner: the best rank is attained.\<close>

lemma bestrank_prefix:
  "n \<le> length r \<Longrightarrow>
   (let best = foldl (\<lambda>best j. if r ! j \<noteq> 0 \<and> betstatus h ! j \<noteq> CARDS777_FOLD \<and> handranks h ! j > best
                     then handranks h ! j else best) 0 [0..<n]
    in (\<forall>j<n. r ! j \<noteq> 0 \<and> betstatus h ! j \<noteq> CARDS777_FOLD \<longrightarrow> handranks h ! j \<le> best)
       \<and> (best = 0 \<or> (\<exists>j<n. r ! j \<noteq> 0 \<and> betstatus h ! j \<noteq> CARDS777_FOLD \<and> handranks h ! j = best)))"
proof (induction n)
  case (Suc n)
  then show ?case by (auto simp: Let_def less_Suc_eq)
qed simp

lemma splitpot_winners_nonempty:
  assumes nn: "list_all (\<lambda>b. 0 \<le> b) r" and c: "contributors (betstatus h) r \<noteq> {}"
  shows "splitpot_winners h r \<noteq> []"
proof -
  let ?in = "\<lambda>j. j < length r \<and> r ! j \<noteq> 0 \<and> betstatus h ! j \<noteq> CARDS777_FOLD"
  have best: "\<forall>j. ?in j \<longrightarrow> handranks h ! j \<le> splitpot_bestrank h r"
    "splitpot_bestrank h r = 0 \<or> (\<exists>j. ?in j \<and> handranks h ! j = splitpot_bestrank h r)"
    using bestrank_prefix [of "length r" r h] by (auto simp: splitpot_bestrank_def Let_def)
  obtain i where "?in i" using c by (fastforce simp: contributors_def)
  then have "\<exists>j. ?in j \<and> handranks h ! j = splitpot_bestrank h r"
    using best by (metis le_zero_eq)
  then obtain j where j: "?in j" "handranks h ! j = splitpot_bestrank h r" by blast
  moreover have "0 < r ! j" using j nn by (simp add: list_all_length order_le_neq_trans)
  ultimately show ?thesis by (auto simp: splitpot_winners_def filter_empty_conv)
qed

text \<open>The state in which pots are paid: balances non-negative, ranks and seats fixed.\<close>

definition pay_wf :: "pubdata \<Rightarrow> bool" where
  "pay_wf dp \<longleftrightarrow> table_wf (table dp) \<and> N_players dp = numactive (table dp)
     \<and> list_all (\<lambda>b. 0 \<le> b) (balances (table dp))"

text \<open>What paying leaves alone.\<close>

definition pay_frame :: "pubdata \<Rightarrow> pubdata \<Rightarrow> bool" where
  "pay_frame dp dp' \<longleftrightarrow> N_players dp' = N_players dp \<and> betstatus (hand dp') = betstatus (hand dp)
     \<and> handranks (hand dp') = handranks (hand dp) \<and> bets (hand dp') = bets (hand dp)
     \<and> maxrake dp' = maxrake dp \<and> bigblind dp' = bigblind dp \<and> coinstr dp' = coinstr dp
     \<and> hostrake dp' = hostrake dp \<and> pangearake dp' = pangearake dp"

lemma pay_frame_refl [simp]: "pay_frame dp dp"
  by (simp add: pay_frame_def)

lemma pay_frame_trans: "pay_frame a b \<Longrightarrow> pay_frame b c \<Longrightarrow> pay_frame a c"
  by (simp add: pay_frame_def)

lemma pay_winner_step:
  assumes wf: "pay_wf dp" and j: "j < N_players dp" and s: "0 \<le> split"
    and bnd: "sum_list (balances (table dp)) + split < 2 ^ 63"
  shows "pay_wf (pay_winner split dp j) \<and> pay_frame dp (pay_winner split dp j)
    \<and> sum_list (balances (table (pay_winner split dp j))) = sum_list (balances (table dp)) + split"
proof -
  let ?s = "nat (pangea_slot (table dp) j)"
  have slot: "?s < length (balances (table dp))"
    using pangea_slot_range(2) [of "table dp" j] wf j by (auto simp: pay_wf_def table_wf_def)
  then have b: "0 \<le> balances (table dp) ! ?s" "balances (table dp) ! ?s \<le> sum_list (balances (table dp))"
    using sum_list_nonneg_nth [of "balances (table dp)" ?s] wf by (auto simp: pay_wf_def)
  then have "as_s64 (balances (table dp) ! ?s + split) = balances (table dp) ! ?s + split"
    using s bnd by (intro as_s64_id) auto
  then have t: "table (pay_winner split dp j) =
      (table dp)\<lparr>balances := (balances (table dp))[?s := balances (table dp) ! ?s + split]\<rparr>"
    by (simp add: pay_winner_def Let_def)
  moreover have "list_all (\<lambda>b. 0 \<le> b) ((balances (table dp))[?s := balances (table dp) ! ?s + split])"
    using wf b s slot by (auto simp: pay_wf_def list_all_length nth_list_update)
  moreover have "pay_frame dp (pay_winner split dp j)" by (simp add: pay_winner_def Let_def pay_frame_def)
  ultimately show ?thesis
    using wf slot by (auto simp: pay_wf_def table_wf_def sum_list_update_add pay_frame_def)
qed

lemma pay_winners:
  assumes "pay_wf dp" "\<forall>j\<in>set ws. j < N_players dp" "0 \<le> split"
    and "sum_list (balances (table dp)) + split * int (length ws) < 2 ^ 63"
  shows "pay_wf (foldl (pay_winner split) dp ws) \<and> pay_frame dp (foldl (pay_winner split) dp ws)
    \<and> sum_list (balances (table (foldl (pay_winner split) dp ws)))
      = sum_list (balances (table dp)) + split * int (length ws)"
  using assms
proof (induction ws arbitrary: dp)
  case (Cons w ws)
  have "0 \<le> split * int (length ws)" using Cons.prems by simp
  then have "sum_list (balances (table dp)) + split < 2 ^ 63"
    using Cons.prems(4) by (simp add: algebra_simps)
  then have st: "pay_wf (pay_winner split dp w)" "pay_frame dp (pay_winner split dp w)"
    "sum_list (balances (table (pay_winner split dp w))) = sum_list (balances (table dp)) + split"
    using pay_winner_step [of dp w split] Cons.prems by auto
  then show ?case
    using Cons.IH [OF st(1)] Cons.prems by (auto simp: algebra_simps pay_frame_def)
qed simp


lemma splitpot_maxrake_nonneg: "0 \<le> maxrake dp \<Longrightarrow> 0 \<le> splitpot_maxrake dp"
  using as_u64_bounds(1) by (auto simp: splitpot_maxrake_def Let_def PANGEA_BTCMAXRAKE_def PANGEA_MAXRAKE_def SATOSHIDEN_def)

text \<open>The pots that can be settled: rows of the hand's players with someone left to win.\<close>

definition pot_wf :: "pubdata \<Rightarrow> int list \<Rightarrow> bool" where
  "pot_wf dp r \<longleftrightarrow> length r = N_players dp \<and> list_all (\<lambda>b. 0 \<le> b) r
     \<and> contributors (betstatus (hand dp)) r \<noteq> {} \<and> sum_list r * 1000 < 2 ^ 64"

lemma pangea_splitpot_step:
  assumes wf: "pay_wf dp" and r: "pot_wf dp r" and rm: "0 \<le> rm" "rm \<le> 1000" and mx: "0 \<le> maxrake dp"
    and p: "0 \<le> p" and bnd: "sum_list (balances (table dp)) + p + sum_list r < 2 ^ 63"
    and res: "pangea_splitpot dp p r rm = (dp', p', rake)"
  shows "pay_wf dp' \<and> pay_frame dp dp' \<and> 0 \<le> p' \<and> 0 \<le> rake
    \<and> sum_list (balances (table dp')) + p' + rake = sum_list (balances (table dp)) + p + sum_list r"
proof -
  let ?ws = "splitpot_winners (hand dp) r" and ?n = "int (length (splitpot_winners (hand dp) r))"
  have ws: "?ws \<noteq> []" using r by (simp add: pot_wf_def splitpot_winners_nonempty)
  have "length ?ws \<le> length r"
    using length_filter_le [of _ "[0..<length r]"] by (simp add: splitpot_winners_def)
  then have n: "0 < ?n" "?n \<le> 9"
    using ws r wf by (auto simp: pot_wf_def pay_wf_def table_wf_def CARDS777_MAXPLAYERS_def)
  have bal: "0 \<le> sum_list (balances (table dp))" "0 \<le> sum_list r"
    using wf r by (auto simp: pay_wf_def pot_wf_def list_all_iff intro!: sum_list_nonneg)
  then have tot: "pot_total r = sum_list r"
    using r bnd p by (intro pot_total_sum) (auto simp: pot_wf_def)
  obtain split prake rk where w: "pangea_winnings (sum_list r) ?n rm (splitpot_maxrake dp) = (split, prake, rk)"
    by (metis prod_cases3)
  have sp: "0 \<le> split" "0 \<le> prake" "0 \<le> rk" "split * ?n + prake + rk = sum_list r"
    using pangea_winnings_bounds(1-4) [OF bal(2) _ n rm splitpot_maxrake_nonneg [OF mx] w] r
    by (auto simp: pot_wf_def)
  have "0 \<le> split * ?n" using sp n by simp
  then have "sum_list (balances (table dp)) + split * ?n < 2 ^ 63" "rk < 2 ^ 63" "p + prake < 2 ^ 63"
    using sp bnd p bal by linarith+
  then have small: "sum_list (balances (table dp)) + split * ?n < 2 ^ 63" "as_s64 rk = rk" "as_u64 (p + prake) = p + prake"
    using sp(2,3) p by (auto intro!: as_s64_id as_u64_id)
  have "\<forall>j\<in>set ?ws. j < N_players dp" using r by (auto simp: splitpot_winners_def pot_wf_def)
  then have pay: "pay_wf (foldl (pay_winner split) dp ?ws) \<and> pay_frame dp (foldl (pay_winner split) dp ?ws)
    \<and> sum_list (balances (table (foldl (pay_winner split) dp ?ws)))
      = sum_list (balances (table dp)) + split * ?n"
    using pay_winners [OF wf _ sp(1) small(1)] by blast
  have "dp' = foldl (pay_winner split) dp ?ws" "p' = p + prake" "rake = rk"
    using res ws w small by (auto simp: pangea_splitpot_def Let_def tot)
  then show ?thesis using pay sp p by auto
qed

lemma pay_frame_pot_wf: "pay_frame dp dp' \<Longrightarrow> pot_wf dp' r = pot_wf dp r"
  by (simp add: pay_frame_def pot_wf_def)

lemma finish_pots_step:
  assumes "pay_wf dp" "list_all (pot_wf dp) pots" "0 \<le> rm" "rm \<le> 1000" "0 \<le> maxrake dp" "0 \<le> p" "0 \<le> k"
    and "sum_list (balances (table dp)) + p + k + (\<Sum>r\<leftarrow>pots. sum_list r) < 2 ^ 63"
    and "foldl (\<lambda>(dp, prake, rake) pot.
         let (dp, prake, r) = pangea_splitpot dp prake pot rm
         in (dp, prake, as_u64 (rake + r))) (dp, p, k) pots = (dp', p', k')"
  shows "pay_wf dp' \<and> pay_frame dp dp' \<and> 0 \<le> p' \<and> 0 \<le> k'
    \<and> sum_list (balances (table dp')) + p' + k'
      = sum_list (balances (table dp)) + p + k + (\<Sum>r\<leftarrow>pots. sum_list r)"
  using assms
proof (induction pots arbitrary: dp p k)
  case (Cons r pots)
  obtain d q c where st: "pangea_splitpot dp p r rm = (d, q, c)" by (metis prod_cases3)
  have nn: "0 \<le> sum_list r" "0 \<le> (\<Sum>r\<leftarrow>pots. sum_list r)"
    using Cons.prems(2) by (auto simp: pot_wf_def list_all_iff intro!: sum_list_nonneg)
  then have s: "pay_wf d \<and> pay_frame dp d \<and> 0 \<le> q \<and> 0 \<le> c
    \<and> sum_list (balances (table d)) + q + c = sum_list (balances (table dp)) + p + sum_list r"
    using Cons.prems by (intro pangea_splitpot_step [OF _ _ _ _ _ _ _ st]) auto
  have balnn: "0 \<le> sum_list (balances (table d))"
    using s by (auto simp: pay_wf_def list_all_iff intro!: sum_list_nonneg)
  then have kc: "as_u64 (k + c) = k + c" using s nn Cons.prems(7,8) by (intro as_u64_id) auto
  have "list_all (pot_wf d) pots" "0 \<le> maxrake d"
    using Cons.prems(2,5) s pay_frame_pot_wf [of dp d] by (auto simp: list_all_iff pay_frame_def)
  then have "pay_wf dp' \<and> pay_frame d dp' \<and> 0 \<le> p' \<and> 0 \<le> k'
    \<and> sum_list (balances (table dp')) + p' + k'
      = sum_list (balances (table d)) + q + (k + c) + (\<Sum>r\<leftarrow>pots. sum_list r)"
    using Cons.IH [of d q "k + c"] Cons.prems s st kc by auto
  then show ?case using s pay_frame_trans [of dp d dp'] by auto
qed auto


text \<open>Summing the side pots by row or by player gives the same.\<close>

lemma sum_rows_columns:
  fixes pots :: "int list list"
  assumes "\<forall>r\<in>set pots. length r = n"
  shows "(\<Sum>r\<leftarrow>pots. sum_list r) = (\<Sum>j<n. (\<Sum>r\<leftarrow>pots. r ! j))"
  using assms
proof (induction pots)
  case (Cons r pots)
  then have "sum_list r = (\<Sum>j<n. r ! j)" by (simp add: sum_list_sum_nth atLeast0LessThan)
  then show ?case using Cons by (simp add: sum.distrib)
qed simp

lemma pots_ok_total:
  assumes "pots_ok status row pots"
  shows "(\<Sum>r\<leftarrow>pots. sum_list r) = sum_list row"
proof -
  have "(\<Sum>r\<leftarrow>pots. sum_list r) = (\<Sum>j<length row. (\<Sum>r\<leftarrow>pots. r ! j))"
    using assms by (intro sum_rows_columns) (auto simp: pots_ok_def)
  also have "\<dots> = (\<Sum>j<length row. row ! j)" using assms by (auto simp: pots_ok_def)
  finally show ?thesis by (simp add: sum_list_sum_nth atLeast0LessThan)
qed

lemma pots_ok_pot_le:
  assumes "pots_ok status row pots" "r \<in> set pots"
  shows "sum_list r \<le> sum_list row"
proof -
  have "list_all (\<lambda>b. 0 \<le> b) (map sum_list pots)"
    using assms(1) by (auto simp: pots_ok_def list_all_iff intro!: sum_list_nonneg)
  moreover obtain i where "i < length pots" "r = pots ! i" using assms(2) by (auto simp: in_set_conv_nth)
  ultimately show ?thesis
    using sum_list_nonneg_nth [of "map sum_list pots" i] pots_ok_total [OF assms(1)] by simp
qed

lemma pangea_finish_money:
  assumes wf: "money_wf dp" and fin: "finished (hand dp) = 0"
    and j: "j < N_players dp" "bets (hand dp) ! j > 0" "betstatus (hand dp) ! j \<noteq> CARDS777_FOLD"
    and rm: "0 \<le> rakemillis dp" "rakemillis dp \<le> 1000" and mx: "0 \<le> maxrake dp"
    and rk: "0 \<le> hostrake dp" "hostrake dp < 2 ^ 62" "0 \<le> pangearake dp" "pangearake dp < 2 ^ 62"
    and bnd: "total_money dp * 1000 < 2 ^ 62"
  shows "sum_list (balances (table (pangea_finish now dp)))
      + (hostrake (pangea_finish now dp) - hostrake dp) + (pangearake (pangea_finish now dp) - pangearake dp)
    = sum_list (balances (table dp)) + sum_list (take (N_players dp) (bets (hand dp)))
    \<and> list_all (\<lambda>b. 0 \<le> b) (balances (table (pangea_finish now dp)))"
proof -
  let ?row = "take (N_players dp) (bets (hand dp))" and ?pots = "pangea_sidepots dp (bets (hand dp))"
  define rm' where "rm' = (if community (hand dp) ! 0 = 0xff then 0 else rakemillis dp)"
  have ok: "pots_ok (betstatus (hand dp)) ?row ?pots" using pangea_sidepots_ok [OF wf] by blast
  have len: "length ?row = N_players dp" using wf by (simp add: money_wf_def table_wf_def)
  have row: "0 \<le> sum_list ?row" "sum_list ?row \<le> sum_list (bets (hand dp))"
    and balnn: "0 \<le> sum_list (balances (table dp))"
    using wf sum_list_take_le [of "bets (hand dp)" "N_players dp"]
    by (auto simp: money_wf_def list_all_iff intro!: sum_list_nonneg)
  have "j \<in> contributors (betstatus (hand dp)) ?row" using j len by (auto simp: contributors_def)
  then have pots: "list_all (pot_wf dp) ?pots"
    using ok len pots_ok_pot_le [OF ok] row bnd balnn
    by (fastforce simp: pots_ok_def pot_wf_def list_all_iff total_money_def)
  obtain d p k where fp: "finish_pots dp rm' ?pots = (d, p, k)" by (metis prod_cases3)
  have paid: "pay_wf d \<and> pay_frame dp d \<and> 0 \<le> p \<and> 0 \<le> k
    \<and> sum_list (balances (table d)) + p + k = sum_list (balances (table dp)) + sum_list ?row"
    using finish_pots_step [OF _ pots, of rm' 0 0 d p k] fp wf rm mx row bnd balnn pots_ok_total [OF ok]
    by (simp add: finish_pots_def rm'_def pay_wf_def money_wf_def total_money_def)
  then have "0 \<le> sum_list (balances (table d))"
    by (auto simp: pay_wf_def list_all_iff intro!: sum_list_nonneg)
  then have "k < 2 ^ 62" "p < 2 ^ 62" using paid row bnd balnn by (auto simp: total_money_def)
  then have "as_u64 (hostrake d + k) = hostrake dp + k" "as_u64 (pangearake d + p) = pangearake dp + p"
    using paid rk by (auto simp: pay_frame_def intro!: as_u64_id)
  moreover have "table (pangea_finish now dp) = table d"
    "hostrake (pangea_finish now dp) = as_u64 (hostrake d + k)"
    "pangearake (pangea_finish now dp) = as_u64 (pangearake d + p)"
    using fin fp by (simp_all add: pangea_finish_def Let_def rm'_def [symmetric] split: prod.splits)
  ultimately show ?thesis using paid by (simp add: pay_wf_def)
qed

section \<open>Properties\<close>

text \<open>
  C8. Side pots: in a hand with non-negative amounts there are at most as many pots as
  players, every player's contributions over the pots add up to exactly its bet, and in
  each pot the players still in the hand who contributed put in the same amount.
\<close>

theorem pangea_sidepots_correct:
  assumes "money_wf dp"
  defines "pots \<equiv> pangea_sidepots dp (bets (hand dp))"
  shows "length pots \<le> N_players dp
    \<and> (\<forall>j<N_players dp. (\<Sum>r\<leftarrow>pots. r ! j) = bets (hand dp) ! j)
    \<and> (\<forall>r\<in>set pots. length r = N_players dp
        \<and> (\<exists>m. \<forall>j<N_players dp. r ! j > 0 \<and> betstatus (hand dp) ! j \<noteq> CARDS777_FOLD \<longrightarrow> r ! j = m))"
proof -
  have ok: "pots_ok (betstatus (hand dp)) (take (N_players dp) (bets (hand dp))) pots" "length pots \<le> N_players dp"
    using pangea_sidepots_ok [OF assms(1)] by (simp_all add: pots_def)
  have len: "length (take (N_players dp) (bets (hand dp))) = N_players dp"
    using assms(1) by (simp add: money_wf_def table_wf_def)
  have "\<exists>m. \<forall>j<N_players dp. r ! j > 0 \<and> betstatus (hand dp) ! j \<noteq> CARDS777_FOLD \<longrightarrow> r ! j = m"
    if "r \<in> set pots" for r
  proof -
    have "\<exists>m. \<forall>j\<in>contributors (betstatus (hand dp)) r. r ! j = m" "length r = N_players dp"
      using ok(1) that len unfolding pots_ok_def by auto
    then show ?thesis by (auto simp: contributors_def)
  qed
  then show ?thesis using ok len unfolding pots_ok_def by auto
qed

definition witness_allin :: pubdata where
  "witness_allin = witness_pubdata\<lparr>N_players := 3,
     table := witness_table\<lparr>active := [11, 22, 33, 0, 0, 0, 0, 0, 0], numactive := 3\<rparr>,
     hand := witness_hand\<lparr>bets := [5, 20, 12, 0, 0, 0, 0, 0, 0], betstatus := [11, 0, -1, 0, 0, 0, 0, 0, 0],
       community := [1, 2, 3, 4, 5], handranks := [9, 7, 8, 0, 0, 0, 0, 0, 0]\<rparr>\<rparr>"

lemma witness_allin_wf: "money_wf witness_allin"
  by code_simp

theorem pangea_sidepots_correct_witness:
  "pangea_sidepots witness_allin (bets (hand witness_allin)) = [[5, 5, 5], [0, 15, 7]]
   \<and> length (pangea_sidepots witness_allin (bets (hand witness_allin))) \<le> N_players witness_allin"
proof -
  have "pangea_sidepots witness_allin (bets (hand witness_allin)) = [[5, 5, 5], [0, 15, 7]]" by code_simp
  then show ?thesis using pangea_sidepots_correct [OF witness_allin_wf] by simp
qed

text \<open>
  The split of a pot is exact and the rake is capped: with a rake of at most 100
  percent the winners' shares, the network's and the host's rake add up to the pot, and the
  rakes together stay within the cap, up to what cannot be divided among the winners.
\<close>

lemma pangea_winnings_exact:
  assumes "0 \<le> pot" "pot * 1000 < 2 ^ 64" "0 < n" "n \<le> 9" "0 \<le> rm" "rm \<le> 1000" "0 \<le> maxrk"
    and "pangea_winnings pot n rm maxrk = (split, prake, rake)"
  shows "split * n + prake + rake = pot \<and> 0 \<le> split \<and> 0 \<le> prake \<and> 0 \<le> rake
    \<and> prake + rake < maxrk + n"
  using pangea_winnings_bounds [OF assms] by auto

text \<open>
  C1. Settling a hand conserves money: when somebody who bet is still in the hand,
  \<^verbatim>\<open>pangea_finish\<close> turns exactly the bets of the hand's players into balances and rakes, and
  leaves no balance negative.
\<close>

theorem pangea_finish_conserves:
  assumes wf: "money_wf dp" and fin: "finished (hand dp) = 0"
    and j: "j < N_players dp" "bets (hand dp) ! j > 0" "betstatus (hand dp) ! j \<noteq> CARDS777_FOLD"
    and rm: "0 \<le> rakemillis dp" "rakemillis dp \<le> 1000" and mx: "0 \<le> maxrake dp"
    and rk: "0 \<le> hostrake dp" "hostrake dp < 2 ^ 62" "0 \<le> pangearake dp" "pangearake dp < 2 ^ 62"
    and bnd: "total_money dp * 1000 < 2 ^ 62"
  shows "sum_list (balances (table (pangea_finish now dp)))
      + (hostrake (pangea_finish now dp) - hostrake dp) + (pangearake (pangea_finish now dp) - pangearake dp)
    = sum_list (balances (table dp)) + sum_list (take (N_players dp) (bets (hand dp)))
    \<and> list_all (\<lambda>b. 0 \<le> b) (balances (table (pangea_finish now dp)))"
  by (rule pangea_finish_money [OF assms])

theorem pangea_finish_conserves_witness:
  "sum_list (balances (table (pangea_finish 7 witness_allin)))
     + (hostrake (pangea_finish 7 witness_allin) - 0) + (pangearake (pangea_finish 7 witness_allin) - 0) = 97"
proof -
  have f: "finished (hand witness_allin) = 0" "(0::nat) < N_players witness_allin"
    "bets (hand witness_allin) ! 0 > 0" "betstatus (hand witness_allin) ! 0 \<noteq> CARDS777_FOLD"
    "0 \<le> rakemillis witness_allin" "rakemillis witness_allin \<le> 1000" "0 \<le> maxrake witness_allin"
    "hostrake witness_allin = 0" "pangearake witness_allin = 0" "total_money witness_allin * 1000 < 2 ^ 62"
    "sum_list (balances (table witness_allin)) + sum_list (take (N_players witness_allin) (bets (hand witness_allin))) = 97"
    by code_simp+
  show ?thesis
    using pangea_finish_conserves [OF witness_allin_wf f(1-7), of 7] f by simp
qed

end
