(* ===== verification/PangeaHand.thy ===== *)
theory PangeaHand
  imports PangeaPot
begin

text \<open>
  The course of a hand (\<^verbatim>\<open>src/plugins/games/pangea/pangeafunds.c\<close> and
  \<^verbatim>\<open>pangea777.c\<close>): the handlers of the messages \<^verbatim>\<open>turn\<close>, \<^verbatim>\<open>confirmturn\<close>, \<^verbatim>\<open>action\<close>,
  \<^verbatim>\<open>showdown\<close>, \<^verbatim>\<open>summary\<close> and \<^verbatim>\<open>newhand\<close>. A handler maps the table state and the fields of
  a message to the new state, the messages it sends and its return value. The player in
  slot 0 is the host, who keeps the turn order for everybody.
\<close>

section \<open>Messages and private data\<close>

text \<open>What \<^verbatim>\<open>pangea_sendcmd\<close> sends: the command, its data, \<^verbatim>\<open>cardi\<close> and \<^verbatim>\<open>turni\<close>.\<close>

datatype pangea_msg = Sendcmd string bytes int int

record privdata =
  automuck :: nat
  autofold :: nat
  holecards :: "bytes list"
  cardis :: "nat list"

definition as_s8 :: "int \<Rightarrow> int" where
  "as_s8 x = (x + 2 ^ 7) mod 2 ^ 8 - 2 ^ 7"

definition amount_data :: "int \<Rightarrow> bytes" where
  "amount_data amount = le_bytes 8 amount"

definition snapshot_data :: "pubdata \<Rightarrow> bytes" where
  "snapshot_data dp = concat (map (le_bytes 8) (take (N_players dp + 1) (hand_snapshot (hand dp))))"

abbreviation upd_hand :: "(handinfo \<Rightarrow> handinfo) \<Rightarrow> pubdata \<Rightarrow> pubdata" where
  "upd_hand f dp \<equiv> dp\<lparr>hand := f (hand dp)\<rparr>"

section \<open>Starting hands\<close>

text \<open>
  \<^verbatim>\<open>pangea_clearhand\<close> zeroes the hand, keeps the card buffers (cleared) and marks the
  community cards unknown; the private part forgets the hole cards.
\<close>

definition pangea_clearhand :: "pubdata \<Rightarrow> privdata \<Rightarrow> pubdata \<times> privdata" where
  "pangea_clearhand dp priv =
     (dp\<lparr>hand := \<lparr>checkprod = 0, final = map (\<lambda>c. replicate 32 0) (final (hand dp)), betsize = 0,
        hand_hostrake = 0, hand_pangearake = 0, lastraise = 0, bets = replicate 9 0,
        hand_snapshot = replicate 10 0, won = replicate 9 0, handmask = 0, lastbettor = 0,
        betstarted = 0, finished = 0, cardi = 0, userinput_starttime = 0, handranks = replicate 9 0,
        betstatus = replicate 9 0, actions = replicate 9 0, turnis = replicate 9 0, numactions = 0,
        undergun = 0, community = replicate 5 0xff\<rparr>\<rparr>,
      priv\<lparr>holecards := replicate 2 (replicate 32 0), cardis := replicate 2 0xff\<rparr>)"

text \<open>
  \<^verbatim>\<open>pangea_newdeck\<close>: \<open>deckprod\<close> is the deck product computed by \<^verbatim>\<open>cards777_initdeck\<close>,
  \<open>deck\<close> the encoded deck that is sent.
\<close>

definition pangea_newdeck :: "u64 \<Rightarrow> bytes \<Rightarrow> pubdata \<Rightarrow> privdata \<Rightarrow> pubdata \<times> privdata \<times> pangea_msg list" where
  "pangea_newdeck deckprod deck dp priv =
     (let (dp, priv) = pangea_clearhand dp priv;
          dp = fst (pangea_neworder dp None);
          dp = upd_hand (\<lambda>h. h\<lparr>checkprod := deckprod\<rparr>) dp
      in (dp, priv, [Sendcmd ''newhand'' deck 0 0]))"

text \<open>The host deals again unless only one player has money left.\<close>

definition pangea_anotherhand ::
  "u64 \<Rightarrow> bytes \<Rightarrow> pubdata \<Rightarrow> privdata \<Rightarrow> (pubdata \<times> privdata \<times> pangea_msg list) \<times> nat" where
  "pangea_anotherhand deckprod deck dp priv =
     (let n = length (filter (\<lambda>b. b \<noteq> 0) (take (numaddrs (table dp)) (balances (table dp))))
      in if n = 1 then ((dp, priv, []), 1) else (pangea_newdeck deckprod deck dp priv, n))"

text \<open>
  \<^verbatim>\<open>pangea_newhand\<close> at a client or the host; \<open>cards\<close> are the received card keys, \<open>deckprod\<close>
  their product.
\<close>

definition pangea_newhand ::
  "nat \<Rightarrow> u64 \<Rightarrow> pubdata \<Rightarrow> privdata \<Rightarrow> u64 list option \<Rightarrow> bytes option \<Rightarrow>
     (pubdata \<times> privdata \<times> pangea_msg list) \<times> int" where
  "pangea_newhand numcards deckprod dp priv act data =
     (case data of
        None \<Rightarrow> ((dp, priv, []), -1)
      | Some cards \<Rightarrow>
          if length cards \<noteq> (numcards + 1) * 32 then ((dp, priv, []), -1)
          else
            let (dp, priv) =
                  (if myslot (table dp) \<noteq> 0
                   then let (dp, priv) = pangea_clearhand dp priv in (fst (pangea_neworder dp act), priv)
                   else (dp, priv));
                dp = dp\<lparr>button := numhands dp mod N_players dp, numhands := numhands dp + 1\<rparr>;
                dp = upd_hand (\<lambda>h. h\<lparr>checkprod := deckprod\<rparr>) dp;
                dp = dp\<lparr>summary := [], summaries := 0, mismatches := 0\<rparr>
            in if myind (table dp) \<ge> 0
               then ((pangea_summary dp CARDS777_START (le_bytes 4 (int (numhands dp) - 1)) cards, priv,
                      [Sendcmd ''gotdeck'' (le_bytes 8 (uint deckprod)) (int (cardi (hand dp)))
                         (int (userinput_starttime (hand dp)))]), 0)
               else ((dp, priv, []), 0))"

section \<open>Turns\<close>

definition max_bet :: "pubdata \<Rightarrow> int" where
  "max_bet dp = foldl (\<lambda>b i. if as_u64 (bets (hand dp) ! i) > b then as_u64 (bets (hand dp) ! i) else b)
     0 [0..<N_players dp]"

definition pangea_turn :: "pubdata \<Rightarrow> nat \<Rightarrow> int \<Rightarrow> nat \<Rightarrow> pubdata \<times> pangea_msg list" where
  "pangea_turn dp senderind turni cardno =
     (let dp = upd_hand (\<lambda>h. h\<lparr>turnis := (turnis h)[senderind := as_s8 turni]\<rparr>) dp
      in if senderind = 0 then
           let dp = upd_hand (\<lambda>h. h\<lparr>cardi := cardno, betstarted := 1, undergun := nat (turni mod 256)\<rparr>) dp
           in if myslot (table dp) \<noteq> pangea_slotA (table dp) then
                let dp = pangea_checkantes dp;
                    N = N_players dp;
                    dp = upd_hand (\<lambda>h. h\<lparr>hand_snapshot := (buf_write 0 (take N (bets h)) (hand_snapshot h))
                           [N := as_s64 (max_bet dp)]\<rparr>) dp
                in (dp, [Sendcmd ''confirmturn'' (snapshot_data dp) (int cardno) turni])
              else (dp, [])
         else (dp, []))"

text \<open>
  \<^verbatim>\<open>pangea_bot\<close>: the automatic player. \<open>r1\<close> and \<open>r2\<close> are the two draws of
  \<^verbatim>\<open>rand() % 100\<close>.
\<close>

definition pangea_bot :: "nat \<Rightarrow> nat \<Rightarrow> pubdata \<Rightarrow> nat \<Rightarrow> int \<Rightarrow> pangea_msg \<times> int" where
  "pangea_bot r1 r2 dp cardno bsize =
     (let slot = myslot (table dp);
          sumbet = as_u64 (bets (hand dp) ! nat (pangea_ind (table dp) slot));
          n = fst (pangea_actives dp);
          bal = as_u64 (balances (table dp) ! slot);
          (amount, action) =
            (if r1 < 1 then (bal, CARDS777_ALLIN)
             else
               let (amount, action) =
                     (if bsize = sumbet then
                        if r1 < 100 div n
                        then (if r2 < 10 then as_u64 (2 * lastraise (hand dp)) else as_u64 (lastraise (hand dp)), 1)
                        else (0, 0)
                      else if bsize > sumbet then
                        let amount = bsize - sumbet;
                            threshold = as_u64 (300 * amount) div as_u64 (1 + pangea_totalbet dp);
                            n = n + 1
                        in if int (r1 div n) > threshold then
                             if int (r1 div n) > as_u64 (3 * threshold)
                                  \<and> amount < as_u64 (lastraise (hand dp) * 2)
                             then (as_u64 (lastraise (hand dp) * 2), 2) else (amount, 1)
                           else if amount < sumbet div 10 \<or> amount \<le> SATOSHIDEN then (amount, CARDS777_CALL)
                           else (0, CARDS777_FOLD)
                      else (0, 0))
               in if amount > bal then (bal, CARDS777_ALLIN) else (amount, action))
      in (Sendcmd ''action'' (amount_data amount) (int cardno) action, amount))"

definition read_snapshot :: "nat \<Rightarrow> bytes \<Rightarrow> int list" where
  "read_snapshot n data = map (\<lambda>i. as_s64 (le_int (take 8 (drop (8 * i) data)))) [0..<n]"

text \<open>
  \<^verbatim>\<open>pangea_confirmturn\<close>: a client adopts the host's turn; the host, once every player has
  confirmed the turn, announces it; the player whose turn it is acts or waits for input.
\<close>

definition confirm_adopt :: "pubdata \<Rightarrow> nat \<Rightarrow> int \<Rightarrow> nat \<Rightarrow> bytes \<Rightarrow> pubdata \<times> int" where
  "confirm_adopt dp senderind turni cardno data =
     (if senderind = 0 \<and> myslot (table dp) \<noteq> pangea_slotA (table dp) then
        let bs = max_bet dp
        in (upd_hand (\<lambda>h. h\<lparr>undergun := nat (turni mod 256), cardi := cardno,
              hand_snapshot := buf_write 0 (read_snapshot (N_players dp + 1) data) (hand_snapshot h),
              betsize := as_s64 bs\<rparr>) dp, bs)
      else (dp, 0))"

definition confirm_announce :: "pubdata \<Rightarrow> nat \<Rightarrow> int \<Rightarrow> int \<Rightarrow> pubdata \<times> int \<times> pangea_msg list" where
  "confirm_announce dp senderind turni bsize =
     (if myslot (table dp) = pangea_slotA (table dp)
         \<and> list_all (\<lambda>i. turnis (hand dp) ! i = turni) [0..<N_players dp] then
        let bs = max_bet dp;
            dp = upd_hand (\<lambda>h. h\<lparr>hand_snapshot := (hand_snapshot h)[N_players dp := as_s64 bs],
                                 betsize := as_s64 bs\<rparr>) dp
        in (dp, bs, if senderind \<noteq> 0
                    then [Sendcmd ''confirmturn'' (snapshot_data dp) (int (cardi (hand dp)))
                            (int (undergun (hand dp)))] else [])
      else (dp, bsize, []))"

definition confirm_act ::
  "nat \<Rightarrow> nat \<Rightarrow> nat \<Rightarrow> pubdata \<Rightarrow> privdata \<Rightarrow> nat \<Rightarrow> nat \<Rightarrow> int \<Rightarrow> pubdata \<times> pangea_msg list" where
  "confirm_act r1 r2 now dp priv senderind cardno bsize =
     (let me = pangea_ind (table dp) (myslot (table dp))
      in if senderind = 0 \<and> int (undergun (hand dp)) = me then
           if isbot (table dp) ! myslot (table dp) \<noteq> 0 then (dp, [fst (pangea_bot r1 r2 dp cardno bsize)])
           else if betstatus (hand dp) ! nat me = CARDS777_FOLD \<or> betstatus (hand dp) ! nat me = CARDS777_ALLIN
             \<or> autofold priv \<noteq> 0
           then (dp, [Sendcmd ''action'' (amount_data 0) (int cardno) 0])
           else (upd_hand (\<lambda>h. h\<lparr>userinput_starttime := now, cardi := cardno, betsize := as_s64 bsize\<rparr>) dp, [])
         else (dp, []))"

definition pangea_confirmturn ::
  "nat \<Rightarrow> nat \<Rightarrow> nat \<Rightarrow> pubdata \<Rightarrow> privdata \<Rightarrow> nat \<Rightarrow> int \<Rightarrow> nat \<Rightarrow> bytes option \<Rightarrow>
     pubdata \<times> pangea_msg list \<times> int" where
  "pangea_confirmturn r1 r2 now dp priv senderind turni cardno data =
     (case data of
        None \<Rightarrow> (dp, [], -1)
      | Some bs \<Rightarrow>
          let (dp, bsize) = confirm_adopt dp senderind turni cardno bs;
              dp = upd_hand (\<lambda>h. h\<lparr>turnis := (turnis h)[senderind := as_s8 turni]\<rparr>) dp;
              (dp, bsize, msgs) = confirm_announce dp senderind turni bsize;
              (dp, msgs') = confirm_act r1 r2 now dp priv senderind cardno bsize
          in (dp, msgs @ msgs', 0))"

section \<open>Ending hands\<close>

text \<open>
  The hand ends when at most one player has not folded. The \<^verbatim>\<open>faceup\<close> messages are
  disabled in the code. The second component tells whether the hand has ended.
\<close>

definition pangea_lastman :: "nat \<Rightarrow> pubdata \<Rightarrow> pubdata \<times> bool" where
  "pangea_lastman now dp =
     (if betstarted (hand dp) \<noteq> 0 \<and> fst (pangea_actives dp) \<le> 1
      then if finished (hand dp) \<noteq> 0 then (dp, True) else (pangea_finish now dp, True)
      else (dp, False))"

text \<open>
  \<^verbatim>\<open>pangea_gotsummary\<close>: compare a received log with the own one, directly or as displayed
  (\<open>disp\<close> stands for the printed form of \<^verbatim>\<open>pangea_dispsummary\<close>); when all players have
  reported, the host starts another hand.
\<close>

definition mark_summary :: "(bytes \<Rightarrow> string) \<Rightarrow> pubdata \<Rightarrow> bytes \<Rightarrow> nat \<Rightarrow> pubdata" where
  "mark_summary disp dp data senderind =
     (if length data = length (summary dp) \<and> (data = summary dp \<or> disp (summary dp) = disp data)
      then dp\<lparr>summaries := summaries dp OR push_bit senderind 1\<rparr>
      else dp\<lparr>mismatches := mismatches dp OR push_bit senderind 1\<rparr>)"

definition pangea_gotsummary ::
  "(bytes \<Rightarrow> string) \<Rightarrow> u64 \<Rightarrow> bytes \<Rightarrow> pubdata \<Rightarrow> privdata \<Rightarrow> bytes \<Rightarrow> nat \<Rightarrow>
     pubdata \<times> privdata \<times> pangea_msg list" where
  "pangea_gotsummary disp deckprod deck dp priv data senderind =
     (let dp = mark_summary disp dp data senderind;
          msgs = (if senderind = 0 \<and> myslot (table dp) \<noteq> pangea_slotA (table dp)
                  then [Sendcmd ''summary'' (summary dp) 0 0] else [])
      in if mismatches dp OR summaries dp = push_bit (N_players dp) 1 - 1 \<and> myslot (table dp) = 0
         then let (dp, priv, msgs') =
                    fst (pangea_anotherhand deckprod deck (dp\<lparr>mismatches := 0, summaries := 0\<rparr>) priv)
              in (dp, priv, msgs @ msgs')
         else (dp, priv, msgs))"

section \<open>Betting rounds\<close>

definition pangea_startbets :: "pubdata \<Rightarrow> nat \<Rightarrow> pubdata \<times> pangea_msg list" where
  "pangea_startbets dp cardno =
     (let N = N_players dp;
          dp = upd_hand (\<lambda>h. h\<lparr>betstarted := (if betstarted h = 0 then 1 else betstarted h + 1),
                numactions := 0, cardi := cardno, actions := map (\<lambda>_. 0) (actions h),
                turnis := map (\<lambda>_. -1) (turnis h), undergun := (button dp + 3) mod N\<rparr>) dp;
          dp = (if cardno > N * 2
                then upd_hand (\<lambda>h. h\<lparr>hand_snapshot := buf_write 0 (take N (bets h)) (hand_snapshot h)\<rparr>) dp
                else pangea_checkantes dp);
          dp = upd_hand (\<lambda>h. h\<lparr>hand_snapshot := (hand_snapshot h)[N := betsize h]\<rparr>) dp
      in (dp, [Sendcmd ''turn'' (snapshot_data dp) (int cardno) (int (undergun (hand dp)))]))"

text \<open>
  The host's search for the next player who can act: folded and all-in players are recorded
  as having acted. The second component is the last player looked at.
\<close>

definition can_act :: "handinfo \<Rightarrow> nat \<Rightarrow> bool" where
  "can_act h j = (betstatus h ! j \<noteq> CARDS777_FOLD \<and> betstatus h ! j \<noteq> CARDS777_ALLIN)"

fun action_skip :: "nat \<Rightarrow> nat \<Rightarrow> nat \<Rightarrow> nat \<Rightarrow> nat \<Rightarrow> handinfo \<Rightarrow> handinfo \<times> nat" where
  "action_skip N start i 0 j h = (h, j)"
| "action_skip N start i (Suc k) j h =
     (let j = (start + i) mod N
      in if can_act h j then (h, j)
         else action_skip N start (Suc i) k j
                (h\<lparr>actions := (actions h)[j := betstatus h ! j], numactions := (numactions h + 1) mod 256\<rparr>))"

text \<open>The next card to decode goes out with the sender's layer.\<close>

definition decode_msg :: "pubdata \<Rightarrow> nat \<Rightarrow> pangea_msg" where
  "decode_msg dp c =
     Sendcmd ''decoded'' (final (hand dp) ! (c * N_players dp) @ replicate (32 * (N_players dp - 1)) 0)
       (int c) (int (N_players dp) - 1)"

definition community_known :: "handinfo \<Rightarrow> nat" where
  "community_known h = length (takeWhile (\<lambda>c. c \<noteq> 0xff) (take 5 (community h)))"

fun showdown_first :: "nat \<Rightarrow> nat \<Rightarrow> nat \<Rightarrow> nat \<Rightarrow> nat \<Rightarrow> handinfo \<Rightarrow> nat" where
  "showdown_first N start i 0 j h = j"
| "showdown_first N start i (Suc k) j h =
     (let j = (start + i) mod N
      in if betstatus h ! j \<noteq> CARDS777_FOLD then j else showdown_first N start (Suc i) k j h)"

text \<open>The end of a betting round: deal the flop, the turn or the river, or ask for a showdown.\<close>

definition action_round_end :: "pubdata \<Rightarrow> nat \<Rightarrow> pubdata \<times> pangea_msg list" where
  "action_round_end dp j =
     (let i = community_known (hand dp); c = cardi (hand dp); N = N_players dp
      in if i = 0 then (dp, map (decode_msg dp) [c, c + 1, c + 2])
         else if i = 3 then (dp, [decode_msg dp c])
         else if i = 4 then (dp, [decode_msg dp c])
         else
           let u = showdown_first N (lastbettor (hand dp)) 0 N j (hand dp);
               dp = upd_hand (\<lambda>h. h\<lparr>undergun := u\<rparr>) dp
           in (dp, [Sendcmd ''showdown'' (le_bytes 8 (betsize (hand dp))) (int (N * 2 + 5)) (int u)]))"

definition action_host :: "pubdata \<Rightarrow> pubdata \<times> pangea_msg list" where
  "action_host dp =
     (let N = N_players dp;
          (h, j) = action_skip N (undergun (hand dp)) 0 N 0 (hand dp);
          dp = dp\<lparr>hand := h\<lparr>undergun := j\<rparr>\<rparr>
      in if numactions (hand dp) < N
         then (dp, [Sendcmd ''turn'' (snapshot_data dp) (int (cardi (hand dp))) (int (undergun (hand dp)))])
         else action_round_end dp j)"

definition record_action :: "pubdata \<Rightarrow> nat \<Rightarrow> int \<Rightarrow> pubdata" where
  "record_action dp senderind action =
     upd_hand (\<lambda>h. h\<lparr>actions := (actions h)[senderind := as_s8 action],
       undergun := (undergun h + 1) mod N_players dp, numactions := (numactions h + 1) mod 256\<rparr>) dp"

definition pangea_action ::
  "nat \<Rightarrow> pubdata \<Rightarrow> nat \<Rightarrow> int \<Rightarrow> bytes \<Rightarrow> pubdata \<times> pangea_msg list \<times> int" where
  "pangea_action now dp senderind action data =
     (let amount = le_int (take 8 data)
      in if senderind \<noteq> undergun (hand dp) then (dp, [], -1)
         else
           let dp = fst (pangea_bet dp senderind (as_s64 amount) CARDS777_CHECK);
               dp = record_action dp senderind action;
               (dp, done) = pangea_lastman now dp
           in if done then (dp, [], 0)
              else if myslot (table dp) = pangea_slotA (table dp)
              then let (dp, msgs) = action_host dp in (dp, msgs, 0)
              else (dp, [], 0))"

definition pangea_myrank :: "pubdata \<Rightarrow> nat \<Rightarrow> int" where
  "pangea_myrank dp senderind =
     (let myrank = handranks (hand dp) ! senderind
      in if list_ex (\<lambda>i. i \<noteq> senderind \<and> handranks (hand dp) ! i > myrank) [0..<N_players dp] then -1
         else if myrank \<noteq> 0 then 1 else 0)"

text \<open>The next player to show, or \<open>None\<close> when the round is back at the last bettor.\<close>

fun showdown_next :: "nat \<Rightarrow> nat \<Rightarrow> handinfo \<Rightarrow> handinfo \<times> bool" where
  "showdown_next N 0 h = (h, True)"
| "showdown_next N (Suc k) h =
     (let u = (undergun h + 1) mod N; h = h\<lparr>undergun := u\<rparr>
      in if u = lastbettor h then (h, False)
         else if betstatus h ! u \<noteq> CARDS777_FOLD then (h, True)
         else showdown_next N k h)"

definition pangea_showdown ::
  "nat \<Rightarrow> pubdata \<Rightarrow> privdata \<Rightarrow> nat \<Rightarrow> int \<Rightarrow> nat \<Rightarrow> pubdata \<times> pangea_msg list" where
  "pangea_showdown now dp priv senderind turni cardno =
     (let me = pangea_ind (table dp) (myslot (table dp)); h = hand dp;
          shows = (betstatus h ! nat me \<noteq> CARDS777_FOLD
             \<and> ((automuck priv = 0 \<and> actions h ! nat me \<noteq> CARDS777_SENTCARDS)
                \<or> (turni = me \<and> int (lastbettor h) = me)));
          (dp, msgs) =
            (if shows then
               if automuck priv \<noteq> 0 \<and> pangea_myrank dp (nat me) < 0
               then (dp, [Sendcmd ''action'' (amount_data 0) (int cardno) CARDS777_FOLD])
               else (upd_hand (\<lambda>h. h\<lparr>actions := (actions h)[nat me := CARDS777_SENTCARDS]\<rparr>) dp,
                     [Sendcmd ''faceup'' (holecards priv ! 0) (int (cardis priv ! 0)) me,
                      Sendcmd ''faceup'' (holecards priv ! 1) (int (cardis priv ! 1)) me])
             else (dp, []));
          (dp, done) = pangea_lastman now dp
      in if done then (dp, msgs)
         else if myslot (table dp) = pangea_slotA (table dp) \<and> senderind \<noteq> 0
         then let (h, more) = showdown_next (N_players dp) (N_players dp) (hand dp);
                  dp = dp\<lparr>hand := h\<rparr>
              in if more
                 then (dp, msgs @ [Sendcmd ''showdown'' (le_bytes 8 (betsize h)) (int cardno) (int (undergun h))])
                 else (dp, msgs)
         else (dp, msgs))"


section \<open>The next player\<close>

lemma action_skip_frame:
  "action_skip N start i k j h = (h', j') \<Longrightarrow>
     betstatus h' = betstatus h \<and> bets h' = bets h \<and> lastraise h' = lastraise h \<and> finished h' = finished h
     \<and> undergun h' = undergun h \<and> lastbettor h' = lastbettor h \<and> community h' = community h"
proof (induction N start i k j h rule: action_skip.induct)
  case (2 N start i k j h)
  then show ?case by (cases "can_act h ((start + i) mod N)") (auto simp: Let_def)
qed simp

text \<open>The search stops at the first player who is neither folded nor all-in, and counts the others.\<close>

lemma action_skip_first:
  "i \<le> m \<Longrightarrow> m < i + k \<Longrightarrow> betstatus h ! ((start + m) mod N) \<notin> {CARDS777_FOLD, CARDS777_ALLIN} \<Longrightarrow> numactions h < 256 \<Longrightarrow>
   \<exists>q acts. i \<le> q \<and> q < i + k
     \<and> action_skip N start i k j h
         = (h\<lparr>actions := acts, numactions := (numactions h + (q - i)) mod 256\<rparr>, (start + q) mod N)
     \<and> betstatus h ! ((start + q) mod N) \<notin> {CARDS777_FOLD, CARDS777_ALLIN}
     \<and> (\<forall>m'. i \<le> m' \<and> m' < q \<longrightarrow> betstatus h ! ((start + m') mod N) \<in> {CARDS777_FOLD, CARDS777_ALLIN})"
proof (induction N start i k j h rule: action_skip.induct)
  case (2 N start i k j h)
  let ?j = "(start + i) mod N"
  let ?h = "h\<lparr>actions := (actions h)[?j := betstatus h ! ?j], numactions := (numactions h + 1) mod 256\<rparr>"
  show ?case
  proof (cases "betstatus h ! ?j \<in> {CARDS777_FOLD, CARDS777_ALLIN}")
    case False
    then have "action_skip N start i (Suc k) j h = (h, ?j)" by (simp add: can_act_def Let_def)
    then show ?thesis using False "2.prems" by (intro exI [of _ i] exI [of _ "actions h"]) simp
  next
    case True
    then have skip: "\<not> can_act h ?j" by (auto simp: can_act_def)
    have "Suc i \<le> m" using True "2.prems" by (cases "m = i") auto
    then obtain q acts where q: "Suc i \<le> q" "q < Suc i + k"
      "action_skip N start (Suc i) k ?j ?h
        = (?h\<lparr>actions := acts, numactions := (numactions ?h + (q - Suc i)) mod 256\<rparr>, (start + q) mod N)"
      "betstatus h ! ((start + q) mod N) \<notin> {CARDS777_FOLD, CARDS777_ALLIN}"
      "\<forall>m'. Suc i \<le> m' \<and> m' < q \<longrightarrow> betstatus h ! ((start + m') mod N) \<in> {CARDS777_FOLD, CARDS777_ALLIN}"
      using "2.IH" [OF refl skip] "2.prems" by auto
    obtain r where "q = Suc i + r" using le_Suc_ex [OF q(1)] by blast
    then have "((numactions h + 1) mod 256 + (q - Suc i)) mod 256 = (numactions h + (q - i)) mod 256"
      by (simp add: mod_simps)
    then have "action_skip N start i (Suc k) j h
        = (h\<lparr>actions := acts, numactions := (numactions h + (q - i)) mod 256\<rparr>, (start + q) mod N)"
      using skip q(3) by (simp add: Let_def)
    moreover have "\<forall>m'. i \<le> m' \<and> m' < q \<longrightarrow> betstatus h ! ((start + m') mod N) \<in> {CARDS777_FOLD, CARDS777_ALLIN}"
      using q(5) True by (metis Suc_le_eq le_neq_implies_less)
    ultimately show ?thesis using q(1,2,4) by (intro exI [of _ q] exI [of _ acts]) simp
  qed
qed simp

text \<open>Every player is reached from any start within one round.\<close>

lemma cyclic_offset: "p < N \<Longrightarrow> \<exists>m<N. (start + m) mod N = (p :: nat)"
proof (intro exI [of _ "(p + (N - start mod N)) mod N"] conjI)
  assume p: "p < N"
  then show "(p + (N - start mod N)) mod N < N" by simp
  have "start mod N \<le> N" using p by (simp add: order_less_imp_le)
  have "(start + (p + (N - start mod N)) mod N) mod N = (start mod N + (p + (N - start mod N))) mod N"
    by (simp add: mod_simps)
  also have "\<dots> = (p + N) mod N" using \<open>start mod N \<le> N\<close> by simp
  finally show "(start + (p + (N - start mod N)) mod N) mod N = p" using p by simp
qed

section \<open>Money through the handlers\<close>

text \<open>Everything a table is worth: balances, rakes taken, and the pot while the hand runs.\<close>

definition wealth :: "pubdata \<Rightarrow> int" where
  "wealth dp = sum_list (balances (table dp)) + hostrake dp + pangearake dp
     + (if finished (hand dp) = 0 then sum_list (take (N_players dp) (bets (hand dp))) else 0)"

lemma bet_adjust_other:
  "bet_adjust h p bal b a = (h', b', a') \<Longrightarrow> finished h' = finished h \<and> community h' = community h \<and> betstarted h' = betstarted h"
  by (auto simp: bet_adjust_def split: if_splits)

lemma bet_raise_other:
  "bet_raise h p t b a = (h', a') \<Longrightarrow> finished h' = finished h \<and> community h' = community h \<and> betstarted h' = betstarted h"
  by (auto simp: bet_raise_def Let_def split: if_splits prod.splits)

lemma pangea_fold_other [simp]:
  "hostrake (pangea_fold dp i) = hostrake dp" "pangearake (pangea_fold dp i) = pangearake dp"
  "rakemillis (pangea_fold dp i) = rakemillis dp" "maxrake (pangea_fold dp i) = maxrake dp"
  "finished (hand (pangea_fold dp i)) = finished (hand dp)"
  "betstarted (hand (pangea_fold dp i)) = betstarted (hand dp)"
  by (simp_all add: pangea_fold_def Let_def)

lemma pangea_bet_other:
  "pangea_bet dp p b a = (dp', a') \<Longrightarrow> hostrake dp' = hostrake dp \<and> pangearake dp' = pangearake dp
     \<and> rakemillis dp' = rakemillis dp \<and> maxrake dp' = maxrake dp \<and> finished (hand dp') = finished (hand dp)
     \<and> N_players dp' = N_players dp"
  by (auto simp: pangea_bet_def Let_def bet_transfer_def dest!: bet_adjust_other bet_raise_other
      split: if_splits prod.splits)

lemma pangea_finish_finished: "finished (hand dp) = 0 \<Longrightarrow> finished (hand (pangea_finish now dp)) = now"
  by (simp add: pangea_finish_def Let_def split: prod.splits)

text \<open>Bets filed under the numbers of the hand's players only.\<close>

definition no_stray :: "pubdata \<Rightarrow> bool" where
  "no_stray dp \<longleftrightarrow> sum_list (drop (N_players dp) (bets (hand dp))) = 0"

lemma wealth_total:
  "no_stray dp \<Longrightarrow> finished (hand dp) = 0 \<Longrightarrow> wealth dp = total_money dp + hostrake dp + pangearake dp"
  using sum_list_append [of "take (N_players dp) (bets (hand dp))" "drop (N_players dp) (bets (hand dp))"]
  by (simp add: wealth_def total_money_def no_stray_def)

lemma no_stray_bet:
  assumes "money_wf dp" "0 \<le> b" "seats_aligned (table dp)" "no_stray dp" "pangea_bet dp p b a = (dp', a')"
  shows "no_stray dp'"
proof -
  let ?p = "p mod N_players dp"
  have p: "?p < numactive (table dp)" using money_wf_slot [OF assms(1)] by auto
  then have "nat (pangea_slot (table dp) ?p) = ?p" "?p < N_players dp"
    using aligned_slot [OF _ assms(3)] assms(1) by (simp_all add: money_wf_def)
  then show ?thesis
    using assms(4)
    by (cases rule: pangea_bet_transfer [OF assms(1,2,5), case_names none moved]) (simp_all add: no_stray_def)
qed

lemma action_host_wealth: "wealth (fst (action_host dp)) = wealth dp"
proof -
  obtain h j where sk: "action_skip (N_players dp) (undergun (hand dp)) 0 (N_players dp) 0 (hand dp) = (h, j)"
    by fastforce
  show ?thesis
    using action_skip_frame [OF sk]
    by (simp add: action_host_def sk action_round_end_def Let_def wealth_def)
qed

lemma action_host_table: "table (fst (action_host dp)) = table dp"
  by (simp add: action_host_def action_round_end_def Let_def split: prod.split)

lemma pangea_actives_count:
  "fst (pangea_actives dp) = length (filter (\<lambda>i. betstatus (hand dp) ! i \<noteq> CARDS777_FOLD) [0..<N_players dp])"
proof -
  have "fst (foldl (\<lambda>(n, activej) i. if betstatus (hand dp) ! i \<noteq> CARDS777_FOLD
        then (n + 1, if activej < 0 then int i else activej) else (n, activej)) (m, j) is)
      = m + length (filter (\<lambda>i. betstatus (hand dp) ! i \<noteq> CARDS777_FOLD) is)" for m :: nat and j "is"
    by (induction "is" arbitrary: m j) simp_all
  then show ?thesis by (simp add: pangea_actives_def)
qed

lemma pangea_finish_wealth:
  assumes "money_wf dp" "finished (hand dp) = 0"
    and "j < N_players dp" "bets (hand dp) ! j > 0" "betstatus (hand dp) ! j \<noteq> CARDS777_FOLD"
    and "0 \<le> rakemillis dp" "rakemillis dp \<le> 1000" "0 \<le> maxrake dp"
    and "0 \<le> hostrake dp" "hostrake dp < 2 ^ 62" "0 \<le> pangearake dp" "pangearake dp < 2 ^ 62"
    and "total_money dp * 1000 < 2 ^ 62" "now \<noteq> 0"
  shows "wealth (pangea_finish now dp) = wealth dp"
  using pangea_finish_money [OF assms(1-13), of now] pangea_finish_finished [OF assms(2), of now] assms(2,14)
  by (simp add: wealth_def)


section \<open>Reports of the players\<close>

definition reported :: "pubdata \<Rightarrow> nat set" where
  "reported dp = {i. bit (mismatches dp OR summaries dp) i}"

lemma word_eq_mask_iff:
  "n < 64 \<Longrightarrow> (w :: u64) = push_bit n 1 - 1 \<longleftrightarrow> {i. bit w i} = {..<n}"
proof -
  assume n: "n < 64"
  have m: "(push_bit n 1 - 1 :: u64) = mask n" by (simp add: mask_eq_exp_minus_1)
  have b: "bit (mask n :: u64) i \<longleftrightarrow> i < n" for i using n by (auto simp: bit_mask_iff)
  show ?thesis
  proof
    assume "{i. bit w i} = {..<n}"
    then have "bit w i \<longleftrightarrow> i < n" for i by blast
    then show "w = push_bit n 1 - 1" unfolding m by (intro bit_word_eqI) (simp add: b)
  next
    assume w: "w = push_bit n 1 - 1"
    show "{i. bit w i} = {..<n}" unfolding w m b by blast
  qed
qed

lemma reported_or:
  assumes "i < 64"
  shows "{j. bit (m OR (s OR push_bit i 1) :: u64) j} = insert i {j. bit (m OR s) j}"
    "{j. bit ((m OR push_bit i 1) OR s :: u64) j} = insert i {j. bit (m OR s) j}"
  using assms by (auto simp: bit_or_iff bit_exp_iff)

section \<open>Properties\<close>

definition witness_priv :: privdata where
  "witness_priv = \<lparr>automuck = 0, autofold = 0, holecards = [[], []], cardis = [0, 1]\<rparr>"

text \<open>
  C7. An action keeps the table's wealth: balances, rakes and, until the hand is settled, the
  pot add up to the same amount after \<^verbatim>\<open>pangea_action\<close>, whether the action is out of turn, a
  bet, or the fold that ends the hand and pays it out. The conditions: the seat numbers are the
  numbers of the players in the hand, no bet is recorded outside them, the amount is below
  \<open>2 ^ 63\<close>, the hand is not settled yet, a player with a bet is still in after the bet, and the
  money, the rakes and the rake rate are in range.
\<close>

theorem pangea_action_conserves:
  assumes wf: "money_wf dp" and al: "seats_aligned (table dp)" and ns: "no_stray dp"
    and fin: "finished (hand dp) = 0" and amt: "le_int (take 8 data) < 2 ^ 63"
    and rm: "0 \<le> rakemillis dp" "rakemillis dp \<le> 1000" "0 \<le> maxrake dp"
    and rk: "0 \<le> hostrake dp" "hostrake dp < 2 ^ 62" "0 \<le> pangearake dp" "pangearake dp < 2 ^ 62"
    and bnd: "total_money dp * 1000 < 2 ^ 62" and now: "now \<noteq> 0"
    and stays: "list_ex (\<lambda>j. bets (hand (fst (pangea_bet dp s (as_s64 (le_int (take 8 data))) CARDS777_CHECK))) ! j > 0
      \<and> betstatus (hand (fst (pangea_bet dp s (as_s64 (le_int (take 8 data))) CARDS777_CHECK))) ! j \<noteq> CARDS777_FOLD)
      [0..<N_players dp]"
  shows "wealth (fst (pangea_action now dp s action data)) = wealth dp"
proof (cases "s = undergun (hand dp)")
  case True
  let ?amt = "as_s64 (le_int (take 8 data))"
  have pos: "0 \<le> ?amt" using le_int_bounds [of "take 8 data"] amt by simp
  obtain d a where bet: "pangea_bet dp s ?amt CARDS777_CHECK = (d, a)" by fastforce
  note wfd = money_wf_bet [OF wf pos bet] and oth = pangea_bet_other [OF bet]
    and nsd = no_stray_bet [OF wf pos al ns bet]
  have wd: "wealth d = wealth dp"
    using wealth_total [OF nsd] wealth_total [OF ns fin] wfd oth fin by simp
  define e where "e = record_action d s action"
  have we: "wealth e = wealth d" "money_wf e" "finished (hand e) = 0" "total_money e = total_money dp"
    "N_players e = N_players dp" "hostrake e = hostrake dp" "pangearake e = pangearake dp"
    "rakemillis e = rakemillis dp" "maxrake e = maxrake dp" "bets (hand e) = bets (hand d)"
    "betstatus (hand e) = betstatus (hand d)"
    using wfd oth fin by (auto simp: e_def record_action_def wealth_def money_wf_def total_money_def)
  obtain j where j: "j < N_players e" "bets (hand e) ! j > 0" "betstatus (hand e) ! j \<noteq> CARDS777_FOLD"
    using stays bet we by (auto simp: list_ex_iff)
  have fe: "wealth (pangea_finish now e) = wealth e"
    using pangea_finish_wealth [OF we(2,3) j] we rm rk bnd now by simp
  have "fst (pangea_action now dp s action data) \<in> {e, pangea_finish now e, fst (action_host e)}"
    using True bet we(3) unfolding e_def pangea_action_def pangea_lastman_def Let_def
    by (auto split: prod.splits if_splits)
  then show ?thesis using wd we(1) fe action_host_wealth [of e] by auto
qed (simp add: pangea_action_def)

theorem pangea_action_conserves_witness:
  "wealth (fst (pangea_action 99 witness_aligned 0 5 (le_bytes 8 6))) = wealth witness_aligned"
proof (rule pangea_action_conserves)
  show "list_ex (\<lambda>j. bets (hand (fst (pangea_bet witness_aligned 0 (as_s64 (le_int (take 8 (le_bytes 8 6)))) CARDS777_CHECK))) ! j > 0
      \<and> betstatus (hand (fst (pangea_bet witness_aligned 0 (as_s64 (le_int (take 8 (le_bytes 8 6)))) CARDS777_CHECK))) ! j \<noteq> CARDS777_FOLD)
      [0..<N_players witness_aligned]" by code_simp
qed code_simp+

text \<open>
  C29. The host passes the turn on. If some player has neither folded nor gone all-in, the turn goes to
  the first such player from the player under the gun on; the \<open>q\<close> players passed over, all of them
  folded or all-in, count as having acted. While fewer actions than players are counted the
  host announces that player's turn and nothing else; otherwise the round ends. Apart from the turn, the
  count and the recorded actions the hand is unchanged.
\<close>

theorem action_host_next_turn:
  assumes "p < N_players dp" "betstatus (hand dp) ! p \<noteq> CARDS777_FOLD" "betstatus (hand dp) ! p \<noteq> CARDS777_ALLIN"
    and "numactions (hand dp) + N_players dp \<le> 256"
  shows "\<exists>q < N_players dp. \<exists>acts.
      let nxt = (undergun (hand dp) + q) mod N_players dp;
          dp' = dp\<lparr>hand := (hand dp)\<lparr>actions := acts, numactions := numactions (hand dp) + q, undergun := nxt\<rparr>\<rparr>
      in betstatus (hand dp) ! nxt \<noteq> CARDS777_FOLD \<and> betstatus (hand dp) ! nxt \<noteq> CARDS777_ALLIN
      \<and> (\<forall>q' < q. betstatus (hand dp) ! ((undergun (hand dp) + q') mod N_players dp) \<in> {CARDS777_FOLD, CARDS777_ALLIN})
      \<and> action_host dp = (if numactions (hand dp) + q < N_players dp
          then (dp', [Sendcmd ''turn'' (snapshot_data dp') (int (cardi (hand dp))) (int nxt)])
          else action_round_end dp' nxt)"
proof -
  let ?N = "N_players dp" and ?u = "undergun (hand dp)" and ?n = "numactions (hand dp)"
  obtain m where m: "m < ?N" "(?u + m) mod ?N = p" using cyclic_offset [OF assms(1)] by blast
  have live: "betstatus (hand dp) ! ((?u + m) mod ?N) \<notin> {CARDS777_FOLD, CARDS777_ALLIN}" using assms(2,3) m(2) by simp
  have n: "m < 0 + ?N" "?n < 256" using m(1) assms(4) by simp_all
  obtain q acts where "q < 0 + ?N"
      "action_skip ?N ?u 0 ?N 0 (hand dp) = ((hand dp)\<lparr>actions := acts, numactions := (?n + (q - 0)) mod 256\<rparr>, (?u + q) mod ?N)"
      "betstatus (hand dp) ! ((?u + q) mod ?N) \<notin> {CARDS777_FOLD, CARDS777_ALLIN}"
      "\<forall>m'. 0 \<le> m' \<and> m' < q \<longrightarrow> betstatus (hand dp) ! ((?u + m') mod ?N) \<in> {CARDS777_FOLD, CARDS777_ALLIN}"
    using action_skip_first [OF le0 n(1) live n(2), of 0] by blast
  then have q: "q < ?N"
      "action_skip ?N ?u 0 ?N 0 (hand dp) = ((hand dp)\<lparr>actions := acts, numactions := (?n + q) mod 256\<rparr>, (?u + q) mod ?N)"
      "betstatus (hand dp) ! ((?u + q) mod ?N) \<noteq> CARDS777_FOLD" "betstatus (hand dp) ! ((?u + q) mod ?N) \<noteq> CARDS777_ALLIN"
      "\<forall>m' < q. betstatus (hand dp) ! ((?u + m') mod ?N) \<in> {CARDS777_FOLD, CARDS777_ALLIN}"
    by simp_all
  have "(?n + q) mod 256 = ?n + q" using q(1) assms(4) by simp
  with q(2) have "action_host dp = (let dp' = dp\<lparr>hand := (hand dp)\<lparr>actions := acts, numactions := ?n + q, undergun := (?u + q) mod ?N\<rparr>\<rparr>
      in if ?n + q < ?N
        then (dp', [Sendcmd ''turn'' (snapshot_data dp') (int (cardi (hand dp))) (int ((?u + q) mod ?N))])
        else action_round_end dp' ((?u + q) mod ?N))"
    by (simp add: action_host_def Let_def)
  with q(1,3-5) show ?thesis unfolding Let_def by blast
qed

text \<open>Of three players the first is all-in and under the gun, and the third has folded.\<close>

theorem action_host_next_turn_witness:
  "\<exists>acts. let dp' = witness_allin\<lparr>hand := (hand witness_allin)\<lparr>actions := acts, numactions := 1, undergun := 1\<rparr>\<rparr>
     in action_host witness_allin = (dp', [Sendcmd ''turn'' (snapshot_data dp') 0 1])"
proof -
  have w: "N_players witness_allin = 3" "undergun (hand witness_allin) = 0" "numactions (hand witness_allin) = 0"
    "cardi (hand witness_allin) = 0" by code_simp+
  have b: "betstatus (hand witness_allin) ! (0 mod 3) = CARDS777_ALLIN" "betstatus (hand witness_allin) ! (1 mod 3) \<noteq> CARDS777_FOLD"
    "betstatus (hand witness_allin) ! (1 mod 3) \<noteq> CARDS777_ALLIN" "betstatus (hand witness_allin) ! 1 \<noteq> CARDS777_FOLD"
    "betstatus (hand witness_allin) ! 1 \<noteq> CARDS777_ALLIN" by code_simp+
  have p: "1 < (3::nat)" "3 \<le> (256::nat)" by simp_all
  from action_host_next_turn [of 1 witness_allin, unfolded w Let_def add_0, OF p(1) b(4,5) p(2)] obtain q acts
    where q: "q < 3" "betstatus (hand witness_allin) ! (q mod 3) \<noteq> CARDS777_ALLIN"
      "\<forall>q' < q. betstatus (hand witness_allin) ! (q' mod 3) \<in> {CARDS777_FOLD, CARDS777_ALLIN}"
      "action_host witness_allin = (if q < 3
        then (witness_allin\<lparr>hand := (hand witness_allin)\<lparr>actions := acts, numactions := q, undergun := q mod 3\<rparr>\<rparr>,
          [Sendcmd ''turn'' (snapshot_data (witness_allin\<lparr>hand := (hand witness_allin)\<lparr>actions := acts, numactions := q,
             undergun := q mod 3\<rparr>\<rparr>)) (int 0) (int (q mod 3))])
        else action_round_end (witness_allin\<lparr>hand := (hand witness_allin)\<lparr>actions := acts, numactions := q, undergun := q mod 3\<rparr>\<rparr>) (q mod 3))"
    by blast
  have "q \<noteq> 0" using q(2) b(1) by metis
  moreover have "\<not> 1 < q" using q(3) b(2,3) by blast
  ultimately have "q = 1" by linarith
  then have "q mod 3 = 1" "int 0 = 0" "int 1 = 1" by simp_all
  with q(1,4) \<open>q = 1\<close> show ?thesis unfolding Let_def by metis
qed

text \<open>
  C34. The amount of an action message is read as a signed number without a check. A player in
  turn who has neither folded nor gone all-in sends an amount \<open>2 ^ 64 - k\<close>, for any \<open>k\<close> greater than what
  it has bet so far: the bet is \<open>- k\<close>, it passes the check against the bet to call by wrapping
  round, and after \<^verbatim>\<open>pangea_action\<close> the player's balance is larger by \<open>k\<close>. Two players have not
  folded, so the hand goes on.
\<close>

theorem pangea_action_negative_mints:
  assumes "money_wf dp" "s < N_players dp" "s = undergun (hand dp)"
    and "betstatus (hand dp) ! s \<noteq> CARDS777_FOLD" "betstatus (hand dp) ! s \<noteq> CARDS777_ALLIN"
    and "bets (hand dp) ! s < k" "k < 2 ^ 62" "0 \<le> betsize (hand dp)" "betsize (hand dp) < 2 ^ 63"
    and "2 \<le> length (filter (\<lambda>i. betstatus (hand dp) ! i \<noteq> CARDS777_FOLD) [0..<N_players dp])"
    and "slot = nat (pangea_slot (table dp) s)"
  shows "balances (table (fst (pangea_action now dp s action (le_bytes 8 (2 ^ 64 - k))))) ! slot
    = balances (table dp) ! slot + k"
proof -
  have s: "s mod N_players dp = s" using assms(2) by simp
  have "0 \<le> bets (hand dp) ! s"
    using money_wf_slot [OF assms(1), of s] money_wf_range(2) [OF assms(1), of 0 s] assms(1) s by (simp add: CARDS777_MAXPLAYERS_def)
  then have "0 < k" using assms(6) by simp
  have "as_s64 (2 ^ 64 - k) = - k" using as_s64_wrap [of "- k"] \<open>0 < k\<close> assms(7) by simp
  moreover have "(2 ^ 64 - k) mod 256 ^ 8 = 2 ^ 64 - k"
    using \<open>0 < k\<close> assms(7) by (intro mod_pos_pos_trivial) simp_all
  then have "le_int (take 8 (le_bytes 8 (2 ^ 64 - k))) = 2 ^ 64 - k"
    using take_all [of "le_bytes 8 (2 ^ 64 - k)" 8] by (simp only: length_le_bytes order_refl le_int_le_bytes)
  ultimately have amt: "as_s64 (le_int (take 8 (le_bytes 8 (2 ^ 64 - k)))) = - k" by simp
  obtain d a where d: "pangea_bet dp s (- k) CARDS777_CHECK = (d, a)"
    "table d = (table dp)\<lparr>balances := (balances (table dp))[slot := balances (table dp) ! slot + k]\<rparr>"
    "betstatus (hand d) = betstatus (hand dp)" "N_players d = N_players dp"
    using pangea_bet_negative [OF assms(1), of s k slot] assms(4-9,11) s by auto
  define e where "e = record_action d s action"
  have e: "table e = table d" "betstatus (hand e) = betstatus (hand dp)" "N_players e = N_players dp"
    using d by (simp_all add: e_def record_action_def)
  have "fst (pangea_actives e) = length (filter (\<lambda>i. betstatus (hand dp) ! i \<noteq> CARDS777_FOLD) [0..<N_players dp])"
    using pangea_actives_count [of e] e by simp
  then have last: "pangea_lastman now e = (e, False)" using assms(10) by (simp add: pangea_lastman_def)
  have "\<not> s \<noteq> undergun (hand dp)" using assms(3) by simp
  then have "fst (pangea_action now dp s action (le_bytes 8 (2 ^ 64 - k))) \<in> {e, fst (action_host e)}"
    unfolding pangea_action_def Let_def amt d(1) fst_conv e_def [symmetric] last prod.case
    by (simp only: if_False split: prod.split if_split) simp
  then have "table (fst (pangea_action now dp s action (le_bytes 8 (2 ^ 64 - k)))) = table d"
    using e(1) action_host_table [of e] by auto
  moreover have "slot < length (balances (table dp))"
    using money_wf_slot [OF assms(1), of s] assms(1,11) s by (auto simp: money_wf_def table_wf_def)
  ultimately show ?thesis using d(2) by simp
qed

theorem pangea_action_negative_mints_witness:
  "balances (table (fst (pangea_action 9 (upd_hand (\<lambda>h. h\<lparr>betsize := 4\<rparr>) witness_pubdata) 0 7 (le_bytes 8 (2 ^ 64 - 1000)))))
       ! nat (pangea_slot (table (upd_hand (\<lambda>h. h\<lparr>betsize := 4\<rparr>) witness_pubdata)) 0)
   = balances (table (upd_hand (\<lambda>h. h\<lparr>betsize := 4\<rparr>) witness_pubdata))
       ! nat (pangea_slot (table (upd_hand (\<lambda>h. h\<lparr>betsize := 4\<rparr>) witness_pubdata)) 0) + 1000"
  by (rule pangea_action_negative_mints) code_simp+

text \<open>
  C30. The end-of-hand barrier: at the host, the report of a player adds exactly that player
  to the set of players heard from, matching or not, and changes nothing else, until the
  report that completes the set, which clears it and starts the next hand.
\<close>

theorem pangea_gotsummary_barrier:
  assumes "myslot (table dp) = 0" "N_players dp < 64" "s < N_players dp"
    and "pangea_gotsummary disp deckprod deck dp priv data s = (dp', priv', msgs)"
  shows "if insert s (reported dp) = {..<N_players dp}
    then (dp', priv', msgs) = fst (pangea_anotherhand deckprod deck (dp\<lparr>summaries := 0, mismatches := 0\<rparr>) priv)
    else reported dp' = insert s (reported dp) \<and> priv' = priv \<and> msgs = []
      \<and> table dp' = table dp \<and> hand dp' = hand dp \<and> summary dp' = summary dp"
proof -
  define d where "d = mark_summary disp dp data s"
  have rep: "reported d = insert s (reported dp)"
    using assms(2,3) reported_or [of s "mismatches dp" "summaries dp"]
    by (simp add: d_def mark_summary_def reported_def)
  have d: "N_players d = N_players dp" "table d = table dp" "hand d = hand dp" "summary d = summary dp"
    "d\<lparr>mismatches := 0, summaries := 0\<rparr> = dp\<lparr>summaries := 0, mismatches := 0\<rparr>"
    by (simp_all add: d_def mark_summary_def)
  have full: "(mismatches d OR summaries d = push_bit (N_players d) 1 - 1) = (insert s (reported dp) = {..<N_players dp})"
  proof -
    have "(mismatches d OR summaries d = push_bit (N_players d) 1 - 1) = (reported d = {..<N_players d})"
      unfolding reported_def by (rule word_eq_mask_iff) (simp only: d assms(2))
    then show ?thesis by (simp only: rep d)
  qed
  have "pangea_gotsummary disp deckprod deck dp priv data s =
      (if insert s (reported dp) = {..<N_players dp}
       then fst (pangea_anotherhand deckprod deck (dp\<lparr>summaries := 0, mismatches := 0\<rparr>) priv) else (d, priv, []))"
    unfolding pangea_gotsummary_def d_def [symmetric] Let_def full d(2,5)
    using assms(1) by (auto simp: pangea_slotA_def split: prod.splits)
  then have res: "(dp', priv', msgs) = (if insert s (reported dp) = {..<N_players dp}
       then fst (pangea_anotherhand deckprod deck (dp\<lparr>summaries := 0, mismatches := 0\<rparr>) priv) else (d, priv, []))"
    using assms(4) by (simp only:)
  show ?thesis
  proof (cases "insert s (reported dp) = {..<N_players dp}")
    case True
    with res show ?thesis by (simp only: if_True simp_thms)
  next
    case False
    with res have "dp' = d" "priv' = priv" "msgs = []" by simp_all
    then show ?thesis using False rep d(2-4) by (simp only: if_False simp_thms)
  qed
qed

theorem pangea_gotsummary_barrier_witness:
  "reported (fst (pangea_gotsummary (\<lambda>_. []) 1 [] witness_allin witness_priv [] 2)) = {2}"
proof -
  have h: "myslot (table witness_allin) = 0" "N_players witness_allin = 3" "reported witness_allin = {}"
    by (simp_all add: witness_allin_def witness_pubdata_def witness_table_def reported_def)
  obtain d p m where r: "pangea_gotsummary (\<lambda>_. []) 1 [] witness_allin witness_priv [] 2 = (d, p, m)"
    by (metis prod_cases3)
  have "insert 2 {} \<noteq> {..<3::nat}"
  proof
    assume "insert 2 {} = {..<3::nat}"
    moreover have "0 \<in> {..<3::nat}" by simp
    ultimately have "(0::nat) \<in> insert 2 {}" by (simp only:)
    then show False by simp
  qed
  then have "reported d = {2}"
    using pangea_gotsummary_barrier [OF h(1) _ _ r] unfolding h by simp
  then show ?thesis by (simp add: r)
qed

text \<open>
  A new hand starts clean at a client: with valid card keys the bets are zero and
  nobody has folded, the dealer button has moved to the next player, the log holds exactly
  the start entry, and no balance has changed.
\<close>

lemma pangea_newhand_clean:
  assumes slot: "myslot (table dp) \<noteq> 0" and len: "length cards = 53 * 32"
    and host: "active (table dp) ! 0 = addrs (table dp) ! 0"
    and wf: "table_wf (table dp)" "0 < numactive (table dp)"
    and me: "0 \<le> pangea_ind (table dp) (myslot (table dp))"
    and r: "pangea_newhand 52 deckprod dp priv None (Some cards) = ((dp', priv', msgs), ret)"
  shows "ret = 0 \<and> bets (hand dp') = replicate 9 0 \<and> betstatus (hand dp') = replicate 9 0
    \<and> finished (hand dp') = 0 \<and> checkprod (hand dp') = deckprod
    \<and> button dp' = numhands dp mod numactive (table dp) \<and> numhands dp' = numhands dp + 1
    \<and> N_players dp' = numactive (table dp) \<and> balances (table dp') = balances (table dp)
    \<and> parse_items (summary dp') (length (summary dp')) 0 = Some [entry_item (1, le_bytes 4 (int (numhands dp)), cards)]"
proof -
  obtain d q where cl: "pangea_clearhand dp priv = (d, q)" by fastforce
  have d: "table d = table dp" "numhands d = numhands dp" using cl by (auto simp: pangea_clearhand_def)
  have e: "fst (pangea_neworder d None) = d\<lparr>N_players := numactive (table dp), M_players := numactive (table dp) div 2 + 1,
      table := (table dp)\<lparr>myind := pangea_ind (table dp) (myslot (table dp))\<rparr>\<rparr>"
    using pangea_neworder_None [of d] wf host by (simp add: d)
  have "entry_wf (1, le_bytes 4 (int (numhands dp)), cards)"
    using len by (simp add: entry_wf_def summary_size0_def summary_size1_def action_defs)
  from parse_items_entries [of "[(1, le_bytes 4 (int (numhands dp)), cards)]" "[]" "[]"] this
  have parse: "parse_items (entry_bytes (1, le_bytes 4 (int (numhands dp)), cards))
        (length (entry_bytes (1, le_bytes 4 (int (numhands dp)), cards))) 0
      = Some [entry_item (1, le_bytes 4 (int (numhands dp)), cards)]" by simp
  have "hand d = hand (fst (pangea_clearhand dp priv))" using cl by simp
  then have h: "bets (hand d) = replicate 9 0" "betstatus (hand d) = replicate 9 0" "finished (hand d) = 0"
    by (simp_all add: pangea_clearhand_def)
  show ?thesis
    using r slot len me parse h d
    by (auto simp: pangea_newhand_def Let_def cl e summary_pangea_summary action_defs)
qed

definition witness_client :: pubdata where
  "witness_client = witness_pubdata\<lparr>table := witness_table\<lparr>myslot := 2\<rparr>\<rparr>"

end
