(* ===== verification/CurveTorsion.thy ===== *)
theory CurveTorsion
  imports CurveLadder
begin

text \<open>
  Points whose doubling never ends in the neutral element. The reference ladder on a power of
  two doubles the base point again and again; a coordinate of zero would need a point of order
  1, 2, 4 or 8, and the base point is none. That the curve has no further point of two-power
  order over the field rests on two powers modulo the prime: \<open>A - 2\<close> is not a square and
  \<open>4 (A + 2)\<close> is not a fourth power, for the coefficient \<open>A = 486662\<close>. So there are draws
  whose layer keys are not zero.
\<close>

section \<open>Two powers modulo the prime\<close>

lemma pow_euler_1: "38392277960582733254582762121752785401377293720130778406545948125206979287952 mod 57896044618658097711785492504343953926634992332820282019728792003956564819949 = mpow 486660 4294967295 57896044618658097711785492504343953926634992332820282019728792003956564819949"
  by (rule mpow_steps [OF mpow_start, where M = 57896044618658097711785492504343953926634992332820282019728792003956564819968 and d = 19 and cs = "[(False, 0), (True, 0), (False, 0), (True, 0), (False, 721), (True, 464842), (False,
     51857952127350000260643364136262860461226211003994863836507919910735357219876), (True, 474946),
     (False, 4143681062877396039783207268335583988115302443295690632522134380109497887681), (True,
     429108), (False,
     35918675202184900057005847357641812591606781105014735196063586610855028677687), (True, 288296),
     (False, 39907086389589067033460131164355613709494494715272537526434994115638792728249), (True,
     338034), (False,
     29097380147141135103549507085851841481814934304142349489069339409859554063723), (True, 305812),
     (False, 4467638426044769525657509857634906652728541061663861329501422849683985580527), (True,
     395123), (False,
     57309220253512429319479386636737513839965783213796355244458091433599364929307), (True, 193762),
     (False, 16402614018570963879780171495725248789280838491977981448943495219727869779833), (True,
     303717), (False, 6059258705843197218481009396640027402674455998557494163079235726652640672493),
     (True, 152255), (False,
     4038050741201883923333355946422457556834185533439943843684404274445953049077), (True, 398894),
     (False, 111523917365060742115182639464263700007922469961248664571218943528199089502), (True,
     27585), (False, 3864166743812170522144007013947915180732070641291948171025775941493468711297),
     (True, 418962), (False,
     28153869717065875252628594598335647609476203747940405362189885408638725044028), (True, 447187),
     (False, 41289060926301177274621152421487326446853063104906882319218555629137002679873), (True,
     338714), (False,
     55650724005579786712545131955156082967003984301788621526303093018451366606255), (True, 393751),
     (False, 36538300980928531174895625711205465818349736520577819377646859724687675996292), (True,
     31308), (False, 707241129414240345794213495197418990803555562939341036368708530457399522105),
     (True, 230744), (False,
     57164907145594457886750818780133726919266137547074138021611147896552120151327), (True, 140878),
     (False, 5682085284523211294889782476969018090746439489012813470847297419316431697722), (True,
     301158), (False, 6130145402981986342139524286892851133069661436361616561667431213151871602334),
     (True, 186612), (False,
     55835968377714135615857712993037401539932986588832527673999028635639754361), (True, 417157),
     (False, 52579675855271730324376001780348631006905266359255916058717583981590791139440), (True,
     87884), (False, 23256639488578191106267115217314851687204801367995883527899494945933796556623),
     (True, 192262), (False,
     35627058922350796885404144664654525422824954191748126688725708570053393830725), (True, 407616),
     (False, 7493473179662423959461914212025204308430898234293816831735272472027247213801), (True,
     478015), (False,
     22061488507088103971237179959150746151133548491612607840378733707643286889710), (True, 215626),
     (False, 5511494906336270137839755801479082466789752674923883181203644664541757293202), (True,
     202942), (False,
     12850715182127250482091032971251434607559434504044809911129318687201499510340), (True, 134512)]"]) code_simp

lemma pow_euler_2: "38707359133618303722583137943459627733393440116493847664731578928524437185180 mod 57896044618658097711785492504343953926634992332820282019728792003956564819949 = mpow 486660 9223372036854775807 57896044618658097711785492504343953926634992332820282019728792003956564819949"
  by (rule mpow_steps [OF pow_euler_1, where M = 57896044618658097711785492504343953926634992332820282019728792003956564819968 and d = 19 and cs = "[(False, 25458855034245860569793605813007656226480997964476252881381271762940037447349), (True,
     356013), (False,
     18458309823581257191979840088222746125829713353830815353058183886736697858706), (True, 122491),
     (False, 49482562961434750431922025581063957505357087274286956626637696985307198853448), (True,
     405172), (False,
     49866237939835385366155117378021576675603491662309212795346988405764272925338), (True, 313685),
     (False, 44481542472797688172729677788450771106089204821197551252747469985443497537844), (True,
     478812), (False,
     19982903075288065378325547119423387684973462951830346596623660075125617452277), (True, 428524),
     (False, 50203469938322459151268390730882875855355746116890031692990102038461918451115), (True,
     267152), (False, 1014326254256106469422554063644318183070692397364747516852358857208225227021),
     (True, 234682), (False,
     48882155127366901426232762322772091582470151771039478022036111385982662480570), (True, 293330),
     (False, 665419562839475656677915512782482252175321289292625342377774234880535271587), (True,
     30903), (False, 143456863244126906831913479696447166163866192340840034329295757365275990257),
     (True, 454185), (False,
     54862006338135700301293912709492062843348512244715798195637315985369685476109), (True, 128423),
     (False, 30233902997597432172316021681599880709300587765407809149049146554483584765981), (True,
     400422), (False, 6013394739072431418128107548229054508315863297543992913207136332072181621839),
     (True, 404780), (False,
     28742593366402601516439518297747479886585298046491378098933500519455527982469), (True, 433741),
     (False, 4831655203186527356056266436232062481964081977447945314216327142247288073249), (True,
     327853), (False,
     41146711660616232668069966336891082881547364339548993808289443961226862507905), (True, 238034),
     (False, 26957738831171868104669553156303046378487232273252025713432317872793263983637), (True,
     100463), (False,
     51282287301789348304752766832636772418067453856690094884970035396366161175626), (True, 150167),
     (False, 35585640671071840830024389916276928098942226785904783391634010905239046711572), (True,
     178003), (False,
     26559224428198318309627319684791816537832896012752619360912019445574073749918), (True, 350415),
     (False, 24306328336159409870216657378343494352583748008505371564547549337461720339351), (True,
     471867), (False, 7021965288044204955456992868378824368355456019914206245124418730639532647820),
     (True, 349752), (False,
     38919356805025593679044173759708705504467451439926223056231717214325741828329), (True, 109407),
     (False, 31950277618067733933098412716417589722420580465876482269218665656737174567908), (True,
     339506), (False, 1093547274594780417776065406822406903405885036218938983984340897819401075883),
     (True, 6933), (False,
     42826596350859408406279209202827334227777334956428951506117914898627382141045), (True, 94089),
     (False, 28481530299151430885550848370336166169406562863447588112006902066220270729846), (True,
     216871), (False, 42043755115223839239770895824143775403869874112010060530818849171545728430),
     (True, 102684), (False,
     955421135573114924886379835703025585698959742771498619821638310329934161286), (True, 25324),
     (False, 108524654224555318041200573987614250692334365614741625489906635187673430033), (True,
     150640)]"]) code_simp

lemma pow_euler_3: "25492228625546874669287577867400454280741053778354554644900754387235641422279 mod 57896044618658097711785492504343953926634992332820282019728792003956564819949 = mpow 486660 19807040628566084398385987583 57896044618658097711785492504343953926634992332820282019728792003956564819949"
  by (rule mpow_steps [OF pow_euler_2, where M = 57896044618658097711785492504343953926634992332820282019728792003956564819968 and d = 19 and cs = "[(False, 25878445772374262512673858302699960157899933052798120145963515605640575910440), (True,
     7769), (False, 1968250859076392620308915825913809029593647471872720511682647410265095994964),
     (True, 361209), (False,
     8926651935554648624132723732677380971816658167323391229910734032684206575), (True, 372600),
     (False, 229153969690120205716482081498616652433175116208286892111916190383880595385), (True,
     130385), (False, 3365885872537606983892535882622931675970362567343634588079051220370857280489),
     (True, 193776), (False,
     32567420685903647805062110677386286026002260447335837112659382841963573126202), (True, 175046),
     (False, 46209962133595470728565015711762765611037616768691869826142973518764694959195), (True,
     412178), (False,
     30494017481867733338958117920383356609367034675825529599899735112376242448246), (True, 19866),
     (False, 6948088258462281710661151443517064360845618466994322345239573708834029401384), (True,
     137516), (False,
     22528731605642963771223912441797382215137103458510830063284828861082151384303), (True, 300801),
     (False, 17711672517013657201726961746884581271336855178266268844490381958336980092723), (True,
     322287), (False,
     31637662687020502870605858525423800392018370875851841150292338145586724550757), (True, 435639),
     (False, 28151860635690805717597937754484180652728819817035469544228783321051381685348), (True,
     427107), (False,
     48224945529892180006321958442218250917555719024300534282641243488153840141695), (True, 6509),
     (False, 28023890981687812719225140545999224354701522730785439227672328971229021491192), (True,
     344889), (False,
     15207799219955769744673893618027162018949012244445917695582372246938465750931), (True, 123746),
     (False, 89685588572143210785260550660349823994816923462618479439280631102388377056), (True,
     33640), (False, 575489164542036998341904784623708195530019233089974066262109050844118345532),
     (True, 59568), (False,
     33248755860183602601964292225730884201144732820083539387737953660497549307089), (True, 152453),
     (False, 4241984875480905059060868816810169002654837181490692238416015876454283562523), (True,
     79464), (False, 1142154332855798787686401192567481112384195426294297343782083264507502567425),
     (True, 93656), (False,
     2771097037644757461993095949888138232174575797219739992264904907576683392390), (True, 407172),
     (False, 33130918033179962606764227197339374394573912936616673100450227666035453975719), (True,
     119893), (False,
     12836849700309595202148318809773282178189594188714720833149240713889769389698), (True, 451106),
     (False, 1954645178816997399950138644944655327052253260172631822708163944169225233854), (True,
     435166), (False,
     25903192781573530442023167968726931767079891090247310595606173073425431245084), (True, 341341),
     (False, 2660403586627236974002554464163857681885651814429673833500680474005532396973), (True,
     137306), (False, 177390418279367382093910861976980493064575231321255636728162123695541267877),
     (True, 254039), (False,
     145376086564915861217082903622820202236553740336320434402473691455819568379), (True, 42706),
     (False, 69432013014434610357151618233999984710846734457203243744945577375816393304), (True,
     89616), (False, 8272442950829764983703758134890941252287068283383088765114754936740171963840),
     (True, 73469)]"]) code_simp

lemma pow_euler_4: "53659380511450533865744539283380816435573527850591690137993678646620553374793 mod 57896044618658097711785492504343953926634992332820282019728792003956564819949 = mpow 486660 42535295865117307932921825928971026431 57896044618658097711785492504343953926634992332820282019728792003956564819949"
  by (rule mpow_steps [OF pow_euler_3, where M = 57896044618658097711785492504343953926634992332820282019728792003956564819968 and d = 19 and cs = "[(False, 11224492529282800442746216543455262392882141743712719377124913751865645701460), (True,
     107509), (False,
     43622825944170355427424735750285648086580693057344778835009458486819994193706), (True, 252311),
     (False, 18803027599434617122596707510090924410564945492767565887110088546519013714787), (True,
     241673), (False, 4217756334748799093464518648158392653108307258162640601789854631169950898190),
     (True, 382640), (False,
     8262192848006090793107104514613948984210475688523790490452186477363803483789), (True, 347314),
     (False, 50064931418177593910613964498964193573488421936915526698870695552855001954485), (True,
     289709), (False,
     25518972840012877206399537133340740985246993538026466076881266058495316782565), (True, 245077),
     (False, 56582804743254737555618462420137594128627995735110451929084051519199434631791), (True,
     200736), (False,
     40614022096456516529583017589359789848322511529814469878408713493943376615207), (True, 43351),
     (False, 10989358916897332691649134216838766974359696291289084807615629672060573174567), (True,
     16044), (False, 293986081235794286495893000086553680536767976345102861874196042264002374564),
     (True, 232742), (False,
     1102724207801995927660408319719372845071757663862534896281452085768258058868), (True, 473213),
     (False, 67162022408403738740111552352483692630089793519233964025119140089910687327), (True,
     348047), (False, 810681989493537357118915918750427584476309753246375888543689042767788553756),
     (True, 159349), (False,
     21035120436562049364624999726013614470042433204383946755992476128036751120879), (True, 458861),
     (False, 19567121824891073471859884646974693397001025454539119250470605762011062905163), (True,
     86916), (False, 19605330840867341797995404074803347807606295677472098210487863540067401880373),
     (True, 214156), (False,
     54473078609485341540099966982533323948588988750592613180819330745214263266385), (True, 284589),
     (False, 32106551892245171508829367265725289577367518377310749601414890066313136329354), (True,
     261490), (False,
     33517058821109201812573549351510443988195005825609297984906933693502485639439), (True, 36452),
     (False, 430904425979045404595483790348690225904492952878833745695237405122668065971), (True,
     279357), (False, 4603818087969619371192130370358255582487113843854713233190087156450619687699),
     (True, 42100), (False,
     12708479115867840344891048341187202735776310720887395252926479765478413734812), (True, 246548),
     (False, 11372531137528992477329465966872009572478690299613765369632994341328752744568), (True,
     429657), (False,
     24297873153849681439289175707042432866225582654326774906696949661006803300269), (True, 25378),
     (False, 27738043825910254539947596264158500886523219981100993974475979578027967680539), (True,
     359271), (False,
     17919688659983086239373942103393076219612309012300196881985043469292616172340), (True, 156617),
     (False, 364111099502644918196457727941206503490085149927869004514461805243151596699), (True,
     381766), (False,
     22132797853990712566845980789033598446743120437976768376466105430079634848863), (True, 161555),
     (False, 21366720869200379021453757954229104954103836748623386580126245079126875858018), (True,
     236525), (False,
     53510059255587229906064579335108315691982990161389844552249562093013190744810), (True, 36543)]"]) code_simp

lemma pow_euler_5: "19658095460876287862265867634223138217633237594684606435711606703234460751032 mod 57896044618658097711785492504343953926634992332820282019728792003956564819949 = mpow 486660 91343852333181432387730302044767688728495783935 57896044618658097711785492504343953926634992332820282019728792003956564819949"
  by (rule mpow_steps [OF pow_euler_4, where M = 57896044618658097711785492504343953926634992332820282019728792003956564819968 and d = 19 and cs = "[(False, 49732743157806655691257206419146089620715102011794534562212428077402525080766), (True,
     274041), (False,
     31459181046115487348306708297504853020214623503816807818988206621512270368789), (True, 401061),
     (False, 21638569867906143064746769760511199410245528419967487269357502538040802147640), (True,
     76774), (False, 16754513070658365526607575194643322638492249005700665433370934624970734928220),
     (True, 98141), (False,
     50215514656592573403291750052613289047902004558570632043517607751475912190570), (True, 100058),
     (False, 43522310846571441407518341264262968274290743990796182717113276249882315312406), (True,
     195599), (False,
     16537167584763581986079628221912910090156636723394441150497639590495101237012), (True, 264931),
     (False, 49298480873106756083337778620529610517951290962931900754370299358855496756913), (True,
     6485), (False, 7299692630002669944028636192901706164043433886318886481726889543807732323456),
     (True, 37465), (False,
     28574575968117953956300289635070608829790346266122600331865157955440418178287), (True, 484101),
     (False, 141786076788667699483313235558618221937546655971713937914418099349410474893), (True,
     314963), (False,
     28054778834412121521103151583220855799213518886701014687287177375636961097374), (True, 377219),
     (False, 20608208915267788759428009247426379653850974879312938320432459761486548048490), (True,
     221353), (False,
     24854003803180327372811386396067883449865094480739437830938074853985234062189), (True, 222605),
     (False, 22909049418273694431252971108490404991849805151191761243726092653697898254821), (True,
     248326), (False,
     18647888679820116244266121553809537942968142799601645577099804567177049312171), (True, 86878),
     (False, 34129709090540895129763391914548378772522646695108964560402669029651415049082), (True,
     478506), (False,
     25588651514113470814898023351295643258331432549764789504068016861285230839444), (True, 386909),
     (False, 8707591742495107022176642823536336933182490472786022176609817860654603115045), (True,
     393954), (False,
     35762128557679738934989329460757501928238777573053828042711755966714697493305), (True, 164750),
     (False, 53649143663816933103527921151227070916093515051715940660744493027250738336095), (True,
     319430), (False, 4897454136849171957456868421599118046790913974441853257820804795356435273039),
     (True, 60782), (False,
     1660326888355663761304009675923766804542343575566471116944618775414831620992), (True, 167),
     (False, 25846589143653515330549976685048038350549221397851419897565381718195171454), (True,
     420883), (False,
     47906013795465859865199333134532339243058633701739477764113245003809915007122), (True, 277957),
     (False, 14914606220557339596730291361052350783110959638656157909086855522783450499390), (True,
     360853), (False, 236166519112891488015357925576926673766490320682986741940441166467850970628),
     (True, 354912), (False,
     57292073821212528788416331185085076759212239497388667308204983563596039078669), (True, 167113),
     (False, 1640296838534549708421579727025552141485297284657447545844206906567307918878), (True,
     170955), (False, 2481009720122422098675589914131297311874542879089739578082117329888252215753),
     (True, 178944), (False,
     16168925736126625074522647584191842353088768580577035589710070958968964743485), (True, 333172)]"]) code_simp

lemma pow_euler_6: "8467060857151481379730191999181124359555117603969866983612434412392582509574 mod 57896044618658097711785492504343953926634992332820282019728792003956564819949 = mpow 486660 196159429230833773869868419475239575503198607639501078527 57896044618658097711785492504343953926634992332820282019728792003956564819949"
  by (rule mpow_steps [OF pow_euler_5, where M = 57896044618658097711785492504343953926634992332820282019728792003956564819968 and d = 19 and cs = "[(False, 6674734339699383660212433158742569000902820702223932833648296417129499264746), (True,
     431332), (False, 91891082073630371970128099017944360588494269162866209826124739124192911858),
     (True, 329276), (False,
     854212555775082071994072872339228773999726053829214064839975291707377752040), (True, 468987),
     (False, 21279597549993875720852483774228142818218649057568927452306193906471087397426), (True,
     241295), (False,
     47362447888486324193495847306625759252305044314916811867555108213768218231522), (True, 219098),
     (False, 9355830575086422630749900456763543211604981452950465452270990928937823231737), (True,
     4295), (False, 1143021777197519571493485341084737363162531855283194822880026555175109539836),
     (True, 248952), (False,
     4267990092236152026248246953899193330931114380608427787981566028093676976844), (True, 227227),
     (False, 4975724890362878305453416862975848189340986364247613304475114200634662118836), (True,
     128773), (False,
     35394673041749581377512610815578127572421311875816514367625253411292399456487), (True, 377561),
     (False, 54583022683274235211917142710700648582034115401843567672021065761414953331833), (True,
     453821), (False, 2777947208259010433943796009216451559204013916174898090960791170462632077942),
     (True, 312880), (False,
     3943098512732255317204566524051163559951015967108002291127580519827620742459), (True, 299347),
     (False, 14614353848695528313630553805224599435732653323422952291881188575666117385122), (True,
     461441), (False, 977666296857277807084011363026863618497240233958994071103668523680281945468),
     (True, 332359), (False,
     35133493530476245736283113727370373423387071184410572749167556768104235785155), (True, 422090),
     (False, 36875734174414182802962916502687881046337464964228611845550079129066361786448), (True,
     364022), (False, 2426421440089977876488821702711521199757411913786680327461958973584014520713),
     (True, 115829), (False,
     27784343165430469463145426907785154023812939568352295376550739100713415202185), (True, 75970),
     (False, 38019839477147036766803699683861581729072756485597710560271791851560621017882), (True,
     5135), (False, 50820712157584223906046473781091120034044247125801569744992872861345076036528),
     (True, 483448), (False,
     36993842636855011065053622240906058083028367995384187225580765588015225105268), (True, 384246),
     (False, 6334397648803997020911502681169488649596090027610583887613554869190327464708), (True,
     132223), (False,
     51738197130521866467930781139307705805137107773551855202996346534077153230418), (True, 93619),
     (False, 1075436412539638772133716894785059365496893095462830515198099476772414782206), (True,
     251023), (False,
     18962950189206220929907732325595822965335423010146131638757388007869480810081), (True, 457085),
     (False, 1850631344678772987727191233014801530866261413180891120749539676546109359267), (True,
     89060), (False, 2049575877393277016771558500759308636495646044774805739803042510716149124442),
     (True, 31377), (False,
     22407243445494819884594509518957371432547657138343816321704939549481296604564), (True, 149033),
     (False, 6049918681983446683631598559931411797933337815872901899544826558823937102348), (True,
     349302), (False,
     11581901371380935793704188899736340846178662922133199953625006104931383549145), (True, 414734)]"]) code_simp

lemma pow_euler_7: "56822860495106679292900017878852443989836818910595284958040654640039035239084 mod 57896044618658097711785492504343953926634992332820282019728792003956564819949 = mpow 486660 421249166674228746791672110734681729275580381602196445017243910143 57896044618658097711785492504343953926634992332820282019728792003956564819949"
  by (rule mpow_steps [OF pow_euler_6, where M = 57896044618658097711785492504343953926634992332820282019728792003956564819968 and d = 19 and cs = "[(False, 1238273184824839596977113639950046559035869284050554113700456794032124896507), (True,
     396760), (False,
     22511768067567110595681272735445714528351131027214407806276942423994898753968), (True, 265067),
     (False, 6690357382536300815749050507521882668110204510130765966467465872612708972918), (True,
     165567), (False,
     47029267189054163115670727834576904110159226870413778106935204031788217867874), (True, 255488),
     (False, 6523490487859863856429225045344208104105027088651497968811852747154703635213), (True,
     59361), (False, 33533989220487577527893974698330514265749439837762991970713931241947367353722),
     (True, 436237), (False,
     20021391331314362224888751239245752620622318630760189900778692693165714257568), (True, 100210),
     (False, 24535934706426479495753482498150047728605760109214417708074051021971823143099), (True,
     12177), (False, 34258350783310510016522438091318163629742744524475255364091831389336780270868),
     (True, 479775), (False,
     4199688837366684638538330968641793918987289061055917753284246737698823339532), (True, 261254),
     (False, 38621523400623058929727779531540773745662102176514395367315801579615400200527), (True,
     58641), (False, 26537938017833232580453089313883186995907295417894781570003788248541467282597),
     (True, 282895), (False,
     45966121703829836088854694652483243399824521112944095408420373993961008054616), (True, 204364),
     (False, 54770973572455723956532069041978569632364655945567413958523211149867099036967), (True,
     55618), (False, 14810912948241398860791364058146031102094132777135536768920125041006368492706),
     (True, 52516), (False,
     23036633272250051485818094490572892444060471444238936959042497378382429331878), (True, 231784),
     (False, 4926904823553708544213300028604028598225694050158836972715984193045928481208), (True,
     447784), (False, 8550841544847400449907112984469556336915790955766257147902787598520802156208),
     (True, 423518), (False,
     38753408136382830855493466198428662618540695892753755913497424589113578982327), (True, 130801),
     (False, 23775439613112410071563525979844745120113328851895259789003420795269430637106), (True,
     8467), (False, 2241372689766215785066415583812788568188020823927010099016225883758325618528),
     (True, 336024), (False,
     26497510084329875838778804712102235027218519093670223610587848297365889517798), (True, 251522),
     (False, 12770928811775852969630970877030423788677644055525761366055269942054892821132), (True,
     353937), (False,
     30452681245367592590672553090044365849367038948246719163794747046179846506166), (True, 446558),
     (False, 7188096921696165894598125255860812189941556594230822513912856783976355386109), (True,
     308619), (False, 9602246866843892674827206860234219629778783049750994128241642279948860771591),
     (True, 174752), (False,
     1933116567737525836414460439677236278318310451450256160764415237262117219613), (True, 124145),
     (False, 2033106645213843298064930339916657953327155417684217628002939939935495696379), (True,
     76339), (False, 4330803754121773567283395037465141938597477878919798295462508268037472362261),
     (True, 225937), (False,
     1190940485230861748802159945528998071615206172575177848869511340597270193257), (True, 401082),
     (False, 18878263058849542916147192341706311563819601783938537738037016475811372735138), (True,
     195564)]"]) code_simp

lemma pow_euler_8: "15391206905158619374658342232327927301115293343523291555557993902377912848637 mod 57896044618658097711785492504343953926634992332820282019728792003956564819949 = mpow 486660 904625697166532776746648320380374280103671755200316906558262375061821325311 57896044618658097711785492504343953926634992332820282019728792003956564819949"
  by (rule mpow_steps [OF pow_euler_7, where M = 57896044618658097711785492504343953926634992332820282019728792003956564819968 and d = 19 and cs = "[(False, 55769569339557286718334487543526765787527836141295182990362919018691353273493), (True,
     132585), (False, 3032415109928512493166721659945705456626004582955156323131945460737010521098),
     (True, 14913), (False,
     4493095218909756642353512754148107327233015932774096998812464787277582508073), (True, 173112),
     (False, 7496116107791381530017502916618471903971094820783284861597971806120961853020), (True,
     282187), (False, 1516051870975906505598270393456864960910528338254551144797663127776863813816),
     (True, 326231), (False,
     9901421621206108997783743059171237021501723522920565986489958148000451150266), (True, 411733),
     (False, 26139364306942770319806560839263567008408672508911347938460687628128019015775), (True,
     315423), (False, 858976171847507835661677759477478448940214452131486120273301184221635629941),
     (True, 373126), (False,
     54082667207214288401002971710278357581537207748048058059051083171747473470315), (True, 252269),
     (False, 28256904914791724613573663786520471341828838997054865721015483200098025086786), (True,
     384866), (False,
     32155458212568579171226718490022035358325995066754755323838943326733835259212), (True, 98155),
     (False, 143352483707026350609851139540207112961392328441696722943855943681638912660), (True,
     463337), (False,
     24491072964663035289610334298937627188185436920820314060242880585372632384678), (True, 366296),
     (False, 57318091215931825637477996885189199032135615024420812844941392191269824102253), (True,
     364029), (False,
     54326607784355143891181060602542973328403253420506259049761517540583443145595), (True, 47319),
     (False, 7375329413255402050509278263808513613577041701138312351926069002970383294785), (True,
     66504), (False, 45373387094997804234414937553698476983914417689916426585152293973014672956481),
     (True, 2960), (False,
     1030709894534034101217193261026991120836811530711099386162961189080283893978), (True, 233319),
     (False, 56589990915342243179053874174277747325391759791033544352079964222677060884768), (True,
     221344), (False,
     14652670620791474354705168538251877480221020364374911871032176524321551164161), (True, 315875),
     (False, 44008775776100016368564074994394442162211967056994557021125686862817445496142), (True,
     131287), (False,
     16062792888523099369850927994911137664972607479571589454470364976674131080990), (True, 6651),
     (False, 5061876237422632888024842032224094450868938736439574426985061372208340556398), (True,
     402406), (False,
     48768560820635273850496598817925121322377110717821154129545421935871583616116), (True, 374362),
     (False, 23516143333977547463518808627407308942007916848271277159210557338287641899959), (True,
     279064), (False, 2492239386438338926008091898002908542893646407992215460955684834970989242905),
     (True, 45908), (False,
     47911086055576268640585709038296218764805392982481930642945450446061357420122), (True, 452303),
     (False, 1577139776098819175633810046485014295591311372041735693581677104011233653898), (True,
     199516), (False,
     42046198926738215719069206156931553914877500865032390304086472564912718133297), (True, 231618),
     (False, 48602383001956473106740424905330547624492725139261409691858215071112802607649), (True,
     311594), (False,
     24258123252267954351558380642077636377342717645650806671425080550253073826695), (True, 227427)]"]) code_simp

lemma pow_euler: "57896044618658097711785492504343953926634992332820282019728792003956564819948 mod 57896044618658097711785492504343953926634992332820282019728792003956564819949 = mpow 486660 28948022309329048855892746252171976963317496166410141009864396001978282409974 57896044618658097711785492504343953926634992332820282019728792003956564819949"
  by (rule mpow_steps [OF pow_euler_8, where M = 57896044618658097711785492504343953926634992332820282019728792003956564819968 and d = 19 and cs = "[(False, 4091630983734946127199612804555179097447127682863771786238785127264489828982), (True,
     75630), (False, 32246514473172239576856817621493223564683517051409063527351434322098251778869),
     (False, 812546449943360605720130323350448230449712104689199841091431507463039195448), (True,
     257388), (False, 5532949304682220474482550534361144314833656861256105201449436747567816231685),
     (True, 169307), (False,
     25224129054323719816679133738212428264722732144896724537772123696950910136689)]"]) code_simp

lemma pow_quartic_1: "20332739429234095670319478572242299478658444550637773902453586221314922982168 mod 57896044618658097711785492504343953926634992332820282019728792003956564819949 = mpow 1946656 4294967295 57896044618658097711785492504343953926634992332820282019728792003956564819949"
  by (rule mpow_steps [OF mpow_start, where M = 57896044618658097711785492504343953926634992332820282019728792003956564819968 and d = 19 and cs = "[(False, 0), (True, 0), (False, 0), (True, 0), (False, 193820666805), (True, 1915367), (False,
     10491433722735289399405740672332873231089855349609091050519064588666099003631), (True, 83088),
     (False, 504302134539617009511493975010454708419580231297252116375278722545554440554), (True,
     443896), (False,
     14915588311556401844503736121821294405886842156302965835499093654882159310776), (True,
     1794906), (False,
     9349018175153608249080137957187817617865779877009339455367686025684993551811), (True, 1220086),
     (False, 35854233663482498400169272924268140452527562775842336448596111170698397729044), (True,
     1260615), (False,
     28178467562001731805724205111708918868689859319601395652033153403781984306485), (True, 908598),
     (False, 33290423045182212783368158207973359651963775986247161495427082724021524390731), (True,
     423569), (False,
     28877851324008873570567202544241416407768806828803590984054817469856519596055), (True,
     1304966), (False,
     33252067456725940961001988465646308739539019547351335634431370239414571923335), (True, 176821),
     (False, 1814921336682245128382806627999426283923579457210634632231093421083452388499), (True,
     1584805), (False, 715960820329520334002310301138898756572123701572848837242932455922634914388),
     (True, 1291412), (False,
     15942266031991018767970054419975947215994149283418858388348875973275657172300), (True,
     1112541), (False,
     14335817572137199059838869466194787318795114519767280456743942333462433218194), (True,
     1620835), (False, 853038581494572120166987593569052448488234902728860042580249948491185233427),
     (True, 1707161), (False,
     7235405576879678857265620500497802819053117524194475757575183757310146516), (True, 1891794),
     (False, 10081408044140698566802123958711047085268330106409013804515350950870518050652), (True,
     432999), (False,
     42575040704050343014971634574220900349950652948029445970425696056288160247580), (True, 880230),
     (False, 31279241321162083868458952751399363118824105729230321428652690355685205777678), (True,
     1827328), (False,
     9535425052069425190304968387307151345804426937476704597999374802693589147950), (True, 602620),
     (False, 26803337085718620054476961656744273864156165300187005707504951892531661690741), (True,
     1363074), (False,
     51355194994476822464787022822820764047178463117468191088056419022950296709497), (True,
     1000713), (False,
     14374088915908854602340660374819939590741588582458930338857792816579451925108), (True,
     1891379), (False,
     54291230728237417550688695985995233706504037415722061361670266051453926873093), (True, 151442),
     (False, 19775023673132767217234235296843364979568629307451633199213503195390706925192), (True,
     1788355), (False,
     2375889729226195507112975844434325635102630925166920397411332622089323200627), (True, 672609),
     (False, 2725699767308932799840848118400728160045623208946268692012031710162022885046), (True,
     778956), (False,
     33152548210943890964945807465683579063285608617143981670657646357249518456199), (True,
     1428911), (False,
     10273279936931311943742854282182651011347032938045422149805265969286237878994), (True,
     1763048)]"]) code_simp

lemma pow_quartic_2: "55875513773795144024723670672557382493150281869439423870208145953510076929290 mod 57896044618658097711785492504343953926634992332820282019728792003956564819949 = mpow 1946656 9223372036854775807 57896044618658097711785492504343953926634992332820282019728792003956564819949"
  by (rule mpow_steps [OF pow_quartic_1, where M = 57896044618658097711785492504343953926634992332820282019728792003956564819968 and d = 19 and cs = "[(False, 7140734663657805968401506944877526823491692211718047961376644077071946560039), (True,
     1330396), (False,
     6080750860544504902184629337142923921775949335109451936423628878693065985944), (True, 657936),
     (False, 49928305050176532303371395419596629183685575522102303557915854110636172863342), (True,
     1441974), (False,
     7671831003098504665754888529160994669681372409731791512449462099602223685319), (True, 515335),
     (False, 2580904204023669249447051336633852294686399161985733962412488806591018125837), (True,
     1541395), (False,
     2823556721046893300582323454628728079087102505866357893167440895915621962868), (True, 942842),
     (False, 8301167504665390401532862525024179305993356218670350315263344851871643624259), (True,
     552407), (False, 516668153695532626001821286966838586303621854365888949154929895935935362831),
     (True, 910728), (False,
     2902123204725442070716761478340550896947325232385988784246755258931459042049), (True, 251405),
     (False, 2432209438063075163866316365581956331046557693727818830279804895123675356174), (True,
     672060), (False, 3414588343086299141301871862214065945901737269626645898394202788277128794978),
     (True, 1084100), (False,
     5932839153240495863816855147830727405863609881442068228458584281355469840778), (True, 1541735),
     (False, 18570633981061328127577136397402249099461795219786980107886276209256812922034), (True,
     1943448), (False,
     37000200405386059324868502655025911475657909390245703022248444667898319097979), (True,
     1692679), (False,
     37033501778051908937250753192542509502135846430533818227597534504854279699967), (True,
     1230474), (False,
     3462630373449808338576292963073819530296472589547254850277063195183145368680), (True, 1901399),
     (False, 49796830645243691949591469072156031614155171544737319858923693634204857442515), (True,
     429258), (False,
     49028054990766980862457144686306873607712098403450195733774881198154806702597), (True, 740122),
     (False, 21568739363641740101904972591634854342715646761083675181684819086609757782193), (True,
     1748191), (False,
     40247581187405174697516933999200708224326933745255155813504096507610306717120), (True,
     1124976), (False,
     1040687930269499930177871308831383983255092618891258678833165374721180001810), (True, 571792),
     (False, 2103908483113096787574271987296133525385614865821952364477648544145068504254), (True,
     1606920), (False,
     23467091123905802011024241114461202837063949529990092372537540527949286043229), (True, 433863),
     (False, 29615806191895532523005265057003437492687521031859983387538519757059889284591), (True,
     957887), (False, 2876799241358306003618973637614973021513659911279394100469497375139961092861),
     (True, 1408707), (False,
     606770427750896576091604562263487175746290135121051122556869805545344736539), (True, 1872002),
     (False, 47131019379883394052088279827240447393685175610456476378507350287863327338401), (True,
     239859), (False, 555058233301017810797489089616343002380398916560960777778406861562792191566),
     (True, 687679), (False,
     4461004859694950310869855992070822924704046505045545914937751071975345886357), (True, 500790),
     (False, 7931269209688448726934801951728264973640309419185873475898780613932281042130), (True,
     1778402), (False,
     25354567630112756786457011526006392286155935886962514445906791107858583432561), (True, 381038)]"]) code_simp

lemma pow_quartic_3: "45217617525785400338584895074827455390045568283862755840666289229110785837592 mod 57896044618658097711785492504343953926634992332820282019728792003956564819949 = mpow 1946656 19807040628566084398385987583 57896044618658097711785492504343953926634992332820282019728792003956564819949"
  by (rule mpow_steps [OF pow_quartic_2, where M = 57896044618658097711785492504343953926634992332820282019728792003956564819968 and d = 19 and cs = "[(False, 53925498020626846866046762780103537747113860395186215450226240329119539658287), (True,
     159514), (False,
     21542153372639640765865955536537567392184593096000517229044561692874540046317), (True, 942267),
     (False, 9505161120074475294301561968515322222125737253686885589502661343991106041303), (True,
     60261), (False, 8407706889171845196399235155870002889348371008770175648334779361928794149155),
     (True, 785829), (False,
     22994975103112770086905428506215688358126827958210202667946758713322765806), (True, 30751),
     (False, 21113105534669711089618553514316859198084990555740411367361897188902527562387), (True,
     766299), (False, 2583078156216763789298286931870237823636187552479306527297330836510888626500),
     (True, 1056450), (False,
     46377612900370868997310880858635604562858430985610763973186032394051021996419), (True,
     1592864), (False,
     45183091758595485692027800419757644454042153298302636568693901403982271157891), (True, 567742),
     (False, 32545444547370092449360668920995958981294963451033421794938453052828107920173), (True,
     670500), (False, 795062201927434180095532291932899282872314130307995103833239556735269041120),
     (True, 1839368), (False,
     6717833533576515931798986159568878739783207485516994216404451010672558872313), (True, 931175),
     (False, 11708553236007109352106390851506952765388700525284907359260869962168838443790), (True,
     1388465), (False, 541642335667324853848122292213962637471023972617095304918289159836965307922),
     (True, 235620), (False,
     3284211930535234495826210124153745084188479136710042349579332199056112396213), (True, 1289561),
     (False, 40674614199118424847131044965159049488857988635180868611785524569460418041203), (True,
     1539476), (False,
     32504021920912048270522051605276665589121120300713802400932280418893551924341), (True,
     1466565), (False,
     38862419078281456368032867588100307819827210750029744201504407568794020643454), (True, 4526),
     (False, 47613365702874084039371556666500625191459774678598444069820658910428233317520), (True,
     435414), (False,
     16491244276414974852744644812949404116146407181236587315074866120587796507832), (True, 772426),
     (False, 4079549109428871840328310316486316577117939174819181964670688826387163991827), (True,
     1122794), (False,
     26028407469696975119276539828507075982100329048015284755926753942017069531834), (True, 233951),
     (False, 35241691686524172647250414421245699218482079830192444074828140817522244516486), (True,
     1868418), (False,
     1008838860143708212072724600914714654004651530608952734233350642896733757859), (True, 1733883),
     (False, 33890159688161676595037390966570173206027927789703449917416651355271966347775), (True,
     960770), (False,
     28306449081178229706223714789295363718588092176032169357912006487824965305949), (True,
     1013635), (False, 26491916892093177446482635031698179212939063737515736317567202136001177911),
     (True, 1675179), (False,
     1559676673932176369585453219436954418195832384012990918298192875582597662389), (True, 1213061),
     (False, 10160938691882471380796599987255898442906405623609790029098578049076682975), (True,
     843159), (False, 3393736399504119096084752201523128230432406008617744360192378128897535740596),
     (True, 448748), (False,
     51457667590707911969286588985573853506068170613853664761104949654604680019788), (True,
     1331464)]"]) code_simp

lemma pow_quartic_4: "6454376023836169620283329077805947277828546276565912817476858213064947223069 mod 57896044618658097711785492504343953926634992332820282019728792003956564819949 = mpow 1946656 42535295865117307932921825928971026431 57896044618658097711785492504343953926634992332820282019728792003956564819949"
  by (rule mpow_steps [OF pow_quartic_3, where M = 57896044618658097711785492504343953926634992332820282019728792003956564819968 and d = 19 and cs = "[(False, 35315589314875117974253871507896630658942876008924354812018565288406406326473), (True,
     1771605), (False,
     9782817746882091056584888398915999656732705645981033909762466688920877660271), (True, 1177746),
     (False, 14247438183810732912966051008634067883386421001023596621698798949298346598589), (True,
     225200), (False, 2989161025572507033342267667675048630375042708036526807725259167944489223498),
     (True, 1496436), (False,
     15190719569815364579800542365026608803502323307948756343409129261757762891380), (True, 438283),
     (False, 923539719384312520030831129283391867231305412468459601307556444365374970716), (True,
     616680), (False,
     42341455443153339647088702998002900618203835444875222437304920212087737613417), (True,
     1681918), (False,
     12134893369268581467432806760332068275239918838992057298538424369665413010113), (True, 941893),
     (False, 19908360392331055147836668178529137821470523409596523637526647472659968050976), (True,
     1309248), (False,
     19840079953525595155446075057757075725800885213839473459698068530873415645401), (True,
     1415139), (False, 234199584685091492034370966479549398337449138347039266436526042618604867511),
     (True, 295520), (False,
     15576329555021034393182695250790179777852649414927391171072183944415559307363), (True, 464647),
     (False, 44997445083859052183055246988105481800447736555023454121668495128175786962226), (True,
     664889), (False, 2944190836010978290550517777198893460817938450070345796803986994517167086884),
     (True, 585485), (False,
     13153621106717620833628407220853828484391635966168121580237459216470637871170), (True,
     1112674), (False,
     49608928794773309940746776327652644433028548522078035305405006348502767161521), (True,
     1883988), (False,
     12408958610156947515396879686760544559931747547903213174917778682913844101667), (True, 181384),
     (False, 27881420667454937895222138586682104690375740423417360086647859601508785997093), (True,
     1386626), (False,
     31223787777255165842725814612775343889226969477275990858677263667644599845341), (True,
     1876580), (False,
     42796167283744788882399461457004148636426192916103496476461152152233374451068), (True, 12763),
     (False, 3464442688091527693738375992843235976243556811488292815963148343712685619541), (True,
     7478), (False, 13138014392414227009982702061378508731328083610120045494449647201932130345867),
     (True, 1936648), (False,
     44151746492366389594750730365908933425854400891658014737381172805025037077657), (True,
     1280065), (False,
     33357246231650943232533023508713520484523079696297041576306201077610370693418), (True,
     1598405), (False,
     11311822534412924791966912549965173513900724594356838302697440494209615906487), (True, 609563),
     (False, 30838131289388067578116082817496840242605034959418788677663470207049010733247), (True,
     1465148), (False,
     47956487139172018501913597708501485733188388815607323181563612315245120340832), (True, 79820),
     (False, 2636036500012211071353856333547537578020226593065518615424659962997239232035), (True,
     299277), (False,
     37632379852445040176761401300551524365657438675852814776966157620655044183437), (True, 332778),
     (False, 6861721612336828494591636633349205489494385199693771831070085173314997906360), (True,
     356737), (False, 5893610777908297613817387560954180990586763380434740623946515787044743358216),
     (True, 742319)]"]) code_simp

lemma pow_quartic_5: "47913218820625395207641435971995801549971595162926722944693293602464942138091 mod 57896044618658097711785492504343953926634992332820282019728792003956564819949 = mpow 1946656 91343852333181432387730302044767688728495783935 57896044618658097711785492504343953926634992332820282019728792003956564819949"
  by (rule mpow_steps [OF pow_quartic_4, where M = 57896044618658097711785492504343953926634992332820282019728792003956564819968 and d = 19 and cs = "[(False, 719547771034531264093901635993457752214538581396024432214588692076574326325), (True,
     699740), (False,
     20267712869631831640488401945790411543613502923352026111909397671942227200442), (True,
     1710854), (False,
     3616080994345402943556054494967258948436955552530273671803826800430569262119), (True, 1941778),
     (False, 3337781451055629655446880773419194156411406480395938373777720376579775300889), (True,
     1559523), (False,
     36626958877513641845166138017502941024643296387231112568082400468345612691293), (True, 908803),
     (False, 19743552893914667819562402213356187087473336883184630876912139311513391471867), (True,
     404987), (False, 4429360171571257772457863908878237735934038692683688768287102684798898032264),
     (True, 450980), (False,
     37384793816976253640175074940046551866372594924361678545581747558205644129845), (True, 91578),
     (False, 208646248346540210020705514857441614953055042462264794939387321374681422402), (True,
     908846), (False,
     29464514424941879529458603392082944600942104592641075160255713259859682398116), (True, 469408),
     (False, 31730350675675321725885745618871795367562664533675649422573146760327827165348), (True,
     487024), (False, 2605150300753954565135699190271648106486467555622534911771188158640257502745),
     (True, 802517), (False,
     1561183489712996272444473603438417919110797674496129081418852573378233741277), (True, 966350),
     (False, 53644109323390111148308370044889279943556461244456664125035373918589947905451), (True,
     1465283), (False,
     47986089248770267045941651735956812231683932578023653350837284179141101969089), (True, 35701),
     (False, 26859571995862211831757126599948847481062317021191204951090127124171491244075), (True,
     1442030), (False,
     15328162817388728882346740655682149390027956128557719126255557476943852300046), (True,
     1510213), (False,
     27566371512897185165700528660622919855528400949785505024592175824772457179930), (True,
     1166550), (False,
     14939336464611572795342065298765679456295947699592554633952108806355097916231), (True, 212063),
     (False, 29247463707004241897883076398482991829718897338490357103016054772848829618697), (True,
     1570243), (False,
     12191303585563517778197651517706859149186359656042260704093176996128255855325), (True, 509981),
     (False, 1901900487597151784416974387897295859907275793210760590708639024794697481941), (True,
     1762200), (False,
     47800523290824180531853215185059792572898442884241426976913418526889660362067), (True, 822087),
     (False, 718325400788835744185596705874669419023451012690932690290357172053074268120), (True,
     133627), (False,
     14990646663814321751082181727282478831501840519401855115136702009703748727534), (True, 654821),
     (False, 8976201596583477127831597444598833780841590029952955803937226495373095017835), (True,
     274885), (False,
     15914936324816078937046806556717352687413310457338696940837047784088877690365), (True, 336253),
     (False, 17594673095932845875072607052062625589906099754083470030602483324923179737274), (True,
     1383715), (False,
     7028523537622832760292508124710228408730902802558627683016945929335184723939), (True, 926787),
     (False, 9420912876766861613195029670135889896786407927800514205031000341543362105019), (True,
     251534), (False,
     24757498703965169491580822086268144956567232511265294498312403867630330323677), (True, 588713)]"]) code_simp

lemma pow_quartic_6: "8342786514811713179598132932489163993167114269728527846716503767584954548631 mod 57896044618658097711785492504343953926634992332820282019728792003956564819949 = mpow 1946656 196159429230833773869868419475239575503198607639501078527 57896044618658097711785492504343953926634992332820282019728792003956564819949"
  by (rule mpow_steps [OF pow_quartic_5, where M = 57896044618658097711785492504343953926634992332820282019728792003956564819968 and d = 19 and cs = "[(False, 39651699056023359354676910354687910022459928686874429108913163359556442547247), (True,
     912933), (False,
     17730464320893919931520503725831784847315561347137159981280219794291076752165), (True, 423365),
     (False, 9429053620794744339267249523171341819305090908549464205507656915990880578220), (True,
     243748), (False,
     33970924895577734206748860789498744593337447209615634834259106647709671704144), (True,
     1583032), (False,
     31852978831025729633480360071891307347782774361165709504080814969122172838206), (True,
     1624554), (False, 581332575081481171462089757449925438798244821678059232795177546467056495),
     (True, 265848), (False,
     10874677956440499118209516798117563907842596203047072633417817700363024240027), (True, 35590),
     (False, 4115361015417156212400325918262533467293148383874751995397730272582678348504), (True,
     1159449), (False,
     42588022047386385872996133801459194522354338632813476596347150012423207279514), (True, 758489),
     (False, 46585858209210934498698904149812426807711061872229206801262148634158075263298), (True,
     970403), (False, 322443705455076472106188644322023528046169651769826077587606971217698096079),
     (True, 311318), (False,
     21501451806815139164468251437099446537312939091121585170483259100459292387), (True, 636197),
     (False, 3185895105276896755262473295943645993613454532181423405208912763808231040300), (True,
     1107050), (False,
     23494581230642375224218009482292383656750474607056228574652618266809282440800), (True,
     1059133), (False,
     24242926493986557325403959313015328565691230673035536567598923113896009176336), (True,
     1185907), (False,
     12405387370256612350575341988306466118463307527820363804650428897294735798283), (True,
     1437058), (False,
     3819205500335760404086691252928754664151681884690349276862442540374136749192), (True, 508232),
     (False, 23424263935689050568122688542218187225233119007091579457583076860664953349118), (True,
     582863), (False, 6762722323616712790845547495768880481858162966503506924664973745688538724156),
     (True, 29736), (False,
     808708044143914544499398545455405396640466579272854357068945856069499436558), (True, 1704813),
     (False, 32335893783394340884087925059720465766204055628132106918627092680190777092676), (True,
     1408389), (False,
     22582103174979159869130228993462771158681816991839071206050321191363576116463), (True,
     1597454), (False,
     26596947965275645969817820714546910686741223868875802370846927930057323380344), (True, 456322),
     (False, 29431601008490288009167830187620528905361248978936139662907679419580350229191), (True,
     1540582), (False,
     52647404720632146999185727644979590389084485215888794681805659962621531323835), (True, 750811),
     (False, 11283879052685366063261255149353335254127786909456473328090461784403272029), (True,
     624473), (False, 39838987039848184991267087187776632997440879413455260487163891753921778813),
     (True, 30801), (False,
     2824364491710876245006054392030396672762930192551600441656646942346025573388), (True, 870585),
     (False, 41027734397066135526865489118520383258525916101646171178409166157040968765049), (True,
     1897628), (False, 380883458190380774374586233498048362379796952879716032387997521632214358661),
     (True, 463720), (False,
     10545182994074040636294675786782000324817993641588651444979011979511257412914), (True, 944813)]"]) code_simp

lemma pow_quartic_7: "32803678771970748810617316866926059980184848239156949301838656615854148692908 mod 57896044618658097711785492504343953926634992332820282019728792003956564819949 = mpow 1946656 421249166674228746791672110734681729275580381602196445017243910143 57896044618658097711785492504343953926634992332820282019728792003956564819949"
  by (rule mpow_steps [OF pow_quartic_6, where M = 57896044618658097711785492504343953926634992332820282019728792003956564819968 and d = 19 and cs = "[(False, 1202190707330178822735441460889237048563866258098170856344660091577758534280), (True,
     1657831), (False,
     14825472028074780715022934005048171998557709725613103797358551270502122517153), (True,
     1198785), (False,
     41202376817858259761722657382547680999426554963903081233358854143103254457932), (True,
     1557693), (False,
     2892584318886855314112023330316000815324648716920473766493660030329785304547), (True, 1040835),
     (False, 1046138549983252546343932098615230107832695928463880137593931707027563184818), (True,
     1942259), (False,
     41789477783124273104502379345484120107602195894656076578618779387902565911145), (True, 885612),
     (False, 23498669732095854014448016810560215896873559407341256054308350376641354315029), (True,
     1128246), (False,
     33131120354188345324173627301782440295525246250805508716445752173298193490907), (True,
     1725788), (False,
     49636121574428727777552659923888342809485671012253525936947221441759036434335), (True,
     1402509), (False,
     29733500300516785769608302305922881055886593934694613626886205893977889056441), (True,
     1372668), (False,
     5038912009372168542447512644544771059918950012664021186783268156234037189971), (True, 235157),
     (False, 18436902177136473732395937229123347050861875119884226254290144566839669969826), (True,
     349331), (False,
     39916977444498042750787001180762599615143755441274955453789499510080374566695), (True, 108746),
     (False, 684593524302676082040704974564967101295622641570489988601988274838815552439), (True,
     1195162), (False,
     35064621458626459933407199782829424930234294946846937153274821446411165949625), (True, 340099),
     (False, 23650720668161826713978022134501765142747788613937369320113220648617400550513), (True,
     899854), (False,
     35272010281982809509627052105863248653987574451075187081553488360219551088381), (True,
     1182126), (False,
     22860844269058321741321806702790418492197000507134768886847964765500073465888), (True, 778980),
     (False, 4271977239548915624258377086184059694440494418725361620887423920766226245347), (True,
     1075301), (False,
     35308168113004096112450115173396890658413245257347661610983667303665306105232), (True,
     1519096), (False,
     17143834645535922092352639080482670332499441268010134478616964173907138161315), (True,
     1906400), (False,
     11333777792492779968894100302941539080979514986726556633009897510124434733409), (True,
     1640486), (False,
     28425443064876775938635450626902278521413081453737728814400071321779616016541), (True, 482879),
     (False, 49806078955681872279997974190417374946920012130907322925808486058499808801863), (True,
     195860), (False, 1035841316927995783028919965038748847177901805637202950485673964954881719413),
     (True, 1444963), (False,
     30505043335576295363156682518203968064368334589259258525120484020082648242006), (True,
     1486802), (False, 319449836313086894875052758468049624843753052352012184610746726360629391397),
     (True, 807384), (False,
     3109351573248654250672114727525988239037526042793076423057613050259012595589), (True, 639605),
     (False, 5000472658500622794355215311546731432399054163156419318406544038206025577861), (True,
     454437), (False,
     12493550420609096739450941593408092950635556939434868390156015441296459359554), (True, 563131),
     (False, 264485710051630150453597623757512543858099768385360155835763782187876238406), (True,
     262916)]"]) code_simp

lemma pow_quartic_8: "47885161056371115511990060324209952343172507474183422750457843737283919898072 mod 57896044618658097711785492504343953926634992332820282019728792003956564819949 = mpow 1946656 904625697166532776746648320380374280103671755200316906558262375061821325311 57896044618658097711785492504343953926634992332820282019728792003956564819949"
  by (rule mpow_steps [OF pow_quartic_7, where M = 57896044618658097711785492504343953926634992332820282019728792003956564819968 and d = 19 and cs = "[(False, 18586439679298173110310053544347875338631374822521495137276278266482003714011), (True,
     1796620), (False,
     51453254485518356978909522432818859359362337939459707178114926401315608226246), (True,
     1448773), (False,
     6377622999111180763746656080239090667874119388097359298900758222752964582054), (True, 1725855),
     (False, 4976567673852502322721743209062568845734656110717154348698498886718016956135), (True,
     1901359), (False,
     30624636380800118088456265632035313115275991887242411383995714900338979387909), (True,
     1317723), (False,
     47617788005155530835869462652452622460154801881653550465841859767299654913083), (True, 208583),
     (False, 45417847397946391280722772773648201772201075955972876106063886387809691240863), (True,
     1516497), (False,
     1802579031701126302512865376016733318494143574969309945809718189383518234283), (True, 778447),
     (False, 759702985482649607240053853420468442191008521687795740937732319497023484755), (True,
     568217), (False,
     45248773403982389695379603166916828242851364531067556086296713345112334368964), (True,
     1252232), (False,
     4079422616233594449768233593891191028986637943199171714008439254548353391454), (True, 836468),
     (False, 11710590020104561442857706798871690935559169836386710279640264661784351568593), (True,
     243644), (False, 697154797813541388479362532598399935788589840595847063048396151540697873118),
     (True, 981576), (False,
     27932587461183217194501276546601528305324701939405298727425296475183917861540), (True, 705594),
     (False, 26435481760534011345294507634328514488685602275858404393105826267485712555810), (True,
     594227), (False, 1552934051927137824561404829351319175358346262811458817058485129820368849657),
     (True, 1261436), (False,
     52751338853074383221342644316164356059635650425780703798636450219820506778049), (True, 515661),
     (False, 197485161517332204561337219245235090778433187496777193906385957083477896293), (True,
     769291), (False, 2559930918416090961984387261782739533667111273739141769760621663870376970456),
     (True, 1563790), (False,
     14571275364266013314725636096422977077486687467736147093559653187984051555753), (True,
     1371310), (False,
     37982409911116972231447939701904007078964962858652118363520948222305763650270), (True,
     1794111), (False,
     30944462509437437770923462269345811890035481665713449274805343155788677759200), (True, 469408),
     (False, 28727256885277044629324923042464301787621240200294876523634730879270346687155), (True,
     382802), (False,
     48024267484183648963001544573148147572360833308445248796635336198134663262748), (True, 135489),
     (False, 42582850195255889033889412494608670383776451257251210033964012447261821647307), (True,
     1580303), (False,
     2060133493547326271330572769268215076804965257544710134850787437491076636565), (True, 1201987),
     (False, 135333026793276741681147552211835538808242861940567265920173895003491915804), (True,
     1039266), (False,
     9920409592138514516894802507155698268494461028913867747152337153241136388499), (True, 858044),
     (False, 30775687138235920541568476361593543171003930424565949855936786699082027581037), (True,
     1428029), (False,
     51170079184844856716747275727238755134370585232605807537128816336899276541635), (True, 803623),
     (False, 19133437308785875701818535904433960465688304006412562845946443933385993626122), (True,
     1719336)]"]) code_simp

lemma pow_quartic: "57896044618658097711785492504343953926634992332820282019728792003956564819948 mod 57896044618658097711785492504343953926634992332820282019728792003956564819949 = mpow 1946656 14474011154664524427946373126085988481658748083205070504932198000989141204987 57896044618658097711785492504343953926634992332820282019728792003956564819949"
  by (rule mpow_steps [OF pow_quartic_8, where M = 57896044618658097711785492504343953926634992332820282019728792003956564819968 and d = 19 and cs = "[(False, 39605272942180264846677489988692455130502972565845346597980712799652287043303), (True,
     1869046), (False,
     8700606683722500704251505779411734660232498231421518334566414604947302238917), (False,
     278868694072756535100343034703529270579004053820829676272131641440627224468), (True, 1224809),
     (False, 23845983416046116036383388430459058667074273722777031975364369421515932030056), (True,
     408708)]"]) code_simp

section \<open>Squares and fourth powers\<close>

lemma feq_mult_zero: "feq (a * b) 0 \<longleftrightarrow> feq a 0 \<or> feq b 0"
proof
  assume ab: "feq (a * b) 0"
  show "feq a 0 \<or> feq b 0"
  proof (rule ccontr)
    assume "\<not> (feq a 0 \<or> feq b 0)"
    then have a: "feq (a ^ nat (p25519 - 2) * a) 1" and b: "\<not> feq b 0" using fermat_inverse by auto
    have "feq (a ^ nat (p25519 - 2) * a * b) (1 * b)" by (intro feq_mult a feq_refl)
    moreover have "feq (a ^ nat (p25519 - 2) * (a * b)) (a ^ nat (p25519 - 2) * 0)"
      by (intro feq_mult ab feq_refl)
    ultimately show False using b by (metis feq_sym feq_trans mult.assoc mult_1 mult_zero_right)
  qed
next
  assume "feq a 0 \<or> feq b 0"
  then show "feq (a * b) 0" using feq_mult [of a 0 b b] feq_mult [of a a b 0] by auto
qed

lemma feq_power_zero: "feq (a ^ Suc n) 0 \<longleftrightarrow> feq a 0"
  by (induction n) (simp_all add: feq_mult_zero)

lemma feq_diff_zero: "feq a b \<longleftrightarrow> feq (a - b) 0"
  by (simp add: feq_dvd)

lemma not_feq_minus_one: "\<not> feq 1 (- 1)"
  by (simp add: feq_def p25519_def)

lemma fermat_one: "\<not> feq x 0 \<Longrightarrow> feq (x ^ nat (p25519 - 1)) 1"
proof -
  have "nat (p25519 - 1) = Suc (nat (p25519 - 2))" by (simp add: p25519_def)
  then show "\<not> feq x 0 \<Longrightarrow> feq (x ^ nat (p25519 - 1)) 1" using fermat_inverse [of x] by (simp add: mult.commute)
qed

text \<open>A number whose power \<open>(p - 1) / k\<close> is \<open>- 1\<close> is no \<open>k\<close>-th power.\<close>

lemma no_root:
  assumes b: "feq (b ^ n) (- 1)" and k: "nat (p25519 - 1) = k * n" and m: "\<not> feq m 0"
    and y: "feq (y ^ k) (b * m ^ k)"
  shows False
proof -
  have pw: "feq ((x ^ k) ^ n) 1" if "\<not> feq x 0" for x
    using fermat_one [OF that] by (simp add: k power_mult)
  have "k * n \<noteq> 0" unfolding k [symmetric] by (simp add: p25519_def)
  then have "k \<noteq> 0" "n \<noteq> 0" by simp_all
  have "feq ((y ^ k) ^ n) ((b * m ^ k) ^ n)" by (rule feq_power [OF y])
  also have "(b * m ^ k) ^ n = b ^ n * (m ^ k) ^ n" by (rule power_mult_distrib)
  also have "feq (b ^ n * (m ^ k) ^ n) (- 1 * 1)" by (intro feq_mult b pw m)
  finally have e: "feq ((y ^ k) ^ n) (- 1)" by simp
  have "\<not> feq y 0"
  proof
    assume "feq y 0"
    then have "feq ((y ^ k) ^ n) ((0 ^ k) ^ n)" by (intro feq_power)
    with \<open>k \<noteq> 0\<close> \<open>n \<noteq> 0\<close> have "feq 0 (- 1)" using e feq_trans feq_sym by (metis power_0_left)
    then show False by (simp add: feq_def p25519_def)
  qed
  from pw [OF this] e show False using feq_trans feq_sym not_feq_minus_one by blast
qed

lemma mpow_feq: "y mod p25519 = mpow b e p25519 \<Longrightarrow> feq y (- 1) \<Longrightarrow> feq (b ^ nat e) (- 1)"
  unfolding mpow_def feq_def by (rule trans [OF sym])

lemma p25519_num: "p25519 = 57896044618658097711785492504343953926634992332820282019728792003956564819949"
  by (simp add: p25519_def)

lemma minus_one_num: "feq 57896044618658097711785492504343953926634992332820282019728792003956564819948 (- 1)"
  unfolding feq_def p25519_num by simp

text \<open>Neither \<open>486660\<close> times a square is a square, nor \<open>1946656\<close> times a fourth power a fourth power.\<close>

lemma no_square:
  assumes "\<not> feq m 0" "feq (y ^ 2) (486660 * m ^ 2)"
  shows False
proof (rule no_root [OF mpow_feq _ assms])
  show "57896044618658097711785492504343953926634992332820282019728792003956564819948 mod p25519 = mpow 486660 28948022309329048855892746252171976963317496166410141009864396001978282409974 p25519"
    unfolding p25519_num by (rule pow_euler)
  show "nat (p25519 - 1) = 2 * nat 28948022309329048855892746252171976963317496166410141009864396001978282409974"
    unfolding p25519_num by simp
qed (rule minus_one_num)

lemma no_fourth_power:
  assumes "\<not> feq m 0" "feq (y ^ 4) (1946656 * m ^ 4)"
  shows False
proof (rule no_root [OF mpow_feq _ assms])
  show "57896044618658097711785492504343953926634992332820282019728792003956564819948 mod p25519 = mpow 1946656 14474011154664524427946373126085988481658748083205070504932198000989141204987 p25519"
    unfolding p25519_num by (rule pow_quartic)
  show "nat (p25519 - 1) = 4 * nat 14474011154664524427946373126085988481658748083205070504932198000989141204987"
    unfolding p25519_num by simp
qed (rule minus_one_num)

text \<open>A square root of \<open>A + 2\<close>, for the coefficient \<open>A = 486662\<close> of the curve.\<close>

definition root486664 :: int where
  "root486664 = 48802004052532134862652268456126542835229456083994414501085850622543968879637"

lemma root486664: "feq (root486664 ^ 2) 486664"
proof (rule feq_modulus)
  show "root486664 ^ 2 = 486664 + 41136412948939791680299684475920181348029226192539378641442283478343156002645 * p25519"
    unfolding root486664_def p25519_num by simp
qed

text \<open>A square root of \<open>- 1\<close>.\<close>

definition root_minus1 :: int where
  "root_minus1 = 19681161376707505956807079304988542015446066515923890162744021073123829784752"

lemma root_minus1: "feq (root_minus1 ^ 2) (- 1)"
proof (rule feq_modulus)
  show "root_minus1 ^ 2 = - 1 + 6690407189080634018507799843845558368979872843924222843531373839242004886245 * p25519"
    unfolding root_minus1_def p25519_num by simp
qed

lemma root486664_facts:
  "\<not> feq root486664 0" "\<not> feq (root486664 + 2) 0" "\<not> feq (2 - root486664) 0"
  unfolding feq_def root486664_def p25519_num by simp_all

lemma feq_const: "\<not> feq 2 0" "\<not> feq 4 0"
  unfolding feq_def p25519_num by simp_all

section \<open>Doubling\<close>

lemma mont_double_eq:
  "mont_double (x, z) = ((x ^ 2 - z ^ 2) ^ 2, 4 * x * z * (x ^ 2 + 486662 * x * z + z ^ 2))"
  by (simp add: mont_double_def Let_def) algebra

text \<open>
  The coordinates of the points whose eightfold is the neutral element: \<open>0\<close>, infinity,
  \<open>1\<close>, \<open>- 1\<close> and the roots of the last factor.
\<close>

definition torsion_free :: "int \<times> int \<Rightarrow> bool" where
  "torsion_free = (\<lambda>(x, z). \<not> feq x 0 \<and> \<not> feq z 0 \<and> \<not> feq (x - z) 0 \<and> \<not> feq (x + z) 0
     \<and> \<not> feq ((x - z) ^ 4 - 1946656 * (x ^ 2 * z ^ 2)) 0)"

lemma feq_0_add: "feq a 0 \<Longrightarrow> feq (a + k * b) 0 \<Longrightarrow> feq (k * b) 0"
  unfolding feq_dvd by (metis add_diff_cancel_left' diff_zero dvd_diff)

lemma double_z_nonzero:
  assumes "\<not> feq x 0" "\<not> feq z 0"
  shows "\<not> feq (x ^ 2 + 486662 * x * z + z ^ 2) 0"
proof
  assume h: "feq (x ^ 2 + 486662 * x * z + z ^ 2) 0"
  have "feq (4 * (x ^ 2 + 486662 * x * z + z ^ 2)) (4 * 0)" by (intro feq_mult h feq_refl)
  moreover have "(2 * x + 486662 * z) ^ 2 - 486660 * 486664 * z ^ 2 = 4 * (x ^ 2 + 486662 * x * z + z ^ 2)"
    by algebra
  ultimately have "feq ((2 * x + 486662 * z) ^ 2) (486660 * 486664 * z ^ 2)"
    by (subst feq_diff_zero) (simp only: mult_zero_right)
  also have "feq (486660 * 486664 * z ^ 2) (486660 * root486664 ^ 2 * z ^ 2)"
    by (intro feq_mult feq_refl feq_sym [OF root486664])
  also have "486660 * root486664 ^ 2 * z ^ 2 = 486660 * (root486664 * z) ^ 2" by algebra
  finally show False
    using assms root486664_facts by (intro no_square [of "root486664 * z"]) (auto simp: feq_mult_zero)
qed

lemma double_not_minus:
  assumes "\<not> feq x 0" "\<not> feq z 0" "mont_double (x, z) = (x', z')"
  shows "\<not> feq (x' + z') 0"
proof
  assume h: "feq (x' + z') 0"
  let ?y = "(x + z) ^ 2" and ?m = "2 * x * z"
  have "?y ^ 2 - (- 486660) * ?m ^ 2 = x' + z'"
    using assms(3) unfolding mont_double_eq by (auto simp: algebra_simps power2_eq_square)
  with h have e: "feq (?y ^ 2) ((- 486660) * ?m ^ 2)" by (subst feq_diff_zero) (simp only:)
  have "(root_minus1 * ?y) ^ 2 = root_minus1 ^ 2 * ?y ^ 2" by algebra
  also have "feq (root_minus1 ^ 2 * ?y ^ 2) ((- 1) * ((- 486660) * ?m ^ 2))"
    by (intro feq_mult root_minus1 e)
  also have "(- 1) * ((- 486660) * ?m ^ 2) = 486660 * ?m ^ 2" by algebra
  finally show False
    using assms(1,2) feq_const by (intro no_square [of ?m]) (auto simp: feq_mult_zero)
qed

lemma double_not_order8:
  assumes "\<not> feq x 0" "\<not> feq z 0" "mont_double (x, z) = (x', z')" "\<not> feq x' 0" "\<not> feq z' 0"
    and e: "feq (e ^ 2) 486664" "\<not> feq (e + 2) 0" and h: "feq ((x' - z') ^ 2) (2 * e * (x' * z'))"
  shows False
proof -
  let ?y = "((x ^ 2 + z ^ 2) * z' - 2 * x' * (x * z)) * (x' + z')" and ?m = "2 * x * z * (e + 2) * (x' * z')"
  have d: "x' = (x ^ 2 - z ^ 2) ^ 2" "z' = 4 * x * z * (x ^ 2 + 486662 * x * z + z ^ 2)"
    using assms(3) unfolding mont_double_eq by simp_all
  have "((x ^ 2 + z ^ 2) * z' - 2 * x' * (x * z)) ^ 2 - (2 * x * z) ^ 2 * ((x' - z') ^ 2 + 486664 * (x' * z'))
      = z' * ((x ^ 2 - z ^ 2) ^ 2 * z' - x' * (4 * x * z * (x ^ 2 + 486662 * x * z + z ^ 2)))" by algebra
  then have y1: "((x ^ 2 + z ^ 2) * z' - 2 * x' * (x * z)) ^ 2
      = (2 * x * z) ^ 2 * ((x' - z') ^ 2 + 486664 * (x' * z'))" by (simp flip: d)
  have "?y ^ 2 = (2 * x * z) ^ 2 * ((x' - z') ^ 2 + 486664 * (x' * z')) * ((x' - z') ^ 2 + 4 * (x' * z'))"
    unfolding power_mult_distrib y1 by algebra
  also have "feq \<dots> ((2 * x * z) ^ 2 * (2 * e * (x' * z') + e ^ 2 * (x' * z')) * (2 * e * (x' * z') + 4 * (x' * z')))"
    by (intro feq_mult feq_add feq_refl h feq_sym [OF e(1)])
  also have "\<dots> = 2 * e * ?m ^ 2" by algebra
  finally have "feq (?y ^ 2 * ?y ^ 2) ((2 * e * ?m ^ 2) * (2 * e * ?m ^ 2))" by (intro feq_mult)
  then have "feq (?y ^ 4) (4 * e ^ 2 * ?m ^ 4)" by (simp only: power2_eq_square power4_eq_xxxx mult_ac) simp
  also have "feq (4 * e ^ 2 * ?m ^ 4) (4 * 486664 * ?m ^ 4)" by (intro feq_mult feq_refl e)
  also have "4 * 486664 * ?m ^ 4 = 1946656 * ?m ^ 4" by simp
  finally show False
    using assms feq_const by (intro no_fourth_power [of ?m]) (auto simp: feq_mult_zero)
qed

lemma double_torsion_free:
  assumes "torsion_free P"
  shows "torsion_free (mont_double P)"
proof -
  obtain x z where P: "P = (x, z)" by (metis surj_pair)
  obtain x' z' where d: "mont_double (x, z) = (x', z')" by (metis surj_pair)
  note d' = d [unfolded mont_double_eq]
  have t: "\<not> feq x 0" "\<not> feq z 0" "\<not> feq (x - z) 0" "\<not> feq (x + z) 0"
    "\<not> feq ((x - z) ^ 4 - 1946656 * (x ^ 2 * z ^ 2)) 0"
    using assms by (simp_all add: P torsion_free_def)
  have "x' = (x - z) ^ 2 * (x + z) ^ 2" using d' by (auto simp: algebra_simps power2_eq_square)
  then have x': "\<not> feq x' 0" using t(3,4) by (auto simp: feq_mult_zero power2_eq_square)
  have z': "\<not> feq z' 0" using d' double_z_nonzero [OF t(1,2)] t(1,2) feq_const by (auto simp: feq_mult_zero)
  have "(x ^ 2 - z ^ 2) ^ 2 - 4 * x * z * (x ^ 2 + 486662 * x * z + z ^ 2)
      = (x - z) ^ 4 - 1946656 * (x ^ 2 * z ^ 2)" by algebra
  then have "x' - z' = (x - z) ^ 4 - 1946656 * (x ^ 2 * z ^ 2)" using d' by simp
  then have m: "\<not> feq (x' - z') 0" using t(5) by simp
  have "\<not> feq ((x' - z') ^ 4 - 1946656 * (x' ^ 2 * z' ^ 2)) 0"
  proof
    let ?r = root486664
    assume "feq ((x' - z') ^ 4 - 1946656 * (x' ^ 2 * z' ^ 2)) 0"
    then have "feq ((x' - z') ^ 4) (4 * 486664 * (x' ^ 2 * z' ^ 2))" by (subst feq_diff_zero) simp
    also have "feq \<dots> (4 * ?r ^ 2 * (x' ^ 2 * z' ^ 2))" by (intro feq_mult feq_refl feq_sym [OF root486664])
    finally have "feq ((x' - z') ^ 4 - 4 * ?r ^ 2 * (x' ^ 2 * z' ^ 2)) 0" by (subst (asm) feq_diff_zero)
    moreover have "(x' - z') ^ 4 - 4 * ?r ^ 2 * (x' ^ 2 * z' ^ 2)
        = ((x' - z') ^ 2 - 2 * ?r * (x' * z')) * ((x' - z') ^ 2 - 2 * (- ?r) * (x' * z'))" by algebra
    ultimately consider "feq ((x' - z') ^ 2) (2 * ?r * (x' * z'))" | "feq ((x' - z') ^ 2) (2 * (- ?r) * (x' * z'))"
      by (metis feq_mult_zero feq_diff_zero)
    then show False
    proof cases
      case 1
      then show False using double_not_order8 [OF t(1,2) d x' z' root486664] root486664_facts by blast
    next
      case 2
      have "feq ((- ?r) ^ 2) 486664" using root486664 by simp
      from double_not_order8 [OF t(1,2) d x' z' this _ 2] root486664_facts show False by simp
    qed
  qed
  with x' z' m double_not_minus [OF t(1,2) d] show ?thesis by (simp add: P d torsion_free_def)
qed

section \<open>A power of two times the base point\<close>

lemma doubles_torsion_free: "torsion_free P \<Longrightarrow> torsion_free ((mont_double ^^ n) P)"
  by (induction n) (simp_all add: double_torsion_free)

lemma ladder_doubles: "fst (mont_ladder q (replicate n False) (P, Q)) = (mont_double ^^ n) P"
  by (induction n arbitrary: P Q) (simp_all add: funpow_swap1)

lemma bits_pow2:
  "m = Suc (Suc n) \<Longrightarrow> rev (map (bit (2 ^ n :: nat)) [0..<m]) = False # True # replicate n False"
proof -
  assume m: "m = Suc (Suc n)"
  have "map (bit (2 ^ n :: nat)) [0..<n] = replicate n False"
    by (simp add: list_eq_iff_nth_eq bit_exp_iff)
  then show ?thesis by (simp add: m bit_exp_iff)
qed

lemma ladder_pow2:
  assumes "mont_ladder 9 (rev (map (bit (2 ^ 254 :: nat)) [0..<256])) ((1, 0), (9, 1)) = ((X, Z), PQ)"
  shows "torsion_free (X, Z)"
proof -
  have "mont_ladder 9 (False # True # replicate 254 False) ((1, 0), (9, 1))
      = mont_ladder 9 (replicate 254 False) ((419904, 46656), mont_double (324, 36))"
    by (simp only: mont_ladder.simps if_True if_False mont_double_def mont_add_def prod.case Let_def) simp
  moreover have "256 = Suc (Suc 254)" by simp
  ultimately have "(X, Z) = (mont_double ^^ 254) (419904, 46656)"
    using assms ladder_doubles [of 9 254] unfolding bits_pow2 [OF \<open>256 = Suc (Suc 254)\<close>] by (metis fst_conv)
  moreover have "torsion_free (419904, 46656)" unfolding torsion_free_def feq_def p25519_num by simp
  ultimately show ?thesis using doubles_torsion_free by (simp only:)
qed

end
