(* ===== verification/Sha256.thy ===== *)
theory Sha256
  imports WordBounds
begin

text \<open>
  The streaming SHA-256 of the card layer (\<^verbatim>\<open>src/plugins/utils/curve25519.c\<close>,
  \<^verbatim>\<open>sha256_vcompress\<close> to \<^verbatim>\<open>vupdate_sha256\<close>) and its agreement with the standard: the
  compression of a block with its eight registers rotated by renaming, the buffering of input
  that arrives in pieces, the padding, and the hash of a message however it is cut.
\<close>

section \<open>State\<close>

text \<open>\<^verbatim>\<open>struct sha256_vstate\<close>; the length counts bits and wraps.\<close>

record sha256_vstate =
  md_length :: u64
  md_state :: "u32 list"
  md_curlen :: nat
  md_buf :: bytes

section \<open>Compression\<close>

definition LOAD32H :: "bytes \<Rightarrow> nat \<Rightarrow> u32" where
  "LOAD32H b i = push_bit 24 (ucast (b ! i)) OR push_bit 16 (ucast (b ! (i + 1)))
     OR push_bit 8 (ucast (b ! (i + 2))) OR ucast (b ! (i + 3))"

definition STORE32H :: "u32 \<Rightarrow> bytes" where
  "STORE32H x = [ucast (drop_bit 24 x AND 255), ucast (drop_bit 16 x AND 255), ucast (drop_bit 8 x AND 255), ucast (x AND 255)]"

definition STORE64H :: "u64 \<Rightarrow> bytes" where
  "STORE64H x = [ucast (drop_bit 56 x AND 255), ucast (drop_bit 48 x AND 255), ucast (drop_bit 40 x AND 255),
     ucast (drop_bit 32 x AND 255), ucast (drop_bit 24 x AND 255), ucast (drop_bit 16 x AND 255),
     ucast (drop_bit 8 x AND 255), ucast (x AND 255)]"

definition RORc :: "u32 \<Rightarrow> nat \<Rightarrow> u32" where
  "RORc x y = (drop_bit (y AND 31) (x AND 0xFFFFFFFF) OR push_bit (32 - (y AND 31)) x) AND 0xFFFFFFFF"

definition Ch :: "u32 \<Rightarrow> u32 \<Rightarrow> u32 \<Rightarrow> u32" where
  "Ch x y z = z XOR (x AND (y XOR z))"

definition Maj :: "u32 \<Rightarrow> u32 \<Rightarrow> u32 \<Rightarrow> u32" where
  "Maj x y z = ((x OR y) AND z) OR (x AND y)"

definition Rshift :: "u32 \<Rightarrow> nat \<Rightarrow> u32" where
  "Rshift x n = drop_bit n (x AND 0xFFFFFFFF)"

definition Sigma0 :: "u32 \<Rightarrow> u32" where
  "Sigma0 x = RORc x 2 XOR RORc x 13 XOR RORc x 22"

definition Sigma1 :: "u32 \<Rightarrow> u32" where
  "Sigma1 x = RORc x 6 XOR RORc x 11 XOR RORc x 25"

definition Gamma0 :: "u32 \<Rightarrow> u32" where
  "Gamma0 x = RORc x 7 XOR RORc x 18 XOR Rshift x 3"

definition Gamma1 :: "u32 \<Rightarrow> u32" where
  "Gamma1 x = RORc x 17 XOR RORc x 19 XOR Rshift x 10"

text \<open>The words \<open>W[0..63]\<close> of a block.\<close>

definition sha256_words :: "bytes \<Rightarrow> u32 list" where
  "sha256_words buf = foldl (\<lambda>W i. W @ [Gamma1 (W ! (i - 2)) + W ! (i - 7) + Gamma0 (W ! (i - 15)) + W ! (i - 16)])
     (map (\<lambda>i. LOAD32H buf (4 * i)) [0..<16]) [16..<64]"

text \<open>The last two arguments of the 64 uses of \<^verbatim>\<open>RND\<close>: the round and its constant.\<close>

definition sha256_rounds :: "(nat \<times> u32) list" where
  "sha256_rounds =
     [(0, 0x428a2f98), (1, 0x71374491), (2, 0xb5c0fbcf), (3, 0xe9b5dba5),
      (4, 0x3956c25b), (5, 0x59f111f1), (6, 0x923f82a4), (7, 0xab1c5ed5),
      (8, 0xd807aa98), (9, 0x12835b01), (10, 0x243185be), (11, 0x550c7dc3),
      (12, 0x72be5d74), (13, 0x80deb1fe), (14, 0x9bdc06a7), (15, 0xc19bf174),
      (16, 0xe49b69c1), (17, 0xefbe4786), (18, 0x0fc19dc6), (19, 0x240ca1cc),
      (20, 0x2de92c6f), (21, 0x4a7484aa), (22, 0x5cb0a9dc), (23, 0x76f988da),
      (24, 0x983e5152), (25, 0xa831c66d), (26, 0xb00327c8), (27, 0xbf597fc7),
      (28, 0xc6e00bf3), (29, 0xd5a79147), (30, 0x06ca6351), (31, 0x14292967),
      (32, 0x27b70a85), (33, 0x2e1b2138), (34, 0x4d2c6dfc), (35, 0x53380d13),
      (36, 0x650a7354), (37, 0x766a0abb), (38, 0x81c2c92e), (39, 0x92722c85),
      (40, 0xa2bfe8a1), (41, 0xa81a664b), (42, 0xc24b8b70), (43, 0xc76c51a3),
      (44, 0xd192e819), (45, 0xd6990624), (46, 0xf40e3585), (47, 0x106aa070),
      (48, 0x19a4c116), (49, 0x1e376c08), (50, 0x2748774c), (51, 0x34b0bcb5),
      (52, 0x391c0cb3), (53, 0x4ed8aa4a), (54, 0x5b9cca4f), (55, 0x682e6ff3),
      (56, 0x748f82ee), (57, 0x78a5636f), (58, 0x84c87814), (59, 0x8cc70208),
      (60, 0x90befffa), (61, 0xa4506ceb), (62, 0xbef9a3f7), (63, 0xc67178f2)]"

text \<open>
  The macro \<^verbatim>\<open>RND\<close> in round \<open>i\<close>, in which the registers \<open>a\<close> to \<open>h\<close> are the elements of \<^verbatim>\<open>S\<close>
  from \<open>- i\<close> on, modulo 8.
\<close>

definition RND :: "u32 list \<Rightarrow> u32 list \<Rightarrow> nat \<times> u32 \<Rightarrow> u32 list" where
  "RND W S = (\<lambda>(i, ki).
     let r = (\<lambda>k. (k + 7 * i) mod 8);
          t0 = S ! r 7 + Sigma1 (S ! r 4) + Ch (S ! r 4) (S ! r 5) (S ! r 6) + ki + W ! i;
          t1 = Sigma0 (S ! r 0) + Maj (S ! r 0) (S ! r 1) (S ! r 2);
          S = S[r 3 := S ! r 3 + t0]
      in S[r 7 := t0 + t1])"

definition sha256_vcompress :: "sha256_vstate \<Rightarrow> bytes \<Rightarrow> sha256_vstate" where
  "sha256_vcompress md buf =
     (let S = foldl (RND (sha256_words buf)) (map (\<lambda>i. md_state md ! i) [0..<8]) sha256_rounds
      in md\<lparr>md_state := map (\<lambda>i. md_state md ! i + S ! i) [0..<8]\<rparr>)"

definition sha256_vinit :: "sha256_vstate \<Rightarrow> sha256_vstate" where
  "sha256_vinit md = md\<lparr>md_curlen := 0, md_length := 0,
     md_state := [0x6A09E667, 0xBB67AE85, 0x3C6EF372, 0xA54FF53A, 0x510E527F, 0x9B05688C, 0x1F83D9AB, 0x5BE0CD19]\<rparr>"

section \<open>Streaming\<close>

text \<open>
  The loop of \<^verbatim>\<open>sha256_vprocess\<close> on the remaining input. A full buffer on entry is compressed in
  a round that consumes nothing; a fill beyond the buffer, which the guard of the function
  excludes, ends the loop.
\<close>

function sha256_vprocess_loop :: "sha256_vstate \<Rightarrow> bytes \<Rightarrow> sha256_vstate" where
  "sha256_vprocess_loop md inp =
     (if inp = [] \<or> 64 < md_curlen md then md
      else if md_curlen md = 0 \<and> 64 \<le> length inp then
        let md = sha256_vcompress md (take 64 inp)
        in sha256_vprocess_loop (md\<lparr>md_length := md_length md + 64 * 8\<rparr>) (drop 64 inp)
      else
        let n = min (length inp) (64 - md_curlen md);
            md = md\<lparr>md_buf := buf_write (md_curlen md) (take n inp) (md_buf md)\<rparr>;
            md = md\<lparr>md_curlen := md_curlen md + n\<rparr>;
            md = (if md_curlen md = 64
                  then (sha256_vcompress md (md_buf md))\<lparr>md_length := md_length md + 8 * 64, md_curlen := 0\<rparr>
                  else md)
        in sha256_vprocess_loop md (drop n inp))"
  by auto
termination
proof (relation "measures [\<lambda>(md, inp). length inp, \<lambda>(md, inp). md_curlen md]")
  fix md x xa xb xc :: sha256_vstate and inp :: bytes and n
  assume a: "\<not> (inp = [] \<or> 64 < md_curlen md)" and n: "n = min (length inp) (64 - md_curlen md)"
    and x: "x = md\<lparr>md_buf := buf_write (md_curlen md) (take n inp) (md_buf md)\<rparr>"
    "xa = x\<lparr>md_curlen := md_curlen x + n\<rparr>"
    "xb = (if md_curlen xa = 64
       then (sha256_vcompress xa (md_buf xa))\<lparr>md_length := md_length xa + 8 * 64, md_curlen := 0\<rparr> else xa)"
  show "((xb, drop n inp), md, inp) \<in> measures [\<lambda>(md, inp). length inp, \<lambda>(md, inp). md_curlen md]"
  proof (cases "n = 0")
    case True
    with a n have "md_curlen md = 64" by (cases inp) auto
    with True show ?thesis by (simp add: x)
  next
    case False
    with a have "length inp - n < length inp" by simp
    then show ?thesis by simp
  qed
qed auto

declare sha256_vprocess_loop.simps [simp del]

text \<open>The return code and the state; \<^verbatim>\<open>sha256_vcompress\<close> itself never fails.\<close>

definition sha256_vprocess :: "sha256_vstate \<Rightarrow> bytes \<Rightarrow> int \<times> sha256_vstate" where
  "sha256_vprocess md inp = (if 64 < md_curlen md then (- 1, md) else (0, sha256_vprocess_loop md inp))"

text \<open>\<^verbatim>\<open>while ( md->curlen < limit ) md->buf[md->curlen++] = 0\<close>.\<close>

function sha256_vpad :: "nat \<Rightarrow> sha256_vstate \<Rightarrow> sha256_vstate" where
  "sha256_vpad limit md =
     (if md_curlen md < limit
      then sha256_vpad limit (md\<lparr>md_buf := (md_buf md)[md_curlen md := 0], md_curlen := md_curlen md + 1\<rparr>)
      else md)"
  by auto
termination by (relation "measure (\<lambda>(limit, md). limit - md_curlen md)") auto

declare sha256_vpad.simps [simp del]

definition sha256_vdone :: "sha256_vstate \<Rightarrow> bytes \<Rightarrow> int \<times> sha256_vstate \<times> bytes" where
  "sha256_vdone md out =
     (if 64 \<le> md_curlen md then (- 1, md, out)
      else
        let md = md\<lparr>md_length := md_length md + of_nat (md_curlen md * 8)\<rparr>;
            md = md\<lparr>md_buf := (md_buf md)[md_curlen md := 0x80], md_curlen := md_curlen md + 1\<rparr>;
            md = (if 56 < md_curlen md
                  then let md = sha256_vpad 64 md; md = sha256_vcompress md (md_buf md) in md\<lparr>md_curlen := 0\<rparr>
                  else md);
            md = sha256_vpad 56 md;
            md = md\<lparr>md_buf := buf_write 56 (STORE64H (md_length md)) (md_buf md)\<rparr>;
            md = sha256_vcompress md (md_buf md);
            out = foldl (\<lambda>out i. buf_write (4 * i) (STORE32H (md_state md ! i)) out) out [0..<8]
        in (0, md, out))"

text \<open>
  The hash of one buffer, of two buffers, and of a stream. The local state starts as \<open>md_fresh\<close>;
  its contents before \<^verbatim>\<open>sha256_vinit\<close>, like those of the output buffer, do not matter.
\<close>

definition md_fresh :: sha256_vstate where
  "md_fresh = \<lparr>md_length = 0, md_state = replicate 8 0, md_curlen = 0, md_buf = replicate 64 0\<rparr>"

definition vcalc_sha256 :: "bytes \<Rightarrow> bytes \<Rightarrow> bytes" where
  "vcalc_sha256 hash source =
     (let md = sha256_vinit md_fresh; (rc, md) = sha256_vprocess md source; (rc, md, hash) = sha256_vdone md hash
      in hash)"

definition vcalc_sha256cat :: "bytes \<Rightarrow> bytes \<Rightarrow> bytes option \<Rightarrow> bytes" where
  "vcalc_sha256cat hash source src2 =
     (let md = sha256_vinit md_fresh; (rc, md) = sha256_vprocess md source;
          md = (case src2 of None \<Rightarrow> md | Some s \<Rightarrow> snd (sha256_vprocess md s));
          (rc, md, hash) = sha256_vdone md hash
      in hash)"

definition vupdate_sha256 :: "bytes \<Rightarrow> sha256_vstate \<Rightarrow> bytes option \<Rightarrow> bytes \<times> sha256_vstate" where
  "vupdate_sha256 hash st source =
     (let md = (case source of None \<Rightarrow> sha256_vinit md_fresh | Some s \<Rightarrow> snd (sha256_vprocess st s));
          st = md;
          (rc, md, hash) = sha256_vdone md hash
      in (hash, st))"

section \<open>The standard\<close>

text \<open>SHA-256 as the standard (FIPS 180-4) writes it.\<close>

definition std_Ch :: "u32 \<Rightarrow> u32 \<Rightarrow> u32 \<Rightarrow> u32" where
  "std_Ch x y z = (x AND y) XOR (NOT x AND z)"

definition std_Maj :: "u32 \<Rightarrow> u32 \<Rightarrow> u32 \<Rightarrow> u32" where
  "std_Maj x y z = (x AND y) XOR (x AND z) XOR (y AND z)"

definition std_Sigma :: "nat \<Rightarrow> nat \<Rightarrow> nat \<Rightarrow> u32 \<Rightarrow> u32" where
  "std_Sigma i j k x = word_rotr i x XOR word_rotr j x XOR word_rotr k x"

definition std_sigma :: "nat \<Rightarrow> nat \<Rightarrow> nat \<Rightarrow> u32 \<Rightarrow> u32" where
  "std_sigma i j k x = word_rotr i x XOR word_rotr j x XOR drop_bit k x"

definition be_val :: "bytes \<Rightarrow> nat" where
  "be_val bs = foldl (\<lambda>n b. 256 * n + unat b) 0 bs"

definition be_bytes :: "nat \<Rightarrow> nat \<Rightarrow> bytes" where
  "be_bytes n v = map (\<lambda>i. of_nat (v div 256 ^ (n - 1 - i))) [0..<n]"

fun std_W :: "bytes \<Rightarrow> nat \<Rightarrow> u32" where
  "std_W M t = (if t < 16 then of_nat (be_val (take 4 (drop (4 * t) M)))
     else std_sigma 17 19 10 (std_W M (t - 2)) + std_W M (t - 7) + std_sigma 7 18 3 (std_W M (t - 15)) + std_W M (t - 16))"

declare std_W.simps [simp del]

type_synonym regs = "u32 \<times> u32 \<times> u32 \<times> u32 \<times> u32 \<times> u32 \<times> u32 \<times> u32"

fun std_round :: "u32 \<Rightarrow> u32 \<Rightarrow> regs \<Rightarrow> regs" where
  "std_round K W (a, b, c, d, e, f, g, h) =
     (let T1 = h + std_Sigma 6 11 25 e + std_Ch e f g + K + W; T2 = std_Sigma 2 13 22 a + std_Maj a b c
      in (T1 + T2, a, b, c, d + T1, e, f, g))"

text \<open>
  The round constants of the standard: the first 32 bits of the fractional parts of the cube roots
  of the first 64 primes, those below 312, which have no divisor up to 17. \<open>cube_root\<close> finds the
  integer part of a cube root below \<open>2 ^ 35\<close> bit by bit.
\<close>

definition cube_root :: "int \<Rightarrow> int" where
  "cube_root m = foldl (\<lambda>r b. if (r + 2 ^ b) ^ 3 \<le> m then r + 2 ^ b else r) 0 (rev [0..<35])"

definition std_primes :: "int list" where
  "std_primes = filter (\<lambda>p. \<forall>d\<in>set [2..17]. d < p \<longrightarrow> p mod d \<noteq> 0) [2..311]"

definition std_K :: "nat \<Rightarrow> u32" where
  "std_K t = map (\<lambda>p. word_of_int (cube_root (p * 2 ^ 96))) std_primes ! t"

definition std_rounds :: "bytes \<Rightarrow> regs \<Rightarrow> regs" where
  "std_rounds M r = foldl (\<lambda>r t. std_round (std_K t) (std_W M t) r) r [0..<64]"

fun std_feed :: "regs \<Rightarrow> regs \<Rightarrow> regs" where
  "std_feed (a, b, c, d, e, f, g, h) (a', b', c', d', e', f', g', h') =
     (a + a', b + b', c + c', d + d', e + e', f + f', g + g', h + h')"

definition std_compress :: "regs \<Rightarrow> bytes \<Rightarrow> regs" where
  "std_compress H M = std_feed H (std_rounds M H)"

text \<open>The hash of a padded message, block by block.\<close>

function std_blocks :: "regs \<Rightarrow> bytes \<Rightarrow> regs" where
  "std_blocks H m = (if length m < 64 then H else std_blocks (std_compress H (take 64 m)) (drop 64 m))"
  by auto
termination by (relation "measure (\<lambda>(H, m). length m)") auto

declare std_blocks.simps [simp del]

definition std_pad :: "bytes \<Rightarrow> bytes" where
  "std_pad m = m @ [0x80] @ replicate ((119 - length m mod 64) mod 64) 0 @ be_bytes 8 (8 * length m)"

definition std_init :: regs where
  "std_init = (0x6a09e667, 0xbb67ae85, 0x3c6ef372, 0xa54ff53a, 0x510e527f, 0x9b05688c, 0x1f83d9ab, 0x5be0cd19)"

fun regs_bytes :: "regs \<Rightarrow> bytes" where
  "regs_bytes (a, b, c, d, e, f, g, h) = concat (map (\<lambda>x. be_bytes 4 (unat x)) [a, b, c, d, e, f, g, h])"

definition sha256_std :: "bytes \<Rightarrow> bytes" where
  "sha256_std m = regs_bytes (std_blocks std_init (std_pad m))"

section \<open>Compression agrees with the standard\<close>

lemma full_mask: "x AND 0xFFFFFFFF = (x :: u32)"
proof -
  have "0xFFFFFFFF = (- 1 :: u32)" by simp
  then show ?thesis by (simp only: and.right_neutral)
qed

lemma RORc_rotr:
  assumes "0 < y" "y < 32"
  shows "RORc x y = word_rotr y x"
proof -
  have y: "y AND 31 = y"
    using assms take_bit_eq_mask [of 5 y] take_bit_nat_eq_self [of y 5] by (simp add: mask_numeral)
  show ?thesis
  proof (rule bit_word_eqI)
    fix n assume n: "n < LENGTH(32)"
    show "bit (RORc x y) n = bit (word_rotr y x) n"
    proof (cases "n + y < 32")
      case True
      then show ?thesis using assms n
        by (auto simp: RORc_def full_mask y bit_or_iff bit_drop_bit_eq bit_push_bit_iff bit_word_rotr_iff add.commute)
    next
      case False
      then have "(n + y) mod 32 = n - (32 - y)" using assms n by (simp add: le_mod_geq)
      moreover have "\<not> bit x (n + y)" using False bit_imp_le_length [of x "n + y"] by auto
      ultimately show ?thesis using False assms n
        by (auto simp: RORc_def full_mask y bit_or_iff bit_drop_bit_eq bit_push_bit_iff bit_word_rotr_iff add.commute)
    qed
  qed
qed

lemma std_functions:
  "Sigma0 = std_Sigma 2 13 22" "Sigma1 = std_Sigma 6 11 25" "Gamma0 = std_sigma 7 18 3" "Gamma1 = std_sigma 17 19 10"
  by (simp_all add: fun_eq_iff Sigma0_def Sigma1_def Gamma0_def Gamma1_def std_Sigma_def std_sigma_def
      RORc_rotr Rshift_def full_mask)

lemma std_Ch_Maj: "Ch = std_Ch" "Maj = std_Maj"
  by (auto simp: fun_eq_iff Ch_def std_Ch_def Maj_def std_Maj_def bit_and_iff bit_xor_iff bit_or_iff bit_not_iff
      intro!: bit_word_eqI)

lemma LOAD32H_std:
  assumes "i + 4 \<le> length M"
  shows "LOAD32H M i = of_nat (be_val (take 4 (drop i M)))"
proof -
  have t: "take 4 (drop i M) = [M ! i, M ! (i + 1), M ! (i + 2), M ! (i + 3)]"
    using assms by (intro nth_equalityI) (auto simp: less_Suc_eq numeral_eq_Suc)
  have b: "ubnd (ucast (b :: u8) :: u32) (unat b) 255" for b
    using unat_u8_less [of b] by (intro ubnd_ucast_up) (simp_all add: ubnd_def)
  have p: "ubnd (push_bit k (ucast (b :: u8)) :: u32) (unat b * 2 ^ k) (255 * 2 ^ k)" if "k \<le> 24" for b k
  proof (rule ubnd_push_bit [OF b])
    have "(255::nat) * 2 ^ k \<le> 255 * 2 ^ 24" using that by (intro mult_le_mono power_increasing) simp_all
    then show "(255::nat) * 2 ^ k < 2 ^ LENGTH(32)" by simp
  qed
  note 1 = ubnd_or_disjoint [OF b [of "M ! (i + 3)"] p [of 8 "M ! (i + 2)"]]
  have 1: "ubnd (ucast (M ! (i + 3)) OR push_bit 8 (ucast (M ! (i + 2))) :: u32)
      (unat (M ! (i + 3)) + unat (M ! (i + 2)) * 2 ^ 8) (255 + 255 * 2 ^ 8)"
    by (rule ubnd_or_disjoint [OF b p]) simp_all
  have 2: "ubnd ((ucast (M ! (i + 3)) OR push_bit 8 (ucast (M ! (i + 2)))) OR push_bit 16 (ucast (M ! (i + 1))) :: u32)
      (unat (M ! (i + 3)) + unat (M ! (i + 2)) * 2 ^ 8 + unat (M ! (i + 1)) * 2 ^ 16) (255 + 255 * 2 ^ 8 + 255 * 2 ^ 16)"
    by (rule ubnd_or_disjoint [OF 1 p]) simp_all
  have 3: "ubnd (((ucast (M ! (i + 3)) OR push_bit 8 (ucast (M ! (i + 2)))) OR push_bit 16 (ucast (M ! (i + 1))))
        OR push_bit 24 (ucast (M ! i)) :: u32)
      (unat (M ! (i + 3)) + unat (M ! (i + 2)) * 2 ^ 8 + unat (M ! (i + 1)) * 2 ^ 16 + unat (M ! i) * 2 ^ 24)
      (255 + 255 * 2 ^ 8 + 255 * 2 ^ 16 + 255 * 2 ^ 24)"
    by (rule ubnd_or_disjoint [OF 2 p]) simp_all
  have l: "LOAD32H M i = ((ucast (M ! (i + 3)) OR push_bit 8 (ucast (M ! (i + 2)))) OR push_bit 16 (ucast (M ! (i + 1))))
        OR push_bit 24 (ucast (M ! i))"
    unfolding LOAD32H_def by (simp only: or.commute or.left_commute or.assoc)
  have v: "unat (LOAD32H M i) = be_val (take 4 (drop i M))"
    unfolding l ubnd_unat [OF 3] t by (simp add: be_val_def)
  have "LOAD32H M i = of_nat (unat (LOAD32H M i))" by (simp only: of_nat_unat ucast_id)
  then show ?thesis unfolding v .
qed

lemma nth_foldl_append:
  assumes "length xs = m"
  shows "length (foldl (\<lambda>W i. W @ [f W i]) xs [m..<n]) = max m n"
    and "t < m \<Longrightarrow> foldl (\<lambda>W i. W @ [f W i]) xs [m..<n] ! t = xs ! t"
    and "m \<le> t \<Longrightarrow> t < n \<Longrightarrow> foldl (\<lambda>W i. W @ [f W i]) xs [m..<n] ! t = f (foldl (\<lambda>W i. W @ [f W i]) xs [m..<t]) t"
proof (induction n)
  case (Suc n)
  { case 1 then show ?case using Suc(1) assms by (cases "m \<le> n") (auto simp: max_def) }
  { case 2 then show ?case using Suc(1,2) assms by (cases "m \<le> n") (auto simp: nth_append max_def) }
  { case 3 then show ?case using Suc(1,3) assms by (cases "t = n") (auto simp: nth_append max_def) }
qed (use assms in auto)

lemma sha256_words_std:
  assumes "length M = 64" "t < 64"
  shows "sha256_words M ! t = std_W M t"
proof -
  define f where "f = (\<lambda>W i. Gamma1 (W ! (i - 2)) + W ! (i - 7) + Gamma0 (W ! (i - 15)) + W ! (i - 16))"
  define xs where "xs = map (\<lambda>i. LOAD32H M (4 * i)) [0..<16]"
  define W where "W n = foldl (\<lambda>W i. W @ [f W i]) xs [16..<n]" for n
  have len: "length xs = 16" by (simp add: xs_def)
  note nth = nth_foldl_append [OF len, where f = f, folded W_def]
  have "t < n \<Longrightarrow> n \<le> 64 \<Longrightarrow> W n ! t = std_W M t" for n
  proof (induction t arbitrary: n rule: less_induct)
    case (less t)
    show ?case
    proof (cases "t < 16")
      case True
      then have "W n ! t = LOAD32H M (4 * t)" using nth(2) [of t n] by (simp add: xs_def)
      then show ?thesis using True assms by (simp add: std_W.simps [of M t] LOAD32H_std)
    next
      case False
      have IH: "W t ! (t - k) = std_W M (t - k)" if "0 < k" "k \<le> 16" for k
        using that False less.prems by (intro less.IH) auto
      have "W n ! t = f (W t) t" using nth(3) [of t n] False less.prems by simp
      also have "\<dots> = Gamma1 (std_W M (t - 2)) + std_W M (t - 7) + Gamma0 (std_W M (t - 15)) + std_W M (t - 16)"
        unfolding f_def by (simp only: IH [of 2] IH [of 7] IH [of 15] IH [of 16])
      also have "\<dots> = std_W M t" using False by (simp only: std_W.simps [of M t] std_functions if_False)
      finally show ?thesis .
    qed
  qed
  from this [OF assms(2) order_refl] show ?thesis by (simp only: W_def f_def xs_def sha256_words_def)
qed

text \<open>The registers of round \<open>i\<close>, read from the array that is rotated by renaming.\<close>

definition regs_at :: "nat \<Rightarrow> u32 list \<Rightarrow> regs" where
  "regs_at i S = (S ! (7 * i mod 8), S ! ((1 + 7 * i) mod 8), S ! ((2 + 7 * i) mod 8), S ! ((3 + 7 * i) mod 8),
     S ! ((4 + 7 * i) mod 8), S ! ((5 + 7 * i) mod 8), S ! ((6 + 7 * i) mod 8), S ! ((7 + 7 * i) mod 8))"

lemma RND_idx:
  assumes "length S = 8" "r < 8" "\<And>k. (k + 7 * i) mod 8 = (k + r) mod 8"
  shows "regs_at (Suc i) (RND W S (i, ki)) = std_round ki (W ! i) (regs_at i S)"
proof -
  obtain s0 s1 s2 s3 s4 s5 s6 s7 where S: "S = [s0, s1, s2, s3, s4, s5, s6, s7]"
    using assms(1) by (auto simp: length_Suc_conv numeral_eq_Suc)
  have r': "(k + 7 * Suc i) mod 8 = (k + 7 + r) mod 8" for k
    using assms(3) [of "k + 7"] by (simp only: mult_Suc_right add.assoc)
  have r0: "7 * i mod 8 = (0 + r) mod 8" "7 * Suc i mod 8 = (0 + 7 + r) mod 8"
    using assms(3) [of 0] r' [of 0] by (simp_all only: add_0)
  have "r \<in> {0, 1, 2, 3, 4, 5, 6, 7}" using assms(2) by auto
  then show ?thesis unfolding RND_def regs_at_def prod.case assms(3) r' r0 S Let_def
    by (elim insertE emptyE; simp only:; simp add: std_functions std_Ch_Maj Let_def)
qed

lemma RND_std:
  assumes "length S = 8"
  shows "length (RND W S (i, ki)) = 8" "regs_at (Suc i) (RND W S (i, ki)) = std_round ki (W ! i) (regs_at i S)"
proof -
  show "length (RND W S (i, ki)) = 8" using assms by (simp add: RND_def Let_def)
  show "regs_at (Suc i) (RND W S (i, ki)) = std_round ki (W ! i) (regs_at i S)"
    by (rule RND_idx [OF assms, of "7 * i mod 8"]) (simp, rule mod_add_right_eq [symmetric])
qed

lemma cube_root_spec:
  assumes "0 \<le> m" "m < (2 ^ 35) ^ 3"
  shows "0 \<le> cube_root m \<and> cube_root m ^ 3 \<le> m \<and> m < (cube_root m + 1) ^ 3"
proof -
  let ?f = "\<lambda>r b. if (r + 2 ^ b) ^ 3 \<le> m then r + 2 ^ b else r :: int"
  have "0 \<le> foldl ?f r (rev [0..<n]) \<and> foldl ?f r (rev [0..<n]) ^ 3 \<le> m \<and> m < (foldl ?f r (rev [0..<n]) + 1) ^ 3"
    if "0 \<le> r" "r ^ 3 \<le> m" "m < (r + 2 ^ n) ^ 3" for r n
    using that
  proof (induction n arbitrary: r)
    case (Suc n)
    have "r + 2 ^ n + 2 ^ n = r + 2 ^ Suc n" by simp
    then have "m < (?f r n + 2 ^ n) ^ 3" using Suc.prems(3) by (simp only: not_le split: if_split) simp
    moreover have "0 \<le> ?f r n" "?f r n ^ 3 \<le> m" using Suc.prems(1,2) by simp_all
    ultimately show ?case using Suc.IH [of "?f r n"] by simp
  qed simp
  from this [of 0 35] assms show ?thesis by (simp add: cube_root_def)
qed

lemma cube_root_unique:
  assumes "0 \<le> r" "r ^ 3 \<le> m" "m < (r + 1) ^ 3" "m < (2 ^ 35) ^ 3"
  shows "cube_root m = r"
proof -
  have "0 \<le> m" using assms(1,2) by (meson order_trans zero_le_power)
  note c = cube_root_spec [OF this assms(4)]
  have "r ^ 3 < (cube_root m + 1) ^ 3" "cube_root m ^ 3 < (r + 1) ^ 3" using c assms(2,3) by linarith+
  then have "r < cube_root m + 1" "cube_root m < r + 1" using c assms(1) by (auto dest: power_less_imp_less_base)
  then show ?thesis by simp
qed

text \<open>
  A constant of the table against its prime: the fractional part of a root below 7.
\<close>

definition cube_root_frac :: "int \<Rightarrow> u32 \<Rightarrow> bool" where
  "cube_root_frac p k \<longleftrightarrow> p < 312 \<and>
     (\<exists>r\<in>{1, 2, 3, 4, 5, 6}. (r * 2 ^ 32 + uint k) ^ 3 \<le> p * 2 ^ 96 \<and> p * 2 ^ 96 < (r * 2 ^ 32 + uint k + 1) ^ 3)"

lemma cube_root_fracD:
  assumes "cube_root_frac p k"
  shows "word_of_int (cube_root (p * 2 ^ 96)) = k"
proof -
  from assms obtain r where r: "r \<in> {1, 2, 3, 4, 5, 6}" "(r * 2 ^ 32 + uint k) ^ 3 \<le> p * 2 ^ 96"
    "p * 2 ^ 96 < (r * 2 ^ 32 + uint k + 1) ^ 3" and p: "p < 312" unfolding cube_root_frac_def by blast
  have "0 \<le> r * 2 ^ 32 + uint k" using r(1) by auto
  moreover have "p * 2 ^ 96 < (2 ^ 35) ^ 3" using p by simp
  ultimately have "cube_root (p * 2 ^ 96) = r * 2 ^ 32 + uint k" using r(2,3) by (rule_tac cube_root_unique)
  moreover have "word_of_int (r * 2 ^ 32 + uint k) = (word_of_int (uint k) :: u32)"
    by (subst word_of_int_eq_iff) (simp add: take_bit_eq_mod)
  ultimately show ?thesis by simp
qed

lemma list_all2_map_eq:
  assumes "list_all2 R xs ys" "\<And>x y. R x y \<Longrightarrow> f x = y"
  shows "map f xs = ys"
  using assms(1) by (induction rule: list_all2_induct) (simp_all add: assms(2))

lemma round_constants: "map (\<lambda>p. word_of_int (cube_root (p * 2 ^ 96))) std_primes = map snd sha256_rounds"
proof -
  have "list_all2 cube_root_frac std_primes (map snd sha256_rounds)" by code_simp
  then show ?thesis by (rule list_all2_map_eq) (rule cube_root_fracD)
qed

lemma rounds_indexed: "map (\<lambda>t. (t, std_K t)) [0..<64] = sha256_rounds"
proof -
  have f: "map fst sha256_rounds = [0..<64]" unfolding sha256_rounds_def by (simp add: upt_conv_Cons)
  have "length sha256_rounds = 64" using arg_cong [OF f, of length] by simp
  moreover have "fst (sha256_rounds ! t) = t" if "t < 64" for t
    using arg_cong [OF f, of "\<lambda>l. l ! t"] calculation that by simp
  moreover have "std_K t = snd (sha256_rounds ! t)" if "t < 64" for t
    unfolding std_K_def round_constants using calculation(1) that by simp
  ultimately show ?thesis by (intro nth_equalityI) (simp_all add: prod_eq_iff)
qed

lemma RND_rounds:
  assumes "length S = 8"
  shows "length (foldl (RND W) S (map (\<lambda>t. (t, std_K t)) [0..<n])) = 8
    \<and> regs_at n (foldl (RND W) S (map (\<lambda>t. (t, std_K t)) [0..<n])) = foldl (\<lambda>r t. std_round (std_K t) (W ! t) r) (regs_at 0 S) [0..<n]"
  using assms by (induction n) (simp_all add: RND_std)

lemma regs_at_64: "regs_at 64 S = regs_at 0 S"
  by (simp add: regs_at_def)

lemma sha256_vcompress_std:
  assumes "length buf = 64" "length (md_state md) = 8"
  shows "length (md_state (sha256_vcompress md buf)) = 8"
    and "regs_at 0 (md_state (sha256_vcompress md buf)) = std_compress (regs_at 0 (md_state md)) buf"
proof -
  define S W where "S = map (\<lambda>i. md_state md ! i) [0..<8]" and "W = sha256_words buf"
  define F where "F = foldl (RND W) S sha256_rounds"
  have S: "S = md_state md" using assms(2) by (simp add: S_def list_eq_iff_nth_eq)
  have "regs_at 0 F = foldl (\<lambda>r t. std_round (std_K t) (W ! t) r) (regs_at 0 S) [0..<64]"
    using RND_rounds [of S W 64] assms(2) unfolding F_def S regs_at_64 rounds_indexed [symmetric] by (rule_tac conjunct2)
  also have "\<dots> = std_rounds buf (regs_at 0 (md_state md))"
    unfolding std_rounds_def S
    by (rule foldl_cong) (use assms(1) in \<open>auto simp: W_def sha256_words_std\<close>)
  finally have F: "regs_at 0 F = std_rounds buf (regs_at 0 (md_state md))" .
  have c: "md_state (sha256_vcompress md buf) = map (\<lambda>i. md_state md ! i + F ! i) [0..<8]"
  proof -
    have "md_state (md\<lparr>md_state := x\<rparr>) = x" for x by simp
    then show ?thesis by (simp only: sha256_vcompress_def Let_def F_def S_def W_def)
  qed
  show "length (md_state (sha256_vcompress md buf)) = 8" unfolding c by simp
  show "regs_at 0 (md_state (sha256_vcompress md buf)) = std_compress (regs_at 0 (md_state md)) buf"
    unfolding std_compress_def F [symmetric] c by (simp add: regs_at_def numeral_2_eq_2)
qed

lemma sha256_vcompress_simps [simp]:
  "md_length (sha256_vcompress md b) = md_length md" "md_curlen (sha256_vcompress md b) = md_curlen md"
  "md_buf (sha256_vcompress md b) = md_buf md"
  by (simp_all add: sha256_vcompress_def Let_def)

section \<open>The stream\<close>

lemma std_blocks_append:
  assumes "64 dvd length a"
  shows "std_blocks H (a @ b) = std_blocks (std_blocks H a) b"
proof -
  obtain n where "length a = 64 * n" using assms by (rule dvdE)
  then show ?thesis
  proof (induction n arbitrary: H a)
    case 0
    then show ?case by (simp add: std_blocks.simps [of H "[]"])
  next
    case (Suc n)
    then have l: "64 \<le> length a" "length (drop 64 a) = 64 * n" by simp_all
    then show ?case using Suc.IH [OF l(2)]
      by (simp add: std_blocks.simps [of H "a @ b"] std_blocks.simps [of H a])
  qed
qed

lemma std_blocks_one: "length b = 64 \<Longrightarrow> std_blocks H b = std_compress H b"
  by (simp add: std_blocks.simps [of H b] std_blocks.simps [of _ "[]"])

text \<open>
  The state after the bytes \<open>a @ b\<close>: the whole blocks \<open>a\<close> are compressed and counted, the rest
  \<open>b\<close> is in the buffer.
\<close>

definition compressed :: "sha256_vstate \<Rightarrow> bytes \<Rightarrow> bool" where
  "compressed md a \<longleftrightarrow> 64 dvd length a \<and> length (md_state md) = 8
     \<and> regs_at 0 (md_state md) = std_blocks std_init a \<and> md_length md = of_nat (8 * length a)"

definition absorbed :: "sha256_vstate \<Rightarrow> bytes \<Rightarrow> bytes \<Rightarrow> bool" where
  "absorbed md a b \<longleftrightarrow> compressed md a \<and> length b < 64 \<and> length (md_buf md) = 64
     \<and> md_curlen md = length b \<and> take (length b) (md_buf md) = b"

lemma absorbed_init:
  "length (md_buf md) = 64 \<Longrightarrow> absorbed (sha256_vinit md) [] []"
  by (simp add: absorbed_def compressed_def sha256_vinit_def regs_at_def std_blocks.simps std_init_def)

lemma compressed_block:
  assumes "compressed md a" "length c = 64"
    and "md_state md' = md_state (sha256_vcompress md c)" "md_length md' = md_length md + 512"
  shows "compressed md' (a @ c)"
  using assms sha256_vcompress_std [OF assms(2), of md]
  by (auto simp: compressed_def std_blocks_append std_blocks_one algebra_simps)

lemma vprocess_absorbs:
  assumes "absorbed md a b"
  shows "\<exists>a' b'. absorbed (sha256_vprocess_loop md inp) a' b' \<and> a' @ b' = a @ b @ inp"
  using assms
proof (induction md inp arbitrary: a b rule: sha256_vprocess_loop.induct)
  case (1 md inp)
  note abs = "1.prems" [unfolded absorbed_def]
  have cur: "\<not> (inp = [] \<or> 64 < md_curlen md)" if "inp \<noteq> []" using abs that by simp
  consider (nil) "inp = []" | (block) "inp \<noteq> []" "md_curlen md = 0 \<and> 64 \<le> length inp"
    | (fill) "inp \<noteq> []" "\<not> (md_curlen md = 0 \<and> 64 \<le> length inp)" by blast
  then show ?case
  proof cases
    case nil
    then show ?thesis using "1.prems" by (auto simp: sha256_vprocess_loop.simps [of md])
  next
    case block
    let ?c = "sha256_vcompress md (take 64 inp)"
    let ?md = "?c\<lparr>md_length := md_length ?c + 64 * 8\<rparr>"
    have "compressed ?md (a @ take 64 inp)"
      using abs block by (intro compressed_block [of md]) simp_all
    then have "absorbed ?md (a @ take 64 inp) []" using abs block by (simp add: absorbed_def)
    from "1.IH"(1) [OF cur [OF block(1)] block(2) refl this]
    obtain a' b' where "absorbed (sha256_vprocess_loop ?md (drop 64 inp)) a' b'"
      "a' @ b' = (a @ take 64 inp) @ [] @ drop 64 inp" by blast
    moreover have "sha256_vprocess_loop md inp = sha256_vprocess_loop ?md (drop 64 inp)"
      using block cur by (subst sha256_vprocess_loop.simps) (simp add: Let_def)
    ultimately show ?thesis using abs block by auto
  next
    case fill
    define n where "n = min (length inp) (64 - md_curlen md)"
    define m1 where "m1 = md\<lparr>md_buf := buf_write (md_curlen md) (take n inp) (md_buf md)\<rparr>"
    define m2 where "m2 = m1\<lparr>md_curlen := md_curlen m1 + n\<rparr>"
    define m3 where "m3 = (if md_curlen m2 = 64
        then (sha256_vcompress m2 (md_buf m2))\<lparr>md_length := md_length m2 + 8 * 64, md_curlen := 0\<rparr> else m2)"
    have n: "length (take n inp) = n" "length b + n \<le> 64" using abs by (auto simp: n_def)
    have buf: "take (length b + n) (md_buf m2) = b @ take n inp" "length (md_buf m2) = 64"
      using abs n by (simp_all add: m1_def m2_def buf_write_def)
    have m2: "compressed m2 a" "md_curlen m2 = length b + n"
      using abs by (simp_all add: m1_def m2_def compressed_def)
    have step: "sha256_vprocess_loop md inp = sha256_vprocess_loop m3 (drop n inp)"
      by (subst sha256_vprocess_loop.simps)
        (simp only: cur [OF fill(1)] fill(2) Let_def n_def m1_def m2_def m3_def if_False simp_thms)
    note IH = "1.IH"(2) [OF cur [OF fill(1)] fill(2) n_def m1_def m2_def m3_def]
    show ?thesis
    proof (cases "length b + n = 64")
      case True
      then have "compressed m3 (a @ b @ take n inp)"
        using m2 buf by (intro compressed_block [of m2]) (simp_all add: m3_def)
      then have "absorbed m3 (a @ b @ take n inp) []" using True m2 buf by (simp add: absorbed_def m3_def)
      from IH [OF this] show ?thesis unfolding step by auto
    next
      case False
      then have "absorbed m3 a (b @ take n inp)" using m2 buf n by (simp add: absorbed_def m3_def)
      from IH [OF this] show ?thesis unfolding step by auto
    qed
  qed
qed

section \<open>Padding and output\<close>

lemma bit_of_nat_word_iff: "bit (of_nat n :: 'a::len word) m \<longleftrightarrow> m < LENGTH('a) \<and> bit n m"
  by transfer (simp add: bit_take_bit_iff bit_of_nat_iff)

lemma store_byte:
  assumes "k + 8 \<le> LENGTH('a::len)"
  shows "(ucast (drop_bit k (of_nat n :: 'a word) AND 255) :: u8) = of_nat (n div 2 ^ k)"
proof -
  have m: "255 = (mask 8 :: 'a word)" by (simp add: mask_numeral)
  have d: "n div 2 ^ k = drop_bit k n" by (simp add: drop_bit_eq_div)
  show ?thesis unfolding m d
    using assms by (intro bit_word_eqI) (auto simp: bit_ucast_iff bit_and_iff bit_drop_bit_eq bit_mask_iff bit_of_nat_word_iff)
qed

lemma STORE64H_be: "STORE64H (of_nat n) = be_bytes 8 n"
  using store_byte [of 56 n, where 'a = 64] store_byte [of 48 n, where 'a = 64] store_byte [of 40 n, where 'a = 64]
    store_byte [of 32 n, where 'a = 64] store_byte [of 24 n, where 'a = 64] store_byte [of 16 n, where 'a = 64]
    store_byte [of 8 n, where 'a = 64] store_byte [of 0 n, where 'a = 64]
  by (simp add: STORE64H_def be_bytes_def upt_rec)

lemma STORE32H_be: "STORE32H x = be_bytes 4 (unat x)"
proof -
  have x: "x = of_nat (unat x)" by (simp only: of_nat_unat ucast_id)
  show ?thesis
    using store_byte [of 24 "unat x", where 'a = 32, folded x] store_byte [of 16 "unat x", where 'a = 32, folded x]
      store_byte [of 8 "unat x", where 'a = 32, folded x] store_byte [of 0 "unat x", where 'a = 32, folded x]
    by (simp add: STORE32H_def be_bytes_def upt_rec)
qed

lemma store_loop:
  assumes "\<And>i. length (f i) = 4" "4 * n \<le> length out"
  shows "foldl (\<lambda>out i. buf_write (4 * i) (f i) out) out [0..<n] = concat (map f [0..<n]) @ drop (4 * n) out"
  using assms(2)
proof (induction n)
  case (Suc n)
  have "length (concat (map f [0..<n])) = 4 * n" using assms(1) by (induction n) simp_all
  with Suc show ?case by (simp add: buf_write_def assms(1))
qed simp

lemma sha256_vpad_buf:
  assumes "md_curlen md \<le> limit" "limit \<le> length (md_buf md)"
  shows "sha256_vpad limit md = md\<lparr>md_buf := take (md_curlen md) (md_buf md) @ replicate (limit - md_curlen md) 0
      @ drop limit (md_buf md), md_curlen := limit\<rparr>"
  using assms
proof (induction limit md rule: sha256_vpad.induct)
  case (1 limit md)
  show ?case
  proof (cases "md_curlen md < limit")
    case True
    let ?c = "md_curlen md"
    let ?md = "md\<lparr>md_buf := (md_buf md)[?c := 0], md_curlen := ?c + 1\<rparr>"
    have "replicate (limit - ?c) (0::u8) = 0 # replicate (limit - Suc ?c) 0"
      using True by (metis Suc_diff_Suc replicate_Suc)
    moreover have "take (Suc ?c) ((md_buf md)[?c := 0]) = take ?c (md_buf md) @ [0]"
      using True "1.prems" by (simp add: take_Suc_conv_app_nth)
    ultimately show ?thesis using "1.IH" True "1.prems" by (simp add: sha256_vpad.simps [of limit md])
  next
    case False
    then show ?thesis using "1.prems" by (simp add: sha256_vpad.simps [of limit md])
  qed
qed

text \<open>The last block, and the block before it when the length does not fit behind the rest.\<close>

lemma std_pad_blocks:
  assumes "64 dvd length a" "length b < 64"
  defines "len \<equiv> be_bytes 8 (8 * length (a @ b))"
  shows "std_blocks H (std_pad (a @ b)) =
    (if length b < 56 then std_compress (std_blocks H a) (b @ [0x80] @ replicate (55 - length b) 0 @ len)
     else std_compress (std_compress (std_blocks H a) (b @ [0x80] @ replicate (63 - length b) 0)) (replicate 56 0 @ len))"
proof -
  have l8: "length len = 8" by (simp add: len_def be_bytes_def)
  have m: "length (a @ b) mod 64 = length b" using assms(1,2) by auto
  show ?thesis
  proof (cases "length b < 56")
    case True
    then have "(119 - length b) mod 64 = 55 - length b" by (simp add: le_mod_geq)
    then have "std_pad (a @ b) = a @ (b @ [0x80] @ replicate (55 - length b) 0 @ len)"
      unfolding std_pad_def m len_def by simp
    with True l8 show ?thesis by (simp add: std_blocks_append [OF assms(1)] std_blocks_one)
  next
    case False
    then have "(119 - length b) mod 64 = (63 - length b) + 56" using assms(2) by simp
    then have "std_pad (a @ b) = a @ (b @ [0x80] @ replicate (63 - length b) 0) @ replicate 56 0 @ len"
      unfolding std_pad_def m len_def by (simp only: replicate_add append_assoc)
    with False l8 assms(2) show ?thesis
      by (simp add: std_blocks_append [OF assms(1)] std_blocks_append std_blocks_one del: append_assoc append.simps)
  qed
qed

lemma sha256_vdone_std:
  assumes "absorbed md a b" "length out = 32"
  shows "\<exists>md'. sha256_vdone md out = (0, md', sha256_std (a @ b))"
proof -
  note abs = assms(1) [unfolded absorbed_def compressed_def]
  define N where "N = 8 * length (a @ b)"
  define len where "len = be_bytes 8 N"
  define m1 where "m1 = md\<lparr>md_length := md_length md + of_nat (md_curlen md * 8)\<rparr>"
  define m2 where "m2 = m1\<lparr>md_buf := (md_buf m1)[md_curlen m1 := 0x80], md_curlen := md_curlen m1 + 1\<rparr>"
  define m3 where "m3 = (if 56 < md_curlen m2
      then let md = sha256_vpad 64 m2; md = sha256_vcompress md (md_buf md) in md\<lparr>md_curlen := 0\<rparr> else m2)"
  define m4 where "m4 = sha256_vpad 56 m3"
  define m5 where "m5 = m4\<lparr>md_buf := buf_write 56 (STORE64H (md_length m4)) (md_buf m4)\<rparr>"
  define m6 where "m6 = sha256_vcompress m5 (md_buf m5)"
  have l8: "length len = 8" by (simp add: len_def be_bytes_def)
  have m2: "take (md_curlen m2) (md_buf m2) = b @ [0x80]" "md_curlen m2 = length b + 1" "length (md_buf m2) = 64"
    "md_length m2 = of_nat N" "md_state m2 = md_state md"
    using abs by (simp_all add: m1_def m2_def N_def take_Suc_conv_app_nth algebra_simps)
  have wr: "buf_write 56 len (x @ y) = x @ len" if "length x = 56" "length y = 8" for x y
    using that l8 by (simp add: buf_write_def)
  have regs: "regs_at 0 (md_state m6) = std_blocks std_init (std_pad (a @ b)) \<and> length (md_state m6) = 8"
  proof (cases "length b < 56")
    case True
    then have "m3 = m2" using m2(2) by (simp add: m3_def)
    then have "md_buf m4 = b @ [0x80] @ replicate (55 - length b) 0 @ drop 56 (md_buf m2)" "md_state m4 = md_state md"
      "md_length m4 = of_nat N"
      using True m2 sha256_vpad_buf [of m2 56] by (simp_all add: m4_def)
    then have "md_buf m5 = b @ [0x80] @ replicate (55 - length b) 0 @ len" "md_state m5 = md_state md"
      using True m2(3) l8 wr [of "b @ [0x80] @ replicate (55 - length b) 0" "drop 56 (md_buf m2)"]
      by (simp_all add: m5_def STORE64H_be len_def)
    with sha256_vcompress_std [of "md_buf m5" m5] True abs l8 show ?thesis
      by (simp add: m6_def std_pad_blocks len_def N_def)
  next
    case False
    let ?p = "b @ [0x80] @ replicate (63 - length b) 0"
    have p: "sha256_vpad 64 m2 = m2\<lparr>md_buf := ?p, md_curlen := 64\<rparr>"
      using m2 abs sha256_vpad_buf [of m2 64] by simp
    then have m3: "md_buf m3 = ?p" "md_curlen m3 = 0" "md_length m3 = of_nat N"
      "md_state m3 = md_state (sha256_vcompress (m2\<lparr>md_buf := ?p, md_curlen := 64\<rparr>) ?p)"
      using False m2 by (simp_all add: m3_def Let_def)
    have lp: "length ?p = 64" using abs by simp
    have r3: "regs_at 0 (md_state m3) = std_compress (std_blocks std_init a) ?p" "length (md_state m3) = 8"
      unfolding m3(4) using sha256_vcompress_std [OF lp, of "m2\<lparr>md_buf := ?p, md_curlen := 64\<rparr>"] m2(5) abs by simp_all
    have "md_buf m4 = replicate 56 0 @ drop 56 ?p" "md_state m4 = md_state m3" "md_length m4 = md_length m3"
      using sha256_vpad_buf [of m3 56] m3 lp by (simp_all add: m4_def del: append.simps append_assoc)
    then have "md_buf m5 = replicate 56 0 @ len" "md_state m5 = md_state m3"
      using m3(3) l8 lp wr [of "replicate 56 0" "drop 56 ?p"] by (simp_all add: m5_def STORE64H_be len_def)
    with sha256_vcompress_std [of "md_buf m5" m5] r3 False abs l8 show ?thesis
      by (simp add: m6_def std_pad_blocks len_def N_def)
  qed
  have "foldl (\<lambda>out i. buf_write (4 * i) (STORE32H (md_state m6 ! i)) out) out [0..<8]
      = concat (map (\<lambda>i. STORE32H (md_state m6 ! i)) [0..<8])"
    using store_loop [of "\<lambda>i. STORE32H (md_state m6 ! i)" 8 out] assms(2) by (simp add: STORE32H_def)
  also have "\<dots> = regs_bytes (regs_at 0 (md_state m6))"
    by (simp add: regs_at_def STORE32H_be upt_rec numeral_2_eq_2)
  also have "\<dots> = sha256_std (a @ b)" using regs by (simp add: sha256_std_def)
  finally have out: "foldl (\<lambda>out i. buf_write (4 * i) (STORE32H (md_state m6 ! i)) out) out [0..<8] = sha256_std (a @ b)" .
  have short: "\<not> 64 \<le> md_curlen md" using abs by simp
  have "sha256_vdone md out = (0, m6, foldl (\<lambda>out i. buf_write (4 * i) (STORE32H (md_state m6 ! i)) out) out [0..<8])"
    by (simp only: sha256_vdone_def short if_False Let_def m1_def m2_def m3_def m4_def m5_def m6_def)
  with out show ?thesis by simp
qed

section \<open>The hash functions\<close>

lemma fresh_absorbed: "absorbed (sha256_vinit md_fresh) [] []"
  by (rule absorbed_init) (simp add: md_fresh_def)

lemma vprocess_absorbed:
  assumes "absorbed md a b"
  obtains md' a' b' where "sha256_vprocess md inp = (0, md')" "absorbed md' a' b'" "a' @ b' = a @ b @ inp"
proof -
  have "\<not> 64 < md_curlen md" using assms by (simp add: absorbed_def)
  then show ?thesis using vprocess_absorbs [OF assms, of inp] that by (auto simp: sha256_vprocess_def)
qed

lemma vcalc_sha256_std:
  assumes "length hash = 32"
  shows "vcalc_sha256 hash m = sha256_std m"
proof -
  obtain md a b where p: "sha256_vprocess (sha256_vinit md_fresh) m = (0, md)" "absorbed md a b" "a @ b = m"
    using vprocess_absorbed [OF fresh_absorbed, of m] by auto
  obtain md' where "sha256_vdone md hash = (0, md', sha256_std m)"
    using sha256_vdone_std [OF p(2) assms] p(3) by auto
  with p(1) show ?thesis by (simp add: vcalc_sha256_def)
qed

lemma vcalc_sha256cat_std:
  assumes "length hash = 32"
  shows "vcalc_sha256cat hash m (Some n) = sha256_std (m @ n)" "vcalc_sha256cat hash m None = sha256_std m"
proof -
  obtain md a b where p: "sha256_vprocess (sha256_vinit md_fresh) m = (0, md)" "absorbed md a b" "a @ b = m"
    using vprocess_absorbed [OF fresh_absorbed, of m] by auto
  obtain md1 a1 b1 where q: "sha256_vprocess md n = (0, md1)" "absorbed md1 a1 b1" "a1 @ b1 = m @ n"
    using vprocess_absorbed [OF p(2), of n] p(3) by (metis append.assoc)
  obtain md2 where d: "sha256_vdone md1 hash = (0, md2, sha256_std (m @ n))"
    using sha256_vdone_std [OF q(2) assms] q(3) by auto
  from p(1) q(1) d show "vcalc_sha256cat hash m (Some n) = sha256_std (m @ n)" by (simp add: vcalc_sha256cat_def)
  obtain md3 where "sha256_vdone md hash = (0, md3, sha256_std m)"
    using sha256_vdone_std [OF p(2) assms] p(3) by auto
  with p(1) show "vcalc_sha256cat hash m None = sha256_std m" by (simp add: vcalc_sha256cat_def)
qed

text \<open>A stream of pieces: the first call starts it, every further call absorbs a piece.\<close>

fun vupdate_stream :: "bytes \<Rightarrow> sha256_vstate \<Rightarrow> bytes list \<Rightarrow> bytes \<times> sha256_vstate" where
  "vupdate_stream hash st [] = (hash, st)"
| "vupdate_stream hash st (p # ps) = (let (hash, st) = vupdate_sha256 hash st (Some p) in vupdate_stream hash st ps)"

lemma vupdate_piece:
  assumes "absorbed st a b" "length hash = 32"
  obtains st' a' b' where "vupdate_sha256 hash st (Some p) = (sha256_std (a @ b @ p), st')" "absorbed st' a' b'" "a' @ b' = a @ b @ p"
proof -
  obtain md a' b' where p: "sha256_vprocess st p = (0, md)" "absorbed md a' b'" "a' @ b' = a @ b @ p"
    using vprocess_absorbed [OF assms(1)] .
  obtain md' where "sha256_vdone md hash = (0, md', sha256_std (a @ b @ p))"
    using sha256_vdone_std [OF p(2) assms(2)] p(3) by auto
  with p that show ?thesis by (simp add: vupdate_sha256_def)
qed

lemma length_sha256_std: "length (sha256_std m) = 32"
proof -
  have "length (regs_bytes r) = 32" for r by (cases r rule: regs_bytes.cases) (simp add: be_bytes_def)
  then show ?thesis by (simp add: sha256_std_def)
qed

lemma vupdate_stream_std:
  assumes "absorbed st a b" "hash = sha256_std (a @ b)"
  shows "fst (vupdate_stream hash st ps) = sha256_std (a @ b @ concat ps)"
  using assms
proof (induction ps arbitrary: hash st a b)
  case (Cons p ps)
  have "length hash = 32" using Cons.prems(2) by (simp add: length_sha256_std)
  with Cons.prems(1) obtain st' a' b' where u: "vupdate_sha256 hash st (Some p) = (sha256_std (a @ b @ p), st')"
    "absorbed st' a' b'" "a' @ b' = a @ b @ p"
    by (rule vupdate_piece)
  have "fst (vupdate_stream (sha256_std (a @ b @ p)) st' ps) = sha256_std (a' @ b' @ concat ps)"
    using u(2,3) by (intro Cons.IH) simp_all
  also have "a' @ b' @ concat ps = a @ b @ concat (p # ps)" using u(3) by (simp flip: append_assoc)
  finally show ?case using u(1) by simp
qed simp

lemma vupdate_start:
  assumes "length hash = 32"
  shows "vupdate_sha256 hash st None = (sha256_std [], sha256_vinit md_fresh)"
  using sha256_vdone_std [OF fresh_absorbed assms] by (auto simp: vupdate_sha256_def)

section \<open>Properties\<close>

text \<open>
  C11. The streaming hash is SHA-256: the hash of a buffer, of two buffers one after the other and
  of a stream of pieces, however the message is cut, is the standard's hash of the whole
  message, whatever the output buffer held before.
\<close>

theorem sha256_streaming_correct:
  assumes "length hash = 32"
  shows "vcalc_sha256 hash m = sha256_std m \<and> vcalc_sha256cat hash m (Some n) = sha256_std (m @ n)
    \<and> fst (let (hash, st) = vupdate_sha256 hash st None in vupdate_stream hash st ps) = sha256_std (concat ps)"
  using vcalc_sha256_std [OF assms] vcalc_sha256cat_std [OF assms] vupdate_start [OF assms]
    vupdate_stream_std [OF fresh_absorbed, of "sha256_std []" ps]
  by simp

theorem sha256_streaming_correct_witness:
  "vcalc_sha256 (replicate 32 0) [0x61, 0x62, 0x63] = sha256_std [0x61, 0x62, 0x63]
   \<and> vcalc_sha256cat (replicate 32 0) [0x61] (Some [0x62, 0x63]) = sha256_std ([0x61] @ [0x62, 0x63])"
  using sha256_streaming_correct [OF length_replicate, of 0 "[0x61, 0x62, 0x63]"]
    sha256_streaming_correct [OF length_replicate, of 0 "[0x61]" "[0x62, 0x63]"]
  by (simp only: simp_thms)

end
