(* ===== verification/Interpolation.thy ===== *)
theory Interpolation
  imports Prelude
begin

text \<open>
  Lagrange interpolation at zero over an arbitrary field, the mathematics behind the
  threshold sharing of \<^verbatim>\<open>libgfshare.c\<close>: a polynomial of degree below the number of
  nodes is determined at zero by its values at the nodes.
\<close>

section \<open>Polynomial functions of bounded degree\<close>

fun polyn :: "nat \<Rightarrow> ('a::field \<Rightarrow> 'a) \<Rightarrow> bool" where
  "polyn 0 f \<longleftrightarrow> (\<forall>x. f x = 0)"
| "polyn (Suc n) f \<longleftrightarrow> (\<exists>g c. polyn n g \<and> (\<forall>x. f x = g x * x + c))"

lemma polyn_zero [simp]: "polyn n (\<lambda>_. 0)"
  by (induction n) (auto intro!: exI [of _ "\<lambda>_. 0"])

lemma polyn_SucI: "polyn n f \<Longrightarrow> polyn (Suc n) f"
proof (induction n arbitrary: f)
  case 0
  then show ?case by (auto intro!: exI [of _ f] exI [of _ 0])
next
  case (Suc n)
  then obtain g c where g: "polyn n g" and f: "\<forall>x. f x = g x * x + c" by auto
  from Suc.IH [OF g] have "polyn (Suc n) g" .
  with f show ?case by (subst polyn.simps(2)) blast
qed

lemma polyn_le: "polyn m f \<Longrightarrow> m \<le> n \<Longrightarrow> polyn n f"
  by (induction n) (auto simp del: polyn.simps simp: le_Suc_eq intro: polyn_SucI)

lemma polyn_add_scaled: "polyn n f \<Longrightarrow> polyn n g \<Longrightarrow> polyn n (\<lambda>x. f x + a * g x)"
proof (induction n arbitrary: f g)
  case (Suc n)
  obtain p c where p: "polyn n p" "\<forall>x. f x = p x * x + c" using Suc.prems(1) by auto
  obtain q d where q: "polyn n q" "\<forall>x. g x = q x * x + d" using Suc.prems(2) by auto
  have "polyn n (\<lambda>x. p x + a * q x)" by (rule Suc.IH) fact+
  moreover have "\<forall>x. f x + a * g x = (p x + a * q x) * x + (c + a * d)"
    by (simp add: p q algebra_simps)
  ultimately show ?case by (subst polyn.simps(2)) blast
qed simp

text \<open>Division by a linear factor: the remainder is the value at the node.\<close>

lemma polyn_divide:
  "polyn (Suc n) f \<Longrightarrow> \<exists>q. polyn n q \<and> (\<forall>x. f x = f a + (x - a) * q x)"
proof (induction n arbitrary: f)
  case 0
  then show ?case by (auto intro!: exI [of _ "\<lambda>_. 0"])
next
  case (Suc n)
  obtain g c where g: "polyn (Suc n) g" and f: "\<And>x. f x = g x * x + c"
    using Suc.prems by (subst (asm) polyn.simps(2)) blast
  from Suc.IH [OF g] obtain h where h: "polyn n h" and gh: "\<And>x. g x = g a + (x - a) * h x" by blast
  let ?q = "\<lambda>x. g x + a * h x"
  have "polyn (Suc n) ?q" by (rule polyn_add_scaled [OF g polyn_SucI [OF h]])
  moreover have "\<forall>x. f x = f a + (x - a) * ?q x"
  proof
    fix x
    have "a * (g x - g a) = a * ((x - a) * h x)" by (simp add: gh [of x])
    then show "f x = f a + (x - a) * ?q x" by (simp add: f algebra_simps)
  qed
  ultimately show ?case by blast
qed

text \<open>Horner evaluation, leading coefficient first.\<close>

definition horner :: "'a::field list \<Rightarrow> 'a \<Rightarrow> 'a" where
  "horner cs x = foldl (\<lambda>acc c. acc * x + c) 0 cs"

lemma horner_Nil [simp]: "horner [] x = 0"
  by (simp add: horner_def)

lemma horner_snoc [simp]: "horner (cs @ [c]) x = horner cs x * x + c"
  by (simp add: horner_def)

lemma polyn_horner: "polyn (length cs) (horner cs)"
  by (induction cs rule: rev_induct) (auto intro: exI)

section \<open>Interpolation at zero\<close>

definition lagrange0 :: "'a::field set \<Rightarrow> ('a \<Rightarrow> 'a) \<Rightarrow> 'a" where
  "lagrange0 S f = (\<Sum>i\<in>S. f i * (\<Prod>j\<in>S - {i}. j / (j - i)))"

lemma lagrange0_empty [simp]: "lagrange0 {} f = 0"
  by (simp add: lagrange0_def)

lemma weight_insert:
  assumes "finite S" "a \<notin> S" "i \<in> S"
  shows "(\<Prod>j\<in>insert a S - {i}. j / (j - i)) = a / (a - i) * (\<Prod>j\<in>S - {i}. j / (j - i))"
proof -
  have "insert a S - {i} = insert a (S - {i})" using assms by auto
  with assms show ?thesis by simp
qed

lemma lagrange0_insert:
  assumes "finite S" "a \<notin> S"
  shows "lagrange0 (insert a S) f =
    f a * (\<Prod>j\<in>S. j / (j - a)) + (\<Sum>i\<in>S. f i * (a / (a - i)) * (\<Prod>j\<in>S - {i}. j / (j - i)))"
  using assms by (simp add: lagrange0_def weight_insert mult.assoc)

lemma nevilleterm:
  fixes a b i p :: "'a::field"
  assumes "a \<noteq> b" "a \<noteq> i" "b \<noteq> i"
  shows "(b / (b - i)) * (a / (a - i)) * p
    = (b * ((a / (a - i)) * p) - a * ((b / (b - i)) * p)) / (b - a)"
proof -
  have nz: "b - i \<noteq> 0" "a - i \<noteq> 0" "b - a \<noteq> 0" using assms by auto
  then have "(b * ((a / (a - i)) * p) - a * ((b / (b - i)) * p)) / (b - a)
      = (b * a * p * (b - i) - a * b * p * (a - i)) / ((a - i) * (b - i) * (b - a))"
    by (simp add: divide_simps)
  also have "\<dots> = (b * a * p * (b - a)) / ((a - i) * (b - i) * (b - a))"
    by (simp add: algebra_simps)
  also have "\<dots> = (b / (b - i)) * (a / (a - i)) * p" using nz by simp
  finally show ?thesis by simp
qed

text \<open>Neville's recursion, at zero.\<close>

lemma lagrange0_neville:
  assumes fin: "finite T" and new: "a \<notin> T" "b \<notin> T" "a \<noteq> b"
  shows "lagrange0 (insert a (insert b T)) (\<lambda>_. 1) =
    (b * lagrange0 (insert a T) (\<lambda>_. 1) - a * lagrange0 (insert b T) (\<lambda>_. 1)) / (b - a)"
proof -
  define P where "P i = (\<Prod>j\<in>T - {i}. j / (j - i))" for i
  define A where "A = (\<Prod>j\<in>T. j / (j - a))"
  define B where "B = (\<Prod>j\<in>T. j / (j - b))"
  have nz: "b - a \<noteq> 0" using new by auto
  have a: "lagrange0 (insert a T) (\<lambda>_. 1) = A + (\<Sum>i\<in>T. a / (a - i) * P i)"
    using fin new by (simp add: lagrange0_insert A_def P_def)
  have b: "lagrange0 (insert b T) (\<lambda>_. 1) = B + (\<Sum>i\<in>T. b / (b - i) * P i)"
    using fin new by (simp add: lagrange0_insert B_def P_def)
  have "(\<Sum>i\<in>insert b T. 1 * (a / (a - i)) * (\<Prod>j\<in>insert b T - {i}. j / (j - i)))
      = a / (a - b) * B + (\<Sum>i\<in>T. (b / (b - i)) * (a / (a - i)) * P i)"
    using fin new by (simp add: B_def P_def weight_insert mult_ac)
  then have ab: "lagrange0 (insert a (insert b T)) (\<lambda>_. 1)
      = b / (b - a) * A + (a / (a - b) * B + (\<Sum>i\<in>T. (b / (b - i)) * (a / (a - i)) * P i))"
    using fin new by (simp add: lagrange0_insert A_def)
  have "(\<Sum>i\<in>T. (b / (b - i)) * (a / (a - i)) * P i)
      = (\<Sum>i\<in>T. (b * ((a / (a - i)) * P i) - a * ((b / (b - i)) * P i)) / (b - a))"
    using new by (intro sum.cong refl nevilleterm) auto
  also have "\<dots> = (b * (\<Sum>i\<in>T. a / (a - i) * P i) - a * (\<Sum>i\<in>T. b / (b - i) * P i)) / (b - a)"
    by (simp only: sum_divide_distrib [symmetric] sum_subtractf sum_distrib_left)
  finally have s: "(\<Sum>i\<in>T. (b / (b - i)) * (a / (a - i)) * P i)
      = (b * (\<Sum>i\<in>T. a / (a - i) * P i) - a * (\<Sum>i\<in>T. b / (b - i) * P i)) / (b - a)" .
  have "a / (a - b) = - (a / (b - a))" by (metis minus_diff_eq minus_divide_right)
  then show ?thesis
    unfolding ab a b s
    by (simp add: algebra_simps add_divide_distrib diff_divide_distrib)
qed

lemma lagrange0_one: "finite S \<Longrightarrow> S \<noteq> {} \<Longrightarrow> lagrange0 S (\<lambda>_. 1) = 1"
proof (induction "card S" arbitrary: S rule: less_induct)
  case less
  from less.prems obtain a R where S: "S = insert a R" "a \<notin> R"
    by (metis all_not_in_conv mk_disjoint_insert)
  show ?case
  proof (cases "R = {}")
    case True
    then show ?thesis by (simp add: S lagrange0_def)
  next
    case False
    then obtain b T where R: "R = insert b T" "b \<notin> T" by (metis all_not_in_conv mk_disjoint_insert)
    have fin: "finite T" using less.prems S R by simp
    have "lagrange0 (insert a T) (\<lambda>_. 1) = 1" "lagrange0 (insert b T) (\<lambda>_. 1) = 1"
      using S R fin by (auto intro!: less.hyps)
    moreover have "b - a \<noteq> 0" using S R by auto
    ultimately show ?thesis
      using lagrange0_neville [OF fin, of a b] S R by auto
  qed
qed

theorem lagrange0_polyn:
  "finite S \<Longrightarrow> polyn (card S) f \<Longrightarrow> lagrange0 S f = f 0"
proof (induction S arbitrary: f rule: finite_induct)
  case (insert a T)
  from insert.prems insert.hyps have "polyn (Suc (card T)) f" by simp
  then obtain q where q: "polyn (card T) q" and fq: "\<And>x. f x = f a + (x - a) * q x"
    using polyn_divide by blast
  have step: "((i - a) * q i) * (a / (a - i)) * p = - a * (q i * p)" if "i \<in> T" for i p
  proof -
    have "a - i \<noteq> 0" using that insert.hyps by auto
    then have "(i - a) * (a / (a - i)) = - a" by (simp add: field_simps)
    then show ?thesis by (metis mult.assoc mult.commute)
  qed
  have "lagrange0 (insert a T) (\<lambda>x. (x - a) * q x) = (\<Sum>i\<in>T. - a * (q i * (\<Prod>j\<in>T - {i}. j / (j - i))))"
    unfolding lagrange0_insert [OF insert.hyps]
    by (simp only: diff_self mult_zero_left add_0_left) (intro sum.cong refl step)
  also have "\<dots> = - a * lagrange0 T q"
    by (simp only: lagrange0_def sum_distrib_left)
  finally have lin: "lagrange0 (insert a T) (\<lambda>x. (x - a) * q x) = - a * q 0"
    using insert.IH [OF q] by simp
  have "f = (\<lambda>x. f a * 1 + (x - a) * q x)"
    by (rule ext) (simp flip: fq)
  then have "lagrange0 (insert a T) f = lagrange0 (insert a T) (\<lambda>x. f a * 1 + (x - a) * q x)"
    by (rule arg_cong)
  also have "\<dots> = f a * lagrange0 (insert a T) (\<lambda>_. 1) + lagrange0 (insert a T) (\<lambda>x. (x - a) * q x)"
    unfolding lagrange0_def by (simp only: distrib_right sum.distrib sum_distrib_left mult.assoc)
  also have "\<dots> = f 0"
    using insert.hyps by (simp add: lagrange0_one lin fq [of 0])
  finally show ?case .
qed simp

section \<open>Existence of interpolants\<close>

lemma polyn_linear_factor: "polyn n f \<Longrightarrow> polyn (Suc n) (\<lambda>x. (x - a) * f x)"
proof -
  assume f: "polyn n f"
  then have "polyn (Suc n) (\<lambda>x. f x * x + 0)" by (subst polyn.simps(2)) blast
  from polyn_add_scaled [OF this polyn_SucI [OF f], of "- a"] show ?thesis
    by (simp add: algebra_simps)
qed

lemma polyn_const_mult: "polyn n f \<Longrightarrow> polyn n (\<lambda>x. c * f x)"
  using polyn_add_scaled [of n "\<lambda>_. 0" f c] by simp

lemma polyn_node_product: "finite S \<Longrightarrow> polyn (Suc (card S)) (\<lambda>x. \<Prod>j\<in>S. x - j)"
proof (induction S rule: finite_induct)
  case empty
  show ?case by (auto intro!: exI [of _ "\<lambda>_. 0"])
next
  case (insert a S)
  from polyn_linear_factor [OF insert.IH, of a] insert.hyps show ?case by (simp del: polyn.simps)
qed

lemma interpolant_exists:
  "finite S \<Longrightarrow> \<exists>f. polyn (card S) f \<and> (\<forall>x\<in>S. f x = (g x :: 'a::field))"
proof (induction S rule: finite_induct)
  case empty
  show ?case by (auto intro!: exI [of _ "\<lambda>_. 0"])
next
  case (insert a S)
  then obtain f where f: "polyn (card S) f" "\<forall>x\<in>S. f x = g x" by blast
  let ?w = "\<lambda>x. \<Prod>j\<in>S. x - j"
  let ?c = "(g a - f a) / ?w a"
  have nz: "?w a \<noteq> 0" using insert.hyps by auto
  have "?w x = 0" if "x \<in> S" for x using insert.hyps that by auto
  then have "\<forall>x\<in>insert a S. f x + ?c * ?w x = g x" using f nz by auto
  moreover have "polyn (card (insert a S)) (\<lambda>x. f x + ?c * ?w x)"
    using polyn_add_scaled [OF polyn_SucI [OF f(1)] polyn_node_product [OF insert.hyps(1)], of ?c] insert.hyps
    by (simp del: polyn.simps)
  ultimately show ?case by blast
qed

lemma polyn_horner_exists: "polyn n f \<Longrightarrow> \<exists>cs. length cs = n \<and> (\<forall>x. f x = horner cs x)"
proof (induction n arbitrary: f)
  case (Suc n)
  then obtain g c where g: "polyn n g" "\<forall>x. f x = g x * x + c" by auto
  from Suc.IH [OF g(1)] obtain cs where "length cs = n" "\<forall>x. g x = horner cs x" by blast
  with g show ?case by (intro exI [of _ "cs @ [c]"]) simp
qed simp

text \<open>
  Through fewer nodes than coefficients, none of them zero, a polynomial with any given
  constant coefficient can take any given values.
\<close>

lemma free_constant:
  assumes fin: "finite S" and nz: "(0::'a::field) \<notin> S" and n: "card S \<le> n"
  shows "\<exists>cs. length cs = n \<and> (\<forall>x\<in>S. horner (cs @ [s]) x = g x)"
proof -
  obtain f where f: "polyn (card S) f" "\<forall>x\<in>S. f x = (g x - s) / x"
    using interpolant_exists [OF fin, of "\<lambda>x. (g x - s) / x"] by blast
  obtain cs where cs: "length cs = n" "\<forall>x. f x = horner cs x"
    using polyn_horner_exists [OF polyn_le [OF f(1) n]] by blast
  have "horner (cs @ [s]) x = g x" if "x \<in> S" for x
  proof -
    have "x \<noteq> 0" using that nz by auto
    moreover have "horner cs x = (g x - s) / x" using f(2) that cs(2) by simp
    ultimately show ?thesis by simp
  qed
  with cs show ?thesis by blast
qed

end
