(* ===== verification/GF256.thy ===== *)
theory GF256
  imports Interpolation
begin

text \<open>
  The field of 256 elements as \<^verbatim>\<open>libgfshare.c\<close> computes it: the logarithm and
  exponential tables \<^verbatim>\<open>ctx_logs\<close> and \<^verbatim>\<open>ctx_exps\<close>, copied entry by entry, and
  the proof that the operations read off them form a field. The argument checks each
  table once by evaluation; everything else follows from the fact that the exponential
  table is generated by one linear map, doubling modulo the reduction polynomial.
\<close>

section \<open>The tables\<close>

definition ctx_logs :: "u8 list" where
  "ctx_logs =
     [0x00, 0x00, 0x01, 0x19, 0x02, 0x32, 0x1a, 0xc6, 0x03, 0xdf, 0x33, 0xee, 0x1b, 0x68, 0xc7, 0x4b,
      0x04, 0x64, 0xe0, 0x0e, 0x34, 0x8d, 0xef, 0x81, 0x1c, 0xc1, 0x69, 0xf8, 0xc8, 0x08, 0x4c, 0x71,
      0x05, 0x8a, 0x65, 0x2f, 0xe1, 0x24, 0x0f, 0x21, 0x35, 0x93, 0x8e, 0xda, 0xf0, 0x12, 0x82, 0x45,
      0x1d, 0xb5, 0xc2, 0x7d, 0x6a, 0x27, 0xf9, 0xb9, 0xc9, 0x9a, 0x09, 0x78, 0x4d, 0xe4, 0x72, 0xa6,
      0x06, 0xbf, 0x8b, 0x62, 0x66, 0xdd, 0x30, 0xfd, 0xe2, 0x98, 0x25, 0xb3, 0x10, 0x91, 0x22, 0x88,
      0x36, 0xd0, 0x94, 0xce, 0x8f, 0x96, 0xdb, 0xbd, 0xf1, 0xd2, 0x13, 0x5c, 0x83, 0x38, 0x46, 0x40,
      0x1e, 0x42, 0xb6, 0xa3, 0xc3, 0x48, 0x7e, 0x6e, 0x6b, 0x3a, 0x28, 0x54, 0xfa, 0x85, 0xba, 0x3d,
      0xca, 0x5e, 0x9b, 0x9f, 0x0a, 0x15, 0x79, 0x2b, 0x4e, 0xd4, 0xe5, 0xac, 0x73, 0xf3, 0xa7, 0x57,
      0x07, 0x70, 0xc0, 0xf7, 0x8c, 0x80, 0x63, 0x0d, 0x67, 0x4a, 0xde, 0xed, 0x31, 0xc5, 0xfe, 0x18,
      0xe3, 0xa5, 0x99, 0x77, 0x26, 0xb8, 0xb4, 0x7c, 0x11, 0x44, 0x92, 0xd9, 0x23, 0x20, 0x89, 0x2e,
      0x37, 0x3f, 0xd1, 0x5b, 0x95, 0xbc, 0xcf, 0xcd, 0x90, 0x87, 0x97, 0xb2, 0xdc, 0xfc, 0xbe, 0x61,
      0xf2, 0x56, 0xd3, 0xab, 0x14, 0x2a, 0x5d, 0x9e, 0x84, 0x3c, 0x39, 0x53, 0x47, 0x6d, 0x41, 0xa2,
      0x1f, 0x2d, 0x43, 0xd8, 0xb7, 0x7b, 0xa4, 0x76, 0xc4, 0x17, 0x49, 0xec, 0x7f, 0x0c, 0x6f, 0xf6,
      0x6c, 0xa1, 0x3b, 0x52, 0x29, 0x9d, 0x55, 0xaa, 0xfb, 0x60, 0x86, 0xb1, 0xbb, 0xcc, 0x3e, 0x5a,
      0xcb, 0x59, 0x5f, 0xb0, 0x9c, 0xa9, 0xa0, 0x51, 0x0b, 0xf5, 0x16, 0xeb, 0x7a, 0x75, 0x2c, 0xd7,
      0x4f, 0xae, 0xd5, 0xe9, 0xe6, 0xe7, 0xad, 0xe8, 0x74, 0xd6, 0xf4, 0xea, 0xa8, 0x50, 0x58, 0xaf]"

definition ctx_exps :: "u8 list" where
  "ctx_exps =
     [0x01, 0x02, 0x04, 0x08, 0x10, 0x20, 0x40, 0x80, 0x1d, 0x3a, 0x74, 0xe8, 0xcd, 0x87, 0x13, 0x26,
      0x4c, 0x98, 0x2d, 0x5a, 0xb4, 0x75, 0xea, 0xc9, 0x8f, 0x03, 0x06, 0x0c, 0x18, 0x30, 0x60, 0xc0,
      0x9d, 0x27, 0x4e, 0x9c, 0x25, 0x4a, 0x94, 0x35, 0x6a, 0xd4, 0xb5, 0x77, 0xee, 0xc1, 0x9f, 0x23,
      0x46, 0x8c, 0x05, 0x0a, 0x14, 0x28, 0x50, 0xa0, 0x5d, 0xba, 0x69, 0xd2, 0xb9, 0x6f, 0xde, 0xa1,
      0x5f, 0xbe, 0x61, 0xc2, 0x99, 0x2f, 0x5e, 0xbc, 0x65, 0xca, 0x89, 0x0f, 0x1e, 0x3c, 0x78, 0xf0,
      0xfd, 0xe7, 0xd3, 0xbb, 0x6b, 0xd6, 0xb1, 0x7f, 0xfe, 0xe1, 0xdf, 0xa3, 0x5b, 0xb6, 0x71, 0xe2,
      0xd9, 0xaf, 0x43, 0x86, 0x11, 0x22, 0x44, 0x88, 0x0d, 0x1a, 0x34, 0x68, 0xd0, 0xbd, 0x67, 0xce,
      0x81, 0x1f, 0x3e, 0x7c, 0xf8, 0xed, 0xc7, 0x93, 0x3b, 0x76, 0xec, 0xc5, 0x97, 0x33, 0x66, 0xcc,
      0x85, 0x17, 0x2e, 0x5c, 0xb8, 0x6d, 0xda, 0xa9, 0x4f, 0x9e, 0x21, 0x42, 0x84, 0x15, 0x2a, 0x54,
      0xa8, 0x4d, 0x9a, 0x29, 0x52, 0xa4, 0x55, 0xaa, 0x49, 0x92, 0x39, 0x72, 0xe4, 0xd5, 0xb7, 0x73,
      0xe6, 0xd1, 0xbf, 0x63, 0xc6, 0x91, 0x3f, 0x7e, 0xfc, 0xe5, 0xd7, 0xb3, 0x7b, 0xf6, 0xf1, 0xff,
      0xe3, 0xdb, 0xab, 0x4b, 0x96, 0x31, 0x62, 0xc4, 0x95, 0x37, 0x6e, 0xdc, 0xa5, 0x57, 0xae, 0x41,
      0x82, 0x19, 0x32, 0x64, 0xc8, 0x8d, 0x07, 0x0e, 0x1c, 0x38, 0x70, 0xe0, 0xdd, 0xa7, 0x53, 0xa6,
      0x51, 0xa2, 0x59, 0xb2, 0x79, 0xf2, 0xf9, 0xef, 0xc3, 0x9b, 0x2b, 0x56, 0xac, 0x45, 0x8a, 0x09,
      0x12, 0x24, 0x48, 0x90, 0x3d, 0x7a, 0xf4, 0xf5, 0xf7, 0xf3, 0xfb, 0xeb, 0xcb, 0x8b, 0x0b, 0x16,
      0x2c, 0x58, 0xb0, 0x7d, 0xfa, 0xe9, 0xcf, 0x83, 0x1b, 0x36, 0x6c, 0xd8, 0xad, 0x47, 0x8e, 0x01,
      0x02, 0x04, 0x08, 0x10, 0x20, 0x40, 0x80, 0x1d, 0x3a, 0x74, 0xe8, 0xcd, 0x87, 0x13, 0x26, 0x4c,
      0x98, 0x2d, 0x5a, 0xb4, 0x75, 0xea, 0xc9, 0x8f, 0x03, 0x06, 0x0c, 0x18, 0x30, 0x60, 0xc0, 0x9d,
      0x27, 0x4e, 0x9c, 0x25, 0x4a, 0x94, 0x35, 0x6a, 0xd4, 0xb5, 0x77, 0xee, 0xc1, 0x9f, 0x23, 0x46,
      0x8c, 0x05, 0x0a, 0x14, 0x28, 0x50, 0xa0, 0x5d, 0xba, 0x69, 0xd2, 0xb9, 0x6f, 0xde, 0xa1, 0x5f,
      0xbe, 0x61, 0xc2, 0x99, 0x2f, 0x5e, 0xbc, 0x65, 0xca, 0x89, 0x0f, 0x1e, 0x3c, 0x78, 0xf0, 0xfd,
      0xe7, 0xd3, 0xbb, 0x6b, 0xd6, 0xb1, 0x7f, 0xfe, 0xe1, 0xdf, 0xa3, 0x5b, 0xb6, 0x71, 0xe2, 0xd9,
      0xaf, 0x43, 0x86, 0x11, 0x22, 0x44, 0x88, 0x0d, 0x1a, 0x34, 0x68, 0xd0, 0xbd, 0x67, 0xce, 0x81,
      0x1f, 0x3e, 0x7c, 0xf8, 0xed, 0xc7, 0x93, 0x3b, 0x76, 0xec, 0xc5, 0x97, 0x33, 0x66, 0xcc, 0x85,
      0x17, 0x2e, 0x5c, 0xb8, 0x6d, 0xda, 0xa9, 0x4f, 0x9e, 0x21, 0x42, 0x84, 0x15, 0x2a, 0x54, 0xa8,
      0x4d, 0x9a, 0x29, 0x52, 0xa4, 0x55, 0xaa, 0x49, 0x92, 0x39, 0x72, 0xe4, 0xd5, 0xb7, 0x73, 0xe6,
      0xd1, 0xbf, 0x63, 0xc6, 0x91, 0x3f, 0x7e, 0xfc, 0xe5, 0xd7, 0xb3, 0x7b, 0xf6, 0xf1, 0xff, 0xe3,
      0xdb, 0xab, 0x4b, 0x96, 0x31, 0x62, 0xc4, 0x95, 0x37, 0x6e, 0xdc, 0xa5, 0x57, 0xae, 0x41, 0x82,
      0x19, 0x32, 0x64, 0xc8, 0x8d, 0x07, 0x0e, 0x1c, 0x38, 0x70, 0xe0, 0xdd, 0xa7, 0x53, 0xa6, 0x51,
      0xa2, 0x59, 0xb2, 0x79, 0xf2, 0xf9, 0xef, 0xc3, 0x9b, 0x2b, 0x56, 0xac, 0x45, 0x8a, 0x09, 0x12,
      0x24, 0x48, 0x90, 0x3d, 0x7a, 0xf4, 0xf5, 0xf7, 0xf3, 0xfb, 0xeb, 0xcb, 0x8b, 0x0b, 0x16, 0x2c,
      0x58, 0xb0, 0x7d, 0xfa, 0xe9, 0xcf, 0x83, 0x1b, 0x36, 0x6c, 0xd8, 0xad, 0x47, 0x8e]"

text \<open>\<^verbatim>\<open>ctx_logs[b]\<close> and \<^verbatim>\<open>ctx_exps[n]\<close> as the code indexes them.\<close>

definition ctx_log :: "u8 \<Rightarrow> nat" where
  "ctx_log b = unat (ctx_logs ! unat b)"

definition ctx_exp :: "nat \<Rightarrow> u8" where
  "ctx_exp n = ctx_exps ! n"

section \<open>What the tables hold\<close>

text \<open>Doubling in the field: shift, and reduce by \<open>x\<^sup>8 + x\<^sup>4 + x\<^sup>3 + x\<^sup>2 + 1\<close>.\<close>

definition gf_double :: "u8 \<Rightarrow> u8" where
  "gf_double x = (if bit x 7 then push_bit 1 x XOR 0x1d else push_bit 1 x)"

lemma length_tables [simp]: "length ctx_exps = 510" "length ctx_logs = 256"
  by (simp_all add: ctx_exps_def ctx_logs_def)

lemma exps_generated: "list_all2 (\<lambda>a b. b = gf_double a) (butlast ctx_exps) (tl ctx_exps)"
  by code_simp

lemma logs_of_exps: "map (\<lambda>b. unat (ctx_logs ! unat b)) (take 255 ctx_exps) = [0..<255]"
  by code_simp

lemma exps_of_logs: "map (\<lambda>l. ctx_exps ! unat l) (tl ctx_logs) = map word_of_nat [1..<256]"
  by code_simp

lemma logs_bounded: "list_all (\<lambda>l. unat l < 255) ctx_logs"
  by code_simp

lemma exps_edges: "ctx_exp 0 = 1" "ctx_exp 255 = 1" "ctx_log 1 = 0"
  by (simp_all add: ctx_exp_def ctx_log_def ctx_exps_def ctx_logs_def)

declare unat_u8_less [simp]

lemma ctx_log_less [simp]: "ctx_log b < 255"
  using logs_bounded by (simp add: ctx_log_def list_all_length)

lemma ctx_exp_Suc: "n < 509 \<Longrightarrow> ctx_exp (Suc n) = gf_double (ctx_exp n)"
  using list_all2_nthD [OF exps_generated, of n] by (simp add: ctx_exp_def nth_butlast nth_tl)

lemma ctx_log_exp: "n < 255 \<Longrightarrow> ctx_log (ctx_exp n) = n"
  using arg_cong [OF logs_of_exps, of "\<lambda>xs. xs ! n"] by (simp add: ctx_log_def ctx_exp_def)

lemma ctx_exp_log: "b \<noteq> 0 \<Longrightarrow> ctx_exp (ctx_log b) = b"
proof -
  assume "b \<noteq> 0"
  then obtain n where n: "unat b = Suc n" by (metis not0_implies_Suc unat_eq_zero)
  with unat_u8_less [of b] have "n < 255" by simp
  with arg_cong [OF exps_of_logs, of "\<lambda>xs. xs ! n"]
  have "ctx_exps ! unat (ctx_logs ! Suc n) = word_of_nat (Suc n)" by (simp add: nth_tl)
  moreover have "word_of_nat (Suc n) = b" by (simp flip: n)
  ultimately show ?thesis by (simp add: ctx_exp_def ctx_log_def n)
qed

lemma ctx_exp_add: "m + n < 510 \<Longrightarrow> ctx_exp (m + n) = (gf_double ^^ m) (ctx_exp n)"
  by (induction m) (auto simp: ctx_exp_Suc)

lemma ctx_exp_cycle: "n < 255 \<Longrightarrow> ctx_exp (n + 255) = ctx_exp n"
  using ctx_exp_add [of n 255] ctx_exp_add [of n 0] by (simp add: exps_edges)

lemma ctx_exp_mod: "n < 510 \<Longrightarrow> ctx_exp (n mod 255) = ctx_exp n"
proof (cases "n < 255")
  case False
  moreover assume "n < 510"
  ultimately show ?thesis using ctx_exp_cycle [of "n - 255"] by (simp add: mod_if)
qed simp

lemma ctx_log_exp_mod: "n < 510 \<Longrightarrow> ctx_log (ctx_exp n) = n mod 255"
  by (metis ctx_exp_mod ctx_log_exp mod_less_divisor zero_less_numeral)

lemma gf_double_zero [simp]: "gf_double 0 = 0"
  by (simp add: gf_double_def)

lemma gf_double_xor: "gf_double (x XOR y) = gf_double x XOR gf_double y"
  by (rule bit_eqI) (auto simp: gf_double_def bit_simps)

lemma gf_double_pow_zero [simp]: "(gf_double ^^ n) 0 = 0"
  by (induction n) auto

lemma gf_double_pow_xor: "(gf_double ^^ n) (x XOR y) = (gf_double ^^ n) x XOR (gf_double ^^ n) y"
  by (induction n) (auto simp: gf_double_xor)

lemma gf_double_nonzero: "gf_double x = 0 \<Longrightarrow> x = 0"
proof (rule ccontr)
  assume d: "gf_double x = 0" and x: "x \<noteq> 0"
  have "ctx_exp (Suc (ctx_log x)) = 0"
    using ctx_exp_Suc [of "ctx_log x"] ctx_log_less [of x] ctx_exp_log [OF x] d by simp
  moreover have "ctx_exp n \<noteq> 0" if "n < 255" for n
    using ctx_exp_add [of "255 - n" n] that by (auto simp: exps_edges)
  ultimately show False
    using ctx_log_less [of x] exps_edges(2) by (cases "Suc (ctx_log x) = 255") auto
qed

lemma ctx_exp_nonzero: "n < 510 \<Longrightarrow> ctx_exp n \<noteq> 0"
  by (induction n) (auto simp: exps_edges ctx_exp_Suc dest: gf_double_nonzero)

section \<open>Multiplication and its laws\<close>

definition gf_mul :: "u8 \<Rightarrow> u8 \<Rightarrow> u8" where
  "gf_mul a b = (if a = 0 \<or> b = 0 then 0 else ctx_exp (ctx_log a + ctx_log b))"

definition gf_inv :: "u8 \<Rightarrow> u8" where
  "gf_inv a = (if a = 0 then 0 else ctx_exp (255 - ctx_log a))"

lemma log_sum_less: "ctx_log a + ctx_log b < 510"
  using ctx_log_less [of a] ctx_log_less [of b] by linarith

lemma gf_mul_zero [simp]: "gf_mul 0 b = 0" "gf_mul a 0 = 0"
  by (simp_all add: gf_mul_def)

lemma gf_mul_eq_0: "gf_mul a b = 0 \<longleftrightarrow> a = 0 \<or> b = 0"
  using ctx_exp_nonzero [OF log_sum_less] by (auto simp: gf_mul_def)

lemma gf_mul_commute: "gf_mul a b = gf_mul b a"
  by (simp add: gf_mul_def add.commute)

lemma gf_mul_one: "gf_mul 1 b = b"
  by (simp add: gf_mul_def exps_edges ctx_exp_log)

lemma ctx_log_mul: "a \<noteq> 0 \<Longrightarrow> b \<noteq> 0 \<Longrightarrow> ctx_log (gf_mul a b) = (ctx_log a + ctx_log b) mod 255"
  using log_sum_less [of a b] by (simp add: gf_mul_def ctx_log_exp_mod)

lemma ctx_log_inject: "a \<noteq> 0 \<Longrightarrow> b \<noteq> 0 \<Longrightarrow> ctx_log a = ctx_log b \<Longrightarrow> a = b"
  by (metis ctx_exp_log)

lemma gf_mul_assoc: "gf_mul (gf_mul a b) c = gf_mul a (gf_mul b c)"
proof (cases "a = 0 \<or> b = 0 \<or> c = 0")
  case False
  then show ?thesis
    by (intro ctx_log_inject) (auto simp: gf_mul_eq_0 ctx_log_mul mod_simps add.assoc)
qed auto

lemma gf_mul_linear: "a \<noteq> 0 \<Longrightarrow> gf_mul a b = (gf_double ^^ ctx_log a) b"
  using ctx_exp_add [OF log_sum_less, of a b]
  by (cases "b = 0") (auto simp: gf_mul_def ctx_exp_log)

lemma gf_mul_distrib: "gf_mul a (b XOR c) = gf_mul a b XOR gf_mul a c"
  by (cases "a = 0") (auto simp: gf_mul_linear gf_double_pow_xor)

lemma gf_mul_inv: "a \<noteq> 0 \<Longrightarrow> gf_mul (gf_inv a) a = 1"
proof -
  assume a: "a \<noteq> 0"
  have lt: "255 - ctx_log a < 510" by simp
  have nz: "gf_inv a \<noteq> 0" using a ctx_exp_nonzero [OF lt] by (simp add: gf_inv_def)
  have "ctx_log (gf_mul (gf_inv a) a) = ((255 - ctx_log a) mod 255 + ctx_log a) mod 255"
    using a nz lt by (simp add: ctx_log_mul) (simp add: gf_inv_def ctx_log_exp_mod)
  also have "\<dots> = (255 - ctx_log a + ctx_log a) mod 255" by (simp add: mod_simps)
  also have "255 - ctx_log a + ctx_log a = 255" using ctx_log_less [of a] by linarith
  also have "255 mod 255 = ctx_log 1" by (simp add: exps_edges)
  finally show ?thesis using a nz by (intro ctx_log_inject) (auto simp: gf_mul_eq_0)
qed

section \<open>The field as a type\<close>

typedef gf = "UNIV :: u8 set"
  morphisms byte_of gf_of
  by simp

setup_lifting type_definition_gf

instantiation gf :: field
begin

lift_definition zero_gf :: gf is 0 .

lift_definition one_gf :: gf is 1 .

lift_definition plus_gf :: "gf \<Rightarrow> gf \<Rightarrow> gf" is "(XOR)" .

lift_definition minus_gf :: "gf \<Rightarrow> gf \<Rightarrow> gf" is "(XOR)" .

lift_definition uminus_gf :: "gf \<Rightarrow> gf" is "\<lambda>x. x" .

lift_definition times_gf :: "gf \<Rightarrow> gf \<Rightarrow> gf" is gf_mul .

lift_definition inverse_gf :: "gf \<Rightarrow> gf" is gf_inv .

definition divide_gf :: "gf \<Rightarrow> gf \<Rightarrow> gf" where
  "divide_gf a b = a * inverse b"

instance
proof
  fix a b c :: gf
  show "a * b * c = a * (b * c)" by transfer (rule gf_mul_assoc)
  show "a * b = b * a" by transfer (rule gf_mul_commute)
  show "1 * a = a" by transfer (rule gf_mul_one)
  show "a + b + c = a + (b + c)" by transfer (simp add: ac_simps)
  show "a + b = b + a" by transfer (simp add: ac_simps)
  show "0 + a = a" by transfer simp
  show "- a + a = 0" by transfer simp
  show "a - b = a + - b" by transfer simp
  show "(a + b) * c = a * c + b * c"
    by transfer (metis gf_mul_commute gf_mul_distrib)
  show "(0::gf) \<noteq> 1" by transfer simp
  show "a \<noteq> 0 \<Longrightarrow> inverse a * a = 1" by transfer (rule gf_mul_inv)
  show "a div b = a * inverse b" by (simp add: divide_gf_def)
  show "inverse (0::gf) = 0" by transfer (simp add: gf_inv_def)
qed

end

text \<open>Reading field expressions back as bytes.\<close>

lemma byte_of_simps [simp]:
  "byte_of 0 = 0" "byte_of 1 = 1" "byte_of (a + b) = byte_of a XOR byte_of b"
  "byte_of (a - b) = byte_of a XOR byte_of b" "byte_of (a * b) = gf_mul (byte_of a) (byte_of b)"
  "byte_of (gf_of x) = x" "gf_of (byte_of a) = a"
  by (simp_all add: zero_gf.rep_eq one_gf.rep_eq plus_gf.rep_eq minus_gf.rep_eq times_gf.rep_eq
      gf_of_inverse byte_of_inverse)

lemma gf_of_eq_iff [simp]: "gf_of x = gf_of y \<longleftrightarrow> x = y"
  by (simp add: gf_of_inject)

lemma gf_of_0_iff [simp]: "gf_of x = 0 \<longleftrightarrow> x = 0"
  by (metis byte_of_simps(1,6,7))

lemma byte_of_eq_iff: "byte_of a = byte_of b \<longleftrightarrow> a = b"
  by (simp add: byte_of_inject)

lemma gf_of_mul: "gf_of (gf_mul x y) = gf_of x * gf_of y"
  by (metis byte_of_simps(5,6,7))

lemma gf_of_xor: "gf_of (x XOR y) = gf_of x + gf_of y"
  by (metis byte_of_simps(3,6,7))

lemma gf_of_exp_add: "m + n < 510 \<Longrightarrow> gf_of (ctx_exp (m + n)) = gf_of (ctx_exp m) * gf_of (ctx_exp n)"
proof -
  assume lt: "m + n < 510"
  then have "ctx_exp (m + n) = gf_mul (ctx_exp m) (ctx_exp n)"
    by (intro ctx_log_inject)
      (auto simp: ctx_exp_nonzero gf_mul_eq_0 ctx_log_mul ctx_log_exp_mod mod_simps)
  then show ?thesis by (simp add: gf_of_mul)
qed

end
