(* ===== verification/Libgfshare.thy ===== *)
theory Libgfshare
  imports GF256
begin

text \<open>
  Threshold secret sharing (\<^verbatim>\<open>src/plugins/utils/libgfshare.c\<close>): splitting a secret
  into \<open>N\<close> shares of which any \<open>M\<close> recombine it. The card layer of the poker game
  shares its decryption keys with it. Memory that the C code leaves uninitialised and the
  output of the random generator are arguments of the operations.
\<close>

section \<open>Splitting\<close>

text \<open>One byte of the inner loop of \<^verbatim>\<open>calc_share\<close>: multiply by the share's abscissa, add.\<close>

definition share_byte_step :: "nat \<Rightarrow> u8 \<Rightarrow> u8 \<Rightarrow> u8" where
  "share_byte_step ilog share_byte c =
     (if share_byte \<noteq> 0 then ctx_exp (ilog + ctx_log share_byte) else share_byte) XOR c"

definition calc_share :: "bytes \<Rightarrow> nat \<Rightarrow> nat \<Rightarrow> nat \<Rightarrow> bytes" where
  "calc_share buffer sz M ilog =
     foldl (\<lambda>share coefficient.
         map2 (share_byte_step ilog) share (take sz (drop (coefficient * sz) buffer)))
       (take sz buffer) [1..<M]"

text \<open>
  \<open>rnd\<close> is what \<^verbatim>\<open>gfshare_fill_rand\<close> writes over the leading coefficients; the
  secret is the constant coefficient.
\<close>

definition share_buffer :: "bytes \<Rightarrow> bytes \<Rightarrow> nat \<Rightarrow> nat \<Rightarrow> nat \<Rightarrow> bytes" where
  "share_buffer rnd secret sz width M =
     buf_write 0 (take ((M - 1) * sz) rnd)
       (buf_write ((M - 1) * sz) (take sz secret) (replicate (M * width) 0))"

definition calc_shares :: "bytes \<Rightarrow> bytes \<Rightarrow> nat \<Rightarrow> nat \<Rightarrow> nat \<Rightarrow> nat \<Rightarrow> bytes \<Rightarrow> bytes" where
  "calc_shares rnd secret sz width M N sharenrs =
     foldl (\<lambda>shares i. buf_write (i * width)
         (calc_share (share_buffer rnd secret sz width M) sz M (ctx_log (sharenrs ! i))) shares)
       (replicate (N * width) 0) [0..<N]"

section \<open>Recombination\<close>

definition wrap255 :: "nat \<Rightarrow> nat" where
  "wrap255 n = (if n \<ge> 0xff then n - 0xff else n)"

text \<open>The inner loop of \<^verbatim>\<open>gfshare_extract\<close>: the logarithms of numerator and denominator.\<close>

definition li_step :: "bytes \<Rightarrow> nat \<Rightarrow> nat \<times> nat \<Rightarrow> nat \<Rightarrow> nat \<times> nat" where
  "li_step sharenrs i = (\<lambda>(Li_top, Li_bottom) j.
     if i = j then (Li_top, Li_bottom)
     else let sharej = sharenrs ! j in
       if sharej = 0 then (Li_top, Li_bottom)
       else (wrap255 (Li_top + ctx_log sharej),
             wrap255 (Li_bottom + ctx_log (sharenrs ! i XOR sharej))))"

definition li_log :: "bytes \<Rightarrow> nat \<Rightarrow> nat \<Rightarrow> nat" where
  "li_log sharenrs N i =
     (let (Li_top, Li_bottom) = foldl (li_step sharenrs i) (0, 0) [0..<N];
          Li_top = (if Li_bottom > Li_top then Li_top + 0xff else Li_top)
      in Li_top - Li_bottom)"

definition extract_byte :: "nat \<Rightarrow> u8 \<Rightarrow> u8 \<Rightarrow> u8" where
  "extract_byte Li_top secret share =
     (if share \<noteq> 0 then secret XOR ctx_exp (Li_top + ctx_log share) else secret)"

definition gfshare_extract :: "bytes \<Rightarrow> bytes \<Rightarrow> nat \<Rightarrow> bytes \<Rightarrow> nat \<Rightarrow> nat \<Rightarrow> bytes" where
  "gfshare_extract secretbuf sharenrs N buffer sz width =
     foldl (\<lambda>secret i.
         if sharenrs ! i = 0 then secret
         else buf_write 0 (map2 (extract_byte (li_log sharenrs N i)) (take sz secret)
                (take sz (drop (width * i) buffer))) secret)
       (buf_write 0 (replicate width 0) secretbuf) [0..<N]"

section \<open>Contexts\<close>

record gfshare_ctx =
  sharecount :: nat
  threshold :: nat
  ctx_size :: nat
  buffersize :: nat
  ctx_sharenrs :: bytes
  ctx_buffer :: bytes

text \<open>\<open>mem\<close> is the block \<^verbatim>\<open>XMALLOC\<close> returns, \<open>None\<close> when it fails.\<close>

definition gfshare_ctx_init_core ::
    "gfshare_ctx option \<Rightarrow> bytes \<Rightarrow> nat \<Rightarrow> u8 \<Rightarrow> nat \<Rightarrow> gfshare_ctx option" where
  "gfshare_ctx_init_core mem sharenrs count thresh sz =
     (case mem of None \<Rightarrow> None
      | Some ctx \<Rightarrow> Some (ctx\<lparr>sharecount := count, threshold := unat thresh, ctx_size := sz,
          ctx_sharenrs := buf_write 0 (take count sharenrs) (ctx_sharenrs ctx),
          buffersize := (unat thresh * sz) mod 2 ^ 32\<rparr>))"

text \<open>\<open>None\<close> is also the \<^verbatim>\<open>EINVAL\<close> return: an abscissa of zero would be the secret.\<close>

definition gfshare_ctx_init_enc ::
    "gfshare_ctx option \<Rightarrow> bytes \<Rightarrow> nat \<Rightarrow> u8 \<Rightarrow> nat \<Rightarrow> gfshare_ctx option" where
  "gfshare_ctx_init_enc mem sharenrs count thresh sz =
     (if list_ex (\<lambda>nr. nr = 0) (take count sharenrs) then None
      else gfshare_ctx_init_core mem sharenrs count thresh sz)"

definition gfshare_ctx_init_dec ::
    "gfshare_ctx option \<Rightarrow> bytes \<Rightarrow> nat \<Rightarrow> nat \<Rightarrow> gfshare_ctx option" where
  "gfshare_ctx_init_dec mem sharenrs count sz =
     (case gfshare_ctx_init_core mem sharenrs count (word_of_nat count) sz of
        None \<Rightarrow> None | Some ctx \<Rightarrow> Some (ctx\<lparr>threshold := 0\<rparr>))"

definition gfshare_ctx_enc_setsecret :: "bytes \<Rightarrow> gfshare_ctx \<Rightarrow> bytes \<Rightarrow> gfshare_ctx" where
  "gfshare_ctx_enc_setsecret rnd ctx secret =
     (let off = (threshold ctx - 1) * ctx_size ctx in
      ctx\<lparr>ctx_buffer := buf_write 0 (take off rnd)
            (buf_write off (take (ctx_size ctx) secret) (ctx_buffer ctx))\<rparr>)"

definition gfshare_ctx_enc_getshare :: "gfshare_ctx \<Rightarrow> nat \<Rightarrow> bytes" where
  "gfshare_ctx_enc_getshare ctx sharenr =
     calc_share (ctx_buffer ctx) (ctx_size ctx) (threshold ctx) (ctx_log (ctx_sharenrs ctx ! sharenr))"

definition gfshare_ctx_dec_newshares :: "gfshare_ctx \<Rightarrow> bytes \<Rightarrow> gfshare_ctx" where
  "gfshare_ctx_dec_newshares ctx sharenrs =
     ctx\<lparr>ctx_sharenrs := buf_write 0 (take (sharecount ctx) sharenrs) (ctx_sharenrs ctx)\<rparr>"

definition gfshare_ctx_dec_giveshare :: "gfshare_ctx \<Rightarrow> nat \<Rightarrow> bytes \<Rightarrow> gfshare_ctx" where
  "gfshare_ctx_dec_giveshare ctx sharenr share =
     ctx\<lparr>ctx_buffer := buf_write (sharenr * ctx_size ctx) (take (ctx_size ctx) share) (ctx_buffer ctx)\<rparr>"

definition gfshare_ctx_dec_extract :: "gfshare_ctx \<Rightarrow> bytes \<Rightarrow> bytes" where
  "gfshare_ctx_dec_extract ctx secretbuf =
     gfshare_extract secretbuf (ctx_sharenrs ctx) (sharecount ctx) (ctx_buffer ctx)
       (ctx_size ctx) (ctx_size ctx)"

section \<open>A share is a value of the byte polynomials\<close>

definition coefficients :: "bytes \<Rightarrow> nat \<Rightarrow> nat \<Rightarrow> nat \<Rightarrow> gf list" where
  "coefficients buffer sz pos M = map (\<lambda>k. gf_of (buffer ! (k * sz + pos))) [0..<M]"

lemma share_byte_step_gf:
  "x \<noteq> 0 \<Longrightarrow> gf_of (share_byte_step (ctx_log x) b c) = gf_of b * gf_of x + gf_of c"
proof -
  assume x: "x \<noteq> 0"
  have "share_byte_step (ctx_log x) b c = gf_mul b x XOR c"
    using x by (auto simp: share_byte_step_def gf_mul_def add.commute)
  then show ?thesis by (simp add: gf_of_xor gf_of_mul)
qed

lemma slice_length: "k < M \<Longrightarrow> M * sz \<le> length buffer \<Longrightarrow> sz \<le> length buffer - k * (sz::nat)"
  using mult_le_mono1 [of "Suc k" M sz] by simp

lemma calc_share_poly:
  assumes x: "x \<noteq> 0" and M: "1 \<le> M" and len: "M * sz \<le> length buffer"
  shows "length (calc_share buffer sz M (ctx_log x)) = sz \<and>
    (\<forall>pos < sz. gf_of (calc_share buffer sz M (ctx_log x) ! pos)
        = horner (coefficients buffer sz pos M) (gf_of x))"
  using M len
proof (induction M rule: dec_induct)
  case base
  then show ?case by (simp add: calc_share_def coefficients_def horner_def)
next
  case (step M)
  let ?old = "calc_share buffer sz M (ctx_log x)"
  let ?slice = "take sz (drop (M * sz) buffer)"
  have "[1..<Suc M] = [1..<M] @ [M]" using step.hyps by simp
  then have new: "calc_share buffer sz (Suc M) (ctx_log x) = map2 (share_byte_step (ctx_log x)) ?old ?slice"
    by (simp add: calc_share_def)
  have sl: "length ?slice = sz"
    using slice_length [OF _ step.prems, of M] by (simp add: min_def)
  have old: "length ?old = sz"
    and poly: "\<And>pos. pos < sz \<Longrightarrow> gf_of (?old ! pos) = horner (coefficients buffer sz pos M) (gf_of x)"
    using step by auto
  have "gf_of (calc_share buffer sz (Suc M) (ctx_log x) ! pos)
      = horner (coefficients buffer sz pos (Suc M)) (gf_of x)" if "pos < sz" for pos
    using that step.prems old sl poly [OF that]
    by (simp add: new share_byte_step_gf [OF x] coefficients_def)
  with old sl show ?case by (simp add: new)
qed

lemmas calc_share_length = calc_share_poly [THEN conjunct1]
lemmas calc_share_nth = calc_share_poly [THEN conjunct2, rule_format]

section \<open>Recombination is Lagrange interpolation at zero\<close>

text \<open>Every abscissa of the vector is either absent (0) or occurs once.\<close>

definition nrs_distinct :: "bytes \<Rightarrow> nat \<Rightarrow> bool" where
  "nrs_distinct nrs N \<longleftrightarrow> (\<forall>i<N. \<forall>j<N. i \<noteq> j \<longrightarrow> nrs ! i \<noteq> 0 \<longrightarrow> nrs ! i \<noteq> nrs ! j)"

definition present :: "bytes \<Rightarrow> nat \<Rightarrow> nat set" where
  "present nrs N = {i. i < N \<and> nrs ! i \<noteq> 0}"

lemma finite_present [simp]: "finite (present nrs N)"
  by (simp add: present_def)

lemma nrs_inj: "nrs_distinct nrs N \<Longrightarrow> inj_on (\<lambda>i. gf_of (nrs ! i)) (present nrs N)"
  by (auto simp: nrs_distinct_def present_def inj_on_def)

lemma wrap255_exp:
  assumes "t < 255" "y \<noteq> 0"
  shows "wrap255 (t + ctx_log y) < 255"
    and "gf_of (ctx_exp (wrap255 (t + ctx_log y))) = gf_of (ctx_exp t) * gf_of y"
proof -
  have lt: "t + ctx_log y < 510" using assms(1) ctx_log_less [of y] by linarith
  then show "wrap255 (t + ctx_log y) < 255" by (simp add: wrap255_def) arith
  have "wrap255 (t + ctx_log y) = (t + ctx_log y) mod 255"
    using lt by (simp add: wrap255_def mod_if)
  with lt show "gf_of (ctx_exp (wrap255 (t + ctx_log y))) = gf_of (ctx_exp t) * gf_of y"
    using gf_of_exp_add [OF lt] assms(2) by (simp add: ctx_exp_mod ctx_exp_log)
qed

lemma li_fold:
  assumes d: "nrs_distinct nrs N" and i: "i \<in> present nrs N" and n: "n \<le> N"
  shows "\<exists>t b. foldl (li_step nrs i) (0, 0) [0..<n] = (t, b) \<and> t < 255 \<and> b < 255
    \<and> gf_of (ctx_exp t) = (\<Prod>j\<in>present nrs n - {i}. gf_of (nrs ! j))
    \<and> gf_of (ctx_exp b) = (\<Prod>j\<in>present nrs n - {i}. gf_of (nrs ! j) - gf_of (nrs ! i))"
  using n
proof (induction n)
  case 0
  have "gf_of 1 = 1" by (metis byte_of_simps(2,7))
  then show ?case by (simp add: present_def exps_edges)
next
  case (Suc n)
  then obtain t b where f: "foldl (li_step nrs i) (0, 0) [0..<n] = (t, b)" and lt: "t < 255" "b < 255"
    and top: "gf_of (ctx_exp t) = (\<Prod>j\<in>present nrs n - {i}. gf_of (nrs ! j))"
    and bot: "gf_of (ctx_exp b) = (\<Prod>j\<in>present nrs n - {i}. gf_of (nrs ! j) - gf_of (nrs ! i))"
    by auto
  show ?case
  proof (cases "i = n \<or> nrs ! n = 0")
    case True
    then have "present nrs (Suc n) - {i} = present nrs n - {i}"
      by (auto simp: present_def less_Suc_eq)
    with True f lt top bot show ?thesis by (auto simp: li_step_def Let_def)
  next
    case False
    then have ins: "present nrs (Suc n) - {i} = insert n (present nrs n - {i})"
      and fresh: "n \<notin> present nrs n - {i}" by (auto simp: present_def less_Suc_eq)
    have "nrs ! i XOR nrs ! n \<noteq> 0"
      using False i d Suc.prems by (auto simp: nrs_distinct_def present_def word_xor_eq_0_iff)
    moreover have "gf_of (nrs ! i XOR nrs ! n) = gf_of (nrs ! n) - gf_of (nrs ! i)"
      by (metis byte_of_simps(4,6) byte_of_simps(7) xor.commute)
    ultimately have "gf_of (ctx_exp (wrap255 (b + ctx_log (nrs ! i XOR nrs ! n))))
        = (\<Prod>j\<in>present nrs (Suc n) - {i}. gf_of (nrs ! j) - gf_of (nrs ! i))"
      and "wrap255 (b + ctx_log (nrs ! i XOR nrs ! n)) < 255"
      using wrap255_exp [OF lt(2)] fresh bot by (auto simp: ins mult.commute)
    moreover have "gf_of (ctx_exp (wrap255 (t + ctx_log (nrs ! n))))
        = (\<Prod>j\<in>present nrs (Suc n) - {i}. gf_of (nrs ! j))"
      and "wrap255 (t + ctx_log (nrs ! n)) < 255"
      using wrap255_exp [OF lt(1), of "nrs ! n"] False fresh top by (auto simp: ins mult.commute)
    ultimately show ?thesis using f False by (simp add: li_step_def Let_def)
  qed
qed

lemma li_log_weight:
  assumes d: "nrs_distinct nrs N" and i: "i \<in> present nrs N"
  shows "li_log nrs N i < 255"
    and "gf_of (ctx_exp (li_log nrs N i))
      = (\<Prod>j\<in>present nrs N - {i}. gf_of (nrs ! j) / (gf_of (nrs ! j) - gf_of (nrs ! i)))"
proof -
  obtain t b where f: "foldl (li_step nrs i) (0, 0) [0..<N] = (t, b)" and lt: "t < 255" "b < 255"
    and top: "gf_of (ctx_exp t) = (\<Prod>j\<in>present nrs N - {i}. gf_of (nrs ! j))"
    and bot: "gf_of (ctx_exp b) = (\<Prod>j\<in>present nrs N - {i}. gf_of (nrs ! j) - gf_of (nrs ! i))"
    using li_fold [OF d i order_refl] by blast
  let ?l = "li_log nrs N i"
  have l: "?l = (if b > t then t + 255 else t) - b" by (simp add: li_log_def f)
  then show bd: "?l < 255" using lt by auto
  have "ctx_exp (?l + b) = ctx_exp t"
    using l lt ctx_exp_cycle [of t] by (auto split: if_splits)
  then have "gf_of (ctx_exp ?l) * gf_of (ctx_exp b) = gf_of (ctx_exp t)"
    using gf_of_exp_add [of ?l b] bd lt by simp
  moreover have "gf_of (ctx_exp b) \<noteq> 0" using ctx_exp_nonzero [of b] lt by simp
  ultimately have "gf_of (ctx_exp ?l) = gf_of (ctx_exp t) / gf_of (ctx_exp b)"
    by (simp add: eq_divide_eq)
  then show "gf_of (ctx_exp ?l)
      = (\<Prod>j\<in>present nrs N - {i}. gf_of (nrs ! j) / (gf_of (nrs ! j) - gf_of (nrs ! i)))"
    by (simp add: top bot prod_dividef)
qed

lemma extract_byte_gf:
  "l < 255 \<Longrightarrow> gf_of (extract_byte l s b) = gf_of s + gf_of b * gf_of (ctx_exp l)"
proof -
  assume "l < 255"
  then have lt: "l + ctx_log b < 510" using ctx_log_less [of b] by linarith
  show ?thesis
  proof (cases "b = 0")
    case True
    then show ?thesis by (simp add: extract_byte_def zero_gf_def)
  next
    case False
    then show ?thesis
      using gf_of_exp_add [OF lt] by (simp add: extract_byte_def gf_of_xor ctx_exp_log mult.commute)
  qed
qed

lemma extract_fold:
  assumes d: "nrs_distinct nrs N" and buf: "N * width \<le> length buffer" and sz: "sz \<le> width"
    and sec: "length secretbuf = width" and n: "n \<le> N"
  defines "res \<equiv> foldl (\<lambda>secret i.
         if nrs ! i = 0 then secret
         else buf_write 0 (map2 (extract_byte (li_log nrs N i)) (take sz secret)
                (take sz (drop (width * i) buffer))) secret)
       (buf_write 0 (replicate width 0) secretbuf) [0..<n]"
  shows "length res = width \<and> (\<forall>pos < sz. gf_of (res ! pos)
      = (\<Sum>i\<in>present nrs n. gf_of (buffer ! (i * width + pos)) * gf_of (ctx_exp (li_log nrs N i))))"
  using n unfolding res_def
proof (induction n)
  case 0
  then show ?case using sec sz by (simp add: present_def nth_buf_write zero_gf_def)
next
  case (Suc n)
  let ?f = "\<lambda>secret i. if nrs ! i = 0 then secret
         else buf_write 0 (map2 (extract_byte (li_log nrs N i)) (take sz secret)
                (take sz (drop (width * i) buffer))) secret"
  define old where "old = foldl ?f (buf_write 0 (replicate width 0) secretbuf) [0..<n]"
  have IH: "length old = width"
    "\<And>pos. pos < sz \<Longrightarrow> gf_of (old ! pos)
      = (\<Sum>i\<in>present nrs n. gf_of (buffer ! (i * width + pos)) * gf_of (ctx_exp (li_log nrs N i)))"
    using Suc by (auto simp: old_def)
  have fold: "foldl ?f (buf_write 0 (replicate width 0) secretbuf) [0..<Suc n] = ?f old n"
    by (simp add: old_def)
  show ?case
  proof (cases "nrs ! n = 0")
    case True
    then have "present nrs (Suc n) = present nrs n" by (auto simp: present_def less_Suc_eq)
    with True IH show ?thesis unfolding fold by simp
  next
    case False
    then have pr: "present nrs (Suc n) = insert n (present nrs n)" "n \<notin> present nrs n"
      by (auto simp: present_def less_Suc_eq)
    have np: "n \<in> present nrs N" using False Suc.prems by (simp add: present_def)
    have "Suc n * width \<le> length buffer" using buf Suc.prems mult_le_mono1 order_trans by blast
    then have sl: "length (take sz (drop (width * n) buffer)) = sz"
      "\<And>pos. pos < sz \<Longrightarrow> take sz (drop (width * n) buffer) ! pos = buffer ! (n * width + pos)"
      using sz by (auto simp: mult.commute)
    show ?thesis unfolding fold
      using False IH sl sz
      by (simp add: nth_buf_write extract_byte_gf li_log_weight(1) [OF d np] pr add.commute)
  qed
qed

lemma gfshare_extract_lagrange:
  assumes d: "nrs_distinct nrs N" and buf: "N * width \<le> length buffer" and sz: "sz \<le> width"
    and sec: "length secretbuf = width" and pos: "pos < sz"
    and val: "\<And>i. i \<in> present nrs N \<Longrightarrow> gf_of (buffer ! (i * width + pos)) = f (gf_of (nrs ! i))"
  shows "gf_of (gfshare_extract secretbuf nrs N buffer sz width ! pos)
    = lagrange0 ((\<lambda>i. gf_of (nrs ! i)) ` present nrs N) f"
proof -
  let ?g = "\<lambda>i. gf_of (nrs ! i)" and ?P = "present nrs N"
  note inj = nrs_inj [OF d]
  have w: "(\<Prod>j\<in>?g ` ?P - {?g i}. j / (j - ?g i)) = (\<Prod>j\<in>?P - {i}. ?g j / (?g j - ?g i))"
    if "i \<in> ?P" for i
  proof -
    have "?g ` ?P - {?g i} = ?g ` (?P - {i})" using inj that by (auto simp: inj_on_def)
    then show ?thesis
      using inj by (simp add: prod.reindex inj_on_diff)
  qed
  have "gf_of (gfshare_extract secretbuf nrs N buffer sz width ! pos)
      = (\<Sum>i\<in>?P. gf_of (buffer ! (i * width + pos)) * gf_of (ctx_exp (li_log nrs N i)))"
    using extract_fold [OF d buf sz sec order_refl] pos by (simp add: gfshare_extract_def)
  also have "\<dots> = (\<Sum>i\<in>?P. f (?g i) * (\<Prod>j\<in>?P - {i}. ?g j / (?g j - ?g i)))"
    by (intro sum.cong refl) (simp add: val li_log_weight(2) [OF d])
  also have "\<dots> = lagrange0 (?g ` ?P) f"
    using inj by (simp add: lagrange0_def sum.reindex w)
  finally show ?thesis .
qed

section \<open>Any threshold of shares recovers the secret\<close>

text \<open>
  The shares lie in \<open>buffer\<close> at the offsets of their indices, each the value at its
  abscissa of the polynomials whose coefficients \<open>coeffs\<close> holds; the vector \<open>nrs\<close> names
  at least \<open>M\<close> of them.
\<close>

lemma extract_recovers:
  assumes d: "nrs_distinct nrs N" and buf: "N * width \<le> length buffer" and sz: "sz \<le> width"
    and sec: "length secretbuf = width" and M: "1 \<le> M" and len: "M * sz \<le> length coeffs"
    and shares: "\<And>i. i \<in> present nrs N \<Longrightarrow>
      take sz (drop (i * width) buffer) = calc_share coeffs sz M (ctx_log (nrs ! i))"
    and enough: "M \<le> card (present nrs N)" and pos: "pos < sz"
  shows "gfshare_extract secretbuf nrs N buffer sz width ! pos = coeffs ! ((M - 1) * sz + pos)"
proof -
  let ?cs = "coefficients coeffs sz pos M" and ?g = "\<lambda>i. gf_of (nrs ! i)"
  have val: "gf_of (buffer ! (i * width + pos)) = horner ?cs (?g i)" if i: "i \<in> present nrs N" for i
  proof -
    have nz: "nrs ! i \<noteq> 0" and "i < N" using i by (auto simp: present_def)
    then have "Suc i * width \<le> N * width" by (intro mult_le_mono1) simp
    then have "buffer ! (i * width + pos) = take sz (drop (i * width) buffer) ! pos"
      using buf sz pos by simp
    also have "\<dots> = calc_share coeffs sz M (ctx_log (nrs ! i)) ! pos" by (simp add: shares [OF i])
    finally show ?thesis using calc_share_nth [OF nz M len pos] by simp
  qed
  have "polyn (length ?cs) (horner ?cs)" by (rule polyn_horner)
  moreover have "length ?cs \<le> card (?g ` present nrs N)"
    using enough card_image [OF nrs_inj [OF d]] by (simp add: coefficients_def)
  ultimately have "lagrange0 (?g ` present nrs N) (horner ?cs) = horner ?cs 0"
    using lagrange0_polyn [OF finite_imageI [OF finite_present] polyn_le] by blast
  moreover have "horner ?cs 0 = gf_of (coeffs ! ((M - 1) * sz + pos))"
    using M by (cases M) (auto simp: coefficients_def)
  ultimately have "gf_of (gfshare_extract secretbuf nrs N buffer sz width ! pos)
      = gf_of (coeffs ! ((M - 1) * sz + pos))"
    using gfshare_extract_lagrange [OF d buf sz sec pos val] by simp
  then show ?thesis by simp
qed

lemma share_buffer_length:
  assumes "1 \<le> M" "sz \<le> width" "length secret = sz" "(M - 1) * sz \<le> length rnd"
  shows "length (share_buffer rnd secret sz width M) = M * width"
    and "pos < sz \<Longrightarrow> share_buffer rnd secret sz width M ! ((M - 1) * sz + pos) = secret ! pos"
proof -
  obtain m where M: "M = Suc m" using assms(1) by (cases M) auto
  have le: "m * sz + sz \<le> width + m * width" using mult_le_mono2 [OF assms(2), of m] assms(2) by linarith
  show "length (share_buffer rnd secret sz width M) = M * width"
    using assms le by (simp add: share_buffer_def M min_def)
  show "pos < sz \<Longrightarrow> share_buffer rnd secret sz width M ! ((M - 1) * sz + pos) = secret ! pos"
    using assms le by (simp add: share_buffer_def M nth_buf_write)
qed

lemma calc_shares_slices:
  assumes M: "1 \<le> M" and sz: "sz \<le> width" and sec: "length secret = sz"
    and rnd: "(M - 1) * sz \<le> length rnd" and nrs: "0 \<notin> set (take N sharenrs)" "N \<le> length sharenrs"
  defines "cb \<equiv> share_buffer rnd secret sz width M"
  shows "length (calc_shares rnd secret sz width M N sharenrs) = N * width
    \<and> (\<forall>i<N. take sz (drop (i * width) (calc_shares rnd secret sz width M N sharenrs))
          = calc_share cb sz M (ctx_log (sharenrs ! i)))"
proof -
  define f where "f = (\<lambda>shares i. buf_write (i * width) (calc_share cb sz M (ctx_log (sharenrs ! i))) shares)"
  have cb: "M * sz \<le> length cb"
    using share_buffer_length(1) [OF M sz sec rnd] sz by (simp add: cb_def)
  have cl: "length (calc_share cb sz M (ctx_log (sharenrs ! i))) = sz" if "i < N" for i
  proof -
    have "take N sharenrs ! i \<in> set (take N sharenrs)" using nrs that by (intro nth_mem) simp
    then have "sharenrs ! i \<noteq> 0" using nrs that by auto
    then show ?thesis by (rule calc_share_length [OF _ M cb])
  qed
  have "length (foldl f (replicate (N * width) 0) [0..<n]) = N * width
      \<and> (\<forall>i<n. take sz (drop (i * width) (foldl f (replicate (N * width) 0) [0..<n]))
          = calc_share cb sz M (ctx_log (sharenrs ! i)))" if "n \<le> N" for n
    using that
  proof (induction n)
    case (Suc n)
    let ?old = "foldl f (replicate (N * width) 0) [0..<n]"
    let ?d = "calc_share cb sz M (ctx_log (sharenrs ! n))"
    have d: "length ?d = sz" using cl Suc.prems by simp
    have fit: "n * width + length ?d \<le> length ?old"
      using Suc d sz mult_le_mono1 [of "Suc n" N width] by simp
    have "take sz (drop (i * width) (buf_write (n * width) ?d ?old)) = calc_share cb sz M (ctx_log (sharenrs ! i))"
      if "i < Suc n" for i
    proof (cases "i = n")
      case True
      then show ?thesis using buf_write_slice [OF fit] d by simp
    next
      case False
      with that have "i < n" by simp
      then have "i * width + sz \<le> n * width" using mult_le_mono1 [of "Suc i" n width] sz by simp
      then show ?thesis using buf_write_slice_other [OF fit] Suc \<open>i < n\<close> by simp
    qed
    with Suc fit show ?case by (simp add: f_def)
  qed simp
  then show ?thesis by (simp add: calc_shares_def f_def cb_def)
qed

section \<open>Choosing the abscissae\<close>

text \<open>
  The two loops of \<^verbatim>\<open>init_sharenrs\<close>: draw \<open>m\<close> entries without replacement from the
  first \<open>remains\<close> entries of \<open>valid\<close>, the draws being \<open>draw i\<close>.
\<close>

fun draw_sharenrs :: "(nat \<Rightarrow> nat) \<Rightarrow> nat \<Rightarrow> nat \<Rightarrow> bytes \<Rightarrow> nat \<Rightarrow> bytes \<times> nat" where
  "draw_sharenrs draw 0 i valid remains = ([], remains)"
| "draw_sharenrs draw (Suc m) i valid remains =
     (let r = draw i mod remains;
          (nrs, rem) = draw_sharenrs draw m (Suc i) (valid[r := valid ! (remains - 1)]) (remains - 1)
      in (valid ! r # nrs, rem))"

definition has_duplicate :: "bytes \<Rightarrow> nat \<Rightarrow> bool" where
  "has_duplicate nrs m =
     list_ex (\<lambda>i. list_ex (\<lambda>j. i \<noteq> j \<and> nrs ! i \<noteq> 0 \<and> nrs ! i = nrs ! j) [0..<m]) [0..<m]"

text \<open>
  \<open>randvals\<close> is the buffer filled by \<^verbatim>\<open>gfshare_fill_rand\<close>, \<open>rand i\<close> the \<open>i\<close>-th call
  of \<^verbatim>\<open>rand()\<close>. The result is the return value and the first \<open>n\<close> entries of
  \<open>sharenrs\<close>. The second branch copies \<open>valid\<close> from \<open>sharenrs\<close>, which the code has
  just cleared, and not from \<open>orig\<close>. \<open>None\<close> is a negative length given to
  \<^verbatim>\<open>memset\<close>.
\<close>

definition init_sharenrs :: "bytes \<Rightarrow> (nat \<Rightarrow> nat) \<Rightarrow> bytes option \<Rightarrow> int \<Rightarrow> int \<Rightarrow> (int \<times> bytes) option" where
  "init_sharenrs randvals rand orig m n =
     (if m > n \<or> n \<ge> 0xff then Some (-1, [])
      else if n < 0 then None
      else
        let cleared = replicate (nat n) 0;
            (nrs, remains, orign) =
              (if orig = None \<and> n = m
               then let (nrs, rem) = draw_sharenrs (\<lambda>i. unat (randvals ! i)) (nat n) 0
                          (map (\<lambda>i. word_of_nat (i + 1)) [0..<255]) 255
                    in (nrs, rem, 255)
               else let (nrs, rem) = draw_sharenrs (\<lambda>i. rand i div 256) (nat m) 0 cleared (nat n)
                    in (buf_write 0 nrs cleared, rem, nat n))
        in if int remains \<noteq> int orign - m then Some (-1, nrs)
           else if has_duplicate nrs (nat m) then Some (-1, nrs)
           else Some (0, nrs))"

text \<open>Drawing without replacement yields distinct members of the pool.\<close>

lemma draw_sharenrs_distinct:
  assumes "m \<le> remains" "remains \<le> length valid" "distinct (take remains valid)"
  shows "case draw_sharenrs draw m i valid remains of (nrs, rem) \<Rightarrow>
    length nrs = m \<and> rem = remains - m \<and> distinct nrs \<and> set nrs \<subseteq> set (take remains valid)"
  using assms
proof (induction m arbitrary: i valid remains)
  case (Suc m)
  define r where "r = draw i mod remains"
  obtain k where k: "remains = Suc k" using Suc.prems by (cases remains) auto
  have r: "r < Suc k" by (simp add: r_def k)
  define valid' where "valid' = valid[r := valid ! k]"
  obtain nrs rem where d: "draw_sharenrs draw m (Suc i) valid' k = (nrs, rem)"
    by (metis surj_pair)
  have tk: "take (Suc k) valid = take k valid @ [valid ! k]"
    using Suc.prems k by (simp add: take_Suc_conv_app_nth)
  have v': "take k valid' = (if r < k then (take k valid)[r := valid ! k] else take k valid)"
    using r Suc.prems k by (auto simp: valid'_def take_update_swap list_update_beyond)
  have sub: "set (take k valid') \<subseteq> set (take (Suc k) valid) - {valid ! r}"
  proof -
    have dist: "distinct (take k valid @ [valid ! k])" using Suc.prems k tk by simp
    show ?thesis
    proof (cases "r < k")
      case True
      have lr: "r < length (take k valid)" using True Suc.prems k by simp
      have "set ((take k valid)[r := valid ! k]) = insert (valid ! k) (set (take k valid) - {take k valid ! r})"
        using dist lr by (simp add: set_update_distinct)
      moreover have "valid ! k \<noteq> valid ! r" using dist lr True by (auto simp: in_set_conv_nth)
      ultimately show ?thesis using True tk v' by auto
    next
      case False
      with r have "r = k" by simp
      with dist tk v' show ?thesis by auto
    qed
  qed
  have "distinct (take k valid')"
    using Suc.prems k tk unfolding v' by (auto simp: distinct_list_update)
  then have IH: "length nrs = m \<and> rem = k - m \<and> distinct nrs \<and> set nrs \<subseteq> set (take k valid')"
    using Suc.IH [of k valid' "Suc i"] Suc.prems k d by (simp add: valid'_def)
  have "valid ! r \<in> set (take (Suc k) valid)"
    using r Suc.prems k by (auto simp: in_set_conv_nth intro!: exI [of _ r])
  moreover have "draw_sharenrs draw (Suc m) i valid remains = (valid ! r # nrs, rem)"
    using d by (simp add: Let_def r_def valid'_def k)
  ultimately show ?case using IH sub k by auto
qed simp

lemma full_pool:
  "take 255 (map (\<lambda>i. word_of_nat (i + 1)) [0..<255]) = (map (\<lambda>i. word_of_nat (i + 1)) [0..<255] :: bytes)"
  "distinct (map (\<lambda>i. word_of_nat (i + 1)) [0..<255] :: bytes)"
  "0 \<notin> set (map (\<lambda>i. word_of_nat (i + 1)) [0..<255] :: bytes)"
proof -
  have u: "unat (word_of_nat (i + 1) :: u8) = i + 1" if "i < 255" for i
    using that by (simp only: unsigned_of_nat) (simp add: take_bit_nat_eq_self del: of_nat_add)
  have inj: "inj_on (\<lambda>i. word_of_nat (i + 1) :: u8) (set [0..<255])"
  proof (rule inj_onI)
    fix i j assume "i \<in> set [0..<255]" "j \<in> set [0..<255]"
      and e: "(word_of_nat (i + 1) :: u8) = word_of_nat (j + 1)"
    then show "i = j" using arg_cong [OF e, of unat] u [of i] u [of j] by simp
  qed
  then show "distinct (map (\<lambda>i. word_of_nat (i + 1)) [0..<255] :: bytes)"
    unfolding distinct_map by simp
  have "(word_of_nat (i + 1) :: u8) \<noteq> 0" if "i < 255" for i
  proof
    assume "(word_of_nat (i + 1) :: u8) = 0"
    then have "unat (word_of_nat (i + 1) :: u8) = 0" by (metis unsigned_0)
    with u [OF that] show False by simp
  qed
  then show "0 \<notin> set (map (\<lambda>i. word_of_nat (i + 1)) [0..<255] :: bytes)" by auto
qed simp

lemma no_duplicate: "distinct nrs \<Longrightarrow> length nrs = m \<Longrightarrow> \<not> has_duplicate nrs m"
  by (auto simp: has_duplicate_def list_ex_iff nth_eq_iff_index_eq)

lemma draw_sharenrs_zero:
  "m \<le> remains \<Longrightarrow> draw_sharenrs draw m i (replicate remains' 0) remains = (nrs, rem) \<Longrightarrow>
     remains \<le> remains' \<Longrightarrow> nrs = replicate m 0 \<and> rem = remains - m"
proof (induction m arbitrary: i remains nrs rem)
  case (Suc m)
  have "draw i mod remains < remains" using Suc.prems by simp
  then have r: "draw i mod remains < remains'" using Suc.prems by linarith
  have "(replicate remains' (0::u8))[draw i mod remains := replicate remains' 0 ! (remains - 1)]
      = replicate remains' 0"
    using Suc.prems r by (intro nth_equalityI) (auto simp: nth_list_update_if)
  with r Suc.prems Suc.IH [of "remains - 1" "Suc i"] show ?case
    by (auto simp: Let_def split: prod.splits)
qed simp

section \<open>Properties\<close>

text \<open>
  The shares of an encoding context, given one by one to a decoding context of the same
  size, lie in its buffer at the offsets of their indices.
\<close>

definition give_shares :: "gfshare_ctx \<Rightarrow> gfshare_ctx \<Rightarrow> nat list \<Rightarrow> gfshare_ctx" where
  "give_shares enc dec is =
     foldl (\<lambda>ctx i. gfshare_ctx_dec_giveshare ctx i (gfshare_ctx_enc_getshare enc i)) dec is"

lemma give_shares_simps [simp]:
  "give_shares enc dec [] = dec"
  "give_shares enc dec (is @ [i]) =
     gfshare_ctx_dec_giveshare (give_shares enc dec is) i (gfshare_ctx_enc_getshare enc i)"
  by (simp_all add: give_shares_def)

lemma give_shares_keeps [simp]:
  "ctx_size (give_shares enc dec is) = ctx_size dec"
  "sharecount (give_shares enc dec is) = sharecount dec"
  "ctx_sharenrs (give_shares enc dec is) = ctx_sharenrs dec"
  by (induction "is" rule: rev_induct) (simp_all add: gfshare_ctx_dec_giveshare_def)

lemma give_shares_slices:
  assumes len: "length (ctx_buffer dec) = N * ctx_size dec"
    and sh: "\<And>i. i < N \<Longrightarrow> length (gfshare_ctx_enc_getshare enc i) = ctx_size dec"
  shows "set is \<subseteq> {..<N} \<Longrightarrow> length (ctx_buffer (give_shares enc dec is)) = N * ctx_size dec
    \<and> (\<forall>i\<in>set is. take (ctx_size dec) (drop (i * ctx_size dec) (ctx_buffer (give_shares enc dec is)))
          = gfshare_ctx_enc_getshare enc i)"
proof (induction "is" rule: rev_induct)
  case (snoc n "is")
  let ?sz = "ctx_size dec" and ?old = "ctx_buffer (give_shares enc dec is)"
    and ?d = "gfshare_ctx_enc_getshare enc n"
  have n: "n < N" and d: "length ?d = ?sz" using snoc.prems sh by auto
  have fit: "n * ?sz + length ?d \<le> length ?old"
    using snoc d n mult_le_mono1 [of "Suc n" N ?sz] by simp
  have new: "ctx_buffer (give_shares enc dec (is @ [n])) = buf_write (n * ?sz) ?d ?old"
    by (simp add: gfshare_ctx_dec_giveshare_def d)
  have "take ?sz (drop (i * ?sz) (buf_write (n * ?sz) ?d ?old)) = gfshare_ctx_enc_getshare enc i"
    if "i \<in> set (is @ [n])" for i
  proof (cases "i = n")
    case True
    then show ?thesis using buf_write_slice [OF fit] d by simp
  next
    case False
    then have "i * ?sz + ?sz \<le> n * ?sz \<or> n * ?sz + ?sz \<le> i * ?sz"
      using mult_le_mono1 [of "Suc i" n ?sz] mult_le_mono1 [of "Suc n" i ?sz] by (cases i n rule: linorder_cases) auto
    then show ?thesis using buf_write_slice_other [OF fit] snoc that False d by simp
  qed
  then show ?case using fit snoc new by simp
qed (use len in simp)

text \<open>What the encoding context holds once the secret has been set.\<close>

lemma setsecret_buffer:
  assumes init: "gfshare_ctx_init_enc (Some mem) sharenrs N M sz = Some enc"
    and mem: "length (ctx_sharenrs mem) = 255" "length (ctx_buffer mem) = unat M * sz"
    and "1 \<le> M" "N \<le> length sharenrs" "N \<le> 255" "length secret = sz" "(unat M - 1) * sz \<le> length rnd"
  shows "let enc' = gfshare_ctx_enc_setsecret rnd enc secret in
      ctx_size enc' = sz \<and> threshold enc' = unat M \<and> length (ctx_buffer enc') = unat M * sz
      \<and> (\<forall>pos < sz. ctx_buffer enc' ! ((unat M - 1) * sz + pos) = secret ! pos)
      \<and> (\<forall>i<N. ctx_sharenrs enc' ! i = sharenrs ! i \<and> sharenrs ! i \<noteq> 0)"
proof -
  obtain m where m: "unat M = Suc m" using assms(4) by (cases "unat M") (auto simp: word_le_nat_alt)
  have nz: "sharenrs ! i \<noteq> 0" if "i < N" for i
    using init that assms(5) nth_mem [of i "take N sharenrs"]
    by (auto simp: gfshare_ctx_init_enc_def list_ex_iff split: if_splits)
  show ?thesis
    using init mem assms(5-8) nz
    by (auto simp: gfshare_ctx_init_enc_def gfshare_ctx_init_core_def gfshare_ctx_enc_setsecret_def
        Let_def m nth_buf_write split: if_splits)
qed

text \<open>
  C3. Threshold recovery through the contexts, in the order \<^verbatim>\<open>test_m_of_n\<close> calls them.
  An encoding context is made for distinct abscissae (\<^verbatim>\<open>gfshare_ctx_init_enc\<close>
  refuses a zero) and given a secret; a decoding context is given the shares that
  \<^verbatim>\<open>gfshare_ctx_enc_getshare\<close> makes for any selection of at least the threshold
  of the abscissae, the others marked by 0. Then \<^verbatim>\<open>gfshare_ctx_dec_extract\<close> returns
  the secret that was set, whatever the random coefficients were and whatever the freshly
  allocated blocks and the output buffer held before.
\<close>

theorem gfshare_threshold_recovery:
  assumes enc: "gfshare_ctx_init_enc (Some mem) sharenrs N M sz = Some enc"
    and mem: "length (ctx_sharenrs mem) = 255" "length (ctx_buffer mem) = unat M * sz"
    and dec: "gfshare_ctx_init_dec (Some mem') nrs0 N sz = Some dec"
    and mem': "length (ctx_sharenrs mem') = 255" "length (ctx_buffer mem') = N * sz"
    and M: "1 \<le> M" and N: "N \<le> 255" "N \<le> length sharenrs" "N \<le> length nrs0" "N \<le> length nrs"
    and dist: "distinct (take N sharenrs)"
    and secret: "length secret = sz" and rnd: "(unat M - 1) * sz \<le> length rnd"
    and sel: "\<forall>i<N. nrs ! i = 0 \<or> nrs ! i = sharenrs ! i"
    and enough: "unat M \<le> card {i. i < N \<and> nrs ! i \<noteq> 0}"
    and secretbuf: "length secretbuf = sz"
  shows "gfshare_ctx_dec_extract
      (gfshare_ctx_dec_newshares
        (give_shares (gfshare_ctx_enc_setsecret rnd enc secret) dec [i\<leftarrow>[0..<N]. nrs ! i \<noteq> 0]) nrs)
      secretbuf = secret"
proof -
  let ?e = "gfshare_ctx_enc_setsecret rnd enc secret" and ?is = "[i\<leftarrow>[0..<N]. nrs ! i \<noteq> 0]"
  let ?cb = "ctx_buffer ?e" and ?d = "give_shares ?e dec ?is"
  note e = setsecret_buffer [OF enc mem M N(2,1) secret rnd, unfolded Let_def]
  have M1: "1 \<le> unat M" using M by (simp add: word_le_nat_alt)
  have share: "gfshare_ctx_enc_getshare ?e i = calc_share ?cb sz (unat M) (ctx_log (sharenrs ! i))"
    if "i < N" for i using e that by (simp add: gfshare_ctx_enc_getshare_def)
  have decf: "ctx_size dec = sz" "sharecount dec = N" "length (ctx_sharenrs dec) = 255"
    "length (ctx_buffer dec) = N * sz"
    using dec mem' N by (auto simp: gfshare_ctx_init_dec_def gfshare_ctx_init_core_def)
  have "length (gfshare_ctx_enc_getshare ?e i) = ctx_size dec" if "i < N" for i
    using share [OF that] calc_share_length [OF _ M1, of "sharenrs ! i" sz ?cb] e that decf by simp
  from give_shares_slices [of dec N ?e ?is, OF _ this] decf
  have gl: "length (ctx_buffer ?d) = N * sz"
    and gs: "\<And>i. i < N \<Longrightarrow> nrs ! i \<noteq> 0 \<Longrightarrow>
      take sz (drop (i * sz) (ctx_buffer ?d)) = gfshare_ctx_enc_getshare ?e i" by auto
  define nr where "nr = buf_write 0 (take N nrs) (ctx_sharenrs dec)"
  have nr: "nr ! i = nrs ! i" if "i < N" for i
    using that N decf by (simp add: nr_def nth_buf_write)
  have nth: "sharenrs ! i = sharenrs ! j \<longleftrightarrow> i = j" if "i < N" "j < N" for i j
    using that dist N nth_eq_iff_index_eq [of "take N sharenrs" i j] by simp
  have d: "nrs_distinct nr N" unfolding nrs_distinct_def using sel nth nr by metis
  have pr: "present nr N = {i. i < N \<and> nrs ! i \<noteq> 0}" using nr by (auto simp: present_def)
  have shares: "take sz (drop (i * sz) (ctx_buffer ?d)) = calc_share ?cb sz (unat M) (ctx_log (nr ! i))"
    if "i \<in> present nr N" for i
    using that gs [of i] share [of i] sel nr unfolding pr by auto
  have cb: "unat M * sz \<le> length ?cb" using e by simp
  have "gfshare_extract secretbuf nr N (ctx_buffer ?d) sz sz ! pos = secret ! pos" if "pos < sz" for pos
    using extract_recovers [OF d _ order_refl secretbuf M1 cb shares _ that] gl e that enough pr by simp
  moreover have "length (gfshare_extract secretbuf nr N (ctx_buffer ?d) sz sz) = sz"
    using extract_fold [OF d _ order_refl secretbuf order_refl, of "ctx_buffer ?d"] gl
    by (simp add: gfshare_extract_def)
  ultimately have "gfshare_extract secretbuf nr N (ctx_buffer ?d) sz sz = secret"
    using secret by (intro nth_equalityI) auto
  then show ?thesis
    using decf by (simp add: gfshare_ctx_dec_extract_def gfshare_ctx_dec_newshares_def nr_def)
qed

definition witness_mem :: "bytes \<Rightarrow> gfshare_ctx" where
  "witness_mem buf = \<lparr>sharecount = 0, threshold = 0, ctx_size = 0, buffersize = 0,
     ctx_sharenrs = replicate 255 0, ctx_buffer = buf\<rparr>"

theorem gfshare_threshold_recovery_witness:
  "gfshare_ctx_dec_extract (gfshare_ctx_dec_newshares
      (give_shares
         (gfshare_ctx_enc_setsecret [7, 9]
           (the (gfshare_ctx_init_enc (Some (witness_mem [1, 2, 3, 4])) [1, 2, 3] 3 2 2)) [0x41, 0x42])
         (the (gfshare_ctx_init_dec (Some (witness_mem [1, 2, 3, 4, 5, 6])) [1, 2, 3] 3 2))
         [i\<leftarrow>[0..<3]. [1, 0, 3] ! i \<noteq> (0::u8)]) [1, 0, 3]) [0, 0] = [0x41, 0x42]"
proof (rule gfshare_threshold_recovery [where mem = "witness_mem [1, 2, 3, 4]" and M = 2
      and mem' = "witness_mem [1, 2, 3, 4, 5, 6]" and ?nrs0.0 = "[1, 2, 3]" and sharenrs = "[1, 2, 3]"])
  show "\<forall>i<3. [1, 0, 3] ! i = (0::u8) \<or> [1, 0, 3] ! i = ([1, 2, 3] ! i :: u8)"
    by (auto simp: numeral_3_eq_3 less_Suc_eq)
  have "{i. i < 3 \<and> [1, 0, 3] ! i \<noteq> (0::u8)} = {0, 2}"
    by (auto simp: numeral_3_eq_3 less_Suc_eq)
  then show "unat (2::u8) \<le> card {i. i < 3 \<and> [1, 0, 3] ! i \<noteq> (0::u8)}" by simp
qed (simp_all add: gfshare_ctx_init_enc_def gfshare_ctx_init_dec_def gfshare_ctx_init_core_def witness_mem_def)

text \<open>
  C19. Fewer than \<open>M\<close> shares reveal nothing: for any selection of at most \<open>M - 1\<close>
  shares and any other secret of the same length there are random coefficients under which
  that other secret has exactly the selected shares.
\<close>

theorem gfshare_hides:
  assumes M: "1 \<le> M" and sec: "length secret = sz" and sec': "length secret' = sz"
    and rnd: "length rnd = (M - 1) * sz"
    and nz: "\<forall>i\<in>I. sharenrs ! i \<noteq> 0" and few: "finite I" "card I \<le> M - 1"
  shows "\<exists>rnd'. length rnd' = (M - 1) * sz \<and> (\<forall>i\<in>I.
    calc_share (share_buffer rnd' secret' sz sz M) sz M (ctx_log (sharenrs ! i))
    = calc_share (share_buffer rnd secret sz sz M) sz M (ctx_log (sharenrs ! i)))"
proof -
  let ?S = "(\<lambda>i. gf_of (sharenrs ! i)) ` I"
  let ?cb = "share_buffer rnd secret sz sz M"
  obtain m where m: "M = Suc m" using M by (cases M) auto
  have S: "finite ?S" "0 \<notin> ?S" "card ?S \<le> m"
    using few nz card_image_le [of I "\<lambda>i. gf_of (sharenrs ! i)"] m by auto
  have "\<exists>cs. length cs = m \<and> (\<forall>x\<in>?S. horner (cs @ [gf_of (secret' ! pos)]) x
      = horner (coefficients ?cb sz pos M) x)" for pos
    by (rule free_constant [OF S])
  then obtain cs where cs: "\<And>pos. length (cs pos) = m"
    and val: "\<And>pos x. x \<in> ?S \<Longrightarrow> horner (cs pos @ [gf_of (secret' ! pos)]) x
      = horner (coefficients ?cb sz pos M) x" by metis
  define rnd' where "rnd' = map (\<lambda>n. byte_of (cs (n mod sz) ! (n div sz))) [0..<m * sz]"
  let ?cb' = "share_buffer rnd' secret' sz sz M"
  have len': "length rnd' = (M - 1) * sz" by (simp add: rnd'_def m)
  have buf: "length ?cb = M * sz" "length ?cb' = M * sz"
    using share_buffer_length(1) [OF M order_refl] sec sec' rnd len' by simp_all
  have co: "coefficients ?cb' sz pos M = cs pos @ [gf_of (secret' ! pos)]" if pos: "pos < sz" for pos
  proof -
    have "gf_of (?cb' ! (k * sz + pos)) = cs pos ! k" if "k < m" for k
    proof -
      have lt: "k * sz + pos < m * sz" using that pos mult_le_mono1 [of "Suc k" m sz] by simp
      then have "?cb' ! (k * sz + pos) = rnd' ! (k * sz + pos)"
        using len' sec' by (simp add: share_buffer_def m nth_buf_write)
      with lt pos show ?thesis by (simp add: rnd'_def)
    qed
    moreover have "?cb' ! (m * sz + pos) = secret' ! pos"
      using share_buffer_length(2) [OF M order_refl sec' _ pos, of rnd'] len' m by simp
    ultimately show ?thesis using cs
      by (intro nth_equalityI) (auto simp: coefficients_def m nth_append less_Suc_eq simp del: upt_Suc)
  qed
  have "calc_share ?cb' sz M (ctx_log (sharenrs ! i)) = calc_share ?cb sz M (ctx_log (sharenrs ! i))"
    if "i \<in> I" for i
  proof (rule nth_equalityI)
    have x: "sharenrs ! i \<noteq> 0" using nz that by blast
    show len: "length (calc_share ?cb' sz M (ctx_log (sharenrs ! i)))
        = length (calc_share ?cb sz M (ctx_log (sharenrs ! i)))"
      using buf by (simp add: calc_share_length [OF x M])
    fix pos assume "pos < length (calc_share ?cb' sz M (ctx_log (sharenrs ! i)))"
    then have pos: "pos < sz" using buf by (simp add: calc_share_length [OF x M])
    have "gf_of (calc_share ?cb' sz M (ctx_log (sharenrs ! i)) ! pos)
        = gf_of (calc_share ?cb sz M (ctx_log (sharenrs ! i)) ! pos)"
      using buf val [of "gf_of (sharenrs ! i)" pos] that
      by (simp add: calc_share_nth [OF x M _ pos] co [OF pos])
    then show "calc_share ?cb' sz M (ctx_log (sharenrs ! i)) ! pos
        = calc_share ?cb sz M (ctx_log (sharenrs ! i)) ! pos" by simp
  qed
  with len' show ?thesis by blast
qed

theorem gfshare_hides_witness:
  "\<exists>rnd'. length rnd' = (2 - 1) * 1 \<and> (\<forall>i\<in>{0}.
    calc_share (share_buffer rnd' [0x42] 1 1 2) 1 2 (ctx_log ([5, 6] ! i))
    = calc_share (share_buffer [7] [0x41] 1 1 2) 1 2 (ctx_log ([5, 6] ! i)))"
  by (rule gfshare_hides) simp_all

text \<open>
  Choosing the abscissae: for every table size below 255 and whatever the random bytes
  are, \<^verbatim>\<open>init_sharenrs\<close> for a new table succeeds and returns distinct nonzero abscissae,
  the precondition of recovery.
\<close>

lemma init_sharenrs_full:
  assumes "0 \<le> n" "n < 255"
  shows "\<exists>nrs. init_sharenrs randvals rand None n n = Some (0, nrs)
    \<and> length nrs = nat n \<and> distinct nrs \<and> 0 \<notin> set nrs"
proof -
  let ?pool = "map (\<lambda>i. word_of_nat (i + 1)) [0..<255] :: bytes"
  obtain nrs rem where d: "draw_sharenrs (\<lambda>i. unat (randvals ! i)) (nat n) 0 ?pool 255 = (nrs, rem)"
    by (metis surj_pair)
  have n: "nat n \<le> 255" using assms by simp
  have pl: "(255::nat) \<le> length ?pool" "distinct (take 255 ?pool)"
    unfolding full_pool(1) by (simp, rule full_pool(2))
  note r = draw_sharenrs_distinct [OF n pl, of "\<lambda>i. unat (randvals ! i)" 0]
  have nrs: "length nrs = nat n" "rem = 255 - nat n" "distinct nrs" "set nrs \<subseteq> set ?pool"
    using r unfolding d full_pool(1) by simp_all
  then have "0 \<notin> set nrs" using full_pool(3) by blast
  moreover have "\<not> has_duplicate nrs (nat n)" using nrs by (simp add: no_duplicate)
  ultimately have "init_sharenrs randvals rand None n n = Some (0, nrs)"
    using assms nrs unfolding init_sharenrs_def d by (simp add: Let_def nat_diff_distrib')
  with nrs \<open>0 \<notin> set nrs\<close> show ?thesis by blast
qed

text \<open>
  C31. Choosing a subset of existing abscissae does not work as the callers mean it: given
  an existing vector, \<^verbatim>\<open>init_sharenrs\<close> never reads it and reports success with a vector
  of zeros, so no share is selected.
\<close>

theorem init_sharenrs_subset_is_empty:
  assumes "0 \<le> m" "m \<le> n" "n < 255"
  shows "init_sharenrs randvals rand (Some orig) m n = Some (0, replicate (nat n) 0)"
proof -
  obtain nrs rem where d: "draw_sharenrs (\<lambda>i. rand i div 256) (nat m) 0 (replicate (nat n) 0) (nat n)
      = (nrs, rem)" by (metis surj_pair)
  have r: "nrs = replicate (nat m) 0" "rem = nat n - nat m"
    using draw_sharenrs_zero [OF _ d] assms by simp_all
  have nrs: "buf_write 0 nrs (replicate (nat n) 0) = replicate (nat n) (0::u8)"
    using assms r by (simp add: buf_write_def replicate_add [symmetric] flip: nat_diff_distrib')
  have "\<not> has_duplicate (replicate (nat n) 0) (nat m)"
    using assms by (auto simp: has_duplicate_def list_ex_iff)
  with assms r nrs d show ?thesis
    unfolding init_sharenrs_def by (simp add: Let_def)
qed

theorem init_sharenrs_subset_is_empty_witness:
  "init_sharenrs [] (\<lambda>_. 0) (Some [1, 2, 3]) 2 3 = Some (0, replicate (nat 3) 0)"
  by (rule init_sharenrs_subset_is_empty) simp_all

end
