(* ===== verification/Cards777.thy ===== *)
theory Cards777
  imports Libgfshare "HOL-Library.Multiset"
begin

text \<open>
  The parts of the mental-poker card layer (\<^verbatim>\<open>src/plugins/games/cards777.c\<close>) that do
  not compute on the elliptic curve: each player shuffles the deck it received, shares the
  keys it adds with the other players by threshold sharing, and the table recovers the keys
  of a player that has left. A card is a row of \<open>N\<close> 256-bit values, one per destination
  player; the values are the type parameter.
\<close>

section \<open>Shuffling\<close>

text \<open>
  The first loop of \<^verbatim>\<open>cards777_shuffle\<close> with \<open>Suc k = numcards - i\<close> cards left:
  \<open>rnd i\<close> is the random byte of round \<open>i\<close>.
\<close>

fun shuffle_loop :: "(nat \<Rightarrow> u8) \<Rightarrow> nat \<Rightarrow> nat \<Rightarrow> int list \<Rightarrow> int list" where
  "shuffle_loop rnd i 0 desti = []"
| "shuffle_loop rnd i (Suc k) desti =
     (let pos = unat (rnd i) mod Suc k in
      desti ! pos # shuffle_loop rnd (Suc i) k (desti[pos := desti ! k, k := -1]))"

definition shuffle_permi :: "(nat \<Rightarrow> u8) \<Rightarrow> nat \<Rightarrow> int list" where
  "shuffle_permi rnd numcards = shuffle_loop rnd 0 numcards (map int [0..<numcards])"

definition cards777_shuffle :: "(nat \<Rightarrow> u8) \<Rightarrow> 'a list \<Rightarrow> nat \<Rightarrow> nat \<Rightarrow> 'a list" where
  "cards777_shuffle rnd cards numcards N =
     concat (map (\<lambda>p. map (\<lambda>j. cards ! (nat p * N + j)) [0..<N]) (shuffle_permi rnd numcards))"

text \<open>Removing one drawn entry by moving the last live entry over it.\<close>

lemma draw_step_mset:
  assumes "pos < Suc k" "Suc k \<le> length xs"
  shows "add_mset (xs ! pos) (mset (take k (xs[pos := xs ! k]))) = mset (take (Suc k) xs)"
proof -
  have tk: "take (Suc k) xs = take k xs @ [xs ! k]" using assms by (simp add: take_Suc_conv_app_nth)
  show ?thesis
  proof (cases "pos < k")
    case True
    then have "xs ! pos \<in># mset (take k xs)"
      using assms by (auto simp: in_set_conv_nth intro!: exI [of _ pos])
    with True assms show ?thesis
      by (simp add: tk take_update_swap mset_update)
  next
    case False
    with assms have "pos = k" by simp
    with assms show ?thesis by (simp add: tk take_update_swap list_update_beyond)
  qed
qed

lemma shuffle_loop_mset:
  "k \<le> length desti \<Longrightarrow> mset (shuffle_loop rnd i k desti) = mset (take k desti)"
proof (induction k arbitrary: i desti)
  case (Suc k)
  let ?pos = "unat (rnd i) mod Suc k"
  have "take k (desti[?pos := desti ! k, k := -1]) = take k (desti[?pos := desti ! k])"
    by (simp add: take_update_cancel)
  with Suc draw_step_mset [of ?pos k desti] show ?case by (simp add: Let_def)
qed simp

lemma shuffle_permi_mset: "mset (shuffle_permi rnd numcards) = mset (map int [0..<numcards])"
  by (simp add: shuffle_permi_def shuffle_loop_mset)

lemma mset_concat_map_cong:
  assumes "mset xs = mset ys"
  shows "mset (concat (map f xs)) = mset (concat (map f ys))"
proof -
  have "mset (concat (map f zs)) = (\<Sum>x\<in>#mset zs. mset (f x))" for zs
    by (induction zs) auto
  with assms show ?thesis by simp
qed

lemma rows_concat:
  "concat (map (\<lambda>p. map (\<lambda>j. cards ! (p * N + j)) [0..<N]) [0..<n]) = map ((!) cards) [0..<n * N]"
proof (induction n)
  case (Suc n)
  have "map (\<lambda>j. cards ! (n * N + j)) [0..<N] = map ((!) cards) [n * N..<n * N + N]"
    by (rule nth_equalityI) auto
  moreover have "[0..<n * N + N] = [0..<n * N] @ [n * N..<n * N + N]"
    by (metis upt_add_eq_append zero_le)
  ultimately show ?case using Suc by (simp add: add.commute)
qed simp

section \<open>Sharing and recovering the layer keys\<close>

text \<open>\<^verbatim>\<open>cards777_calcmofn\<close>: the shares of all players and the size of one share.\<close>

definition cards777_calcmofn :: "bytes \<Rightarrow> bytes \<Rightarrow> nat \<Rightarrow> bytes \<Rightarrow> nat \<Rightarrow> nat \<Rightarrow> bytes \<times> (nat \<Rightarrow> bytes) \<times> nat" where
  "cards777_calcmofn rnd sharenrs M xoverz numcards N =
     (let sz = N * 32 * numcards;
          allshares = calc_shares rnd xoverz sz sz M N sharenrs
      in (allshares, (\<lambda>j. drop (j * sz) allshares), sz))"

text \<open>
  \<^verbatim>\<open>cards777_recover\<close>: \<open>shares ! i\<close> is \<open>None\<close> where the pointer is null, \<open>mem\<close> the
  block the decoder context is allocated in; \<open>None\<close> is a failed allocation.
\<close>

definition cards777_recover ::
    "gfshare_ctx option \<Rightarrow> bytes option list \<Rightarrow> bytes \<Rightarrow> nat \<Rightarrow> nat \<Rightarrow> bytes option" where
  "cards777_recover mem shares sharenrs numcards N =
     (let sz = N * 32 * numcards;
          recovernrs = foldl (\<lambda>nrs i. if shares ! i \<noteq> None then nrs[i := sharenrs ! i] else nrs)
            (replicate 255 0) [0..<N]
      in case gfshare_ctx_init_dec mem recovernrs N sz of
           None \<Rightarrow> None
         | Some G \<Rightarrow>
             let G = foldl (\<lambda>G i. case shares ! i of None \<Rightarrow> G
                   | Some share \<Rightarrow> gfshare_ctx_dec_giveshare G i share) G [0..<N];
                 G = gfshare_ctx_dec_newshares G recovernrs
             in Some (gfshare_ctx_dec_extract G (replicate sz 0)))"

lemma recovernrs_nth:
  "n \<le> length nrs \<Longrightarrow>
    length (foldl (\<lambda>nrs i. if shares ! i \<noteq> None then nrs[i := sharenrs ! i] else nrs) nrs [0..<n]) = length nrs
    \<and> (\<forall>i<length nrs. foldl (\<lambda>nrs i. if shares ! i \<noteq> None then nrs[i := sharenrs ! i] else nrs) nrs [0..<n] ! i
        = (if i < n \<and> shares ! i \<noteq> None then sharenrs ! i else nrs ! i))"
  by (induction n) (auto simp: nth_list_update less_Suc_eq)

text \<open>Giving shares one by one fills their slots and leaves the other slots alone.\<close>

lemma giveshare_fold:
  assumes len: "n * ctx_size G \<le> length (ctx_buffer G)"
    and shares: "\<And>i s. i < n \<Longrightarrow> shares ! i = Some s \<Longrightarrow> ctx_size G \<le> length s"
  defines "H \<equiv> foldl (\<lambda>G i. case shares ! i of None \<Rightarrow> G
       | Some share \<Rightarrow> gfshare_ctx_dec_giveshare G i share) G [0..<n]"
  shows "ctx_size H = ctx_size G \<and> sharecount H = sharecount G \<and> ctx_sharenrs H = ctx_sharenrs G
    \<and> length (ctx_buffer H) = length (ctx_buffer G)
    \<and> (\<forall>i<n. \<forall>s. shares ! i = Some s \<longrightarrow>
        take (ctx_size G) (drop (i * ctx_size G) (ctx_buffer H)) = take (ctx_size G) s)"
  using len shares unfolding H_def
proof (induction n)
  case (Suc n)
  let ?f = "\<lambda>G i. case shares ! i of None \<Rightarrow> G | Some share \<Rightarrow> gfshare_ctx_dec_giveshare G i share"
  define K where "K = foldl ?f G [0..<n]"
  have IH: "ctx_size K = ctx_size G" "sharecount K = sharecount G" "ctx_sharenrs K = ctx_sharenrs G"
    "length (ctx_buffer K) = length (ctx_buffer G)"
    "\<And>i s. i < n \<Longrightarrow> shares ! i = Some s \<Longrightarrow>
        take (ctx_size G) (drop (i * ctx_size G) (ctx_buffer K)) = take (ctx_size G) s"
  proof -
    have "n * ctx_size G \<le> length (ctx_buffer G)" using Suc.prems(1) by simp
    note ih = Suc.IH [OF this, folded K_def]
    show "ctx_size K = ctx_size G" "sharecount K = sharecount G" "ctx_sharenrs K = ctx_sharenrs G"
      "length (ctx_buffer K) = length (ctx_buffer G)"
      "\<And>i s. i < n \<Longrightarrow> shares ! i = Some s \<Longrightarrow>
          take (ctx_size G) (drop (i * ctx_size G) (ctx_buffer K)) = take (ctx_size G) s"
      using ih Suc.prems(2) less_SucI by blast+
  qed
  have fold: "foldl ?f G [0..<Suc n] = ?f K n" unfolding K_def by simp
  show ?case
  proof (cases "shares ! n")
    case None
    with IH show ?thesis unfolding fold by (auto simp: less_Suc_eq)
  next
    case (Some t)
    then have t: "length (take (ctx_size G) t) = ctx_size G" using Suc.prems(2) [of n t] by simp
    have fit: "n * ctx_size G + length (take (ctx_size G) t) \<le> length (ctx_buffer K)"
      using Suc.prems(1) IH(4) t by simp
    have "take (ctx_size G) (drop (i * ctx_size G)
        (buf_write (n * ctx_size G) (take (ctx_size G) t) (ctx_buffer K))) = take (ctx_size G) s"
      if i: "i < Suc n" "shares ! i = Some s" for i s
    proof (cases "i = n")
      case True
      then show ?thesis using buf_write_slice [OF fit] t Some i by simp
    next
      case False
      with i have "i < n" by simp
      then have "i * ctx_size G + ctx_size G \<le> n * ctx_size G"
        using mult_le_mono1 [of "Suc i" n "ctx_size G"] by simp
      then show ?thesis using buf_write_slice_other [OF fit] IH(5) [OF \<open>i < n\<close> i(2)] by simp
    qed
    with Some IH fit show ?thesis unfolding fold by (simp add: gfshare_ctx_dec_giveshare_def)
  qed
qed simp

text \<open>
  Shuffling neither loses nor duplicates a card: whatever the random bytes, the shuffled deck
  holds exactly the values of the deck it was given, in whole rows.
\<close>

lemma shuffle_rows:
  assumes "length cards = numcards * N"
  shows "mset (cards777_shuffle rnd cards numcards N) = mset cards
    \<and> (\<exists>perm. mset perm = mset [0..<numcards] \<and>
        cards777_shuffle rnd cards numcards N
        = concat (map (\<lambda>p. take N (drop (p * N) cards)) perm))"
proof -
  let ?row = "\<lambda>p. map (\<lambda>j. cards ! (p * N + j)) [0..<N]"
  let ?perm = "map nat (shuffle_permi rnd numcards)"
  have p: "mset ?perm = mset [0..<numcards]"
    using arg_cong [OF shuffle_permi_mset [of rnd numcards], of "image_mset nat"]
    by (simp add: image_mset.compositionality comp_def)
  have sh: "cards777_shuffle rnd cards numcards N = concat (map ?row ?perm)"
    by (simp add: cards777_shuffle_def comp_def)
  have "mset (concat (map ?row ?perm)) = mset (concat (map ?row [0..<numcards]))"
    by (rule mset_concat_map_cong [OF p])
  also have "concat (map ?row [0..<numcards]) = cards"
    unfolding rows_concat using map_nth [of cards] by (simp add: assms)
  finally have "mset (cards777_shuffle rnd cards numcards N) = mset cards" by (simp only: sh)
  moreover have "?row q = take N (drop (q * N) cards)" if "q \<in> set ?perm" for q
  proof -
    have "set ?perm = set [0..<numcards]" using p by (metis set_mset_mset)
    then have "q < numcards" using that by auto
    then have "q * N + N \<le> length cards" using mult_le_mono1 [of "Suc q" numcards N] assms by simp
    then show ?thesis by (intro nth_equalityI) auto
  qed
  then have "concat (map ?row ?perm) = concat (map (\<lambda>p. take N (drop (p * N) cards)) ?perm)"
    by (intro arg_cong [of _ _ concat] map_cong refl)
  ultimately show ?thesis using p sh by metis
qed

text \<open>
  Key recovery at the table. When a player has shared its layer keys with
  \<^verbatim>\<open>cards777_calcmofn\<close> under distinct nonzero abscissae, any selection of at least \<open>M\<close>
  of the shares lets \<^verbatim>\<open>cards777_recover\<close> rebuild exactly the keys, through the decoder
  context and whatever the allocated memory held before.
\<close>

lemma cards777_recover_calcmofn:
  assumes M: "1 \<le> M" and N: "N \<le> 255" and key: "length xoverz = N * 32 * numcards"
    and rnd: "(M - 1) * (N * 32 * numcards) \<le> length rnd"
    and nrs: "N \<le> length sharenrs" "distinct (take N sharenrs)" "0 \<notin> set (take N sharenrs)"
    and mem: "length (ctx_sharenrs raw) = 255" "length (ctx_buffer raw) = N * (N * 32 * numcards)"
    and shares: "cards777_calcmofn rnd sharenrs M xoverz numcards N = (allshares, myshares, sz)"
      "\<forall>i<N. given ! i = None \<or> given ! i = Some (myshares i)"
    and enough: "M \<le> card {i. i < N \<and> given ! i \<noteq> None}"
  shows "cards777_recover (Some raw) given sharenrs numcards N = Some xoverz"
proof -
  have sz: "sz = N * 32 * numcards" and all: "allshares = calc_shares rnd xoverz sz sz M N sharenrs"
    and my: "\<And>j. myshares j = drop (j * sz) allshares"
    using shares(1) by (auto simp: cards777_calcmofn_def Let_def)
  define rn where "rn = foldl (\<lambda>nrs i. if given ! i \<noteq> None then nrs[i := sharenrs ! i] else nrs)
    (replicate 255 (0::u8)) [0..<N]"
  have rn: "length rn = 255" "\<And>i. i < N \<Longrightarrow> rn ! i = (if given ! i \<noteq> None then sharenrs ! i else 0)"
    using recovernrs_nth [of N "replicate 255 (0::u8)" given sharenrs] N by (auto simp: rn_def)
  define G where "G = raw\<lparr>sharecount := N, threshold := 0, ctx_size := sz,
    ctx_sharenrs := buf_write 0 (take N rn) (ctx_sharenrs raw), buffersize := buffersize
      (the (gfshare_ctx_init_dec (Some raw) rn N sz))\<rparr>"
  have init: "gfshare_ctx_init_dec (Some raw) rn N sz = Some G"
    by (simp add: G_def gfshare_ctx_init_dec_def gfshare_ctx_init_core_def)
  define H where "H = foldl (\<lambda>G i. case given ! i of None \<Rightarrow> G
    | Some share \<Rightarrow> gfshare_ctx_dec_giveshare G i share) G [0..<N]"
  have key': "length xoverz = sz" and rnd': "(M - 1) * sz \<le> length rnd" using key rnd sz by auto
  note sl = calc_shares_slices [OF M order_refl key' rnd' nrs(3,1), folded all]
  have fits: "sz \<le> length s" if "i < N" "given ! i = Some s" for i s
  proof -
    have "s = drop (i * sz) allshares" using that shares(2) my by force
    then show ?thesis using sl that mult_le_mono1 [of "Suc i" N sz] by simp
  qed
  have GH: "ctx_size H = sz" "sharecount H = N" "ctx_sharenrs H = ctx_sharenrs G"
    "length (ctx_buffer H) = N * sz"
    "\<And>i s. i < N \<Longrightarrow> given ! i = Some s \<Longrightarrow> take sz (drop (i * sz) (ctx_buffer H)) = take sz s"
    using giveshare_fold [of N G given, folded H_def] fits mem sz by (auto simp: G_def)
  let ?nrs = "buf_write 0 (take N rn) (ctx_sharenrs G)"
  have nr: "?nrs ! i = (if given ! i \<noteq> None then sharenrs ! i else 0)" if "i < N" for i
    using that rn N mem by (simp add: nth_buf_write G_def)
  have nz: "sharenrs ! i \<noteq> 0" if "i < N" for i
    using nrs that by (metis in_set_conv_nth length_take min.absorb2 nth_take)
  have pr: "present ?nrs N = {i. i < N \<and> given ! i \<noteq> None}"
    using nr nz by (auto simp: present_def split: if_splits)
  have inj: "sharenrs ! i = sharenrs ! j \<longleftrightarrow> i = j" if "i < N" "j < N" for i j
    using that nrs nth_eq_iff_index_eq [of "take N sharenrs" i j] by simp
  have d: "nrs_distinct ?nrs N"
    using nr inj by (auto simp: nrs_distinct_def)
  let ?cb = "share_buffer rnd xoverz sz sz M"
  have slice: "take sz (drop (i * sz) (ctx_buffer H)) = calc_share ?cb sz M (ctx_log (?nrs ! i))"
    if "i \<in> present ?nrs N" for i
  proof -
    have i: "i < N" "given ! i = Some (myshares i)" using that shares(2) by (auto simp: pr)
    then show ?thesis using GH(5) [OF i] sl my nr by simp
  qed
  have cb: "M * sz \<le> length ?cb" using share_buffer_length(1) [OF M order_refl key' rnd'] by simp
  let ?out = "gfshare_extract (replicate sz 0) ?nrs N (ctx_buffer H) sz sz"
  have "?out ! pos = xoverz ! pos" if "pos < sz" for pos
    using extract_recovers [OF d _ order_refl _ M cb slice _ that] GH(4) enough pr
      share_buffer_length(2) [OF M order_refl key' rnd' that] by simp
  moreover have "length ?out = sz"
    using extract_fold [OF d _ order_refl _ order_refl, of sz "ctx_buffer H" "replicate sz 0"] GH(4)
    by (simp add: gfshare_extract_def)
  ultimately have "?out = xoverz" using key' by (intro nth_equalityI) auto
  then show ?thesis
    using init GH unfolding cards777_recover_def Let_def sz [symmetric] rn_def [symmetric]
    by (simp add: H_def [symmetric] gfshare_ctx_dec_newshares_def gfshare_ctx_dec_extract_def)
qed

end
