(* ===== verification/CardCrypt.thy ===== *)
theory CardCrypt
  imports CurveAgree CurveTorsion Sha256 Cards777
begin

text \<open>
  The encryption of the cards (\<^verbatim>\<open>src/plugins/games/cards777.c\<close>) on the verified field, curve
  and hash: a card is a private key whose second byte is its face, multiplied by a secret it
  shares with the player it is dealt to; every player on the way multiplies it by the reciprocal
  of a random key, which is taken off again when the card is dealt. A \<^verbatim>\<open>bits256\<close> is the list of
  its 32 bytes.
\<close>

section \<open>Cards\<close>

text \<open>\<^verbatim>\<open>curve25519_shared\<close>; the former contents of the local hash do not matter.\<close>

definition curve25519_shared :: "bytes \<Rightarrow> bytes \<Rightarrow> bytes" where
  "curve25519_shared privkey otherpub =
     (let shared = curve25519 privkey otherpub in vcalc_sha256 (replicate 32 0) shared)"

definition cards777_initcrypt :: "bytes \<Rightarrow> bytes \<Rightarrow> bytes \<Rightarrow> bool \<Rightarrow> bytes" where
  "cards777_initcrypt data privkey pubkey invert =
     (let hash = curve25519_shared privkey pubkey; hash = (if invert then crecip_donna hash else hash)
      in fmul_donna data hash)"

text \<open>The loop of \<^verbatim>\<open>cards777_cardpriv\<close> over the public keys that are left.\<close>

fun cardpriv_loop :: "bytes \<Rightarrow> bytes list \<Rightarrow> bytes \<Rightarrow> bytes" where
  "cardpriv_loop playerpriv [] cipher = replicate 32 0"
| "cardpriv_loop playerpriv (cardpub # cardpubs) cipher =
     (let cardpriv = cards777_initcrypt cipher playerpriv cardpub True;
          checkpub = curve25519 cardpriv curve25519_basepoint9
      in if checkpub = cardpub then cardpriv else cardpriv_loop playerpriv cardpubs cipher)"

definition cards777_cardpriv :: "bytes \<Rightarrow> bytes list \<Rightarrow> nat \<Rightarrow> bytes \<Rightarrow> bytes" where
  "cards777_cardpriv playerpriv cardpubs numcards cipher = cardpriv_loop playerpriv (take numcards cardpubs) cipher"

text \<open>\<^verbatim>\<open>txid\<close> is the first 64-bit word; the result is the face and the private key, or \<open>- 1\<close> and zero.\<close>

definition cards777_checkcard :: "bytes \<Rightarrow> bytes list \<Rightarrow> nat \<Rightarrow> bytes \<Rightarrow> int \<times> bytes" where
  "cards777_checkcard playerpriv cardpubs numcards crd =
     (let cardpriv = cards777_cardpriv playerpriv cardpubs numcards crd
      in if le_val (take 8 cardpriv) \<noteq> 0 then (int (unat (cardpriv ! 1)), cardpriv) else (- 1, replicate 32 0))"

definition cards777_validate :: "bytes \<Rightarrow> bytes \<Rightarrow> bytes list \<Rightarrow> nat \<Rightarrow> bytes \<Rightarrow> int" where
  "cards777_validate cardpriv final audit numplayers playerpub =
     (let val = foldl (\<lambda>val i. fmul_donna (audit ! i) val) final (rev [1..<numplayers]);
          checkcard = val
      in if checkcard \<noteq> audit ! 0 then - 1
         else let ver = cards777_initcrypt cardpriv cardpriv playerpub False
              in if checkcard \<noteq> ver then - 1 else int (unat (cardpriv ! 1)))"

section \<open>Layers\<close>

text \<open>
  \<^verbatim>\<open>cards777_layer\<close> with the 32 random bytes \<open>rnd nonz\<close> of each call of \<^verbatim>\<open>rand256\<close>; the two
  loops run over \<open>numcards * N\<close> cards, and both result arrays are returned.
\<close>

definition cards777_layer :: "(nat \<Rightarrow> bytes) \<Rightarrow> bytes list \<Rightarrow> nat \<Rightarrow> nat \<Rightarrow> bytes list \<times> bytes list" where
  "cards777_layer rnd incards numcards N =
     (let xoverz = map (\<lambda>nonz. xoverz_donna (rand256 (rnd nonz) True)) [0..<numcards * N];
          layered = map (\<lambda>nonz. let z_x = crecip_donna (xoverz ! nonz) in fmul_donna z_x (incards ! nonz))
            [0..<numcards * N]
      in (layered, xoverz))"

text \<open>
  \<^verbatim>\<open>cards777_decode\<close> from card \<open>i\<close> on, with \<open>Suc k = numcards - i\<close>; the results are the key and
  the card, both zero when no card matches.
\<close>

fun decode_loop :: "bytes list \<Rightarrow> nat \<Rightarrow> bytes \<Rightarrow> bytes list \<Rightarrow> nat \<Rightarrow> nat \<Rightarrow> nat \<Rightarrow> bytes \<times> bytes" where
  "decode_loop xoverz destplayer cipher outcards N 0 i = (replicate 32 0, replicate 32 0)"
| "decode_loop xoverz destplayer cipher outcards N (Suc k) i =
     (let ind = i * N + destplayer
      in if outcards ! ind = cipher then (xoverz ! ind, fmul_donna (xoverz ! ind) cipher)
         else decode_loop xoverz destplayer cipher outcards N k (Suc i))"

definition cards777_decode :: "bytes list \<Rightarrow> nat \<Rightarrow> bytes \<Rightarrow> bytes list \<Rightarrow> nat \<Rightarrow> nat \<Rightarrow> bytes \<times> bytes" where
  "cards777_decode xoverz destplayer cipher outcards numcards N =
     decode_loop xoverz destplayer cipher outcards N numcards 0"

section \<open>The deck\<close>

text \<open>The clamped hash of a public key, as both products of the deck use it.\<close>

definition pubkey_factor :: "bytes \<Rightarrow> bytes" where
  "pubkey_factor pubkey =
     (let hash = vcalc_sha256 (replicate 32 0) pubkey;
          hash = hash[0 := hash ! 0 AND 0xf8]; hash = hash[31 := hash ! 31 AND 0x7f]
      in hash[31 := hash ! 31 OR 64])"

definition cards777_pubkeys :: "bytes list \<Rightarrow> nat \<Rightarrow> bytes" where
  "cards777_pubkeys pubkeys numcards =
     (let bp = (replicate 32 0)[0 := 9];
          prod = fmul_donna bp (crecip_donna bp)
      in foldl (\<lambda>prod i. fmul_donna prod (pubkey_factor (pubkeys ! i))) prod [0..<numcards])"

text \<open>
  The loop of \<^verbatim>\<open>cards777_initdeck\<close>: \<open>rnds\<close> are the random bytes its calls of
  \<^verbatim>\<open>curve25519_keypair\<close> draw, and \<open>None\<close> means that they are used up before the deck is complete.
  The state is the mask of the faces found, the public keys, the encrypted cards and the product.
\<close>

type_synonym deck = "u64 \<times> bytes list \<times> bytes list \<times> bytes"

fun initdeck_loop :: "bytes list \<Rightarrow> nat \<Rightarrow> nat \<Rightarrow> bytes list \<Rightarrow> deck \<Rightarrow> deck option" where
  "initdeck_loop rnds numcards N playerpubs (msk, cardpubs, cards, prd) =
     (if msk = push_bit numcards 1 - 1 then Some (msk, cardpubs, cards, prd)
      else case rnds of [] \<Rightarrow> None
        | rnd # rnds \<Rightarrow>
            let (privkey, pubkey) = curve25519_keypair rnd; i = unat (privkey ! 1)
            in if i < numcards \<and> push_bit i 1 AND msk = 0
               then initdeck_loop rnds numcards N playerpubs
                 (msk OR push_bit i 1, cardpubs @ [pubkey],
                  cards @ map (\<lambda>j. cards777_initcrypt privkey privkey (playerpubs ! j) False) [0..<N],
                  fmul_donna prd (pubkey_factor pubkey))
               else initdeck_loop rnds numcards N playerpubs (msk, cardpubs, cards, prd))"

definition cards777_initdeck :: "bytes list \<Rightarrow> nat \<Rightarrow> nat \<Rightarrow> bytes list \<Rightarrow> deck option" where
  "cards777_initdeck rnds numcards N playerpubs =
     (let bp = curve25519_basepoint9; prod = crecip_donna bp; prod = fmul_donna bp prod
      in initdeck_loop rnds numcards N playerpubs (0, [], [], prod))"

text \<open>
  \<^verbatim>\<open>cards777_encode\<close>: the shuffle, the layer, fresh share numbers and the shares of the layer
  keys; \<open>sbytes\<close> are the random bytes of the shuffle, \<open>nrbytes\<close> those of the share numbers,
  \<open>shbytes\<close> those of the shares. The results are the new cards, the layer keys, the shares of
  all players with their numbers, and the shuffled cards written back over the input. What
  follows in the source recombines a sample of the shares and prints whether it succeeded; it
  changes none of the results.
\<close>

definition cards777_encode :: "(nat \<Rightarrow> u8) \<Rightarrow> (nat \<Rightarrow> bytes) \<Rightarrow> bytes \<Rightarrow> bytes \<Rightarrow> nat \<Rightarrow> bytes list \<Rightarrow> nat \<Rightarrow> nat
    \<Rightarrow> (bytes list \<times> bytes list \<times> bytes \<times> bytes \<times> bytes list) option" where
  "cards777_encode sbytes rnd nrbytes shbytes M ciphers numcards N =
     (let shuffled = cards777_shuffle sbytes ciphers numcards N;
          (encoded, xoverz) = cards777_layer rnd shuffled numcards N
      in case init_sharenrs nrbytes (\<lambda>i. 0) None (int N) (int N) of
           None \<Rightarrow> None
         | Some (rc, nrs) \<Rightarrow>
             let sharenrs = buf_write 0 nrs (replicate 255 0);
                 (allshares, myshares, sz) = cards777_calcmofn shbytes sharenrs M (concat xoverz) numcards N
             in Some (encoded, xoverz, allshares, sharenrs, shuffled))"

section \<open>One card\<close>

lemma fmul_donna_commute: "length a = 32 \<Longrightarrow> length b = 32 \<Longrightarrow> fmul_donna a b = fmul_donna b a"
  by (simp add: fmul_donna_eq mult.commute)

lemma length_vcalc: "length (vcalc_sha256 (replicate 32 0) m) = 32"
  by (simp only: vcalc_sha256_std length_replicate length_sha256_std)

lemma length_shared: "length (curve25519_shared a b) = 32"
  by (simp only: curve25519_shared_def Let_def length_vcalc)

lemma length_initcrypt: "length d = 32 \<Longrightarrow> length (cards777_initcrypt d a b iv) = 32"
  by (simp add: cards777_initcrypt_def Let_def length_fmul_donna length_crecip_donna length_shared)

lemma initcrypt_cancel:
  assumes "length d = 32" "int (le_val d) < p25519"
    and "curve25519_shared a b = curve25519_shared a' b'" "fe (curve25519_shared a b) mod p25519 \<noteq> 0"
  shows "cards777_initcrypt (cards777_initcrypt d a b False) a' b' True = d"
proof -
  let ?h = "curve25519_shared a b"
  have l: "length ?h = 32" by (rule length_shared)
  have "cards777_initcrypt (cards777_initcrypt d a b False) a' b' True = fmul_donna (fmul_donna d ?h) (crecip_donna ?h)"
    by (simp add: cards777_initcrypt_def Let_def assms(3) [symmetric])
  also have "\<dots> = fmul_donna (crecip_donna ?h) (fmul_donna ?h d)"
    using assms(1) l by (simp add: fmul_donna_commute length_fmul_donna length_crecip_donna)
  also have "\<dots> = d" using crecip_fmul_cancel(1) [OF l assms(1,4)] fe_bytes_canonical [OF assms(1,2)] by simp
  finally show ?thesis .
qed

text \<open>What the search returns: a private key of the first public key that matches, or zero.\<close>

lemma cardpriv_loop_finds:
  assumes "i < length pubs" "curve25519 (cards777_initcrypt cipher playerpriv (pubs ! i) True) curve25519_basepoint9 = pubs ! i"
  shows "\<exists>j\<le>i. cardpriv_loop playerpriv pubs cipher = cards777_initcrypt cipher playerpriv (pubs ! j) True
    \<and> curve25519 (cardpriv_loop playerpriv pubs cipher) curve25519_basepoint9 = pubs ! j"
  using assms
proof (induction pubs arbitrary: i)
  case (Cons pub pubs)
  show ?case
  proof (cases "curve25519 (cards777_initcrypt cipher playerpriv pub True) curve25519_basepoint9 = pub")
    case True
    then show ?thesis by (intro exI [of _ 0]) (simp add: Let_def)
  next
    case False
    with Cons.prems obtain k where k: "i = Suc k" by (cases i) auto
    then have "\<exists>j\<le>k. cardpriv_loop playerpriv pubs cipher = cards777_initcrypt cipher playerpriv (pubs ! j) True
      \<and> curve25519 (cardpriv_loop playerpriv pubs cipher) curve25519_basepoint9 = pubs ! j"
      using Cons.prems by (intro Cons.IH) simp_all
    then obtain j where "j \<le> k" "cardpriv_loop playerpriv pubs cipher = cards777_initcrypt cipher playerpriv (pubs ! j) True"
      "curve25519 (cardpriv_loop playerpriv pubs cipher) curve25519_basepoint9 = pubs ! j" by blast
    with False k show ?thesis by (intro exI [of _ "Suc j"]) (simp add: Let_def)
  qed
qed simp

lemma cardpriv_recovers:
  assumes "length cardpriv = 32" "int (le_val cardpriv) < p25519"
    and "i < numcards" "numcards \<le> length cardpubs" "cardpubs ! i = curve25519 cardpriv curve25519_basepoint9"
    and agree: "curve25519 playerpriv (cardpubs ! i) = curve25519 cardpriv playerpub"
    and "fe (curve25519_shared cardpriv playerpub) mod p25519 \<noteq> 0"
    and first: "\<forall>j<i. curve25519 (cards777_initcrypt (cards777_initcrypt cardpriv cardpriv playerpub False)
        playerpriv (cardpubs ! j) True) curve25519_basepoint9 \<noteq> cardpubs ! j"
  shows "cards777_cardpriv playerpriv cardpubs numcards (cards777_initcrypt cardpriv cardpriv playerpub False) = cardpriv"
proof -
  let ?c = "cards777_initcrypt cardpriv cardpriv playerpub False"
  have "curve25519_shared cardpriv playerpub = curve25519_shared playerpriv (cardpubs ! i)"
    by (simp only: curve25519_shared_def agree)
  from initcrypt_cancel [OF assms(1,2) this assms(7)]
  have c: "cards777_initcrypt ?c playerpriv (cardpubs ! i) True = cardpriv" .
  have t: "take numcards cardpubs ! j = cardpubs ! j" if "j \<le> i" for j using that assms(3) by simp
  obtain j where "j \<le> i" "cards777_cardpriv playerpriv cardpubs numcards ?c = cards777_initcrypt ?c playerpriv (take numcards cardpubs ! j) True"
      "curve25519 (cards777_cardpriv playerpriv cardpubs numcards ?c) curve25519_basepoint9 = take numcards cardpubs ! j"
    using cardpriv_loop_finds [of i "take numcards cardpubs" ?c playerpriv] assms(3-5) c
    unfolding cards777_cardpriv_def by auto
  moreover from this t first have "j = i" by (metis le_neq_implies_less)
  ultimately show ?thesis using t c by simp
qed

section \<open>Layers come off\<close>

lemma fe_bytes_0: "fe_bytes 0 = replicate 32 0"
  by (simp only: fe_bytes_def num_bytes_zero mod_0 nat_0)

lemma fe_bytes_eq_0: "fe_bytes y = replicate 32 0 \<longleftrightarrow> fe (fe_bytes y) mod p25519 = 0"
  by (metis fe_bytes_0 fe_fe_bytes fe_bytes_cong feq_def mod_0 mod_mod_trivial)

lemma curve25519_canonical:
  assumes "length a = 32" "length b = 32"
  shows "\<exists>y. curve25519 a b = fe_bytes y"
proof -
  obtain X Z PQ where l: "mont_ladder (int (le_val b mod 2 ^ 255)) (rev (map (bit (le_val a)) [0..<256]))
        ((1, 0), (int (le_val b mod 2 ^ 255), 1)) = ((X, Z), PQ)"
    by (metis surj_pair)
  show ?thesis unfolding curve25519_eq c51.curve_bytes_ladder [OF assms l] by (auto simp: fe_bytes_def)
qed

lemma length_rand256: "length r = 32 \<Longrightarrow> length (rand256 r f) = 32"
  by (simp add: rand256_def Let_def)

lemma length_basepoint9: "length curve25519_basepoint9 = 32"
  by (simp add: curve25519_basepoint9_def)

lemma xoverz_canonical:
  assumes "length r = 32"
  shows "\<exists>y. xoverz_donna (rand256 r True) = fe_bytes y"
  using curve25519_canonical [OF length_rand256 [OF assms] length_basepoint9]
  by (simp add: xoverz_donna_curve length_rand256 assms)

text \<open>
  A draw whose layer key is not zero: the scalar of 32 zero bytes is \<open>2 ^ 254\<close>, and doubling the
  base point does not end in a coordinate of zero.
\<close>

lemma rand256_zeros: "rand256 (replicate 32 0) True = replicate 31 0 @ [64]"
  by (simp add: rand256_def Let_def numeral_eq_Suc)

lemma xoverz_zero_draw: "xoverz_donna (rand256 (replicate 32 0) True) \<noteq> replicate 32 0"
proof
  let ?s = "replicate 31 0 @ [64] :: bytes"
  assume zero: "xoverz_donna (rand256 (replicate 32 0) True) = replicate 32 0"
  have len: "length ?s = 32" by simp
  have s: "le_val ?s = 2 ^ 254" by (simp only: le_val_append le_val_zero length_replicate le_val.simps) simp
  have b9: "curve25519_basepoint9 = 9 # replicate 31 0" by (simp add: curve25519_basepoint9_def numeral_eq_Suc)
  have "le_val curve25519_basepoint9 = 9" unfolding b9 le_val.simps le_val_zero by simp
  then have b: "int (le_val curve25519_basepoint9 mod 2 ^ 255) = 9" by simp
  obtain X Z PQ where l: "mont_ladder 9 (rev (map (bit (2 ^ 254 :: nat)) [0..<256])) ((1, 0), (9, 1)) = ((X, Z), PQ)"
    by (metis surj_pair)
  have t: "\<not> feq X 0" "\<not> feq Z 0" using ladder_pow2 [OF l] by (simp_all add: torsion_free_def)
  from c51.curve_ladder [OF len length_basepoint9, unfolded s b, OF l] obtain R
    where R: "curve25519 ?s curve25519_basepoint9 = num_bytes 32 R" "int R < p25519"
      "int R * Z mod p25519 = X mod p25519"
    unfolding curve25519_eq using t(2) by (auto simp: feq_def)
  have "num_bytes 32 R = replicate 32 0"
    using zero R(1) unfolding rand256_zeros xoverz_donna_curve [OF len] by simp
  then have "R mod 256 ^ 32 = 0" using le_val_num_bytes [of 32 R] le_val_zero [of 32] by simp
  then have "R = 0" using R(2) by (simp add: p25519_def)
  with R(3) t(1) show False by (simp add: feq_def)
qed

text \<open>Multiplying by a key after its reciprocal; a zero key, which has no inverse, loses the card.\<close>

lemma layer_cancel:
  assumes "length c = 32" "int (le_val c) < p25519"
  shows "fmul_donna (fe_bytes y) (fmul_donna (crecip_donna (fe_bytes y)) c)
    = (if fe_bytes y = replicate 32 0 then replicate 32 0 else c)"
proof (cases "fe_bytes y = replicate 32 0")
  case True
  then have "fe (fe_bytes y) mod p25519 = 0" by (simp only: fe_bytes_eq_0)
  then have "fe (fe_bytes y) = 0" by simp
  then have "fmul_donna (fe_bytes y) d = replicate 32 0" if "length d = 32" for d
    using that by (simp only: fmul_donna_eq length_fe_bytes mult_zero_left fe_bytes_0)
  moreover have "length (fmul_donna (crecip_donna (fe_bytes y)) c) = 32"
    using assms(1) by (simp only: length_fmul_donna length_crecip_donna length_fe_bytes)
  ultimately have "fmul_donna (fe_bytes y) (fmul_donna (crecip_donna (fe_bytes y)) c) = replicate 32 0" by blast
  with True show ?thesis by (simp only: if_True refl)
next
  case False
  then have "fe (fe_bytes y) mod p25519 \<noteq> 0" by (simp only: fe_bytes_eq_0 not_False_eq_True)
  from crecip_fmul_cancel(2) [OF length_fe_bytes assms(1) this] fe_bytes_canonical [OF assms] False
  show ?thesis by (simp only: if_False)
qed

lemma decode_loop_finds:
  assumes "outcards ! ((i + m) * N + d) = cipher" "m < k"
  shows "\<exists>j\<le>i + m. outcards ! (j * N + d) = cipher
    \<and> decode_loop xoverz d cipher outcards N k i = (xoverz ! (j * N + d), fmul_donna (xoverz ! (j * N + d)) cipher)"
  using assms
proof (induction k arbitrary: i m)
  case (Suc k)
  show ?case
  proof (cases "outcards ! (i * N + d) = cipher")
    case True
    then show ?thesis by (intro exI [of _ i]) (simp add: Let_def)
  next
    case False
    with Suc.prems obtain n where n: "m = Suc n" by (cases m) auto
    then have "\<exists>j\<le>Suc i + n. outcards ! (j * N + d) = cipher \<and> decode_loop xoverz d cipher outcards N k (Suc i)
      = (xoverz ! (j * N + d), fmul_donna (xoverz ! (j * N + d)) cipher)"
      using Suc.prems by (intro Suc.IH) simp_all
    with False n show ?thesis by (simp add: Let_def)
  qed
qed simp

lemma decode_loop_none:
  "\<forall>j<k. outcards ! ((i + j) * N + d) \<noteq> cipher \<Longrightarrow>
    decode_loop xoverz d cipher outcards N k i = (replicate 32 0, replicate 32 0)"
proof (induction k arbitrary: i)
  case (Suc k)
  from Suc.prems have "outcards ! (i * N + d) \<noteq> cipher" by (metis add_0_right zero_less_Suc)
  moreover have "decode_loop xoverz d cipher outcards N k (Suc i) = (replicate 32 0, replicate 32 0)"
    using Suc.prems by (intro Suc.IH) (metis Suc_less_eq add_Suc_shift)
  ultimately show ?case by (simp only: decode_loop.simps Let_def if_False)
qed (simp only: decode_loop.simps)

lemma card_index: "i < numcards \<Longrightarrow> d < N \<Longrightarrow> i * N + d < numcards * (N::nat)"
  by (metis add.commute add_less_cancel_left less_le_trans mult.commute mult_Suc_right mult_le_mono2 Suc_leI)

lemma layer_decode:
  assumes cards: "length incards = numcards * N" "\<forall>c\<in>set incards. length c = 32 \<and> int (le_val c) < p25519"
    and rnd: "\<forall>k. length (rnd k) = 32" and i: "i < numcards" "d < N"
    and layer: "cards777_layer rnd incards numcards N = (layered, xoverz)"
  shows "\<exists>j\<le>i. layered ! (j * N + d) = layered ! (i * N + d)
    \<and> cards777_decode xoverz d (layered ! (i * N + d)) layered numcards N
      = (xoverz ! (j * N + d), if xoverz ! (j * N + d) = replicate 32 0 then replicate 32 0 else incards ! (j * N + d))"
proof -
  let ?c = "layered ! (i * N + d)"
  have "\<exists>j\<le>0 + i. layered ! (j * N + d) = ?c
    \<and> decode_loop xoverz d ?c layered N numcards 0 = (xoverz ! (j * N + d), fmul_donna (xoverz ! (j * N + d)) ?c)"
    using i(1) by (intro decode_loop_finds) simp_all
  then obtain j where j: "j \<le> i" "layered ! (j * N + d) = ?c"
    "cards777_decode xoverz d ?c layered numcards N = (xoverz ! (j * N + d), fmul_donna (xoverz ! (j * N + d)) ?c)"
    by (auto simp: cards777_decode_def)
  define k where "k = j * N + d"
  have k: "k < numcards * N" unfolding k_def using j(1) i by (intro card_index) simp_all
  obtain y where y: "xoverz ! k = fe_bytes y"
    using layer k xoverz_canonical [of "rnd k"] rnd by (auto simp: cards777_layer_def Let_def)
  have "?c = fmul_donna (crecip_donna (xoverz ! k)) (incards ! k)"
    using layer k j(2) by (auto simp: cards777_layer_def Let_def k_def [symmetric])
  moreover have "length (incards ! k) = 32" "int (le_val (incards ! k)) < p25519" using cards k by simp_all
  ultimately have "fmul_donna (xoverz ! k) ?c = (if xoverz ! k = replicate 32 0 then replicate 32 0 else incards ! k)"
    unfolding y using layer_cancel [of "incards ! k" y] by (simp only: y)
  with j(3) have "cards777_decode xoverz d ?c layered numcards N
      = (xoverz ! k, if xoverz ! k = replicate 32 0 then replicate 32 0 else incards ! k)"
    by (simp only: k_def)
  with j(1,2) show ?thesis unfolding k_def by blast
qed

section \<open>The product of the public keys\<close>

lemma length_pubkey_factor: "length (pubkey_factor k) = 32"
  unfolding pubkey_factor_def Let_def by (simp only: length_list_update length_vcalc)

lemma fmul_fold:
  "\<forall>f\<in>set fs. length f = 32 \<Longrightarrow> foldl fmul_donna (fe_bytes x) fs = fe_bytes (x * prod_list (map fe fs))"
proof (induction fs arbitrary: x)
  case (Cons f fs)
  have "fmul_donna (fe_bytes x) f = fe_bytes (x mod p25519 * fe f)" using Cons.prems by (simp add: fmul_donna_eq)
  also have "\<dots> = fe_bytes (x * fe f)" by (intro fe_bytes_cong feq_mult) simp_all
  finally show ?case using Cons.IH [of "x * fe f"] Cons.prems by (simp add: mult.assoc)
qed simp

text \<open>The product starts from \<open>9 / 9\<close>.\<close>

lemma unit_canonical: "\<exists>u. fmul_donna curve25519_basepoint9 (crecip_donna curve25519_basepoint9) = fe_bytes u"
  using length_basepoint9 by (auto simp: fmul_donna_eq length_crecip_donna)

lemma pubkeys_fold:
  assumes "numcards \<le> length pubs"
  shows "cards777_pubkeys pubs numcards = foldl fmul_donna
    (fmul_donna curve25519_basepoint9 (crecip_donna curve25519_basepoint9)) (map pubkey_factor (take numcards pubs))"
proof -
  have "foldl (\<lambda>p i. f p (pubs ! i)) x [0..<n] = foldl f x (take n pubs)" if "n \<le> length pubs"
    for n x and f :: "bytes \<Rightarrow> bytes \<Rightarrow> bytes"
    using that by (induction n) (simp_all add: take_Suc_conv_app_nth)
  from this [OF assms, of "\<lambda>p k. fmul_donna p (pubkey_factor k)"] show ?thesis
    by (simp only: cards777_pubkeys_def Let_def curve25519_basepoint9_def foldl_map)
qed

lemma pubkeys_product:
  "\<exists>u. \<forall>pubs numcards. numcards \<le> length pubs \<longrightarrow>
    cards777_pubkeys pubs numcards = fe_bytes (u * prod_list (map (\<lambda>k. fe (pubkey_factor k)) (take numcards pubs)))"
proof -
  obtain u where u: "fmul_donna curve25519_basepoint9 (crecip_donna curve25519_basepoint9) = fe_bytes u"
    using unit_canonical by blast
  have "\<forall>f\<in>set (map pubkey_factor ks). length f = 32" for ks by (simp add: length_pubkey_factor)
  then have "foldl fmul_donna (fe_bytes u) (map pubkey_factor ks) = fe_bytes (u * prod_list (map (\<lambda>k. fe (pubkey_factor k)) ks))" for ks
    using fmul_fold [of "map pubkey_factor ks" u] by (simp add: comp_def)
  then show ?thesis by (intro exI [of _ u] allI impI) (simp only: pubkeys_fold u)
qed

text \<open>The check value of a deck does not depend on the order of its public keys.\<close>

lemma pubkeys_permute:
  assumes "numcards \<le> length a" "numcards \<le> length b" "mset (take numcards a) = mset (take numcards b)"
  shows "cards777_pubkeys a numcards = cards777_pubkeys b numcards"
proof -
  obtain u where u: "\<forall>pubs numcards. numcards \<le> length pubs \<longrightarrow>
    cards777_pubkeys pubs numcards = fe_bytes (u * prod_list (map (\<lambda>k. fe (pubkey_factor k)) (take numcards pubs)))"
    using pubkeys_product by blast
  have "prod_list (map f xs) = prod_mset (image_mset f (mset xs))" for f :: "bytes \<Rightarrow> int" and xs
    using prod_mset_prod_list [of "map f xs"] by simp
  then show ?thesis using u assms by simp
qed

section \<open>A deck\<close>

definition face :: "bytes \<Rightarrow> nat" where
  "face k = unat (k ! 1)"

definition card_pub :: "bytes \<Rightarrow> bytes" where
  "card_pub priv = curve25519 priv curve25519_basepoint9"

definition card_row :: "nat \<Rightarrow> bytes list \<Rightarrow> bytes \<Rightarrow> bytes list" where
  "card_row N playerpubs priv = map (\<lambda>j. cards777_initcrypt priv priv (playerpubs ! j) False) [0..<N]"

text \<open>The state of the loop when the cards of \<open>privs\<close> are in the deck.\<close>

definition deck_of :: "nat \<Rightarrow> bytes list \<Rightarrow> bytes list \<Rightarrow> u64 \<Rightarrow> deck" where
  "deck_of N playerpubs privs msk = (msk, map card_pub privs, concat (map (card_row N playerpubs) privs),
     foldl fmul_donna (fmul_donna curve25519_basepoint9 (crecip_donna curve25519_basepoint9))
       (map (pubkey_factor \<circ> card_pub) privs))"

definition deck_inv :: "nat \<Rightarrow> bytes list \<Rightarrow> u64 \<Rightarrow> bool" where
  "deck_inv numcards privs msk \<longleftrightarrow> distinct (map face privs) \<and> face ` set privs \<subseteq> {..<numcards}
     \<and> (\<forall>i<64. bit msk i \<longleftrightarrow> i \<in> face ` set privs) \<and> (\<forall>p\<in>set privs. length p = 32)"

lemma deck_full:
  assumes "deck_inv numcards privs msk" "numcards < 64"
  shows "msk = push_bit numcards 1 - 1 \<longleftrightarrow> face ` set privs = {..<numcards}"
proof -
  have m: "push_bit numcards 1 - 1 = (mask numcards :: u64)" by (simp add: mask_eq_exp_minus_1)
  have "msk = mask numcards \<longleftrightarrow> (\<forall>i<64. bit msk i \<longleftrightarrow> i < numcards)"
    by (auto simp: bit_mask_iff intro!: bit_word_eqI)
  also have "\<dots> \<longleftrightarrow> face ` set privs = {..<numcards}"
    using assms by (auto simp: deck_inv_def)
  finally show ?thesis unfolding m .
qed

lemma rand256_face: "length r = 32 \<Longrightarrow> face (rand256 r True) = face r"
  by (simp add: face_def rand256_def Let_def)

lemma push_bit_and_zero: "i < 64 \<Longrightarrow> push_bit i 1 AND msk = 0 \<longleftrightarrow> \<not> bit (msk :: u64) i"
proof -
  assume i: "i < 64"
  have "bit (push_bit i 1 AND msk) n \<longleftrightarrow> n = i \<and> bit msk i" if "n < 64" for n
    using that i by (auto simp: bit_and_iff bit_exp_iff)
  then have "(\<forall>n<64. \<not> bit (push_bit i 1 AND msk) n) \<longleftrightarrow> \<not> bit msk i" using i by auto
  moreover have "(\<forall>n<64. \<not> bit (w :: u64) n) \<longleftrightarrow> w = 0" for w
    using bit_word_eqI [of w 0] by auto
  ultimately show ?thesis by blast
qed

lemma initdeck_loop_step:
  assumes "msk \<noteq> push_bit numcards 1 - 1" "curve25519_keypair r = (p, q)"
  shows "face p < numcards \<Longrightarrow> push_bit (face p) 1 AND msk = 0 \<Longrightarrow>
      initdeck_loop (r # rnds) numcards N playerpubs (msk, pubs, crds, prd)
      = initdeck_loop rnds numcards N playerpubs (msk OR push_bit (face p) 1, pubs @ [q],
          crds @ map (\<lambda>j. cards777_initcrypt p p (playerpubs ! j) False) [0..<N], fmul_donna prd (pubkey_factor q))"
    and "\<not> (face p < numcards \<and> push_bit (face p) 1 AND msk = 0) \<Longrightarrow>
      initdeck_loop (r # rnds) numcards N playerpubs (msk, pubs, crds, prd)
      = initdeck_loop rnds numcards N playerpubs (msk, pubs, crds, prd)"
  by (subst initdeck_loop.simps; use assms in \<open>simp only: list.case prod.case Let_def if_False if_True face_def simp_thms\<close>)+

text \<open>
  The loop ends with a full deck, or it is cut off with a face that no draw has hit.
\<close>

definition deck_result :: "nat \<Rightarrow> nat \<Rightarrow> bytes list \<Rightarrow> nat set \<Rightarrow> deck option \<Rightarrow> bool" where
  "deck_result numcards N playerpubs hit res \<longleftrightarrow> (case res of None \<Rightarrow> \<not> {..<numcards} \<subseteq> hit
     | Some D \<Rightarrow> \<exists>privs msk. D = deck_of N playerpubs privs msk \<and> deck_inv numcards privs msk \<and> face ` set privs = {..<numcards})"

lemma initdeck_loop_full:
  assumes "deck_inv numcards privs msk" "numcards < 64" "msk = push_bit numcards 1 - 1"
  shows "deck_result numcards N playerpubs hit (initdeck_loop rnds numcards N playerpubs (deck_of N playerpubs privs msk))"
proof -
  have "face ` set privs = {..<numcards}" using deck_full [OF assms(1,2)] assms(3) by blast
  moreover have "initdeck_loop rnds numcards N playerpubs (deck_of N playerpubs privs msk) = Some (deck_of N playerpubs privs msk)"
    unfolding deck_of_def using assms(3) by simp
  ultimately show ?thesis using assms(1) by (auto simp: deck_result_def)
qed

lemma initdeck_loop_result:
  assumes "deck_inv numcards privs msk" "numcards < 64" "\<forall>r\<in>set rnds. length r = 32"
  shows "deck_result numcards N playerpubs (face ` set privs \<union> face ` set rnds)
    (initdeck_loop rnds numcards N playerpubs (deck_of N playerpubs privs msk))"
  using assms
proof (induction rnds arbitrary: privs msk)
  case Nil
  show ?case
  proof (cases "msk = push_bit numcards 1 - 1")
    case False
    then have "face ` set privs \<noteq> {..<numcards}" using deck_full [OF Nil(1,2)] by blast
    then show ?thesis using False Nil(1) by (auto simp: deck_of_def deck_result_def deck_inv_def)
  qed (rule initdeck_loop_full [OF Nil(1,2)])
next
  case (Cons r rnds)
  let ?p = "rand256 r True"
  have fr: "face ?p = face r" "length ?p = 32" using Cons.prems by (simp_all add: rand256_face length_rand256)
  have kp: "curve25519_keypair r = (?p, card_pub ?p)" by (simp add: curve25519_keypair_def card_pub_def Let_def)
  show ?case
  proof (cases "msk = push_bit numcards 1 - 1")
    case True
    then show ?thesis by (rule initdeck_loop_full [OF Cons.prems(1,2)])
  next
    case notfull: False
    have bit: "push_bit (face r) 1 AND msk = 0 \<longleftrightarrow> \<not> bit msk (face r)" if "face r < 64"
      using that by (rule push_bit_and_zero)
    show ?thesis
    proof (cases "face r < numcards \<and> push_bit (face r) 1 AND msk = 0")
      case True
      then have new: "face r \<notin> face ` set privs" using bit Cons.prems(1,2) by (auto simp: deck_inv_def)
      have "deck_inv numcards (privs @ [?p]) (msk OR push_bit (face r) 1)"
        using Cons.prems(1,2) True new
        by (auto simp: deck_inv_def fr bit_or_iff bit_exp_iff)
      then have "deck_result numcards N playerpubs (face ` set (privs @ [?p]) \<union> face ` set rnds)
          (initdeck_loop rnds numcards N playerpubs (deck_of N playerpubs (privs @ [?p]) (msk OR push_bit (face r) 1)))"
        using Cons.prems by (intro Cons.IH) simp_all
      moreover have "initdeck_loop (r # rnds) numcards N playerpubs (deck_of N playerpubs privs msk)
        = initdeck_loop rnds numcards N playerpubs (deck_of N playerpubs (privs @ [?p]) (msk OR push_bit (face r) 1))"
        unfolding deck_of_def using initdeck_loop_step(1) [OF notfull kp] True
        by (simp only: fr) (simp add: card_row_def)
      moreover have "face ` set (privs @ [?p]) \<union> face ` set rnds = face ` set privs \<union> face ` set (r # rnds)"
        using fr by auto
      ultimately show ?thesis by simp
    next
      case False
      have "deck_result numcards N playerpubs (face ` set privs \<union> face ` set rnds)
          (initdeck_loop rnds numcards N playerpubs (deck_of N playerpubs privs msk))"
        using Cons.prems by (intro Cons.IH) simp_all
      moreover have "face r < numcards \<Longrightarrow> face r \<in> face ` set privs" using False bit Cons.prems(1,2) by (auto simp: deck_inv_def)
      then have "{..<numcards} \<subseteq> face ` set privs \<union> face ` set (r # rnds) \<longleftrightarrow> {..<numcards} \<subseteq> face ` set privs \<union> face ` set rnds"
        by auto
      moreover have "initdeck_loop (r # rnds) numcards N playerpubs (deck_of N playerpubs privs msk)
        = initdeck_loop rnds numcards N playerpubs (deck_of N playerpubs privs msk)"
        unfolding deck_of_def using initdeck_loop_step(2) [OF notfull kp] False by (simp only: fr simp_thms)
      ultimately show ?thesis unfolding deck_result_def by (simp only:)
    qed
  qed
qed

lemma initdeck_result:
  assumes "numcards < 64" "\<forall>r\<in>set rnds. length r = 32"
  shows "deck_result numcards N playerpubs (face ` set rnds) (cards777_initdeck rnds numcards N playerpubs)"
proof -
  have "deck_inv numcards [] 0" by (simp add: deck_inv_def)
  from initdeck_loop_result [OF this assms, of N playerpubs] show ?thesis
    by (simp add: cards777_initdeck_def Let_def deck_of_def)
qed

lemma initdeck_completes:
  assumes "numcards < 64" "\<forall>r\<in>set rnds. length r = 32" "{..<numcards} \<subseteq> face ` set rnds"
  shows "\<exists>privs msk. cards777_initdeck rnds numcards N playerpubs = Some (msk, map card_pub privs,
      concat (map (card_row N playerpubs) privs), cards777_pubkeys (map card_pub privs) numcards)
    \<and> distinct (map face privs) \<and> face ` set privs = {..<numcards}"
proof -
  from initdeck_result [OF assms(1,2), of N playerpubs] assms(3) obtain privs msk
    where i: "cards777_initdeck rnds numcards N playerpubs = Some (deck_of N playerpubs privs msk)"
    and d: "deck_inv numcards privs msk" "face ` set privs = {..<numcards}"
    by (auto simp: deck_result_def split: option.splits)
  have dist: "distinct (map face privs)" using d(1) by (simp add: deck_inv_def)
  then have "length privs = card (face ` set privs)" using distinct_card [of "map face privs"] by simp
  then have len: "length privs = numcards" using d(2) by simp
  then have "cards777_pubkeys (map card_pub privs) numcards = snd (snd (snd (deck_of N playerpubs privs msk)))"
    by (simp add: pubkeys_fold deck_of_def)
  with i dist d(2) show ?thesis by (auto simp: deck_of_def)
qed

lemma initcrypt_zero_hash:
  assumes "length d = 32" "fe (curve25519_shared a b) mod p25519 = 0"
  shows "cards777_initcrypt d a b False = replicate 32 0"
proof -
  have "fmul_donna d (curve25519_shared a b) = fe_bytes (fe d * fe (curve25519_shared a b))"
    by (rule fmul_donna_eq [OF assms(1) length_shared])
  also have "\<dots> = fe_bytes (fe d * 0)"
    using assms(2) by (intro fe_bytes_cong feq_mult feq_refl) (simp add: feq_def)
  finally show ?thesis by (simp only: cards777_initcrypt_def Let_def if_False mult_zero_right fe_bytes_0)
qed

text \<open>Nothing is found in a card of zeros: the only key that is tried is zero.\<close>

lemma initcrypt_zero: "cards777_initcrypt (replicate 32 0) a b iv = replicate 32 0"
proof -
  have z: "fe (replicate 32 0) = 0" by (simp only: fe_def le_val_zero) simp
  have "fmul_donna (replicate 32 0) h = replicate 32 0" if "length h = 32" for h
    by (simp only: fmul_donna_eq [OF length_replicate that] z mult_zero_left fe_bytes_0)
  then show ?thesis by (simp add: cards777_initcrypt_def Let_def length_shared length_crecip_donna)
qed

lemma checkcard_zero: "cards777_checkcard playerpriv cardpubs numcards (replicate 32 0) = (- 1, replicate 32 0)"
proof -
  have "cardpriv_loop playerpriv pubs (replicate 32 0) = replicate 32 0" for pubs
    by (induction pubs) (simp_all only: cardpriv_loop.simps Let_def initcrypt_zero if_cancel)
  then show ?thesis
    by (simp only: cards777_checkcard_def cards777_cardpriv_def Let_def take_replicate le_val_zero simp_thms if_False)
qed

section \<open>Properties\<close>

text \<open>
  C27. The player a card is dealt to can read it. The player's private key and the card's
  public key agree with the card's private key and the player's public key on a shared point, and
  no public key before the card's own is matched by what the player computes for it. Then
  \<^verbatim>\<open>cards777_checkcard\<close> on the encrypted card returns the card's private key and its second
  byte, the face, except in two cases in which it returns \<open>- 1\<close> and no key: the hash of the
  shared point is zero modulo the prime, or the first word of the private key is zero.
\<close>

theorem cards777_checkcard_deals:
  assumes "length cardpriv = 32" "int (le_val cardpriv) < p25519"
    and "i < numcards" "numcards \<le> length cardpubs" "cardpubs ! i = curve25519 cardpriv curve25519_basepoint9"
    and "curve25519 playerpriv (cardpubs ! i) = curve25519 cardpriv playerpub"
    and "\<forall>j<i. curve25519 (cards777_initcrypt (cards777_initcrypt cardpriv cardpriv playerpub False)
        playerpriv (cardpubs ! j) True) curve25519_basepoint9 \<noteq> cardpubs ! j"
  shows "cards777_checkcard playerpriv cardpubs numcards (cards777_initcrypt cardpriv cardpriv playerpub False)
    = (if fe (curve25519_shared cardpriv playerpub) mod p25519 = 0 \<or> le_val (take 8 cardpriv) = 0
       then (- 1, replicate 32 0) else (int (unat (cardpriv ! 1)), cardpriv))"
proof (cases "fe (curve25519_shared cardpriv playerpub) mod p25519 = 0")
  case True
  from initcrypt_zero_hash [OF assms(1) this] show ?thesis
    by (simp only: checkcard_zero True simp_thms if_True)
next
  case False
  from cardpriv_recovers [OF assms(1-6) False assms(7)] show ?thesis
    unfolding cards777_checkcard_def Let_def by (simp only: False simp_thms if_cancel split: if_split) simp
qed

text \<open>The card with the private key one, dealt to the player with the private key one.\<close>

theorem cards777_checkcard_deals_witness:
  "let one = 1 # replicate 31 0; nine = 9 # replicate 31 0
   in cards777_checkcard one [nine] 1 (cards777_initcrypt one one nine False)
     = (if fe (curve25519_shared one nine) mod p25519 = 0 then (- 1, replicate 32 0) else (0, one))"
proof -
  define one nine :: bytes where "one = 1 # replicate 31 0" and "nine = 9 # replicate 31 0"
  have v: "le_val one = 1" "le_val nine = 9" unfolding one_def nine_def by (simp_all only: le_val.simps le_val_zero) simp_all
  have l: "length one = 32" "length nine = 32" by (simp_all add: one_def nine_def)
  have b: "curve25519_basepoint9 = nine" by (simp add: curve25519_basepoint9_def nine_def numeral_eq_Suc)
  have c: "curve25519 one nine = nine"
    unfolding one_def using curve25519_one [of nine] fe_bytes_canonical [of nine] l v by (simp add: fe_def p25519_def)
  have t: "le_val (take 8 one) = 1" "unat (one ! 1) = 0" by (simp_all add: one_def le_val_zero)
  have "cards777_checkcard one [nine] 1 (cards777_initcrypt one one nine False)
    = (if fe (curve25519_shared one nine) mod p25519 = 0 \<or> le_val (take 8 one) = 0
       then (- 1, replicate 32 0) else (int (unat (one ! 1)), one))"
    by (rule cards777_checkcard_deals [where i = 0]) (simp_all add: l v b c p25519_def)
  then show ?thesis unfolding Let_def one_def [symmetric] nine_def [symmetric] t by (simp only: simp_thms) simp
qed


text \<open>
  C28. A deck is dealt out completely: as soon as the random draws have hit every face below
  \<^verbatim>\<open>numcards\<close>, \<^verbatim>\<open>cards777_initdeck\<close> returns, with exactly one card of every face, the public key
  of every card, every card encrypted to every player, and the product of the public keys that
  \<^verbatim>\<open>cards777_pubkeys\<close> recomputes from them.
\<close>

theorem cards777_initdeck_complete:
  assumes "numcards < 64" "\<forall>r\<in>set rnds. length r = 32" "{..<numcards} \<subseteq> face ` set rnds"
  shows "\<exists>privs msk. cards777_initdeck rnds numcards N playerpubs = Some (msk, map card_pub privs,
      concat (map (card_row N playerpubs) privs), cards777_pubkeys (map card_pub privs) numcards)
    \<and> distinct (map face privs) \<and> face ` set privs = {..<numcards}"
  using assms by (rule initdeck_completes)

theorem cards777_initdeck_complete_witness:
  "\<exists>privs msk. cards777_initdeck [0 # 1 # replicate 30 0, 0 # 7 # replicate 30 0, replicate 32 0] 2 1 [replicate 32 0]
      = Some (msk, map card_pub privs,
      concat (map (card_row 1 [replicate 32 0]) privs), cards777_pubkeys (map card_pub privs) 2)
    \<and> distinct (map face privs) \<and> face ` set privs = {..<2}"
  by (rule cards777_initdeck_complete) (auto simp: face_def less_2_cases_iff)

end
