(* ===== verification/CardDeal.thy ===== *)
theory CardDeal
  imports CardCrypt
begin

text \<open>
  Dealing a card through all players (\<^verbatim>\<open>src/plugins/games/cards777.c\<close>): every player shuffles and
  layers the deck it received with \<^verbatim>\<open>cards777_encode\<close>; a dealt card goes back through the players in
  the reverse order, each taking its layer off with \<^verbatim>\<open>cards777_decode\<close> and adding its key to the
  audit; \<^verbatim>\<open>cards777_validate\<close> replays the audit. The keys that a player took with it are
  recovered from the shares of the others.
\<close>

section \<open>Chains of layers\<close>

definition add_layers :: "bytes \<Rightarrow> bytes list \<Rightarrow> bytes" where
  "add_layers c xs = foldl (\<lambda>c x. fmul_donna (crecip_donna x) c) c xs"

lemma add_layers_simps [simp]:
  "add_layers c [] = c" "add_layers c (xs @ [x]) = fmul_donna (crecip_donna x) (add_layers c xs)"
  by (simp_all add: add_layers_def)

lemma add_layers_canonical:
  assumes "\<forall>x\<in>set xs. length x = 32" "length c = 32" "fe_bytes (fe c) = c"
  shows "length (add_layers c xs) = 32 \<and> fe_bytes (fe (add_layers c xs)) = add_layers c xs"
  using assms
proof (induction xs rule: rev_induct)
  case (snoc x xs)
  then have "length (add_layers c xs) = 32" by simp
  then have "fmul_donna (crecip_donna x) (add_layers c xs) = fe_bytes (fe (crecip_donna x) * fe (add_layers c xs))"
    using snoc.prems by (intro fmul_donna_eq) (simp_all add: length_crecip_donna)
  then show ?case by (simp add: fe_bytes_cong)
qed simp

lemma layers_open:
  assumes "\<forall>x\<in>set xs. length x = 32 \<and> fe x mod p25519 \<noteq> 0" "length c = 32" "fe_bytes (fe c) = c"
  shows "foldr fmul_donna xs (add_layers c xs) = c"
  using assms
proof (induction xs rule: rev_induct)
  case (snoc x xs)
  have d: "length (add_layers c xs) = 32" "fe_bytes (fe (add_layers c xs)) = add_layers c xs"
    using add_layers_canonical [of xs c] snoc.prems by simp_all
  then have "fmul_donna x (fmul_donna (crecip_donna x) (add_layers c xs)) = fe_bytes (fe (add_layers c xs))"
    using snoc.prems by (intro crecip_fmul_cancel(2)) simp_all
  with d snoc show ?case by simp
qed simp

text \<open>Opening layers reads the card only modulo the prime, and loses nothing else.\<close>

lemma open_canonical:
  assumes "\<forall>x\<in>set xs. length x = 32" "length v = 32"
  shows "length (foldr fmul_donna xs v) = 32 \<and> (xs \<noteq> [] \<longrightarrow> fe_bytes (fe (foldr fmul_donna xs v)) = foldr fmul_donna xs v)"
  using assms by (induction xs) (simp_all add: fmul_donna_eq fe_bytes_cong)

lemma fmul_donna_cong:
  assumes "length x = 32" "length v = 32" "length w = 32" "fe_bytes (fe v) = fe_bytes (fe w)"
  shows "fmul_donna x v = fmul_donna x w"
proof -
  have "feq (fe v) (fe w)" using arg_cong [OF assms(4), of fe] by (simp add: feq_def)
  then show ?thesis using assms by (simp add: fmul_donna_eq fe_bytes_cong feq_mult)
qed

lemma open_inject:
  assumes "\<forall>x\<in>set xs. length x = 32 \<and> fe x mod p25519 \<noteq> 0" "xs \<noteq> []" "length v = 32" "length w = 32"
  shows "foldr fmul_donna xs v = foldr fmul_donna xs w \<longleftrightarrow> fe_bytes (fe v) = fe_bytes (fe w)"
  using assms
proof (induction xs)
  case (Cons x xs)
  let ?v = "foldr fmul_donna xs v" and ?w = "foldr fmul_donna xs w"
  have l: "length ?v = 32" "length ?w = 32" using open_canonical Cons.prems by simp_all
  have x: "fmul_donna x ?v = fmul_donna x ?w \<longleftrightarrow> fe_bytes (fe ?v) = fe_bytes (fe ?w)"
    using crecip_fmul_cancel(1) [of x ?v] crecip_fmul_cancel(1) [of x ?w] fmul_donna_cong [of x ?v ?w] l Cons.prems
    by (metis list.set_intros(1))
  show ?case
  proof (cases "xs = []")
    case False
    then have "fe_bytes (fe ?v) = ?v" "fe_bytes (fe ?w) = ?w" using open_canonical Cons.prems by simp_all
    then show ?thesis using x Cons.IH False Cons.prems by simp
  qed (use x in simp)
qed simp

lemma validate_chain:
  "foldl (\<lambda>val i. fmul_donna ((c # xs) ! i) val) v (rev [1..<Suc (length xs)]) = foldr fmul_donna xs v"
proof -
  have "map (\<lambda>i. (c # xs) ! Suc i) [0..<length xs] = xs" using map_nth [of xs] by simp
  then have "foldr fmul_donna xs v = foldr (\<lambda>i. fmul_donna ((c # xs) ! Suc i)) [0..<length xs] v"
    by (metis (no_types, lifting) comp_apply foldr_cong foldr_map)
  also have "\<dots> = foldr (\<lambda>i. fmul_donna ((c # xs) ! i)) (map Suc [0..<length xs]) v"
    by (simp add: foldr_map comp_def)
  finally show ?thesis by (simp only: foldl_conv_foldr rev_rev_ident map_Suc_upt One_nat_def)
qed

lemma validate_open:
  "cards777_validate cardpriv v (c # xs) (Suc (length xs)) playerpub
    = (if foldr fmul_donna xs v = c \<and> c = cards777_initcrypt cardpriv cardpriv playerpub False
       then int (unat (cardpriv ! 1)) else - 1)"
  unfolding cards777_validate_def Let_def validate_chain by auto

lemma initcrypt_canonical:
  assumes "length d = 32"
  shows "fe_bytes (fe (cards777_initcrypt d a b False)) = cards777_initcrypt d a b False"
  using fmul_donna_eq [OF assms length_shared]
  by (simp add: cards777_initcrypt_def fe_bytes_cong)


section \<open>One player's turn\<close>

text \<open>A deck: a row of \<open>N\<close> canonical field elements for each card.\<close>

definition deck_ok :: "nat \<Rightarrow> nat \<Rightarrow> bytes list \<Rightarrow> bool" where
  "deck_ok numcards N cards \<longleftrightarrow> length cards = numcards * N \<and> (\<forall>c\<in>set cards. length c = 32 \<and> int (le_val c) < p25519)"

lemma fe_bytes_below: "int (le_val (fe_bytes y)) < p25519"
proof -
  have y: "0 \<le> y mod p25519" "y mod p25519 < p25519" using p25519_pos by simp_all
  then have "nat (y mod p25519) < 256 ^ 32" by (simp add: nat_less_iff p25519_def)
  then have "le_val (fe_bytes y) = nat (y mod p25519)" by (simp add: fe_bytes_def le_val_num_bytes)
  with y show ?thesis by simp
qed

lemma layer_ok:
  assumes "deck_ok numcards N cards" "\<forall>k. length (rnd k) = 32" "cards777_layer rnd cards numcards N = (layered, xoverz)"
  shows "deck_ok numcards N layered" "length xoverz = numcards * N" "\<forall>x\<in>set xoverz. length x = 32"
proof -
  have x: "length (xoverz_donna (rand256 (rnd k) True)) = 32" for k
    using xoverz_canonical [of "rnd k"] assms(2) by auto
  have "\<exists>y. fmul_donna (crecip_donna (xoverz_donna (rand256 (rnd k) True))) (cards ! k) = fe_bytes y" if "k < numcards * N" for k
    using that assms(1) x [of k] by (simp add: deck_ok_def fmul_donna_eq length_crecip_donna) blast
  then have "length c = 32 \<and> int (le_val c) < p25519" if "c \<in> set layered" for c
    using that assms(3) fe_bytes_below by (fastforce simp: cards777_layer_def Let_def)
  then show "deck_ok numcards N layered" using assms(3) by (auto simp: deck_ok_def cards777_layer_def Let_def)
  show "length xoverz = numcards * N" "\<forall>x\<in>set xoverz. length x = 32" using assms(3) x by (auto simp: cards777_layer_def Let_def)
qed

lemma shuffle_ok: "deck_ok numcards N cards \<Longrightarrow> deck_ok numcards N (cards777_shuffle rnd cards numcards N)"
  using shuffle_rows [of cards numcards N rnd] unfolding deck_ok_def by (metis mset_eq_setD size_mset)

text \<open>A shuffle moves whole rows, so a card stays in the column of its destination.\<close>

lemma concat_rows_nth:
  "\<forall>r\<in>set rows. length r = N \<Longrightarrow> j < length rows \<Longrightarrow> d < N \<Longrightarrow> concat rows ! (j * N + d) = rows ! j ! d"
proof (induction rows arbitrary: j)
  case (Cons r rows)
  then show ?case by (cases j) (auto simp: nth_append)
qed simp

lemma shuffle_column:
  assumes "j < numcards" "d < N"
  shows "\<exists>k<numcards. cards777_shuffle rnd cards numcards N ! (j * N + d) = cards ! (k * N + d)"
proof -
  let ?perm = "map nat (shuffle_permi rnd numcards)" and ?row = "\<lambda>p. map (\<lambda>j. cards ! (p * N + j)) [0..<N]"
  have sh: "cards777_shuffle rnd cards numcards N = concat (map ?row ?perm)"
    by (simp add: cards777_shuffle_def comp_def)
  have p: "mset (shuffle_permi rnd numcards) = mset (map int [0..<numcards])" by (rule shuffle_permi_mset)
  then have len: "length (shuffle_permi rnd numcards) = numcards" using size_mset by (metis length_map length_upt minus_nat.diff_0)
  have "shuffle_permi rnd numcards ! j \<in> set (map int [0..<numcards])"
    using mset_eq_setD [OF p] len assms(1) by (metis nth_mem)
  then have "nat (shuffle_permi rnd numcards ! j) < numcards" by auto
  moreover have "cards777_shuffle rnd cards numcards N ! (j * N + d) = cards ! (nat (shuffle_permi rnd numcards ! j) * N + d)"
    unfolding sh using len assms by (subst concat_rows_nth) auto
  ultimately show ?thesis by blast
qed


text \<open>The turn as a whole: the new deck and its keys are a layer over the shuffled deck.\<close>

lemma encode_turn:
  assumes "N < 255" "cards777_layer rnd (cards777_shuffle sbytes cards numcards N) numcards N = (encoded, xoverz)"
  shows "\<exists>nrs allshares myshares. length nrs = N \<and> distinct nrs \<and> 0 \<notin> set nrs
    \<and> cards777_calcmofn shbytes (buf_write 0 nrs (replicate 255 0)) M (concat xoverz) numcards N = (allshares, myshares, N * 32 * numcards)
    \<and> (\<forall>j. myshares j = drop (j * (N * 32 * numcards)) allshares)
    \<and> cards777_encode sbytes rnd nrbytes shbytes M cards numcards N
      = Some (encoded, xoverz, allshares, buf_write 0 nrs (replicate 255 0), cards777_shuffle sbytes cards numcards N)"
proof -
  from init_sharenrs_full [of "int N" nrbytes "\<lambda>i. 0"] assms(1) obtain nrs
    where nrs: "init_sharenrs nrbytes (\<lambda>i. 0) None (int N) (int N) = Some (0, nrs)"
      "length nrs = N" "distinct nrs" "0 \<notin> set nrs" by auto
  let ?all = "calc_shares shbytes (concat xoverz) (N * 32 * numcards) (N * 32 * numcards) M N (buf_write 0 nrs (replicate 255 0))"
  from nrs show ?thesis
    by (intro exI [of _ nrs] exI [of _ ?all] exI [of _ "\<lambda>j. drop (j * (N * 32 * numcards)) ?all"])
      (simp add: cards777_encode_def cards777_calcmofn_def Let_def assms(2))
qed

lemma sharenrs_prefix:
  "length nrs = N \<Longrightarrow> N < 255 \<Longrightarrow> take N (buf_write 0 nrs (replicate 255 0)) = nrs \<and> N \<le> length (buf_write 0 nrs (replicate 255 0))"
  by (simp add: buf_write_def)

text \<open>A decoded card is the product of the key and the ciphertext.\<close>

lemma decode_product:
  assumes "cards777_decode xoverz d cipher outcards numcards N = (k, c)" "k \<noteq> replicate 32 0"
  shows "c = fmul_donna k cipher"
proof -
  have "decode_loop xoverz d cipher outcards N n i = (k, c) \<Longrightarrow> c = fmul_donna k cipher" for n i
    using assms(2) by (induction n arbitrary: i) (auto simp: Let_def split: if_splits)
  then show ?thesis using assms(1) by (simp only: cards777_decode_def)
qed

lemma decode_turn:
  assumes "deck_ok numcards N cards" "\<forall>k. length (rnd k) = 32" "i < numcards" "d < N"
    and "cards777_layer rnd (cards777_shuffle sbytes cards numcards N) numcards N = (encoded, xoverz)"
    and "cards777_decode xoverz d (encoded ! (i * N + d)) encoded numcards N = (k, c)" "replicate 32 0 \<notin> set xoverz"
  shows "k \<in> set xoverz" "\<exists>j<numcards. c = cards ! (j * N + d)"
proof -
  let ?sh = "cards777_shuffle sbytes cards numcards N"
  have ok: "deck_ok numcards N ?sh" using assms(1) by (rule shuffle_ok)
  then obtain j where j: "j \<le> i" "cards777_decode xoverz d (encoded ! (i * N + d)) encoded numcards N
      = (xoverz ! (j * N + d), if xoverz ! (j * N + d) = replicate 32 0 then replicate 32 0 else ?sh ! (j * N + d))"
    using layer_decode [OF _ _ assms(2-5)] unfolding deck_ok_def by blast
  from trans [OF assms(6) [symmetric] j(2)] have k: "k = xoverz ! (j * N + d)"
    "c = (if xoverz ! (j * N + d) = replicate 32 0 then replicate 32 0 else ?sh ! (j * N + d))" by blast+
  have "j * N + d < length xoverz"
    using card_index [of j numcards d N] layer_ok(2) [OF ok assms(2,5)] j(1) assms(3,4) by simp
  then show x: "k \<in> set xoverz" unfolding k(1) by (rule nth_mem)
  have "c = ?sh ! (j * N + d)" using x assms(7) unfolding k by (metis (full_types))
  then show "\<exists>j<numcards. c = cards ! (j * N + d)"
    using shuffle_column [of j numcards d N] j(1) assms(3,4) by (metis le_less_trans)
qed

section \<open>All players\<close>

text \<open>
  What a player draws in its turn: the bytes of the shuffle, of the layer keys, of the share
  numbers and of the shares. \<open>encode_all\<close> lists the decks and the keys of the players in turn,
  \<open>decode_all\<close> sends a card back from the last player to the first and collects the keys.
\<close>

type_synonym draws = "(nat \<Rightarrow> u8) \<times> (nat \<Rightarrow> bytes) \<times> bytes \<times> bytes"

fun encode_all :: "nat \<Rightarrow> nat \<Rightarrow> nat \<Rightarrow> draws list \<Rightarrow> bytes list \<Rightarrow> (bytes list \<times> bytes list) list option" where
  "encode_all M numcards N [] cards = Some []"
| "encode_all M numcards N ((sbytes, rnd, nrbytes, shbytes) # ps) cards =
     (case cards777_encode sbytes rnd nrbytes shbytes M cards numcards N of
        None \<Rightarrow> None
      | Some (encoded, xoverz, allshares, sharenrs, shuffled) \<Rightarrow>
          map_option (\<lambda>ls. (encoded, xoverz) # ls) (encode_all M numcards N ps encoded))"

fun decode_all :: "nat \<Rightarrow> nat \<Rightarrow> nat \<Rightarrow> (bytes list \<times> bytes list) list \<Rightarrow> bytes \<Rightarrow> bytes \<times> bytes list" where
  "decode_all numcards N d [] c = (c, [])"
| "decode_all numcards N d ((encoded, xoverz) # ls) c =
     (let (c, keys) = decode_all numcards N d ls c; (k, c) = cards777_decode xoverz d c encoded numcards N
      in (c, k # keys))"

fun last_deck :: "bytes list \<Rightarrow> (bytes list \<times> bytes list) list \<Rightarrow> bytes list" where
  "last_deck cards [] = cards"
| "last_deck cards ((encoded, xoverz) # ls) = last_deck encoded ls"

text \<open>No player drew a layer key of zero, which would lose the card it covers.\<close>

definition keys_nonzero :: "(bytes list \<times> bytes list) list \<Rightarrow> bool" where
  "keys_nonzero ls \<longleftrightarrow> (\<forall>(encoded, xoverz)\<in>set ls. replicate 32 0 \<notin> set xoverz)"

lemma keys_nonzero_simps:
  "keys_nonzero [] \<longleftrightarrow> True"
  "keys_nonzero ((encoded, xoverz) # ls) \<longleftrightarrow> replicate 32 0 \<notin> set xoverz \<and> keys_nonzero ls"
  by (simp_all only: keys_nonzero_def list.set ball_simps prod.case)

lemma encode_all_Cons:
  assumes "N < 255" "cards777_layer rnd (cards777_shuffle sbytes cards numcards N) numcards N = (encoded, xoverz)"
  shows "encode_all M numcards N ((sbytes, rnd, nrbytes, shbytes) # ps) cards
    = map_option (\<lambda>ls. (encoded, xoverz) # ls) (encode_all M numcards N ps encoded)"
  using encode_turn [OF assms, of shbytes M nrbytes] by auto

lemma encode_all_ConsE:
  assumes "N < 255" "encode_all M numcards N (p # ps) cards = Some ls"
  obtains sbytes rnd nrbytes shbytes encoded xoverz ls'
  where "p = (sbytes, rnd, nrbytes, shbytes)"
    "cards777_layer rnd (cards777_shuffle sbytes cards numcards N) numcards N = (encoded, xoverz)"
    "encode_all M numcards N ps encoded = Some ls'" "ls = (encoded, xoverz) # ls'"
proof -
  obtain sbytes rnd nrbytes shbytes where p: "p = (sbytes, rnd, nrbytes, shbytes)" by (metis prod_cases4)
  obtain encoded xoverz where l: "cards777_layer rnd (cards777_shuffle sbytes cards numcards N) numcards N = (encoded, xoverz)"
    by (metis surj_pair)
  from assms(2) obtain ls' where "encode_all M numcards N ps encoded = Some ls'" "ls = (encoded, xoverz) # ls'"
    unfolding p encode_all_Cons [OF assms(1) l] by blast
  with p l that show thesis by blast
qed

lemma encode_all_total: "N < 255 \<Longrightarrow> \<exists>ls. encode_all M numcards N ps cards = Some ls \<and> length ls = length ps"
proof (induction ps arbitrary: cards)
  case (Cons p ps)
  obtain sbytes rnd nrbytes shbytes where p: "p = (sbytes, rnd, nrbytes, shbytes)" by (metis prod_cases4)
  obtain encoded xoverz where l: "cards777_layer rnd (cards777_shuffle sbytes cards numcards N) numcards N = (encoded, xoverz)"
    by (metis surj_pair)
  from Cons show ?case unfolding p encode_all_Cons [OF Cons.prems l] by fastforce
qed simp

lemma deal_chain:
  assumes "N < 255" "deck_ok numcards N cards" "\<forall>(sbytes, rnd, nrbytes, shbytes)\<in>set ps. \<forall>k. length (rnd k) = 32"
    and "encode_all M numcards N ps cards = Some ls" "i < numcards" "d < N" "keys_nonzero ls"
    and "decode_all numcards N d ls (last_deck cards ls ! (i * N + d)) = (c, keys)"
  shows "length keys = length ls \<and> foldr fmul_donna keys (last_deck cards ls ! (i * N + d)) = c \<and> (\<exists>j<numcards. c = cards ! (j * N + d))"
  using assms(2-4,7,8)
proof (induction ps arbitrary: cards ls c keys)
  case Nil
  then show ?case using assms(5) by auto
next
  case (Cons p ps)
  from Cons.prems(3) obtain sbytes rnd nrbytes shbytes encoded xoverz ls'
    where p: "p = (sbytes, rnd, nrbytes, shbytes)"
      and l: "cards777_layer rnd (cards777_shuffle sbytes cards numcards N) numcards N = (encoded, xoverz)"
      and ls: "encode_all M numcards N ps encoded = Some ls'" "ls = (encoded, xoverz) # ls'"
    by (rule encode_all_ConsE [OF assms(1)])
  let ?v = "last_deck encoded ls' ! (i * N + d)"
  obtain c1 keys1 k where dec: "decode_all numcards N d ls' ?v = (c1, keys1)"
    "cards777_decode xoverz d c1 encoded numcards N = (k, c)" "keys = k # keys1"
    using Cons.prems(5) unfolding ls(2) by (auto split: prod.splits)
  have rnd: "\<forall>k. length (rnd k) = 32" using Cons.prems(2) p by simp
  have nz: "replicate 32 0 \<notin> set xoverz" "keys_nonzero ls'"
    using Cons.prems(4) unfolding ls(2) keys_nonzero_simps by blast+
  have ok: "deck_ok numcards N encoded" by (rule layer_ok(1) [OF shuffle_ok [OF Cons.prems(1)] rnd l])
  from Cons.IH [OF ok _ ls(1) nz(2) dec(1)] Cons.prems(2) obtain j
    where ih: "length keys1 = length ls'" "foldr fmul_donna keys1 ?v = c1" "j < numcards" "c1 = encoded ! (j * N + d)"
    by auto
  note turn = decode_turn [OF Cons.prems(1) rnd ih(3) assms(6) l _ nz(1), of k c, folded ih(4), OF dec(2)]
  then have "k \<noteq> replicate 32 0" using nz(1) by metis
  from decode_product [OF dec(2) this] turn(2) show ?case using ih(1,2) dec(3) ls(2) by simp
qed


text \<open>The layer keys of all players are words of 32 bytes, and so is what a player decodes.\<close>

lemma encode_all_keys:
  assumes "N < 255" "deck_ok numcards N cards" "\<forall>(sbytes, rnd, nrbytes, shbytes)\<in>set ps. \<forall>k. length (rnd k) = 32"
    and "encode_all M numcards N ps cards = Some ls"
  shows "\<forall>(encoded, xoverz)\<in>set ls. length xoverz = numcards * N \<and> (\<forall>x\<in>set xoverz. length x = 32)"
  using assms(2-4)
proof (induction ps arbitrary: cards ls)
  case (Cons p ps)
  from Cons.prems(3) obtain sbytes rnd nrbytes shbytes encoded xoverz ls'
    where p: "p = (sbytes, rnd, nrbytes, shbytes)"
      and l: "cards777_layer rnd (cards777_shuffle sbytes cards numcards N) numcards N = (encoded, xoverz)"
      and ls: "encode_all M numcards N ps encoded = Some ls'" "ls = (encoded, xoverz) # ls'"
    by (rule encode_all_ConsE [OF assms(1)])
  have rnd: "\<forall>k. length (rnd k) = 32" using Cons.prems(2) p by simp
  note lay = layer_ok [OF shuffle_ok [OF Cons.prems(1)] rnd l]
  from Cons.IH [OF lay(1) _ ls(1)] Cons.prems(2) lay(2,3) show ?case unfolding ls(2) by simp
qed simp

lemma last_deck_ok:
  assumes "N < 255" "deck_ok numcards N cards" "\<forall>(sbytes, rnd, nrbytes, shbytes)\<in>set ps. \<forall>k. length (rnd k) = 32"
    and "encode_all M numcards N ps cards = Some ls"
  shows "deck_ok numcards N (last_deck cards ls)"
  using assms(2-4)
proof (induction ps arbitrary: cards ls)
  case (Cons p ps)
  from Cons.prems(3) obtain sbytes rnd nrbytes shbytes encoded xoverz ls'
    where p: "p = (sbytes, rnd, nrbytes, shbytes)"
      and l: "cards777_layer rnd (cards777_shuffle sbytes cards numcards N) numcards N = (encoded, xoverz)"
      and ls: "encode_all M numcards N ps encoded = Some ls'" "ls = (encoded, xoverz) # ls'"
    by (rule encode_all_ConsE [OF assms(1)])
  have rnd: "\<forall>k. length (rnd k) = 32" using Cons.prems(2) p by simp
  from Cons.IH [OF layer_ok(1) [OF shuffle_ok [OF Cons.prems(1)] rnd l] _ ls(1)] Cons.prems(2)
  show ?case unfolding ls(2) by simp
qed simp

lemma decode_lengths:
  assumes "length xoverz = numcards * N" "\<forall>x\<in>set xoverz. length x = 32" "d < N" "length cipher = 32"
    and "cards777_decode xoverz d cipher outcards numcards N = (k, c)"
  shows "length k = 32 \<and> length c = 32"
proof -
  have "decode_loop xoverz d cipher outcards N n i = (k, c) \<Longrightarrow> i + n \<le> numcards \<Longrightarrow> length k = 32 \<and> length c = 32" for n i
  proof (induction n arbitrary: i)
    case (Suc n)
    have "xoverz ! (i * N + d) \<in> set xoverz" using Suc.prems(2) assms(1,3) card_index [of i numcards d N] by simp
    then have "length (xoverz ! (i * N + d)) = 32" using assms(2) by blast
    with Suc assms(4) show ?case by (auto simp: Let_def length_fmul_donna split: if_splits)
  qed auto
  from this [of numcards 0] show ?thesis using assms(5) by (simp only: cards777_decode_def add_0 order_refl)
qed

text \<open>The deck of \<^verbatim>\<open>cards777_initdeck\<close>, card by card.\<close>

lemma initdeck_cards:
  assumes "cards777_initdeck rnds numcards N playerpubs = Some (msk, cardpubs, cards, prd)"
    and "numcards < 64" "\<forall>r\<in>set rnds. length r = 32"
  shows "\<exists>privs. length privs = numcards \<and> cardpubs = map card_pub privs
    \<and> (\<forall>p\<in>set privs. length p = 32 \<and> face p < numcards) \<and> deck_ok numcards N cards
    \<and> (\<forall>j<numcards. \<forall>d<N. cards ! (j * N + d) = cards777_initcrypt (privs ! j) (privs ! j) (playerpubs ! d) False)"
proof -
  from initdeck_result [OF assms(2,3), of N playerpubs] assms(1) obtain privs
    where D: "(msk, cardpubs, cards, prd) = deck_of N playerpubs privs msk"
    and inv: "deck_inv numcards privs msk" "face ` set privs = {..<numcards}"
    by (auto simp: deck_result_def deck_of_def)
  have len: "length privs = numcards"
    using distinct_card [of "map face privs"] inv by (simp add: deck_inv_def)
  have p: "\<forall>p\<in>set privs. length p = 32 \<and> face p < numcards" using inv by (auto simp: deck_inv_def)
  have c: "cards = concat (map (card_row N playerpubs) privs)" and cp: "cardpubs = map card_pub privs"
    using D by (simp_all add: deck_of_def)
  have at: "cards ! (j * N + d) = cards777_initcrypt (privs ! j) (privs ! j) (playerpubs ! d) False" if "j < numcards" "d < N" for j d
    unfolding c using that len by (subst concat_rows_nth) (auto simp: card_row_def)
  have "length x = 32 \<and> int (le_val x) < p25519" if "x \<in> set cards" for x
  proof -
    from that obtain q d where q: "q \<in> set privs" "x = cards777_initcrypt q q (playerpubs ! d) False"
      by (auto simp: c card_row_def)
    then show ?thesis using initcrypt_canonical [of q q "playerpubs ! d"] fe_bytes_below p
      by (metis length_fe_bytes)
  qed
  moreover have "length cards = numcards * N"
    using len by (simp add: c length_concat card_row_def comp_def sum_list_triv)
  ultimately show ?thesis using len cp p at by (intro exI [of _ privs]) (simp add: deck_ok_def)
qed

text \<open>A card of the last deck, back through all players.\<close>

lemma deal_opens:
  assumes "cards777_initdeck rnds numcards N playerpubs = Some (msk, cardpubs, cards, prd)"
    and "numcards < 64" "\<forall>r\<in>set rnds. length r = 32" "N < 255"
    and "\<forall>(sbytes, rnd, nrbytes, shbytes)\<in>set ps. \<forall>k. length (rnd k) = 32"
    and "encode_all M numcards N ps cards = Some ls" "i < numcards" "d < N" "keys_nonzero ls"
    and "decode_all numcards N d ls (last_deck cards ls ! (i * N + d)) = (c, keys)"
  shows "\<exists>priv. card_pub priv \<in> set cardpubs \<and> face priv < numcards
    \<and> c = cards777_initcrypt priv priv (playerpubs ! d) False
    \<and> cards777_validate priv (last_deck cards ls ! (i * N + d)) (c # keys) (Suc (length ls)) (playerpubs ! d)
      = int (face priv)"
proof -
  obtain privs where d: "length privs = numcards" "cardpubs = map card_pub privs"
    "\<forall>p\<in>set privs. length p = 32 \<and> face p < numcards" "deck_ok numcards N cards"
    "\<forall>j<numcards. \<forall>d<N. cards ! (j * N + d) = cards777_initcrypt (privs ! j) (privs ! j) (playerpubs ! d) False"
    using initdeck_cards [OF assms(1-3)] by blast
  from deal_chain [OF assms(4) d(4) assms(5-10)] obtain j
    where j: "length keys = length ls" "foldr fmul_donna keys (last_deck cards ls ! (i * N + d)) = c"
      "j < numcards" "c = cards ! (j * N + d)" by blast
  have "c = cards777_initcrypt (privs ! j) (privs ! j) (playerpubs ! d) False" using d(5) j(3,4) assms(8) by blast
  moreover from this have "cards777_validate (privs ! j) (last_deck cards ls ! (i * N + d)) (c # keys) (Suc (length ls)) (playerpubs ! d)
      = int (face (privs ! j))"
    using j(2) unfolding j(1) [symmetric] validate_open face_def by (simp only: simp_thms if_True)
  moreover have "privs ! j \<in> set privs" using d(1) j(3) by simp
  ultimately show ?thesis using d(2,3) by auto
qed

text \<open>There are such draws: the key of 32 zero bytes is not zero.\<close>

lemma zero_draws_nonzero:
  assumes "N < 255" "encode_all M numcards N ps cards = Some ls"
    and "\<forall>(sbytes, rnd, nrbytes, shbytes)\<in>set ps. rnd = (\<lambda>_. replicate 32 0)"
  shows "keys_nonzero ls"
  using assms(2,3)
proof (induction ps arbitrary: cards ls)
  case Nil
  then show ?case by (auto simp: keys_nonzero_simps)
next
  case (Cons p ps)
  from Cons.prems(1) obtain sbytes rnd nrbytes shbytes encoded xoverz ls'
    where p: "p = (sbytes, rnd, nrbytes, shbytes)"
      and l: "cards777_layer rnd (cards777_shuffle sbytes cards numcards N) numcards N = (encoded, xoverz)"
      and ls: "encode_all M numcards N ps encoded = Some ls'" "ls = (encoded, xoverz) # ls'"
    by (rule encode_all_ConsE [OF assms(1)])
  have "rnd = (\<lambda>_. replicate 32 0)" using Cons.prems(2) p by simp
  then have "set xoverz \<subseteq> {xoverz_donna (rand256 (replicate 32 0) True)}"
    using l by (auto simp: cards777_layer_def Let_def)
  then have "replicate 32 0 \<notin> set xoverz" using xoverz_zero_draw by (metis singletonD subsetD)
  moreover have "keys_nonzero ls'" using Cons.IH [OF ls(1)] Cons.prems(2) by simp
  ultimately show ?case unfolding ls(2) keys_nonzero_simps by blast
qed

section \<open>The memory of a player\<close>

text \<open>
  \<^verbatim>\<open>cards777_allocpriv\<close> and \<^verbatim>\<open>cards777_allocpub\<close>: the number of 256-bit words behind the structure and
  the word at which each array starts; \<open>ok\<close> tells whether \<^verbatim>\<open>calloc\<close> succeeds.
\<close>

record priv_layout =
  priv_words :: nat
  audits_at :: nat
  outcards_at :: nat
  xoverz_at :: nat
  allshares_at :: nat

definition cards777_allocpriv :: "bool \<Rightarrow> nat \<Rightarrow> nat \<Rightarrow> priv_layout option" where
  "cards777_allocpriv ok numcards N =
     (if \<not> ok then None
      else let audits = 0; outcards = audits + N * numcards * N; xoverz = outcards + N * numcards;
               allshares = xoverz + N * numcards
           in Some \<lparr>priv_words = 2 * ((N * numcards * N) + (N * numcards)), audits_at = audits,
                outcards_at = outcards, xoverz_at = xoverz, allshares_at = allshares\<rparr>)"

record pub_layout =
  pub_words :: nat
  cardpubs_at :: nat
  final_at :: nat

definition cards777_allocpub :: "bool \<Rightarrow> nat \<Rightarrow> nat \<Rightarrow> pub_layout option" where
  "cards777_allocpub ok numcards N =
     (if \<not> ok then None
      else let cardpubs = 0; final = cardpubs + (numcards + 1)
           in Some \<lparr>pub_words = (numcards + 1) + (N * numcards), cardpubs_at = cardpubs, final_at = final\<rparr>)"

text \<open>
  What \<^verbatim>\<open>cards777_encode\<close> writes fills exactly the arrays of \<^verbatim>\<open>cards777_allocpriv\<close>, one after the
  other, and the shares end where the block ends.
\<close>

lemma encode_fits_allocpriv:
  assumes "1 \<le> M" "N < 255" "deck_ok numcards N ciphers" "\<forall>k. length (rnd k) = 32"
    and "(M - 1) * (N * 32 * numcards) \<le> length shbytes" "cards777_allocpriv True numcards N = Some L"
    and "cards777_encode sbytes rnd nrbytes shbytes M ciphers numcards N = Some (encoded, xoverz, allshares, sharenrs, shuffled)"
  shows "outcards_at L + length encoded = xoverz_at L" "xoverz_at L + length xoverz = allshares_at L"
    "32 * allshares_at L + length allshares = 32 * priv_words L"
proof -
  let ?sh = "cards777_shuffle sbytes ciphers numcards N" and ?sz = "N * 32 * numcards"
  obtain e x where l: "cards777_layer rnd ?sh numcards N = (e, x)" by (metis surj_pair)
  from encode_turn [OF assms(2) l, of shbytes M nrbytes] assms(7) obtain nrs myshares
    where e: "e = encoded" "x = xoverz" "length nrs = N" "distinct nrs" "0 \<notin> set nrs"
      "cards777_calcmofn shbytes (buf_write 0 nrs (replicate 255 0)) M (concat xoverz) numcards N = (allshares, myshares, ?sz)"
    by auto
  note lay = layer_ok [OF shuffle_ok [OF assms(3)] assms(4) l, unfolded e(1,2)]
  have xl: "length (concat xoverz) = ?sz"
    using lay(2,3) by (simp add: length_concat sum_list_triv cong: map_cong)
  have "length allshares = N * ?sz"
    using calc_shares_slices [OF assms(1) order_refl xl assms(5), of N "buf_write 0 nrs (replicate 255 0)"]
      sharenrs_prefix [OF e(3) assms(2)] e(5,6) by (simp add: cards777_calcmofn_def Let_def)
  moreover have "L = \<lparr>priv_words = 2 * ((N * numcards * N) + (N * numcards)), audits_at = 0,
      outcards_at = N * numcards * N, xoverz_at = N * numcards * N + N * numcards,
      allshares_at = N * numcards * N + N * numcards + N * numcards\<rparr>"
    using assms(6) by (simp add: cards777_allocpriv_def Let_def)
  ultimately show "outcards_at L + length encoded = xoverz_at L" "xoverz_at L + length xoverz = allshares_at L"
    "32 * allshares_at L + length allshares = 32 * priv_words L"
    using lay(1,2) by (simp_all add: deck_ok_def algebra_simps)
qed

section \<open>Properties\<close>

text \<open>
  C5. Dealing a card. A deck of \<^verbatim>\<open>cards777_initdeck\<close> goes through any number of players, each of which
  shuffles and layers it with \<^verbatim>\<open>cards777_encode\<close>, and no player draws a layer key of zero; any card
  of the last deck goes back through \<^verbatim>\<open>cards777_decode\<close> of every player. What arrives is a card of
  the deck encrypted to exactly the destination player of the column, its public key is in the list of
  public keys, and \<^verbatim>\<open>cards777_validate\<close> accepts the audit of the keys and returns its face.
\<close>

theorem card_deal_validates:
  assumes "cards777_initdeck rnds numcards N playerpubs = Some (msk, cardpubs, cards, prd)"
    and "numcards < 64" "\<forall>r\<in>set rnds. length r = 32" "N < 255"
    and "\<forall>(sbytes, rnd, nrbytes, shbytes)\<in>set ps. \<forall>k. length (rnd k) = 32"
    and "encode_all M numcards N ps cards = Some ls" "i < numcards" "d < N"
    and "\<forall>(encoded, xoverz)\<in>set ls. replicate 32 0 \<notin> set xoverz"
    and "decode_all numcards N d ls (last_deck cards ls ! (i * N + d)) = (c, keys)"
  shows "\<exists>priv. card_pub priv \<in> set cardpubs \<and> face priv < numcards
    \<and> c = cards777_initcrypt priv priv (playerpubs ! d) False
    \<and> cards777_validate priv (last_deck cards ls ! (i * N + d)) (c # keys) (Suc (length ls)) (playerpubs ! d)
      = int (face priv)"
  using assms unfolding keys_nonzero_def [symmetric] by (rule deal_opens)

text \<open>One card, two players that layer it.\<close>

theorem card_deal_validates_witness:
  "\<exists>msk cardpubs cards prd ls c keys.
    cards777_initdeck [replicate 32 0] 1 2 [replicate 32 0, replicate 32 1] = Some (msk, cardpubs, cards, prd)
    \<and> encode_all 1 1 2 (replicate 2 (\<lambda>_. 0, \<lambda>_. replicate 32 0, [0], [])) cards = Some ls \<and> length ls = 2
    \<and> decode_all 1 2 1 ls (last_deck cards ls ! 1) = (c, keys)
    \<and> (\<exists>priv. card_pub priv \<in> set cardpubs \<and> face priv < 1
      \<and> c = cards777_initcrypt priv priv (replicate 32 1) False
      \<and> cards777_validate priv (last_deck cards ls ! 1) (c # keys) 3 (replicate 32 1) = int (face priv))"
proof -
  let ?ps = "replicate 2 (\<lambda>_. 0, \<lambda>_. replicate 32 0, [0], []) :: draws list"
  obtain msk cardpubs cards prd where i: "cards777_initdeck [replicate 32 0] 1 2 [replicate 32 0, replicate 32 1] = Some (msk, cardpubs, cards, prd)"
    using initdeck_completes [of 1 "[replicate 32 0]" 2 "[replicate 32 0, replicate 32 1]"] by (auto simp: face_def lessThan_Suc)
  obtain ls where l: "encode_all 1 1 2 ?ps cards = Some ls" "length ls = 2"
    using encode_all_total [of 2 1 1 ?ps cards] by auto
  have nz: "keys_nonzero ls" by (rule zero_draws_nonzero [OF _ l(1)]) auto
  obtain c keys where k: "decode_all 1 2 1 ls (last_deck cards ls ! (0 * 2 + 1)) = (c, keys)" by (metis surj_pair)
  have "\<exists>priv. card_pub priv \<in> set cardpubs \<and> face priv < 1
      \<and> c = cards777_initcrypt priv priv ([replicate 32 0, replicate 32 1] ! 1) False
      \<and> cards777_validate priv (last_deck cards ls ! (0 * 2 + 1)) (c # keys) (Suc (length ls)) ([replicate 32 0, replicate 32 1] ! 1) = int (face priv)"
    by (rule card_deal_validates [OF i _ _ _ _ l(1) _ _ nz [unfolded keys_nonzero_def] k]) auto
  moreover have "Suc (length ls) = 3" "[replicate 32 0, replicate 32 1] ! 1 = (replicate 32 1 :: bytes)" using l(2) by simp_all
  ultimately show ?thesis using i l k
    by (intro exI [of _ msk] exI [of _ cardpubs] exI [of _ cards] exI [of _ prd] exI [of _ ls] exI [of _ c] exI [of _ keys])
      (simp only: mult_0 add_0 simp_thms)
qed


text \<open>
  C13. The audit is tamper-evident: given the nonzero keys of the layers of a card,
  \<^verbatim>\<open>cards777_validate\<close> accepts a final card only when it is the layered card modulo the prime and
  the opened card is the encryption of the claimed private key to the player; it then returns the face, and
  \<open>- 1\<close> in every other case.
\<close>

theorem cards777_validate_detects:
  assumes "xs \<noteq> []" "\<forall>x\<in>set xs. length x = 32 \<and> fe x mod p25519 \<noteq> 0" "length cardpriv = 32" "length final = 32"
  shows "cards777_validate cardpriv final (c # xs) (Suc (length xs)) playerpub
    = (if c = cards777_initcrypt cardpriv cardpriv playerpub False \<and> fe_bytes (fe final) = add_layers c xs
       then int (unat (cardpriv ! 1)) else - 1)"
proof (cases "c = cards777_initcrypt cardpriv cardpriv playerpub False")
  case True
  then have c: "length c = 32" "fe_bytes (fe c) = c"
    using assms(3) by (simp_all add: length_initcrypt initcrypt_canonical)
  have a: "length (add_layers c xs) = 32" "fe_bytes (fe (add_layers c xs)) = add_layers c xs"
    using add_layers_canonical [OF _ c] assms(2) by blast+
  have "foldr fmul_donna xs final = c \<longleftrightarrow> fe_bytes (fe final) = add_layers c xs"
    using open_inject [OF assms(2,1,4) a(1)] layers_open [OF assms(2) c] a(2) by simp
  then show ?thesis unfolding validate_open by (simp only: conj_commute)
qed (simp add: validate_open)

theorem cards777_validate_detects_witness:
  "let one = 1 # replicate 31 0; c = cards777_initcrypt one one one False
   in cards777_validate one (replicate 32 3) [c, one] 2 one
    = (if c = cards777_initcrypt one one one False \<and> fe_bytes (fe (replicate 32 3)) = add_layers c [one] then 0 else - 1)"
proof -
  define one :: bytes where "one = 1 # replicate 31 0"
  have "fe one = 1" unfolding one_def fe_def by (simp only: le_val.simps le_val_zero) simp
  then have "\<forall>x\<in>set [one]. length x = 32 \<and> fe x mod p25519 \<noteq> 0" by (simp add: one_def p25519_def)
  from cards777_validate_detects [OF _ this, of one "replicate 32 3" "cards777_initcrypt one one one False" one]
  have "cards777_validate one (replicate 32 3) [cards777_initcrypt one one one False, one] 2 one
    = (if fe_bytes (fe (replicate 32 3)) = add_layers (cards777_initcrypt one one one False) [one] then int (unat (one ! 1)) else - 1)"
    by (simp only: list.size simp_thms) (simp add: one_def numeral_2_eq_2)
  moreover have "unat (one ! 1) = 0" by (simp add: one_def)
  ultimately show ?thesis unfolding Let_def one_def [symmetric] by simp
qed

text \<open>
  C12. A player may leave after its turn: \<^verbatim>\<open>cards777_encode\<close> keeps every card and returns a deck of
  canonical field elements, every card of which opens with its layer key, and any selection of at least
  \<open>M\<close> of the shares it hands out lets \<^verbatim>\<open>cards777_recover\<close> rebuild exactly the layer keys.
\<close>

theorem cards777_encode_recovers:
  assumes "1 \<le> M" "N < 255" "deck_ok numcards N ciphers" "\<forall>k. length (rnd k) = 32"
    and "(M - 1) * (N * 32 * numcards) \<le> length shbytes"
    and "length (ctx_sharenrs raw) = 255" "length (ctx_buffer raw) = N * (N * 32 * numcards)"
  shows "\<exists>encoded xoverz allshares sharenrs shuffled.
    cards777_encode sbytes rnd nrbytes shbytes M ciphers numcards N = Some (encoded, xoverz, allshares, sharenrs, shuffled)
    \<and> mset shuffled = mset ciphers \<and> deck_ok numcards N encoded
    \<and> (\<forall>n<numcards * N. fmul_donna (xoverz ! n) (encoded ! n)
        = (if xoverz ! n = replicate 32 0 then replicate 32 0 else shuffled ! n))
    \<and> (\<forall>given. (\<forall>i<N. given ! i \<in> {None, Some (drop (i * (N * 32 * numcards)) allshares)})
        \<and> M \<le> card {i. i < N \<and> given ! i \<noteq> None}
        \<longrightarrow> cards777_recover (Some raw) given sharenrs numcards N = Some (concat xoverz))"
proof -
  let ?sh = "cards777_shuffle sbytes ciphers numcards N"
  obtain encoded xoverz where l: "cards777_layer rnd ?sh numcards N = (encoded, xoverz)" by (metis surj_pair)
  from encode_turn [OF assms(2) l] obtain nrs allshares myshares where e: "length nrs = N" "distinct nrs" "0 \<notin> set nrs"
    "cards777_calcmofn shbytes (buf_write 0 nrs (replicate 255 0)) M (concat xoverz) numcards N = (allshares, myshares, N * 32 * numcards)"
    "\<forall>j. myshares j = drop (j * (N * 32 * numcards)) allshares"
    "cards777_encode sbytes rnd nrbytes shbytes M ciphers numcards N
      = Some (encoded, xoverz, allshares, buf_write 0 nrs (replicate 255 0), ?sh)" by blast
  have ok: "deck_ok numcards N ?sh" using assms(3) by (rule shuffle_ok)
  note lay = layer_ok [OF ok assms(4) l]
  have xl: "length (concat xoverz) = N * 32 * numcards"
    using lay(2,3) by (simp add: length_concat sum_list_triv cong: map_cong)
  have pre: "N \<le> length (buf_write 0 nrs (replicate 255 0))" "distinct (take N (buf_write 0 nrs (replicate 255 0)))"
    "0 \<notin> set (take N (buf_write 0 nrs (replicate 255 0)))"
    using sharenrs_prefix [OF e(1) assms(2)] e(2,3) by simp_all
  have "cards777_recover (Some raw) given (buf_write 0 nrs (replicate 255 0)) numcards N = Some (concat xoverz)"
    if "\<forall>i<N. given ! i \<in> {None, Some (drop (i * (N * 32 * numcards)) allshares)}"
      "M \<le> card {i. i < N \<and> given ! i \<noteq> None}" for given
    using assms(2) that e(5) by (intro cards777_recover_calcmofn [OF assms(1) _ xl assms(5) pre assms(6,7) e(4)]) auto
  moreover have "fmul_donna (xoverz ! n) (encoded ! n) = (if xoverz ! n = replicate 32 0 then replicate 32 0 else ?sh ! n)"
    if n: "n < numcards * N" for n
  proof -
    obtain y where y: "xoverz ! n = fe_bytes y"
      using l n xoverz_canonical [of "rnd n"] assms(4) by (auto simp: cards777_layer_def Let_def)
    have "encoded ! n = fmul_donna (crecip_donna (xoverz ! n)) (?sh ! n)"
      using l n by (auto simp: cards777_layer_def Let_def)
    then show ?thesis unfolding y using layer_cancel [of "?sh ! n" y] ok n by (simp only: y deck_ok_def nth_mem)
  qed
  moreover have "mset ?sh = mset ciphers" using shuffle_rows [of ciphers] assms(3) by (simp add: deck_ok_def)
  ultimately show ?thesis using e(6) lay(1) by blast
qed


text \<open>Two cards for two players, and both shares.\<close>

theorem cards777_encode_recovers_witness:
  "\<exists>encoded xoverz allshares sharenrs shuffled.
    cards777_encode (\<lambda>_. 5) (\<lambda>_. replicate 32 7) [1, 2] (replicate 128 9) 2 (replicate 4 (replicate 32 1)) 2 2
      = Some (encoded, xoverz, allshares, sharenrs, shuffled)
    \<and> mset shuffled = mset (replicate 4 (replicate 32 1))
    \<and> cards777_recover (Some \<lparr>sharecount = 0, threshold = 0, ctx_size = 0, buffersize = 0, ctx_sharenrs = replicate 255 9,
        ctx_buffer = replicate 256 3\<rparr>) [Some allshares, Some (drop 128 allshares)] sharenrs 2 2 = Some (concat xoverz)"
proof -
  define raw where "raw = \<lparr>sharecount = 0, threshold = 0, ctx_size = 0, buffersize = 0, ctx_sharenrs = replicate 255 (9::u8),
    ctx_buffer = replicate 256 (3::u8)\<rparr>"
  define one :: bytes where "one = replicate 32 1"
  have "one = replicate 31 1 @ [1]" unfolding one_def by (simp add: numeral_eq_Suc)
  then have "int (le_val one) < p25519"
    using le_val_bound [of "replicate 31 1"] by (simp add: le_val_append p25519_def)
  then have "deck_ok 2 2 (replicate 4 one)" by (auto simp: deck_ok_def one_def)
  from cards777_encode_recovers [OF _ _ this, of 2 "\<lambda>_. replicate 32 7" "replicate 128 9" raw "\<lambda>_. 5" "[1, 2]"]
  obtain encoded xoverz allshares sharenrs shuffled where
    e: "cards777_encode (\<lambda>_. 5) (\<lambda>_. replicate 32 7) [1, 2] (replicate 128 9) 2 (replicate 4 one) 2 2
      = Some (encoded, xoverz, allshares, sharenrs, shuffled)" "mset shuffled = mset (replicate 4 one)"
    and r: "\<forall>given. (\<forall>i<2. given ! i \<in> {None, Some (drop (i * (2 * 32 * 2)) allshares)})
        \<and> 2 \<le> card {i. i < 2 \<and> given ! i \<noteq> None}
        \<longrightarrow> cards777_recover (Some raw) given sharenrs 2 2 = Some (concat xoverz)"
    by (auto simp: raw_def)
  have "{i. i < 2 \<and> [Some allshares, Some (drop 128 allshares)] ! i \<noteq> None} = {0, 1}" by (auto simp: less_2_cases_iff)
  then have "cards777_recover (Some raw) [Some allshares, Some (drop 128 allshares)] sharenrs 2 2 = Some (concat xoverz)"
    using r by (auto simp: less_2_cases_iff)
  with e show ?thesis unfolding one_def [symmetric] raw_def [symmetric] by blast
qed

end
