(* ===== verification/Poker.thy ===== *)
theory Poker
  imports Prelude "HOL-Library.Multiset"
begin

text \<open>
  Ranking poker hands (\<^verbatim>\<open>src/plugins/games/pangea/poker.c\<close>): the five and seven card scores
  that \<^verbatim>\<open>pangea_splitpot\<close> compares, and the card piles of the simulator. A card is a number
  below 52: thirteen times its suit plus its value, deuce to ace. Scores are 32-bit masks:
  the category above bit 27, the ranks that decide it above bit 13, the kickers below.
\<close>

section \<open>Tables\<close>

definition RANK_SHL :: nat where "RANK_SHL = 27"
definition SUBR_SHL :: nat where "SUBR_SHL = 13"

definition STRAIGHT_FLUSH_SCORE :: u32 where "STRAIGHT_FLUSH_SCORE = push_bit RANK_SHL 8"
definition FOUR_KIND_SCORE :: u32 where "FOUR_KIND_SCORE = push_bit RANK_SHL 7"
definition FULL_HOUSE_SCORE :: u32 where "FULL_HOUSE_SCORE = push_bit RANK_SHL 6"
definition FLUSH_SCORE :: u32 where "FLUSH_SCORE = push_bit RANK_SHL 5"
definition STRAIGHT_SCORE :: u32 where "STRAIGHT_SCORE = push_bit RANK_SHL 4"
definition THREE_KIND_SCORE :: u32 where "THREE_KIND_SCORE = push_bit RANK_SHL 3"
definition TWO_PAIR_SCORE :: u32 where "TWO_PAIR_SCORE = push_bit RANK_SHL 2"
definition TWO_KIND_SCORE :: u32 where "TWO_KIND_SCORE = push_bit RANK_SHL 1"

definition CardValue :: "nat list" where
  "CardValue = concat (replicate 4 [0, 1, 2, 3, 4, 5, 6, 7, 8, 9, 10, 11, 12])"

definition CardSuit :: "u32 list" where
  "CardSuit = replicate 13 1 @ replicate 13 2 @ replicate 13 4 @ replicate 13 8"

definition CardSuitIdx :: "nat list" where
  "CardSuitIdx = replicate 13 0 @ replicate 13 1 @ replicate 13 2 @ replicate 13 3"

definition CardMask :: "u32 list" where
  "CardMask = concat (replicate 4
     [1, 2, 4, 8, 0x10, 0x20, 0x40, 0x80, 0x100, 0x200, 0x400, 0x800, 0x1000])"

section \<open>Five cards\<close>

definition clear_low :: "u32 \<Rightarrow> u32" where
  "clear_low t = t AND (t - 1)"

text \<open>One card entering the masks of ranks seen at least once, twice, three and four times.\<close>

definition kind_step :: "u32 \<times> u32 \<times> u32 \<times> u32 \<Rightarrow> u32 \<Rightarrow> u32 \<times> u32 \<times> u32 \<times> u32" where
  "kind_step = (\<lambda>(m1, m2, m3, m4) c. (m1 OR c, m2 OR (c AND m1), m3 OR (c AND m2), m4 OR (c AND m3)))"

definition kind_masks :: "u32 list \<Rightarrow> u32 \<times> u32 \<times> u32 \<times> u32" where
  "kind_masks cs = foldl kind_step (0, 0, 0, 0) cs"

definition FiveCardDrawScoreFast :: "u32 list \<Rightarrow> u32 \<Rightarrow> u32" where
  "FiveCardDrawScoreFast cs u0 =
     (let u = clear_low u0;
          (m1, m2, m3, m4) = kind_masks cs
      in if m2 = 0 then
           let z = clear_low m1 XOR m1;
               y = push_bit 5 z - z
           in if m1 = 0x100F then
                if u \<noteq> 0 then STRAIGHT_SCORE + 0xF else STRAIGHT_FLUSH_SCORE + 0xF
              else if y = m1 then
                if u \<noteq> 0 then STRAIGHT_SCORE + m1 else STRAIGHT_FLUSH_SCORE + m1
              else if u \<noteq> 0 then m1 else FLUSH_SCORE + m1
         else
           let m1 = m1 AND NOT m2
           in if m3 = 0 then
                if clear_low m2 = 0 then TWO_KIND_SCORE + push_bit SUBR_SHL m2 + m1
                else TWO_PAIR_SCORE + push_bit SUBR_SHL m2 + m1
              else
                let m2 = m2 AND NOT m3
                in if m4 = 0 then
                     if m2 = 0 then THREE_KIND_SCORE + push_bit SUBR_SHL m3 + m1
                     else FULL_HOUSE_SCORE + push_bit SUBR_SHL m3 + m2
                   else FOUR_KIND_SCORE + push_bit SUBR_SHL m4 + m1)"

definition FiveCardDrawScore :: "nat list \<Rightarrow> u32" where
  "FiveCardDrawScore h =
     FiveCardDrawScoreFast (map (\<lambda>i. CardMask ! (h ! i)) [0..<5])
       (foldl (OR) 0 (map (\<lambda>i. CardSuit ! (h ! i)) [0..<5]))"

section \<open>Seven cards\<close>

text \<open>The masks and countdowns of the four suits.\<close>

definition flush_masks :: "nat list \<Rightarrow> u32 list \<Rightarrow> u32 list \<times> int list" where
  "flush_masks h c =
     foldl (\<lambda>(f, cc) k. let i = CardSuitIdx ! (h ! k) in (f[i := f ! i OR c ! k], cc[i := cc ! i - 1]))
       ([0, 0, 0, 0], [4, 4, 4, 4]) [0..<7]"

definition SevenCardDrawFlush :: "nat list \<Rightarrow> u32 list \<Rightarrow> u32" where
  "SevenCardDrawFlush h c =
     (let (f, cc) = flush_masks h c
      in if (cc ! 0 OR cc ! 1) OR (cc ! 2 OR cc ! 3) < 0 then
           let s = drop_bit 3 ((cc ! 0 AND 8 OR cc ! 1 AND 16) OR (cc ! 2 AND 32 OR cc ! 3 AND 64));
               s = nat ([-1, 0, 1, -1, 2, -1, -1, -1, 3 :: int] ! nat s);
               t = (clear_low ^^ nat (- 1 - cc ! s)) (f ! s)
           in f ! s OR push_bit SUBR_SHL t
         else 0)"

definition SevenCardDrawFlushScore :: "u32 \<Rightarrow> u32" where
  "SevenCardDrawFlushScore f = FLUSH_SCORE + drop_bit SUBR_SHL f"

text \<open>A run of \<open>n\<close> ranks upward from the single-bit mask \<open>v\<close>.\<close>

definition run_up :: "nat \<Rightarrow> u32 \<Rightarrow> u32" where
  "run_up n v = (let u = push_bit n v - 1 in u AND NOT (drop_bit n u))"

text \<open>The top five of a run of \<open>n\<close>, within the flush.\<close>

definition run_top5 :: "nat \<Rightarrow> u32 \<Rightarrow> u32" where
  "run_top5 n v = (let u = push_bit n v - 1 in u AND NOT (drop_bit 5 u))"

text \<open>Straight flush, flush or straight, given a run \<open>u\<close> of \<open>n\<close> ranks in the hand.\<close>

definition straight_score :: "nat \<Rightarrow> u32 \<Rightarrow> u32 \<Rightarrow> u32" where
  "straight_score n f u =
     (if f \<noteq> 0 then
        let s = f AND u;
            r = run_top5 n (clear_low s XOR s)
        in if r AND s = r then STRAIGHT_FLUSH_SCORE + r
           else if n \<ge> 6 \<and> drop_bit 1 r AND s = drop_bit 1 r then STRAIGHT_FLUSH_SCORE + drop_bit 1 r
           else if n \<ge> 7 \<and> drop_bit 2 r AND s = drop_bit 2 r then STRAIGHT_FLUSH_SCORE + drop_bit 2 r
           else if 0x100F AND f = 0x100F then STRAIGHT_FLUSH_SCORE + 0xF
           else SevenCardDrawFlushScore f
      else STRAIGHT_SCORE + (u AND NOT (drop_bit 5 u)))"

text \<open>The highest bit, found by clearing the lowest one until a single bit is left.\<close>

lemma clear_low_less: "m \<noteq> 0 \<Longrightarrow> unat (clear_low m) < unat m"
proof -
  assume m: "m \<noteq> 0"
  have "clear_low m \<le> m - 1" by (simp add: clear_low_def word_and_le1 word_and_le2 and.commute)
  moreover have "unat (m - 1) = unat m - 1" using m by (rule unat_minus_one)
  moreover have "0 < unat m" using m by (simp add: unat_gt_0)
  ultimately show ?thesis unfolding word_le_nat_alt by linarith
qed

function top_bit :: "u32 \<Rightarrow> u32" where
  "top_bit m1 = (let m2 = clear_low m1 in if m2 \<noteq> 0 then top_bit m2 else m1)"
  by pat_completeness auto

termination top_bit
proof (relation "measure unat")
  show "x = clear_low m1 \<Longrightarrow> x \<noteq> 0 \<Longrightarrow> (x, m1) \<in> measure unat" for x m1
    using clear_low_less [of m1] by (cases "m1 = 0") (auto simp: clear_low_def)
qed auto

declare top_bit.simps [simp del]

text \<open>Pairs and better, when there is neither a straight nor (for three of a kind) a flush.\<close>

definition seven_kinds :: "u32 \<Rightarrow> u32 \<times> u32 \<times> u32 \<times> u32 \<Rightarrow> u32" where
  "seven_kinds f = (\<lambda>(m1, m2, m3, m4).
     let m1 = m1 AND NOT m2
     in if m3 = 0 then
          if f \<noteq> 0 then SevenCardDrawFlushScore f
          else if m2 \<noteq> 0 then
            let s = clear_low m2
            in if s = 0 then TWO_KIND_SCORE + push_bit SUBR_SHL m2 + clear_low (clear_low m1)
               else
                 let (v, m2) = (if clear_low s \<noteq> 0 then (m1 OR (m2 XOR s), s) else (clear_low m1, m2))
                 in TWO_PAIR_SCORE + push_bit SUBR_SHL m2 + clear_low v
          else clear_low (clear_low m1)
        else if m4 \<noteq> 0 then
          FOUR_KIND_SCORE + push_bit SUBR_SHL m4 + top_bit (m1 OR (m2 AND NOT m4))
        else if m2 AND NOT m3 = 0 then
          let t = clear_low m3
          in if t \<noteq> 0 then FULL_HOUSE_SCORE + push_bit SUBR_SHL t + (m3 XOR t)
             else if f \<noteq> 0 then SevenCardDrawFlushScore f
             else THREE_KIND_SCORE + push_bit SUBR_SHL m3 + clear_low (clear_low m1)
        else
          let m2 = m2 AND NOT m3; t = clear_low m2
          in FULL_HOUSE_SCORE + push_bit SUBR_SHL m3 + (if t = 0 then m2 else t))"

definition SevenCardDrawScore :: "nat list \<Rightarrow> u32" where
  "SevenCardDrawScore h =
     (let c = map (\<lambda>i. CardMask ! (h ! i)) [0..<7];
          f = SevenCardDrawFlush h c;
          t = foldl (OR) 0 c;
          s = clear_low t;
          v = s XOR t;
          u7 = run_up 7 v
      in if u7 AND t = u7 then straight_score 7 f u7
         else
           let u6 = run_up 6 v;
               u6 = (if u6 AND t \<noteq> u6 then run_up 6 (clear_low s XOR s) else u6)
           in if u6 AND t = u6 then straight_score 6 f u6
              else
                let u5 = run_up 5 v;
                    u5 = (if u5 AND t \<noteq> u5 then
                            let s' = clear_low s; u = run_up 5 (s XOR s')
                            in if u AND t \<noteq> u then run_up 5 (s' XOR clear_low s') else u
                          else u5)
                in if u5 AND t = u5 then straight_score 5 f u5
                   else if 0x100F AND t = 0x100F then
                     if f \<noteq> 0 then
                       if 0x100F AND f = 0x100F then STRAIGHT_FLUSH_SCORE + 0xF else SevenCardDrawFlushScore f
                     else STRAIGHT_SCORE + 0xF
                   else seven_kinds f (kind_masks c))"

text \<open>The brute force score: the best of the 21 hands of five.\<close>

definition drop_two :: "nat list \<Rightarrow> nat \<Rightarrow> nat \<Rightarrow> nat list" where
  "drop_two h i j = map (\<lambda>k. h ! k) ([0..<i] @ [Suc i..<j] @ [Suc j..<7])"

definition SevenCardDrawScoreSlow :: "nat list \<Rightarrow> u32" where
  "SevenCardDrawScoreSlow h =
     foldl (\<lambda>m i. foldl (\<lambda>m j. let r = FiveCardDrawScore (drop_two h i j) in if r > m then r else m)
         m [Suc i..<7]) 0 [0..<6]"

section \<open>Card piles\<close>

definition InitDeck :: "nat list" where
  "InitDeck = [0..<52]"

text \<open>
  \<^verbatim>\<open>Deal\<close> moves up to \<open>n\<close> cards from the end of the deck to the end of the hand; the
  piles are the entries below their length. The result counts the cards dealt.
\<close>

fun Deal :: "nat list \<Rightarrow> nat list \<Rightarrow> nat \<Rightarrow> (nat list \<times> nat list) \<times> nat" where
  "Deal h d 0 = ((h, d), 0)"
| "Deal h d (Suc n) =
     (if d = [] then ((h, d), 0)
      else let (r, i) = Deal (h @ [last d]) (butlast d) n in (r, Suc i))"

text \<open>
  \<^verbatim>\<open>Shuffle\<close>; \<open>draw i\<close> is the accepted value of \<^verbatim>\<open>rand()\<close> in step \<open>i\<close>, after the
  rejection of values beyond the largest multiple of the remaining length.
\<close>

definition swap_at :: "'a list \<Rightarrow> nat \<Rightarrow> nat \<Rightarrow> 'a list" where
  "swap_at xs i j = xs[i := xs ! j, j := xs ! i]"

definition Shuffle :: "(nat \<Rightarrow> nat) \<Rightarrow> nat list \<Rightarrow> nat list" where
  "Shuffle draw c =
     foldl (\<lambda>c i. swap_at c i (i + draw i mod (length c - i))) c [0..<length c - 1]"


section \<open>Masks as sets of ranks\<close>

text \<open>Clearing the lowest set bit keeps exactly the bits above another set bit.\<close>

lemma bit_and_pred: "bit (m AND (m - 1)) i \<longleftrightarrow> bit m i \<and> (\<exists>j<i. bit m j)" for m :: int
proof (induction i arbitrary: m)
  case 0
  then show ?case using bit_and_iff [of m "m - 1" 0] by (auto simp: bit_0)
next
  case (Suc i)
  have ex: "(\<exists>j<Suc i. bit m j) \<longleftrightarrow> odd m \<or> (\<exists>j<i. bit (m div 2) j)"
    by (auto simp: bit_0 bit_Suc less_Suc_eq_0_disj)
  have st: "bit (m AND (m - 1)) (Suc i) \<longleftrightarrow> bit (m div 2) i \<and> bit ((m - 1) div 2) i"
    by (subst bit_and_iff) (simp only: bit_Suc)
  show ?case
  proof (cases "even m")
    case True
    then have "(m - 1) div 2 = m div 2 - 1" by (auto elim!: evenE)
    then show ?thesis using Suc [of "m div 2"] True ex st by (simp add: bit_and_iff) (simp add: bit_Suc)
  next
    case False
    then have "(m - 1) div 2 = m div 2" by (auto elim!: oddE)
    then show ?thesis using False ex st by (simp add: bit_Suc [of m])
  qed
qed

lemma bit_clear_low: "bit (clear_low m) i \<longleftrightarrow> bit m i \<and> (\<exists>j<i. bit m j)"
proof (cases "m = 0")
  case False
  then have "0 < unat m" "unat (m - 1) = unat m - 1" by (simp_all add: unat_gt_0 unat_minus_one)
  then have "uint (m - 1) = uint m - 1" by (simp only: uint_nat of_nat_diff [of 1] One_nat_def)
  then have "uint (clear_low m) = uint m AND (uint m - 1)" by (simp add: clear_low_def uint_and)
  then show ?thesis
    using bit_and_pred [of "uint m" i] by (metis bit_uint_iff bit_imp_le_length)
qed (simp add: clear_low_def)

lemma word_zero_iff: "(m :: u32) = 0 \<longleftrightarrow> (\<forall>v. \<not> bit m v)"
  by (auto intro!: bit_word_eqI)

lemma clear_low_eq_0: "clear_low m = 0 \<longleftrightarrow> (\<forall>i j. bit m i \<and> bit m j \<longrightarrow> i = j)"
proof -
  have "clear_low m = 0 \<longleftrightarrow> (\<forall>i. \<not> bit (clear_low m) i)"
    by (auto intro!: bit_word_eqI)
  also have "\<dots> \<longleftrightarrow> (\<forall>i j. bit m i \<and> bit m j \<longrightarrow> i = j)"
  proof
    assume *: "\<forall>i. \<not> bit (clear_low m) i"
    show "\<forall>i j. bit m i \<and> bit m j \<longrightarrow> i = j"
    proof (intro allI impI)
      fix i j assume "bit m i \<and> bit m j"
      then show "i = j" using * unfolding bit_clear_low by (cases i j rule: linorder_cases) blast+
    qed
  next
    assume "\<forall>i j. bit m i \<and> bit m j \<longrightarrow> i = j"
    then show "\<forall>i. \<not> bit (clear_low m) i" unfolding bit_clear_low by (metis less_irrefl)
  qed
  finally show ?thesis .
qed

abbreviation ranks :: "nat list \<Rightarrow> nat list" where
  "ranks \<equiv> map (\<lambda>c. CardValue ! c)"

abbreviation suits :: "nat list \<Rightarrow> nat list" where
  "suits \<equiv> map (\<lambda>c. CardSuitIdx ! c)"

lemma card_tables:
  assumes "c < 52"
  shows "CardMask ! c = 2 ^ (CardValue ! c)" "CardValue ! c < 13"
    "CardSuit ! c = 2 ^ (CardSuitIdx ! c)" "CardSuitIdx ! c < 4"
proof -
  have t: "CardMask = map (\<lambda>v. 2 ^ v) CardValue" "list_all (\<lambda>v. v < 13) CardValue"
    "CardSuit = map (\<lambda>v. 2 ^ v) CardSuitIdx" "list_all (\<lambda>v. v < 4) CardSuitIdx"
    "length CardValue = 52" "length CardSuitIdx = 52"
    by (simp_all add: CardMask_def CardValue_def CardSuit_def CardSuitIdx_def numeral_eq_Suc)
  show "CardMask ! c = 2 ^ (CardValue ! c)" "CardSuit ! c = 2 ^ (CardSuitIdx ! c)"
    unfolding t(1,3) using assms t(5,6) by simp_all
  show "CardValue ! c < 13" "CardSuitIdx ! c < 4"
    using assms t by (simp_all add: list_all_length)
qed

lemma bit_pow_u32: "r < 32 \<Longrightarrow> bit ((2 :: u32) ^ r) v \<longleftrightarrow> v = r"
  by (auto simp: bit_exp_iff)

text \<open>The masks of \<open>k\<close> of a kind hold the ranks that occur at least \<open>k\<close> times.\<close>

lemma kind_masks_counts:
  assumes "list_all (\<lambda>r. r < 13) rs"
  shows "case kind_masks (map (\<lambda>r. 2 ^ r) rs) of (m1, m2, m3, m4) \<Rightarrow>
    (\<forall>v. (bit m1 v \<longleftrightarrow> count_list rs v \<ge> 1) \<and> (bit m2 v \<longleftrightarrow> count_list rs v \<ge> 2)
       \<and> (bit m3 v \<longleftrightarrow> count_list rs v \<ge> 3) \<and> (bit m4 v \<longleftrightarrow> count_list rs v \<ge> 4))"
  using assms
proof (induction rs rule: rev_induct)
  case (snoc r rs)
  obtain m1 m2 m3 m4 where m: "kind_masks (map (\<lambda>r. 2 ^ r) rs) = (m1, m2, m3, m4)" by (metis prod_cases4)
  have IH: "bit m1 v \<longleftrightarrow> count_list rs v \<ge> 1" "bit m2 v \<longleftrightarrow> count_list rs v \<ge> 2"
    "bit m3 v \<longleftrightarrow> count_list rs v \<ge> 3" "bit m4 v \<longleftrightarrow> count_list rs v \<ge> 4" for v
    using snoc m by auto
  have r: "bit ((2 :: u32) ^ r) v \<longleftrightarrow> v = r" for v using snoc.prems by (simp add: bit_pow_u32)
  have cnt: "count_list (rs @ [r]) v = count_list rs v + (if v = r then 1 else 0)" for v
    by (simp add: count_list_append)
  have "kind_masks (map (\<lambda>r. 2 ^ r) (rs @ [r])) = kind_step (m1, m2, m3, m4) (2 ^ r)"
    using m by (simp add: kind_masks_def)
  then show ?case
    by (simp only: kind_step_def case_prod_conv bit_or_iff bit_and_iff r IH cnt) auto
qed (simp add: kind_masks_def)

lemma bit_foldl_or:
  "(\<And>x. x \<in> set xs \<Longrightarrow> x < 32) \<Longrightarrow>
     bit (foldl (OR) (a :: u32) (map (\<lambda>x. 2 ^ x) xs)) v \<longleftrightarrow> bit a v \<or> v \<in> set xs"
  by (induction xs arbitrary: a) (auto simp: bit_or_iff bit_pow_u32)


section \<open>The category of a hand\<close>

text \<open>
  The reference: the category of five cards from their ranks and suits. The ace, rank 12,
  also starts the straight to the five.
\<close>

definition is_straight :: "nat list \<Rightarrow> bool" where
  "is_straight rs \<longleftrightarrow> set rs = {0, 1, 2, 3, 12} \<or> list_ex (\<lambda>lo. set rs = {lo..<lo + 5}) [0..<9]"

definition is_flush :: "nat list \<Rightarrow> bool" where
  "is_flush ss \<longleftrightarrow> list_all (\<lambda>s. s = hd ss) ss"

definition category :: "nat list \<Rightarrow> nat list \<Rightarrow> nat" where
  "category rs ss =
     (if distinct rs then
        (if is_straight rs then (if is_flush ss then 8 else 4) else if is_flush ss then 5 else 0)
      else if list_ex (\<lambda>r. count_list rs r \<ge> 4) rs then 7
      else if list_ex (\<lambda>r. count_list rs r = 3) rs then
        (if list_ex (\<lambda>r. count_list rs r = 2) rs then 6 else 3)
      else if list_ex (\<lambda>r. list_ex (\<lambda>q. q \<noteq> r \<and> count_list rs r = 2 \<and> count_list rs q = 2) rs) rs then 2
      else 1)"

text \<open>Scores keep their category above bit 27.\<close>

lemma score_category:
  fixes sub :: u32
  assumes "k < 32" "unat sub < 2 ^ 27"
  shows "unat (push_bit RANK_SHL (word_of_nat k) + sub) div 2 ^ 27 = k"
proof -
  have "k * 2 ^ 27 < 2 ^ 32" using assms by simp
  then have "unat (push_bit RANK_SHL (word_of_nat k) :: u32) = k * 2 ^ 27"
    using assms by (simp only: RANK_SHL_def unsigned_push_bit_eq unsigned_of_nat)
      (simp add: push_bit_eq_mult take_bit_nat_eq_self)
  then have "unat (push_bit RANK_SHL (word_of_nat k) + sub) = k * 2 ^ 27 + unat sub"
    using assms by (subst unat_add_lem [THEN iffD1]) auto
  then show ?thesis using assms by simp
qed

lemma unat_below_bits: "(\<And>i. bit (w :: u32) i \<Longrightarrow> i < n) \<Longrightarrow> unat w < 2 ^ n"
proof -
  assume "\<And>i. bit w i \<Longrightarrow> i < n"
  then have "take_bit n w = w" by (intro bit_word_eqI) (auto simp: bit_take_bit_iff)
  then show ?thesis
    by (metis take_bit_nat_less_exp unsigned_take_bit_eq)
qed

lemma sub_below:
  assumes "unat (a :: u32) < 2 ^ 13" "unat b < 2 ^ 13"
  shows "unat (push_bit SUBR_SHL a + b) < 2 ^ 27"
proof -
  have "unat a * 2 ^ 13 < 2 ^ 32" using assms by simp
  then have "unat (push_bit SUBR_SHL a) = unat a * 2 ^ 13"
    by (simp only: SUBR_SHL_def unsigned_push_bit_eq) (simp add: push_bit_eq_mult take_bit_nat_eq_self)
  moreover from this have "unat (push_bit SUBR_SHL a) + unat b < 2 ^ 27" using assms by simp
  moreover have "unat (push_bit SUBR_SHL a + b) \<le> unat (push_bit SUBR_SHL a) + unat b"
    by (simp add: unat_word_ariths)
  ultimately show ?thesis by linarith
qed

text \<open>The lowest bit and the five-bit run above it.\<close>

lemma straight_mask:
  assumes b: "\<And>v. bit (m1 :: u32) v \<longleftrightarrow> v \<in> R" and R: "R \<noteq> {}" "\<And>v. v \<in> R \<Longrightarrow> v < 13"
  defines "z \<equiv> clear_low m1 XOR m1"
  shows "push_bit 5 z - z = m1 \<longleftrightarrow> R = {Min R..<Min R + 5}"
proof -
  have fin: "finite R" using R(2) finite_subset [of R "{..<13}"] by auto
  have lo: "Min R \<in> R" "Min R < 13" using fin R by auto
  have "(\<exists>j<v. j \<in> R) \<longleftrightarrow> v \<noteq> Min R" if "v \<in> R" for v
    using fin lo(1) Min_le [OF fin that] by (metis Min_le le_neq_implies_less not_less)
  then have "bit z v \<longleftrightarrow> v = Min R" for v
    using b lo(1) unfolding z_def bit_xor_iff bit_clear_low by blast
  then have z: "z = 2 ^ Min R" using lo by (intro bit_word_eqI) (auto simp: bit_exp_iff)
  have "push_bit 5 z - z = push_bit (Min R) (mask 5)"
    unfolding z by (simp add: mask_eq_exp_minus_1 push_bit_eq_mult algebra_simps)
  moreover have "bit (push_bit (Min R) (mask 5) :: u32) v \<longleftrightarrow> v \<in> {Min R..<Min R + 5}" for v
    using lo by (auto simp: bit_push_bit_iff bit_mask_iff)
  ultimately show ?thesis using b by (metis bit_word_eqI subsetI subset_antisym)
qed

lemma bits_100F: "bit (0x100F :: u32) v \<longleftrightarrow> v \<in> {0, 1, 2, 3, 12}"
proof -
  have "(0x100F :: u32) = foldl (OR) 0 (map (\<lambda>x. 2 ^ x) [0, 1, 2, 3, 12])" by simp
  then show ?thesis by (simp only:) (subst bit_foldl_or, auto)
qed


lemma score_categories:
  assumes "unat (x :: u32) < 2 ^ 27"
  shows "unat x div 2 ^ 27 = 0" "unat (TWO_KIND_SCORE + x) div 2 ^ 27 = 1"
    "unat (TWO_PAIR_SCORE + x) div 2 ^ 27 = 2" "unat (THREE_KIND_SCORE + x) div 2 ^ 27 = 3"
    "unat (STRAIGHT_SCORE + x) div 2 ^ 27 = 4" "unat (FLUSH_SCORE + x) div 2 ^ 27 = 5"
    "unat (FULL_HOUSE_SCORE + x) div 2 ^ 27 = 6" "unat (FOUR_KIND_SCORE + x) div 2 ^ 27 = 7"
    "unat (STRAIGHT_FLUSH_SCORE + x) div 2 ^ 27 = 8"
  using assms score_category [of 1 x] score_category [of 2 x] score_category [of 3 x] score_category [of 4 x]
    score_category [of 5 x] score_category [of 6 x] score_category [of 7 x] score_category [of 8 x]
  by (simp_all add: TWO_KIND_SCORE_def TWO_PAIR_SCORE_def THREE_KIND_SCORE_def STRAIGHT_SCORE_def
      FLUSH_SCORE_def FULL_HOUSE_SCORE_def FOUR_KIND_SCORE_def STRAIGHT_FLUSH_SCORE_def)

text \<open>Masks that hold the ranks of a five-card hand by number of occurrences.\<close>

definition rank_masks :: "nat list \<Rightarrow> u32 \<Rightarrow> u32 \<Rightarrow> u32 \<Rightarrow> u32 \<Rightarrow> bool" where
  "rank_masks rs m1 m2 m3 m4 \<longleftrightarrow> list_all (\<lambda>r. r < 13) rs \<and> length rs = 5
     \<and> (\<forall>v. (bit m1 v \<longleftrightarrow> count_list rs v \<ge> 1) \<and> (bit m2 v \<longleftrightarrow> count_list rs v \<ge> 2)
          \<and> (bit m3 v \<longleftrightarrow> count_list rs v \<ge> 3) \<and> (bit m4 v \<longleftrightarrow> count_list rs v \<ge> 4))"

lemma rank_masksD:
  assumes "rank_masks rs m1 m2 m3 m4"
  shows "list_all (\<lambda>r. r < 13) rs" "length rs = 5"
    "bit m1 v \<longleftrightarrow> count_list rs v \<ge> 1" "bit m2 v \<longleftrightarrow> count_list rs v \<ge> 2"
    "bit m3 v \<longleftrightarrow> count_list rs v \<ge> 3" "bit m4 v \<longleftrightarrow> count_list rs v \<ge> 4"
  using assms by (auto simp: rank_masks_def)

lemma occurs: "count_list rs v \<ge> 1 \<longleftrightarrow> v \<in> set rs"
  by (metis count_list_0_iff less_one not_le)

lemma occurs_less: "list_all (\<lambda>r. r < (13::nat)) rs \<Longrightarrow> k \<ge> 1 \<Longrightarrow> count_list rs v \<ge> k \<Longrightarrow> v < 13 \<and> v \<in> set rs"
  using occurs [of rs v] by (auto simp: list_all_iff)

lemma zero_iff:
  assumes rm: "rank_masks rs m1 m2 m3 m4"
  shows "m2 = 0 \<longleftrightarrow> distinct rs" "m3 = 0 \<longleftrightarrow> (\<forall>v. count_list rs v < 3)" "m4 = 0 \<longleftrightarrow> (\<forall>v. count_list rs v < 4)"
proof -
  note z = word_zero_iff and b2 = rank_masksD(4) [OF rm] and b3 = rank_masksD(5) [OF rm]
    and b4 = rank_masksD(6) [OF rm]
  show "m3 = 0 \<longleftrightarrow> (\<forall>v. count_list rs v < 3)" "m4 = 0 \<longleftrightarrow> (\<forall>v. count_list rs v < 4)"
    by (auto simp: z b3 b4 not_le)
  have "distinct rs \<longleftrightarrow> (\<forall>v. count_list rs v < 2)"
  proof -
    have "distinct rs \<longleftrightarrow> (\<forall>v. count (mset rs) v = (if v \<in> set rs then 1 else 0))"
      by (rule distinct_count_atmost_1)
    also have "\<dots> \<longleftrightarrow> (\<forall>v. count_list rs v < 2)"
      unfolding count_mset
      by (rule all_cong1) (metis One_nat_def count_list_0_iff less_2_cases_iff zero_less_one_class.zero_le_one zero_neq_one)
    finally show ?thesis .
  qed
  then show "m2 = 0 \<longleftrightarrow> distinct rs" by (auto simp: z b2 not_le)
qed

lemma small:
  assumes rm: "rank_masks rs m1 m2 m3 m4"
  shows "unat m1 < 2 ^ 13" "unat m2 < 2 ^ 13" "unat m3 < 2 ^ 13" "unat m4 < 2 ^ 13"
  "unat (m1 AND NOT m2) < 2 ^ 13" "unat (m2 AND NOT m3) < 2 ^ 13"
proof -
  have *: "unat m < 2 ^ 13" if "\<And>i. bit m i \<Longrightarrow> count_list rs i \<ge> 1" for m :: u32
    using that occurs_less [OF rank_masksD(1) [OF rm], of 1] by (intro unat_below_bits) blast
  show "unat m1 < 2 ^ 13" "unat m2 < 2 ^ 13" "unat m3 < 2 ^ 13" "unat m4 < 2 ^ 13"
    "unat (m1 AND NOT m2) < 2 ^ 13" "unat (m2 AND NOT m3) < 2 ^ 13"
    by (rule *, simp add: rank_masksD(3-6) [OF rm] bit_and_iff)+
qed

lemma one_pair:
  assumes rm: "rank_masks rs m1 m2 m3 m4"
  shows "clear_low m2 = 0 \<longleftrightarrow> (\<forall>u v. count_list rs u \<ge> 2 \<and> count_list rs v \<ge> 2 \<longrightarrow> u = v)"
  by (simp add: clear_low_eq_0 rank_masksD(4) [OF rm])

lemma only_trips:
  assumes rm: "rank_masks rs m1 m2 m3 m4"
  shows "m2 AND NOT m3 = 0 \<longleftrightarrow> (\<forall>v. count_list rs v \<noteq> 2)"
proof -
  have "bit m2 v \<Longrightarrow> v < 32" for v using bit_imp_le_length [of m2 v] by simp
  then have "m2 AND NOT m3 = 0 \<longleftrightarrow> (\<forall>v. \<not> (bit m2 v \<and> \<not> bit m3 v))"
    unfolding word_zero_iff by (auto simp: bit_and_iff bit_not_iff)
  moreover have "\<not> (bit m2 v \<and> \<not> bit m3 v) \<longleftrightarrow> count_list rs v \<noteq> 2" for v
    unfolding rank_masksD(4,5) [OF rm] by arith
  ultimately show ?thesis by simp
qed

lemma straight_iff:
  assumes rm: "rank_masks rs m1 m2 m3 m4"
  shows "m1 = 0x100F \<or> push_bit 5 (clear_low m1 XOR m1) - (clear_low m1 XOR m1) = m1 \<longleftrightarrow> is_straight rs"
proof -
  have bs: "bit m1 v \<longleftrightarrow> v \<in> set rs" for v by (simp only: rank_masksD(3) [OF rm] occurs)
  have ne: "set rs \<noteq> {}" and lt: "\<And>v. v \<in> set rs \<Longrightarrow> v < 13"
    using rank_masksD(1,2) [OF rm] by (auto simp: list_all_iff)
  have "m1 = 0x100F \<longleftrightarrow> set rs = {0, 1, 2, 3, 12}"
  proof
    assume "m1 = 0x100F"
    then show "set rs = {0, 1, 2, 3, 12}" using bs bits_100F by blast
  next
    assume "set rs = {0, 1, 2, 3, 12}"
    then show "m1 = 0x100F" by (intro bit_word_eqI) (simp only: bs bits_100F)
  qed
  moreover have "push_bit 5 (clear_low m1 XOR m1) - (clear_low m1 XOR m1) = m1
      \<longleftrightarrow> list_ex (\<lambda>lo. set rs = {lo..<lo + 5}) [0..<9]"
  proof -
    have "set rs = {Min (set rs)..<Min (set rs) + 5} \<longleftrightarrow> list_ex (\<lambda>lo. set rs = {lo..<lo + 5}) [0..<9]"
    proof
      assume run: "set rs = {Min (set rs)..<Min (set rs) + 5}"
      have "Min (set rs) + 4 \<in> {Min (set rs)..<Min (set rs) + 5}" by simp
      with run have "Min (set rs) + 4 \<in> set rs" by blast
      then have "Min (set rs) < 9" using lt by fastforce
      then show "list_ex (\<lambda>lo. set rs = {lo..<lo + 5}) [0..<9]" using run by (auto simp: list_ex_iff)
    next
      assume "list_ex (\<lambda>lo. set rs = {lo..<lo + 5}) [0..<9]"
      then obtain lo where lo: "set rs = {lo..<lo + 5}" by (auto simp: list_ex_iff)
      then have "Min (set rs) = lo" by (intro Min_eqI) auto
      then show "set rs = {Min (set rs)..<Min (set rs) + 5}" using lo by simp
    qed
    then show ?thesis using straight_mask [OF bs ne lt] by simp
  qed
  ultimately show ?thesis by (simp add: is_straight_def)
qed

lemma fast_category:
  assumes rm: "rank_masks rs m1 m2 m3 m4" and km: "kind_masks cs = (m1, m2, m3, m4)" and fl: "clear_low u = 0 \<longleftrightarrow> is_flush ss"
  shows "unat (FiveCardDrawScoreFast cs u) div 2 ^ 27 = category rs ss"
proof -
  note zero_iff = zero_iff [OF rm] and small = small [OF rm] and one_pair = one_pair [OF rm]
    and only_trips = only_trips [OF rm] and straight_iff = straight_iff [OF rm]
  have pow: "(2::nat) ^ 13 < 2 ^ 27" by simp
  note lt = small(1) [THEN less_trans, OF pow]
  have F: "unat (0xF :: u32) < 2 ^ 27" by simp
  have ex: "list_ex P rs \<longleftrightarrow> (\<exists>v. P v)" if "\<And>v. P v \<Longrightarrow> count_list rs v \<ge> 1" for P
    using that occurs [of rs] unfolding list_ex_iff by blast
  have in_rs: "list_ex (\<lambda>r. count_list rs r \<ge> 4) rs \<longleftrightarrow> m4 \<noteq> 0"
    "list_ex (\<lambda>r. count_list rs r = 3) rs \<longleftrightarrow> (\<exists>v. count_list rs v = 3)"
    "list_ex (\<lambda>r. count_list rs r = 2) rs \<longleftrightarrow> (\<exists>v. count_list rs v = 2)"
    by (subst ex; simp add: zero_iff(3) not_less)+
  have pairs: "list_ex (\<lambda>r. list_ex (\<lambda>q. q \<noteq> r \<and> count_list rs r = 2 \<and> count_list rs q = 2) rs) rs
      \<longleftrightarrow> (\<exists>u v. v \<noteq> u \<and> count_list rs u = 2 \<and> count_list rs v = 2)"
  proof -
    have "list_ex (\<lambda>q. q \<noteq> r \<and> count_list rs r = 2 \<and> count_list rs q = 2) rs
        \<longleftrightarrow> (\<exists>v. v \<noteq> r \<and> count_list rs r = 2 \<and> count_list rs v = 2)" for r by (rule ex) simp
    then show ?thesis by (simp only:) (rule ex, auto)
  qed
  show ?thesis
  proof (cases "distinct rs")
    case True
    then have "m2 = 0" by (simp add: zero_iff)
    then show ?thesis
      using True straight_iff fl score_categories [OF lt] score_categories [OF F]
      unfolding FiveCardDrawScoreFast_def km Let_def case_prod_conv category_def by auto
  next
    case False
    then have m2: "m2 \<noteq> 0" by (simp add: zero_iff)
    note sub = score_categories [OF sub_below [OF small(2) small(5)]]
      score_categories [OF sub_below [OF small(3) small(5)]]
      score_categories [OF sub_below [OF small(3) small(6)]]
      score_categories [OF sub_below [OF small(4) small(5)]]
    show ?thesis
    proof (cases "m3 = 0")
      case True
      then have c: "count_list rs v < 3" for v by (simp add: zero_iff)
      have "count_list rs v < 4" for v using c [of v] by simp
      then have m4: "m4 = 0" by (simp add: zero_iff)
      have c2: "(count_list rs v \<ge> 2) = (count_list rs v = 2)" "count_list rs v \<noteq> 3" for v
        using c [of v] by auto
      have op: "clear_low m2 = 0 \<longleftrightarrow> \<not> (\<exists>u v. v \<noteq> u \<and> count_list rs u = 2 \<and> count_list rs v = 2)"
        unfolding one_pair c2(1) by blast
      have f: "FiveCardDrawScoreFast cs u = (if clear_low m2 = 0
          then TWO_KIND_SCORE + (push_bit SUBR_SHL m2 + (m1 AND NOT m2))
          else TWO_PAIR_SCORE + (push_bit SUBR_SHL m2 + (m1 AND NOT m2)))"
        using m2 True by (simp only: FiveCardDrawScoreFast_def km Let_def case_prod_conv add.assoc if_True if_False simp_thms)
      have k: "category rs ss = (if clear_low m2 = 0 then 1 else 2)"
        unfolding category_def in_rs pairs op using False m4 c2(2) by auto
      show ?thesis
      proof (cases "clear_low m2 = 0")
        case one: True
        show ?thesis unfolding f k if_P [OF one] by (rule sub(2))
      next
        case two: False
        show ?thesis unfolding f k if_not_P [OF two] by (rule sub(3))
      qed
    next
      case F3: False
      show ?thesis
      proof (cases "m4 = 0")
        case True
        obtain v where "count_list rs v \<ge> 3" using F3 by (auto simp: zero_iff not_less)
        moreover have "count_list rs v < 4" using True by (simp add: zero_iff)
        ultimately have "count_list rs v = 3" by simp
        then have three: "\<exists>v. count_list rs v = 3" by blast
        have f: "FiveCardDrawScoreFast cs u = (if m2 AND NOT m3 = 0
            then THREE_KIND_SCORE + (push_bit SUBR_SHL m3 + (m1 AND NOT m2))
            else FULL_HOUSE_SCORE + (push_bit SUBR_SHL m3 + (m2 AND NOT m3)))"
          using m2 True F3 by (simp only: FiveCardDrawScoreFast_def km Let_def case_prod_conv add.assoc if_True if_False simp_thms)
        have k: "category rs ss = (if m2 AND NOT m3 = 0 then 3 else 6)"
          unfolding category_def in_rs pairs only_trips using False True three by auto
        show ?thesis
        proof (cases "m2 AND NOT m3 = 0")
          case one: True
          show ?thesis unfolding f k if_P [OF one] by (rule sub(13))
        next
          case two: False
          show ?thesis unfolding f k if_not_P [OF two] by (rule sub(25))
        qed
      next
        case F4: False
        have f: "FiveCardDrawScoreFast cs u = FOUR_KIND_SCORE + (push_bit SUBR_SHL m4 + (m1 AND NOT m2))"
          using m2 F4 F3 by (simp only: FiveCardDrawScoreFast_def km Let_def case_prod_conv add.assoc if_True if_False simp_thms)
        have k: "category rs ss = 7" unfolding category_def in_rs using False F4 by simp
        show ?thesis unfolding f k by (rule sub(35))
      qed
    qed
  qed
qed

section \<open>Piles\<close>

lemma mset_swap_at: "i < length xs \<Longrightarrow> j < length xs \<Longrightarrow> mset (swap_at xs i j) = mset xs"
  unfolding swap_at_def by (rule mset_swap)

lemma length_swap_at [simp]: "length (swap_at xs i j) = length xs"
  by (simp add: swap_at_def)

lemma Shuffle_mset_aux:
  "mset (Shuffle draw c) = mset c \<and> length (Shuffle draw c) = length c"
  unfolding Shuffle_def
proof (rule foldl_invariant [where I = "\<lambda>s. mset s = mset c \<and> length s = length c"])
  fix s i assume s: "mset s = mset c \<and> length s = length c" and i: "i \<in> set [0..<length c - 1]"
  then have "draw i mod (length s - i) < length s - i" by (intro mod_less_divisor) auto
  then have "i + draw i mod (length s - i) < length s" by linarith
  then show "mset (swap_at s i (i + draw i mod (length s - i))) = mset c
      \<and> length (swap_at s i (i + draw i mod (length s - i))) = length c"
    using s i by (simp add: mset_swap_at)
qed simp

section \<open>Properties\<close>

text \<open>
  C25. The five-card score ranks by category: for any five cards the part of the score above
  bit 27 is exactly the category of their ranks and suits, from nothing (0) over one and two
  pairs, three of a kind, straight, flush, full house and four of a kind to straight flush (8).
\<close>

theorem FiveCardDrawScore_category:
  assumes "length h = 5" "list_all (\<lambda>c. c < 52) h"
  shows "unat (FiveCardDrawScore h) div 2 ^ 27 = category (ranks h) (suits h)"
proof -
  have h: "map (\<lambda>i. f (h ! i)) [0..<5] = map f h" for f :: "nat \<Rightarrow> u32"
    using assms(1) by (intro nth_equalityI) auto
  have masks: "map (\<lambda>c. CardMask ! c) h = map (\<lambda>r. 2 ^ r) (ranks h)"
    "map (\<lambda>c. CardSuit ! c) h = map (\<lambda>r. 2 ^ r) (suits h)"
    using assms(2) card_tables by (auto simp: list_all_iff)
  have small: "list_all (\<lambda>r. r < 13) (ranks h)" "\<And>x. x \<in> set (suits h) \<Longrightarrow> x < 32"
    using assms(2) card_tables by (fastforce simp: list_all_iff)+
  obtain m1 m2 m3 m4 where km: "kind_masks (map (\<lambda>r. 2 ^ r) (ranks h)) = (m1, m2, m3, m4)"
    by (metis prod_cases4)
  define u :: u32 where "u = foldl (OR) 0 (map (\<lambda>r. 2 ^ r) (suits h))"
  have "bit u v \<longleftrightarrow> v \<in> set (suits h)" for v
    unfolding u_def using bit_foldl_or [of "suits h" 0 v] small(2) by simp
  moreover have "hd (suits h) \<in> set (suits h)" using assms(1) by (cases h) auto
  ultimately have "clear_low u = 0 \<longleftrightarrow> is_flush (suits h)"
    unfolding clear_low_eq_0 is_flush_def list_all_iff by metis
  moreover have "rank_masks (ranks h) m1 m2 m3 m4"
    using kind_masks_counts [OF small(1)] km small(1) assms(1) by (auto simp: rank_masks_def)
  ultimately have "unat (FiveCardDrawScoreFast (map (\<lambda>r. 2 ^ r) (ranks h)) u) div 2 ^ 27
      = category (ranks h) (suits h)"
    using fast_category km by blast
  then show ?thesis unfolding FiveCardDrawScore_def h masks u_def by simp
qed

theorem FiveCardDrawScore_category_witness:
  "unat (FiveCardDrawScore [12, 0, 1, 2, 3]) div 2 ^ 27 = 8
   \<and> unat (FiveCardDrawScore [4, 17, 30, 8, 21]) div 2 ^ 27 = 6"
proof -
  have "category (ranks [12, 0, 1, 2, 3]) (suits [12, 0, 1, 2, 3]) = 8"
    "category (ranks [4, 17, 30, 8, 21]) (suits [4, 17, 30, 8, 21]) = 6" by code_simp+
  then show ?thesis
    using FiveCardDrawScore_category [of "[12, 0, 1, 2, 3]"] FiveCardDrawScore_category [of "[4, 17, 30, 8, 21]"]
    by simp
qed

text \<open>
  C26. Cards are never lost: shuffling a pile permutes it, the initial deck holds each of the
  52 cards once, and dealing moves as many cards as asked for and available from deck to
  hand.
\<close>

theorem Deal_conserves:
  "mset (Shuffle draw c) = mset c \<and> distinct InitDeck \<and> set InitDeck = {..<52}
   \<and> (case Deal h d n of ((h', d'), i) \<Rightarrow>
       i = min n (length d) \<and> length h' = length h + i \<and> length d' = length d - i
       \<and> mset h' + mset d' = mset h + mset d)"
proof -
  have "case Deal h d n of ((h', d'), i) \<Rightarrow>
      i = min n (length d) \<and> length h' = length h + i \<and> length d' = length d - i
      \<and> mset h' + mset d' = mset h + mset d"
  proof (induction h d n rule: Deal.induct)
    case (2 h d n)
    show ?case
    proof (cases "d = []")
      case False
      then have "mset d = add_mset (last d) (mset (butlast d))"
        by (metis append_butlast_last_id mset.simps(1,2) mset_append add_mset_add_single union_commute)
      moreover obtain l where "length d = Suc l" using False by (cases d) auto
      ultimately show ?thesis using 2 [OF False] False by (auto simp: min_def split: prod.splits if_splits)
    qed simp
  qed simp
  then show ?thesis using Shuffle_mset_aux [of draw c] by (auto simp: InitDeck_def)
qed

end
