(* ===== verification/PangeaCards.thy ===== *)
theory PangeaCards
  imports PangeaHand CardDeal Poker Utils777 "HOL-Library.Monad_Syntax"
begin

text \<open>
  The card messages of a hand (\<^verbatim>\<open>src/plugins/games/pangea/pangea777.c\<close>): agreeing on the deck, passing
  it round, sending cards back through the players, and showing them. Every player keeps an audit
  of every card: a row of \<open>N\<close> words, the card as far as it is decoded at 0 and the key of player
  \<open>i\<close> at \<open>i\<close>. A handler returns \<open>None\<close> where the code accesses memory outside an array.
\<close>

section \<open>State and messages\<close>

text \<open>
  The fields of \<^verbatim>\<open>struct cards777_handinfo\<close> and \<^verbatim>\<open>struct cards777_pubdata\<close> that only these handlers use
  (\<open>deck_sent\<close> is \<^verbatim>\<open>newhand[0] != 0\<close>), and \<^verbatim>\<open>struct cards777_privdata\<close> with its arrays.
\<close>

record cardhand =
  numcards :: nat
  cardpubs :: "bytes list"
  community256 :: "bytes list"
  hand_cards :: "bytes list list"
  othercardpubs :: "u64 list"
  havemasks :: "u64 list"
  encodestarted :: nat
  hand_sharenrs :: "bytes list"
  hands :: "nat list list"
  deck_sent :: bool

record carddata = privdata +
  audits :: "bytes list"
  outcards :: "bytes list"
  xoverz :: "bytes list"
  allshares :: bytes
  hole :: "nat list"

record cardtable =
  ct_pub :: pubdata
  ct_cards :: cardhand
  ct_priv :: carddata

text \<open>The player's private key, and the public keys of the seats.\<close>

record seatkeys =
  seat_privkey :: bytes
  seat_pubs :: "bytes list"

text \<open>
  \<^verbatim>\<open>pangea_sendcmd\<close>: command, destination (\<open>- 1\<close> for everybody), data, \<^verbatim>\<open>cardi\<close> and \<^verbatim>\<open>turni\<close>; or a
  message of the betting round.
\<close>

datatype card_msg = Cmd string int bytes int int | Betting pangea_msg

abbreviation upd_cards :: "(cardhand \<Rightarrow> cardhand) \<Rightarrow> cardtable \<Rightarrow> cardtable" where
  "upd_cards f ct \<equiv> ct\<lparr>ct_cards := f (ct_cards ct)\<rparr>"

abbreviation upd_priv :: "(carddata \<Rightarrow> carddata) \<Rightarrow> cardtable \<Rightarrow> cardtable" where
  "upd_priv f ct \<equiv> ct\<lparr>ct_priv := f (ct_priv ct)\<rparr>"

type_synonym outcome = "(cardtable \<times> card_msg list \<times> int) option"

text \<open>The index of the player in the hand.\<close>

abbreviation own_ind :: "cardtable \<Rightarrow> int" where
  "own_ind ct \<equiv> pangea_ind (table (ct_pub ct)) (myslot (table (ct_pub ct)))"

text \<open>A byte string as an array of 256-bit words.\<close>

function bits256s :: "bytes \<Rightarrow> bytes list" where
  "bits256s d = (if d = [] then [] else take 32 d # bits256s (drop 32 d))"
  by pat_completeness auto

termination bits256s
  by (relation "measure length") auto

declare bits256s.simps [simp del]

section \<open>Compressed text\<close>

text \<open>
  \<^verbatim>\<open>pangea_zbuf\<close>: a nonzero byte is two hexadecimal digits, a run of up to 16 zeros is \<^verbatim>\<open>Z\<close> and a
  letter. \<open>mem\<close> is the memory from the start of the buffer on, of which the buffer is the
  first \<open>datalen\<close> bytes; the search for the end of a run does not stop at the end of the buffer.
\<close>

function zero_run :: "bytes \<Rightarrow> nat \<Rightarrow> nat \<Rightarrow> nat option" where
  "zero_run mem i j =
     (if 16 \<le> j then Some j else if length mem \<le> i + j then None
      else if mem ! (i + j) \<noteq> 0 then Some j else zero_run mem i (Suc j))"
  by pat_completeness auto

termination zero_run
  by (relation "measure (\<lambda>(mem, i, j). 16 - j)") auto

declare zero_run.simps [simp del]

lemma zero_run_bounds: "zero_run mem i j = Some k \<Longrightarrow> j \<le> 16 \<Longrightarrow> j \<le> k \<and> k \<le> 16"
proof (induction mem i j rule: zero_run.induct)
  case (1 mem i j)
  show ?case
  proof (cases "16 \<le> j \<or> length mem \<le> i + j \<or> mem ! (i + j) \<noteq> 0")
    case True
    then show ?thesis using 1(2,3) by (subst (asm) zero_run.simps) (auto split: if_splits)
  next
    case False
    then have "zero_run mem i (Suc j) = Some k" using 1(2) by (subst (asm) zero_run.simps) simp
    then show ?thesis using 1(1) False by fastforce
  qed
qed

function zbuf_loop :: "bytes \<Rightarrow> nat \<Rightarrow> nat \<Rightarrow> string option" where
  "zbuf_loop mem datalen i =
     (if datalen \<le> i then Some [] else if length mem \<le> i then None
      else if mem ! i \<noteq> 0
      then map_option (\<lambda>z. hexbyte (drop_bit 4 (mem ! i) AND 0xf) # hexbyte (mem ! i AND 0xf) # z) (zbuf_loop mem datalen (Suc i))
      else case zero_run mem i 1 of
             None \<Rightarrow> None
           | Some j \<Rightarrow> map_option (\<lambda>z. CHR ''Z'' # char_of (65 + j) # z) (zbuf_loop mem datalen (i + j)))"
  by pat_completeness auto

termination zbuf_loop
  by (relation "measure (\<lambda>(mem, datalen, i). datalen - i)") (auto dest!: zero_run_bounds)

declare zbuf_loop.simps [simp del]

definition pangea_zbuf :: "bytes \<Rightarrow> nat \<Rightarrow> string option" where
  "pangea_zbuf mem datalen = zbuf_loop mem datalen 0"

text \<open>
  \<^verbatim>\<open>pangea_unzbuf\<close>; the letter is a signed character. An odd character at the end reads the one
  behind it.
\<close>

definition run_length :: "char \<Rightarrow> nat" where
  "run_length c = (let v = int (of_char c); v = (if v < 128 then v else v - 256) in nat (v - 65))"

fun pangea_unzbuf :: "string \<Rightarrow> bytes option" where
  "pangea_unzbuf [] = Some []"
| "pangea_unzbuf [a] = None"
| "pangea_unzbuf (a # b # hexstr) =
     map_option (\<lambda>buf. (if a = CHR ''Z'' then replicate (run_length b) 0 else [decode_hexpair a b]) @ buf) (pangea_unzbuf hexstr)"


lemma zero_run_total: "i + 16 \<le> length mem \<Longrightarrow> j \<le> 16 \<Longrightarrow> \<exists>k. zero_run mem i j = Some k"
proof (induction mem i j rule: zero_run.induct)
  case (1 mem i j)
  show ?case
  proof (cases "16 \<le> j \<or> mem ! (i + j) \<noteq> 0")
    case True
    then show ?thesis using 1(2,3) by (subst zero_run.simps) auto
  next
    case False
    then show ?thesis using 1 by (subst zero_run.simps) auto
  qed
qed

lemma zero_run_zeros:
  "zero_run mem i j = Some k \<Longrightarrow> j \<le> 16 \<Longrightarrow> (\<forall>n. j \<le> n \<and> n < k \<longrightarrow> mem ! (i + n) = 0) \<and> (k < 16 \<longrightarrow> mem ! (i + k) \<noteq> 0)"
proof (induction mem i j rule: zero_run.induct)
  case (1 mem i j)
  show ?case
  proof (cases "16 \<le> j \<or> length mem \<le> i + j \<or> mem ! (i + j) \<noteq> 0")
    case True
    then show ?thesis using 1(2,3) by (subst (asm) zero_run.simps) (auto split: if_splits)
  next
    case False
    then have "zero_run mem i (Suc j) = Some k" using 1(2) by (subst (asm) zero_run.simps) simp
    with 1(1) False have "(\<forall>n. Suc j \<le> n \<and> n < k \<longrightarrow> mem ! (i + n) = 0) \<and> (k < 16 \<longrightarrow> mem ! (i + k) \<noteq> 0)" by simp
    moreover have "mem ! (i + j) = 0" using False by simp
    moreover have "n = j \<or> Suc j \<le> n" if "j \<le> n" for n using that by auto
    ultimately show ?thesis by blast
  qed
qed

lemma run_length_letter: "j \<le> 16 \<Longrightarrow> run_length (char_of (65 + j)) = j"
  by (simp add: run_length_def Let_def)

lemma hexbyte_not_Z: "hexbyte (b AND 0xf) \<noteq> CHR ''Z''"
proof
  assume "hexbyte (b AND 0xf) = CHR ''Z''"
  then have "unhex_digit (CHR ''Z'') \<ge> 0" using hexbyte_digit [of b] by simp
  then show False by (simp add: unhex_digit_def Let_def)
qed

lemma unzbuf_byte:
  "pangea_unzbuf (hexbyte (drop_bit 4 b AND 0xf) # hexbyte (b AND 0xf) # z) = map_option ((#) b) (pangea_unzbuf z)"
  by (simp add: hexbyte_not_Z decode_hexpair_hexbyte map_option_case split: option.split)

lemma unzbuf_run:
  "j \<le> 16 \<Longrightarrow> pangea_unzbuf (CHR ''Z'' # char_of (65 + j) # z) = map_option ((@) (replicate j 0)) (pangea_unzbuf z)"
  by (simp only: pangea_unzbuf.simps run_length_letter if_True) simp

text \<open>The text stands for the memory up to the end \<open>e\<close> of the last run.\<close>

definition zbuf_spec :: "bytes \<Rightarrow> nat \<Rightarrow> nat \<Rightarrow> string \<Rightarrow> nat \<Rightarrow> bool" where
  "zbuf_spec mem datalen i z e \<longleftrightarrow> datalen \<le> e \<and> e \<le> datalen + 15
     \<and> pangea_unzbuf z = Some (take (e - i) (drop i mem))
     \<and> (\<forall>n. datalen \<le> n \<and> n < e \<longrightarrow> mem ! n = 0) \<and> (datalen < e \<longrightarrow> mem ! (datalen - 1) = 0)
     \<and> (e = datalen \<and> i < datalen \<and> mem ! (datalen - 1) = 0 \<and> mem ! datalen = 0 \<longrightarrow> mem ! (datalen - 2) = 0)"

lemma zbuf_spec_byte:
  assumes "zbuf_spec mem datalen (Suc i) z e" "i < datalen" "datalen \<le> length mem" "mem ! i \<noteq> 0"
  shows "zbuf_spec mem datalen i (hexbyte (drop_bit 4 (mem ! i) AND 0xf) # hexbyte (mem ! i AND 0xf) # z) e"
proof -
  have "datalen \<le> e" "pangea_unzbuf z = Some (take (e - Suc i) (drop (Suc i) mem))" using assms(1) by (simp_all add: zbuf_spec_def)
  moreover have "take (e - i) (drop i mem) = mem ! i # take (e - Suc i) (drop (Suc i) mem)"
    using assms(2,3) \<open>datalen \<le> e\<close> by (cases "e - i") (simp_all add: take_Suc_conv_app_nth flip: Cons_nth_drop_Suc, simp add: diff_Suc split: nat.splits)
  moreover have "Suc i < datalen \<or> mem ! (datalen - 1) \<noteq> 0" using assms(2,4) by (cases "Suc i = datalen") auto
  ultimately show ?thesis using assms(1) unfolding zbuf_spec_def unzbuf_byte by auto
qed

lemma zbuf_spec_run:
  assumes "zbuf_spec mem datalen (i + j) z e \<and> i + j \<le> datalen \<or> datalen < i + j \<and> z = [] \<and> e = i + j"
    and "i < datalen" "datalen + 15 \<le> length mem" "mem ! i = 0" "1 \<le> j" "j \<le> 16"
    and zeros: "\<forall>n. 1 \<le> n \<and> n < j \<longrightarrow> mem ! (i + n) = 0" and stop: "j < 16 \<longrightarrow> mem ! (i + j) \<noteq> 0"
  shows "zbuf_spec mem datalen i (CHR ''Z'' # char_of (65 + j) # z) e"
proof -
  have zr: "mem ! n = 0" if "i \<le> n" "n < i + j" for n
    using zeros assms(4) that by (cases "n = i") (auto dest: spec [of _ "n - i"])
  have run: "take j (drop i mem) = replicate j 0"
    using zr assms(2,3,6) by (intro nth_equalityI) simp_all
  show ?thesis
  proof (cases "datalen < i + j \<and> z = [] \<and> e = i + j")
    case True
    then show ?thesis using run zr assms(2,5,6) unfolding zbuf_spec_def unzbuf_run [OF assms(6)] by auto
  next
    case False
    then have s: "zbuf_spec mem datalen (i + j) z e" "i + j \<le> datalen" using assms(1) by blast+
    then have e: "i + j \<le> e" by (simp add: zbuf_spec_def)
    then have "take (e - i) (drop i mem) = replicate j 0 @ take (e - (i + j)) (drop (i + j) mem)"
      using take_add [of j "e - (i + j)" "drop i mem"] run by (simp add: add.commute)
    moreover have "mem ! (datalen - 2) = 0" if "i + j = datalen" "mem ! datalen = 0"
      using that stop zr [of "datalen - 2"] assms(2,5,6) by auto
    ultimately show ?thesis using s e unfolding zbuf_spec_def unzbuf_run [OF assms(6)]
      by (auto simp: le_eq_less_or_eq)
  qed
qed


lemma zbuf_loop_spec:
  "i \<le> datalen \<Longrightarrow> datalen + 15 \<le> length mem \<Longrightarrow> \<exists>z e. zbuf_loop mem datalen i = Some z \<and> zbuf_spec mem datalen i z e"
proof (induction mem datalen i rule: zbuf_loop.induct)
  case (1 mem datalen i)
  show ?case
  proof (cases "i = datalen")
    case True
    then show ?thesis by (auto simp: zbuf_loop.simps zbuf_spec_def)
  next
    case less: False
    then have i: "i < datalen" "\<not> datalen \<le> i" "\<not> length mem \<le> i" "i + 16 \<le> length mem" using 1(3,4) by simp_all
    show ?thesis
    proof (cases "mem ! i = 0")
      case False
      then obtain z e where "zbuf_loop mem datalen (Suc i) = Some z" "zbuf_spec mem datalen (Suc i) z e"
        using 1(1) [OF i(2,3) False] i(1) 1(4) by auto
      then show ?thesis using i False zbuf_spec_byte [of mem datalen i z e] 1(4) by (subst zbuf_loop.simps) auto
    next
      case True
      obtain j where j: "zero_run mem i 1 = Some j" using zero_run_total [OF i(4), of 1] by auto
      note b = zero_run_bounds [OF j] zero_run_zeros [OF j]
      obtain z e where z: "zbuf_loop mem datalen (i + j) = Some z"
        "zbuf_spec mem datalen (i + j) z e \<and> i + j \<le> datalen \<or> datalen < i + j \<and> z = [] \<and> e = i + j"
      proof (cases "i + j \<le> datalen")
        case True
        then show ?thesis using 1(2) [OF i(2,3) _ j] \<open>mem ! i = 0\<close> 1(4) that by blast
      next
        case False
        then show ?thesis using that by (simp add: zbuf_loop.simps)
      qed
      have "zbuf_spec mem datalen i (CHR ''Z'' # char_of (65 + j) # z) e"
        using z(2) i(1) 1(4) True b by (intro zbuf_spec_run) auto
      then show ?thesis using i True j z(1) by (subst zbuf_loop.simps) auto
    qed
  qed
qed

text \<open>What the receiver gets: the buffer, and the zeros behind it that the last run swallowed.\<close>

lemma zbuf_unzbuf:
  assumes "15 \<le> length tail"
  shows "\<exists>z k. pangea_zbuf (data @ tail) (length data) = Some z \<and> k \<le> 15 \<and> pangea_unzbuf z = Some (data @ replicate k 0)
    \<and> (0 < k \<longrightarrow> data \<noteq> [] \<and> last data = 0)
    \<and> (k = 0 \<and> data \<noteq> [] \<and> last data = 0 \<and> hd tail = 0 \<longrightarrow> 2 \<le> length data \<longrightarrow> data ! (length data - 2) = 0)"
proof -
  let ?mem = "data @ tail" and ?n = "length data"
  obtain z e where z: "pangea_zbuf ?mem ?n = Some z" "zbuf_spec ?mem ?n 0 z e"
    using zbuf_loop_spec [of 0 ?n ?mem] assms by (auto simp: pangea_zbuf_def)
  have e: "?n \<le> e" "e \<le> ?n + 15" "pangea_unzbuf z = Some (take e ?mem)" "\<forall>m. ?n \<le> m \<and> m < e \<longrightarrow> ?mem ! m = 0"
    "?n < e \<longrightarrow> ?mem ! (?n - 1) = 0"
    "e = ?n \<and> 0 < ?n \<and> ?mem ! (?n - 1) = 0 \<and> ?mem ! ?n = 0 \<longrightarrow> ?mem ! (?n - 2) = 0"
    using z(2) by (simp_all add: zbuf_spec_def)
  have "tail ! m = 0" if "m < e - ?n" for m
    using e(4) that by (auto dest!: spec [of _ "?n + m"])
  then have "take (e - ?n) tail = replicate (e - ?n) 0" using e(1,2) assms by (intro nth_equalityI) simp_all
  then have "take e ?mem = data @ replicate (e - ?n) 0" using e(1) by simp
  moreover have "data \<noteq> [] \<and> last data = 0" if "?n < e"
  proof -
    have "data \<noteq> []"
    proof
      assume "data = []"
      then have "z = []" using z(1) by (simp add: pangea_zbuf_def zbuf_loop.simps)
      then show False using e(3) that assms \<open>data = []\<close> by auto
    qed
    then show ?thesis using e(5) that by (simp add: last_conv_nth nth_append)
  qed
  moreover have "tail \<noteq> []" using assms by auto
  ultimately show ?thesis using z(1) e
    by (intro exI [of _ z] exI [of _ "e - ?n"]) (auto simp: last_conv_nth nth_append hd_conv_nth)
qed


section \<open>Audit rows\<close>

text \<open>\<^verbatim>\<open>pangea_rwaudit\<close>, which copies the row of a card and a destination in either direction.\<close>

definition rwaudit_save :: "bytes list \<Rightarrow> bytes list \<Rightarrow> nat \<Rightarrow> nat \<Rightarrow> nat \<Rightarrow> bytes list option" where
  "rwaudit_save audit auds cardno destplayer N =
     (let off = (cardno * N + destplayer) * N
      in if length auds < off + N \<or> length audit < N then None else Some (buf_write off (take N audit) auds))"

definition rwaudit_load :: "bytes list \<Rightarrow> nat \<Rightarrow> nat \<Rightarrow> nat \<Rightarrow> bytes list option" where
  "rwaudit_load auds cardno destplayer N =
     (let off = (cardno * N + destplayer) * N
      in if length auds < off + N then None else Some (take N (drop off auds)))"

text \<open>
  \<^verbatim>\<open>audit[0] = cards777_decode(&audit[sp->myind], ...)\<close>: the player takes its layer off and enters its
  key.
\<close>

definition audit_decode :: "cardtable \<Rightarrow> nat \<Rightarrow> bytes list \<Rightarrow> bytes list" where
  "audit_decode ct destplayer audit =
     (let (seed, c) = cards777_decode (xoverz (ct_priv ct)) destplayer (audit ! 0) (outcards (ct_priv ct))
            (numcards (ct_cards ct)) (N_players (ct_pub ct));
          audit = audit[nat (myind (table (ct_pub ct))) := seed]
      in audit[0 := c])"

text \<open>The rows of a list of cards and destinations, each changed by \<open>f\<close>.\<close>

fun audit_rows :: "(nat \<Rightarrow> nat \<Rightarrow> bytes list \<Rightarrow> bytes list) \<Rightarrow> nat \<Rightarrow> (nat \<times> nat) list \<Rightarrow> bytes list \<Rightarrow> bytes list option" where
  "audit_rows f N [] auds = Some auds"
| "audit_rows f N ((cardno, destplayer) # rows) auds = do {
     audit \<leftarrow> rwaudit_load auds cardno destplayer N;
     auds \<leftarrow> rwaudit_save (f cardno destplayer audit) auds cardno destplayer N;
     audit_rows f N rows auds }"

section \<open>Receiving cards\<close>

text \<open>
  A decoded hole card is stored at its selector, which the arrays of two entries bound; what
  \<^verbatim>\<open>cards777_validate\<close> finds is only reported.
\<close>

definition hold_card :: "cardtable \<Rightarrow> nat \<Rightarrow> bytes \<Rightarrow> cardtable option" where
  "hold_card ct cardno cardpriv =
     (let N = N_players (ct_pub ct); selector = cardno div N; destplayer = own_ind ct; f = unat (cardpriv ! 1)
      in if N = 0 \<or> 2 \<le> selector \<or> destplayer < 0 then None
         else Some (upd_cards (\<lambda>h. h\<lparr>hands := (hands h)[nat destplayer := (hands h ! nat destplayer)[5 + selector := f]]\<rparr>)
           (upd_priv (\<lambda>p. p\<lparr>holecards := (holecards p)[selector := cardpriv], cardis := (cardis p)[selector := cardno mod 256],
              hole := (hole p)[selector := f]\<rparr>) ct)))"

definition pangea_card :: "seatkeys \<Rightarrow> cardtable \<Rightarrow> nat \<Rightarrow> bytes option \<Rightarrow> nat \<Rightarrow> outcome" where
  "pangea_card keys ct destplayer data cardno =
     (let N = N_players (ct_pub ct)
      in case data of
           None \<Rightarrow> Some (ct, [], -1)
         | Some d \<Rightarrow>
             if length d \<noteq> 32 * N then Some (ct, [], -1)
             else do {
               auds \<leftarrow> rwaudit_save (bits256s d) (audits (ct_priv ct)) cardno destplayer N;
               audit \<leftarrow> rwaudit_load auds cardno destplayer N;
               let ct = upd_priv (\<lambda>p. p\<lparr>audits := auds\<rparr>) ct;
               let (crd, cardpriv) = cards777_checkcard (seat_privkey keys) (cardpubs (ct_cards ct)) (numcards (ct_cards ct)) (audit ! 0);
               ct \<leftarrow> (if 0 \<le> crd then hold_card ct cardno cardpriv else Some ct);
               let validcard = (if 0 \<le> crd then 1 else - 1);
               Some (ct, [if cardno < N * 2 then Cmd ''facedown'' (- 1) (le_bytes 4 (int cardno)) (int cardno) validcard
                          else Cmd ''faceup'' (- 1) cardpriv (int cardno) 0xff], 0) })"

definition pangea_decoded :: "seatkeys \<Rightarrow> cardtable \<Rightarrow> bytes option \<Rightarrow> nat \<Rightarrow> int \<Rightarrow> outcome" where
  "pangea_decoded keys ct data cardno turni =
     (let N = N_players (ct_pub ct); sp = table (ct_pub ct); destplayer = nat (pangea_ind sp 0)
      in case data of
           None \<Rightarrow> Some (ct, [], -1)
         | Some d \<Rightarrow>
             if length d \<noteq> 32 * N then Some (ct, [], -1)
             else if cardno < N * 2 \<or> N * 2 + 5 \<le> cardno then Some (ct, [], -1)
             else do {
               auds \<leftarrow> rwaudit_save (bits256s d) (audits (ct_priv ct)) cardno destplayer N;
               audit \<leftarrow> rwaudit_load auds cardno destplayer N;
               let ct = upd_priv (\<lambda>p. p\<lparr>audits := auds\<rparr>) ct;
               if turni \<noteq> own_ind ct then Some (ct, [], 0)
               else if myslot sp \<noteq> pangea_slotA sp then do {
                 let audit = audit_decode ct destplayer audit;
                 auds \<leftarrow> rwaudit_save audit auds cardno destplayer N;
                 Some (upd_priv (\<lambda>p. p\<lparr>audits := auds\<rparr>) ct,
                   [Cmd ''decoded'' (- 1) (concat audit) (int cardno) (pangea_prevnode sp)], 0) }
               else
                 let (crd, cardpriv) = cards777_checkcard (seat_privkey keys) (cardpubs (ct_cards ct)) (numcards (ct_cards ct)) (audit ! 0)
                 in Some (ct, if 0 \<le> crd
                     then [Cmd ''faceup'' (- 1) cardpriv (int cardno) (if le_val (take 8 cardpriv) \<noteq> 0 then 0xff else - 1)]
                     else [], 0) })"

section \<open>Passing the deck round\<close>

text \<open>
  \<^verbatim>\<open>pangea_preflop\<close>: a player in the middle decodes all rows and passes them on as compressed text;
  the first players decode the row of every dealt card and send it to its destination, or keep it. The
  destination \<open>jdest\<close> of the message is what \<^verbatim>\<open>pangea_card\<close> reads again. Allocations succeed; the
  check of the text against its source only reports.
\<close>

fun send_cards :: "seatkeys \<Rightarrow> nat \<Rightarrow> nat list \<Rightarrow> cardtable \<times> card_msg list \<Rightarrow> (cardtable \<times> card_msg list) option" where
  "send_cards keys jdest [] (ct, msgs) = Some (ct, msgs)"
| "send_cards keys jdest (cardno # cardnos) (ct, msgs) = do {
     let N = N_players (ct_pub ct);
     let destplayer = (button (ct_pub ct) + cardno mod N) mod N;
     audit \<leftarrow> rwaudit_load (audits (ct_priv ct)) cardno destplayer N;
     let audit = audit_decode ct destplayer audit;
     auds \<leftarrow> rwaudit_save audit (audits (ct_priv ct)) cardno destplayer N;
     let ct = upd_priv (\<lambda>p. p\<lparr>audits := auds\<rparr>) ct;
     if int destplayer = own_ind ct
     then do {
       (ct, msgs', ret) \<leftarrow> pangea_card keys ct jdest (Some (concat audit)) cardno;
       send_cards keys jdest cardnos (ct, msgs @ msgs') }
     else send_cards keys jdest cardnos (ct, msgs @ [Cmd ''card'' (int destplayer) (concat audit) (int cardno) (- 1)]) }"

definition pangea_preflop :: "seatkeys \<Rightarrow> cardtable \<Rightarrow> nat \<Rightarrow> bytes option \<Rightarrow> outcome" where
  "pangea_preflop keys ct jdest data =
     (let N = N_players (ct_pub ct); sp = table (ct_pub ct); datalen = (2 * N) * (N * N * 32)
      in case data of
           None \<Rightarrow> Some (ct, [], -1)
         | Some d \<Rightarrow>
             if length d \<noteq> datalen then Some (ct, [], -1)
             else if length (audits (ct_priv ct)) < 2 * N * (N * N) then None
             else
               let ct = upd_priv (\<lambda>p. p\<lparr>audits := buf_write 0 (bits256s d) (audits p)\<rparr>) ct
               in if myslot sp \<noteq> pangea_slotA sp \<and> int (myslot sp) \<noteq> pangea_slotB sp
                  then do {
                    auds \<leftarrow> audit_rows (\<lambda>cardno. audit_decode ct) N (List.product [0..<N * 2] [0..<N]) (audits (ct_priv ct));
                    zbuf \<leftarrow> pangea_zbuf (concat auds) datalen;
                    Some (upd_priv (\<lambda>p. p\<lparr>audits := auds\<rparr>) ct,
                      [Cmd ''preflop'' (pangea_prevnode sp) (map of_char zbuf) (int (N * 2 * N)) (- 1)], 0) }
                  else do {
                    (ct, msgs) \<leftarrow> send_cards keys jdest [0..<2 * N] (ct, []);
                    Some (ct, msgs, 0) })"

text \<open>
  \<^verbatim>\<open>pangea_encoded\<close>: the player shuffles and layers the deck; the last one publishes it and starts
  the cards on their way back.
\<close>

definition pangea_encoded :: "seatkeys \<Rightarrow> draws \<Rightarrow> cardtable \<Rightarrow> nat \<Rightarrow> bytes option \<Rightarrow> outcome" where
  "pangea_encoded keys dr ct jdest data =
     (let N = N_players (ct_pub ct); sp = table (ct_pub ct); n = numcards (ct_cards ct); ind = own_ind ct;
          (sbytes, rnd, nrbytes, shbytes) = dr
      in case data of
           None \<Rightarrow> Some (ct, [], -1)
         | Some d \<Rightarrow>
             if length d \<noteq> n * N * 32 then Some (ct, [], -1)
             else do {
               (encoded, xs, shares, nrs, shuffled) \<leftarrow> cards777_encode sbytes rnd nrbytes shbytes (M_players (ct_pub ct)) (bits256s d) n N;
               let ct = upd_cards (\<lambda>h. h\<lparr>hand_sharenrs := (hand_sharenrs h)[nat ind := nrs]\<rparr>)
                 (upd_priv (\<lambda>p. p\<lparr>outcards := encoded, xoverz := xs, allshares := shares\<rparr>) ct);
               if ind \<le> 0 then Some (ct, [], 0)
               else if ind < int (numactive sp) - 1
               then Some (ct, [Cmd ''encoded'' (pangea_nextnode sp) (concat encoded) (int (N * n)) (- 1)], 0)
               else do {
                 let ct = ct\<lparr>ct_pub := upd_hand (\<lambda>h. h\<lparr>final := encoded\<rparr>) (ct_pub ct)\<rparr>;
                 auds \<leftarrow> audit_rows (\<lambda>cardno destplayer audit. audit[0 := encoded ! (cardno * N + destplayer)]) N
                   (List.product [0..<2 * N] [0..<N]) (audits (ct_priv ct));
                 let ct = upd_priv (\<lambda>p. p\<lparr>audits := auds\<rparr>) ct;
                 (ct, msgs, ret) \<leftarrow> pangea_preflop keys ct jdest (Some (take ((2 * N) * (N * N * 32)) (concat auds)));
                 Some (ct, Cmd ''final'' (- 1) (concat encoded) (int (N * n)) (- 1) # msgs, 0) } })"

definition pangea_final :: "cardtable \<Rightarrow> bytes option \<Rightarrow> cardtable \<times> int" where
  "pangea_final ct data =
     (case data of
        None \<Rightarrow> (ct, -1)
      | Some d \<Rightarrow>
          if length d \<noteq> numcards (ct_cards ct) * N_players (ct_pub ct) * 32 then (ct, -1)
          else (ct\<lparr>ct_pub := upd_hand (\<lambda>h. h\<lparr>final := bits256s d\<rparr>) (ct_pub ct)\<rparr>, 0))"


section \<open>Agreeing on the deck\<close>

text \<open>
  \<^verbatim>\<open>pangea_checkstart\<close> at time \<open>now\<close>: once every player has reported the product of the deck that was
  sent out, the host starts the encoding, once.
\<close>

definition pangea_checkstart :: "nat \<Rightarrow> cardtable \<Rightarrow> cardtable \<times> card_msg list" where
  "pangea_checkstart now ct =
     (let N = N_players (ct_pub ct); prd = checkprod (hand (ct_pub ct)); n = numcards (ct_cards ct)
      in if prd \<noteq> 0 \<and> deck_sent (ct_cards ct) \<and> encodestarted (ct_cards ct) = 0
         then if \<forall>i\<in>set [0..<N]. othercardpubs (ct_cards ct) ! i = prd
              then (upd_cards (\<lambda>h. h\<lparr>encodestarted := now\<rparr>) ct,
                    [Cmd ''encoded'' (pangea_slotB (table (ct_pub ct))) (concat (take (N * n) (outcards (ct_priv ct)))) (int (N * n)) (- 1)])
              else (ct, [])
         else (ct, []))"

definition pangea_gotdeck :: "nat \<Rightarrow> cardtable \<Rightarrow> u64 \<Rightarrow> nat \<Rightarrow> cardtable \<times> card_msg list" where
  "pangea_gotdeck now ct prd senderind =
     pangea_checkstart now (upd_cards (\<lambda>h. h\<lparr>othercardpubs := (othercardpubs h)[senderind := prd]\<rparr>) ct)"

section \<open>Showing cards\<close>

text \<open>\<open>validcard\<close> is the field \<^verbatim>\<open>turni\<close> of the message.\<close>

definition pangea_facedown :: "cardtable \<Rightarrow> bytes option \<Rightarrow> nat \<Rightarrow> nat \<Rightarrow> int \<Rightarrow> cardtable \<times> card_msg list \<times> int" where
  "pangea_facedown ct data cardno senderind validcard =
     (if data = None \<or> length (the data) \<noteq> 4 then (ct, [], -1)
      else
        let N = N_players (ct_pub ct);
            ct = (if 0 < validcard
                  then upd_cards (\<lambda>h. h\<lparr>havemasks := (havemasks h)[senderind := havemasks h ! senderind OR push_bit cardno 1]\<rparr>) ct
                  else ct);
            n = length (filter (\<lambda>i. bitweight (havemasks (ct_cards ct) ! i) = 2) [0..<N])
        in if myslot (table (ct_pub ct)) = pangea_slotA (table (ct_pub ct)) \<and> n = N
           then let (dp, msgs) = pangea_startbets (ct_pub ct) (N * 2) in (ct\<lparr>ct_pub := dp\<rparr>, map Betting msgs, 0)
           else (ct, [], 0))"

text \<open>The number that \<^verbatim>\<open>set_handstr\<close> returns; the text is for display.\<close>

definition set_handstr :: "nat list \<Rightarrow> u32" where
  "set_handstr h = (if \<exists>i\<in>set [0..<7]. 52 \<le> h ! i then 0 else SevenCardDrawScore h)"

text \<open>
  \<^verbatim>\<open>pangea_rank\<close>: the community cards are copied into the hand up to the first unknown card; a complete
  hand is scored. The result is the rank and the table.
\<close>

fun rank_copy :: "nat list \<Rightarrow> nat \<Rightarrow> nat \<Rightarrow> nat list \<Rightarrow> nat list \<times> bool" where
  "rank_copy comm 0 i h = (h, True)"
| "rank_copy comm (Suc k) i h =
     (let h = (if i < 5 then h[i := comm ! i] else h)
      in if h ! i = 0xff then (h, False) else rank_copy comm k (Suc i) h)"

definition pangea_rank :: "cardtable \<Rightarrow> nat \<Rightarrow> nat \<times> cardtable" where
  "pangea_rank ct senderind =
     (let dp = ct_pub ct
      in if handranks (hand dp) ! senderind \<noteq> 0 then (handranks (hand dp) ! senderind, ct)
         else
           let (h, complete) = rank_copy (community (hand dp)) 7 0 (hands (ct_cards ct) ! senderind);
               ct = upd_cards (\<lambda>c. c\<lparr>hands := (hands c)[senderind := h]\<rparr>) ct;
               dp = (if complete
                     then upd_hand (\<lambda>d. d\<lparr>handranks := (handranks d)[senderind := unat (set_handstr h)],
                            handmask := handmask d OR push_bit senderind 1\<rparr>) dp
                     else dp)
           in (handranks (hand dp) ! senderind, ct\<lparr>ct_pub := dp\<rparr>))"

definition pangea_faceup :: "cardtable \<Rightarrow> bytes option \<Rightarrow> nat \<Rightarrow> int \<Rightarrow> nat \<Rightarrow> cardtable \<times> card_msg list \<times> int" where
  "pangea_faceup ct data cardno turni senderind =
     (case data of
        None \<Rightarrow> (ct, [], -1)
      | Some d \<Rightarrow>
          if length d \<noteq> 32 then (ct, [], -1)
          else if turni < 0 then (ct, [], 0)
          else
            let N = N_players (ct_pub ct); sp = table (ct_pub ct); f = unat (d ! 1);
                tmp = le_bytes 2 (int (cardno * 256) OR turni mod 256);
                ct = ct\<lparr>ct_pub := pangea_summary (ct_pub ct) CARDS777_FACEUP tmp d\<rparr>
            in if N * 2 \<le> cardno \<and> cardno < N * 2 + 5 then
                 let k = cardno - N * 2;
                     ct = ct\<lparr>ct_pub := upd_hand (\<lambda>h. h\<lparr>community := (community h)[k := f]\<rparr>) (ct_pub ct)\<rparr>;
                     ct = upd_cards (\<lambda>h. h\<lparr>hands := foldl (\<lambda>hs i. hs[i := (hs ! i)[k := f]]) (hands h) [0..<N],
                            community256 := (community256 h)[k := d]\<rparr>) ct;
                     ct = (if int senderind = own_ind ct then snd (pangea_rank ct senderind) else ct)
                 in if myslot sp = pangea_slotA sp \<and> N * 2 + 2 \<le> cardno
                    then let (dp, msgs) = pangea_startbets (ct_pub ct) (cardno + 1) in (ct\<lparr>ct_pub := dp\<rparr>, map Betting msgs, 0)
                    else (ct, [], 0)
               else if cardno < N * 2 then
                 let ct = upd_cards (\<lambda>h. h\<lparr>hand_cards := (hand_cards h)[senderind := (hand_cards h ! senderind)[cardno div N := d]],
                            hands := (hands h)[senderind := (hands h ! senderind)[5 + cardno div N := f]]\<rparr>) ct
                 in (snd (pangea_rank ct senderind), [], 0)
               else (ct, [], 0))"


section \<open>Rows of an audit\<close>

lemma bits256s_concat: "\<forall>x\<in>set xs. length x = 32 \<Longrightarrow> bits256s (concat xs) = xs"
proof (induction xs)
  case (Cons x xs)
  then have "x \<noteq> []" by auto
  with Cons show ?case by (subst bits256s.simps) simp
qed (simp add: bits256s.simps)

text \<open>
  The players take their layers off from the last to the first; whatever the row held before, it ends
  up as the decoded card followed by the keys of the players in their order.
\<close>

definition holds_layer :: "nat \<Rightarrow> nat \<Rightarrow> nat \<Rightarrow> cardtable \<Rightarrow> bytes list \<times> bytes list \<Rightarrow> bool" where
  "holds_layer n N i ct layer \<longleftrightarrow> numcards (ct_cards ct) = n \<and> N_players (ct_pub ct) = N
     \<and> myind (table (ct_pub ct)) = int i \<and> outcards (ct_priv ct) = fst layer \<and> xoverz (ct_priv ct) = snd layer"

lemma audit_decode_chain:
  assumes "length cts = length ls" "\<forall>j<length ls. holds_layer n N (off + 1 + j) (cts ! j) (ls ! j)"
    and "length rest = off + length ls" "decode_all n N d ls v = (c, keys)"
  shows "foldr (\<lambda>ct. audit_decode ct d) cts (v # rest) = c # take off rest @ keys"
  using assms
proof (induction cts arbitrary: ls off c keys)
  case (Cons ct cts)
  then obtain encoded xs ls' where ls: "ls = (encoded, xs) # ls'" by (metis length_Suc_conv surj_pair)
  obtain c1 keys1 k where dec: "decode_all n N d ls' v = (c1, keys1)"
    "cards777_decode xs d c1 encoded n N = (k, c)" "keys = k # keys1"
    using Cons.prems(4) ls by (auto split: prod.splits)
  have ih: "foldr (\<lambda>ct. audit_decode ct d) cts (v # rest) = c1 # take (Suc off) rest @ keys1"
  proof (rule Cons.IH [OF _ _ _ dec(1)])
    show "\<forall>j<length ls'. holds_layer n N (Suc off + 1 + j) (cts ! j) (ls' ! j)"
    proof (intro allI impI)
      fix j assume "j < length ls'"
      then show "holds_layer n N (Suc off + 1 + j) (cts ! j) (ls' ! j)"
        using Cons.prems(2) [rule_format, of "Suc j"] ls by simp
    qed
  qed (use Cons.prems(1,3) ls in simp_all)
  have h: "holds_layer n N (off + 1) ct (encoded, xs)" using Cons.prems(2) ls by (auto dest: spec [of _ 0])
  then have m: "nat (myind (table (ct_pub ct))) = Suc off" by (simp add: holds_layer_def)
  have t: "take (Suc off) rest = take off rest @ [rest ! off]" "length (take off rest) = off"
    using Cons.prems(3) ls by (simp_all add: take_Suc_conv_app_nth)
  have "audit_decode ct d (c1 # take (Suc off) rest @ keys1) = c # take off rest @ keys"
    using h dec(2,3) t(2) unfolding audit_decode_def m t(1)
    by (simp add: holds_layer_def list_update_append)
  then show ?case by (simp only: foldr.simps comp_apply ih)
qed simp


section \<open>A card on its way back\<close>

text \<open>
  The state of the table of player \<open>i\<close> of the hand when a card comes back: the host is the first
  active player, and the audits have the size that \<^verbatim>\<open>cards777_allocpriv\<close> gives them.
\<close>

definition at_node :: "nat \<Rightarrow> nat \<Rightarrow> nat \<Rightarrow> cardtable \<Rightarrow> bool" where
  "at_node n N i ct \<longleftrightarrow> numcards (ct_cards ct) = n \<and> N_players (ct_pub ct) = N
     \<and> myind (table (ct_pub ct)) = int i \<and> own_ind ct = int i \<and> pangea_ind (table (ct_pub ct)) 0 = 0
     \<and> (myslot (table (ct_pub ct)) = 0 \<longleftrightarrow> i = 0) \<and> length (audits (ct_priv ct)) = N * n * N"

text \<open>
  A card that the players send on with the message \<^verbatim>\<open>decoded\<close>: each of the tables in turn handles the
  message of the one before; the result is the data and the addressee of the last message.
\<close>

definition decoded_msg :: "card_msg list \<Rightarrow> (bytes \<times> int) option" where
  "decoded_msg msgs =
     (case msgs of [Cmd cmd dest d c turni] \<Rightarrow> if cmd = ''decoded'' then Some (d, turni) else None | _ \<Rightarrow> None)"

fun relay_decoded :: "(seatkeys \<times> cardtable) list \<Rightarrow> nat \<Rightarrow> bytes \<times> int \<Rightarrow> (bytes \<times> int) option" where
  "relay_decoded [] cardno m = Some m"
| "relay_decoded ((keys, ct) # nodes) cardno (d, turni) = do {
     (ct', msgs, ret) \<leftarrow> pangea_decoded keys ct (Some d) cardno turni;
     m \<leftarrow> decoded_msg msgs;
     relay_decoded nodes cardno m }"

lemma rwaudit_fits:
  assumes "length auds = N * n * N" "cardno < n" "0 < N" "length row = N"
  shows "\<exists>auds'. rwaudit_save row auds cardno 0 N = Some auds' \<and> length auds' = N * n * N
    \<and> rwaudit_load auds' cardno 0 N = Some row"
proof -
  have "cardno * N * N + N \<le> cardno * N * N + N * N" using assms(3) by simp
  also have "\<dots> = Suc cardno * (N * N)" by (simp add: algebra_simps)
  also have "\<dots> \<le> n * (N * N)" using assms(2) by (intro mult_le_mono1) simp
  finally have "cardno * N * N + N \<le> length auds" unfolding assms(1) by (simp add: mult_ac)
  moreover define off where "off = (cardno * N + 0) * N"
  ultimately have "off + N \<le> length auds" by simp
  then show ?thesis using assms(1,4)
    unfolding rwaudit_save_def rwaudit_load_def Let_def off_def [symmetric] by (simp add: buf_write_def)
qed

lemma length_concat_words: "\<forall>x\<in>set row. length x = 32 \<Longrightarrow> length (concat row) = 32 * length row"
  by (induction row) simp_all

lemma audit_decode_cong: "audit_decode (upd_priv (\<lambda>p. p\<lparr>audits := auds\<rparr>) ct) d row = audit_decode ct d row"
  by (simp add: audit_decode_def)

lemma pangea_decoded_relays:
  assumes node: "at_node n N (Suc i) ct" and row: "length row = N" "\<forall>x\<in>set row. length x = 32"
    and cardno: "N * 2 \<le> cardno" "cardno < N * 2 + 5" "cardno < n" "Suc i < N"
  shows "\<exists>ct'. pangea_decoded keys ct (Some (concat row)) cardno (int (Suc i))
      = Some (ct', [Cmd ''decoded'' (- 1) (concat (audit_decode ct 0 row)) (int cardno) (int i)], 0)
    \<and> rwaudit_load (audits (ct_priv ct')) cardno 0 N = Some (audit_decode ct 0 row)"
proof -
  have len: "length (concat row) = 32 * N" using length_concat_words [OF row(2)] row(1) by simp
  have N: "0 < N" using cardno(4) by simp
  obtain auds where a: "rwaudit_save row (audits (ct_priv ct)) cardno 0 N = Some auds" "length auds = N * n * N"
    "rwaudit_load auds cardno 0 N = Some row"
    using rwaudit_fits [OF _ cardno(3) N row(1)] node unfolding at_node_def by blast
  have "length (audit_decode ct 0 row) = N" using row(1) by (simp add: audit_decode_def split: prod.split)
  then obtain auds' where b: "rwaudit_save (audit_decode ct 0 row) auds cardno 0 N = Some auds'"
    "rwaudit_load auds' cardno 0 N = Some (audit_decode ct 0 row)"
    using rwaudit_fits [OF a(2) cardno(3) N] by blast
  show ?thesis using node cardno
    by (simp add: pangea_decoded_def Let_def at_node_def len bits256s_concat [OF row(2)] a b audit_decode_cong
        pangea_slotA_def pangea_prevnode_def)
qed

lemma pangea_decoded_host:
  assumes node: "at_node n N 0 ct" and row: "length row = N" "\<forall>x\<in>set row. length x = 32"
    and cardno: "N * 2 \<le> cardno" "cardno < N * 2 + 5" "cardno < n" "0 < N"
  shows "\<exists>ct' msgs. pangea_decoded keys ct (Some (concat row)) cardno 0 = Some (ct', msgs, 0)
    \<and> rwaudit_load (audits (ct_priv ct')) cardno 0 N = Some row"
proof -
  have len: "length (concat row) = 32 * N" using length_concat_words [OF row(2)] row(1) by simp
  obtain auds where a: "rwaudit_save row (audits (ct_priv ct)) cardno 0 N = Some auds"
    "rwaudit_load auds cardno 0 N = Some row"
    using rwaudit_fits [OF _ cardno(3,4) row(1)] node unfolding at_node_def by blast
  show ?thesis using node cardno
    by (simp add: pangea_decoded_def Let_def at_node_def len bits256s_concat [OF row(2)] a pangea_slotA_def case_prod_beta)
qed

text \<open>The relay computes the updates of the row by the players, from the last to the first.\<close>

lemma audit_decode_words:
  assumes "holds_layer n N i ct layer" "length (snd layer) = n * N" "\<forall>x\<in>set (snd layer). length x = 32"
    and "0 < N" "length row = N" "\<forall>x\<in>set row. length x = 32"
  shows "length (audit_decode ct 0 row) = N \<and> (\<forall>x\<in>set (audit_decode ct 0 row). length x = 32)"
proof -
  have "row ! 0 \<in> set row" using assms(4,5) by simp
  then have r: "length (row ! 0) = 32" using assms(6) by blast
  obtain k c where k: "cards777_decode (snd layer) 0 (row ! 0) (fst layer) n N = (k, c)" by (metis surj_pair)
  from decode_lengths [OF assms(2,3,4) r k] have l: "length k = 32" "length c = 32" by simp_all
  have "audit_decode ct 0 row = row[i := k, 0 := c]"
    using assms(1) k by (simp add: audit_decode_def holds_layer_def)
  then show ?thesis using assms(5,6) l set_update_subset_insert [of row i k]
      set_update_subset_insert [of "row[i := k]" 0 c] by (auto dest!: subsetD)
qed

lemma relay_decoded_rows:
  assumes "length nodes = length ls" "length ls < N"
    and "\<forall>j<length ls. at_node n N (Suc j) (snd (nodes ! j)) \<and> holds_layer n N (Suc j) (snd (nodes ! j)) (ls ! j)"
    and "\<forall>(encoded, xoverz)\<in>set ls. length xoverz = n * N \<and> (\<forall>x\<in>set xoverz. length x = 32)"
    and "N * 2 \<le> cardno" "cardno < N * 2 + 5" "cardno < n"
    and "length row = N" "\<forall>x\<in>set row. length x = 32"
  defines "row' \<equiv> foldr (\<lambda>ct. audit_decode ct 0) (map snd nodes) row"
  shows "relay_decoded (rev nodes) cardno (concat row, int (length ls)) = Some (concat row', 0)
    \<and> length row' = N \<and> (\<forall>x\<in>set row'. length x = 32)"
  using assms(1-4,8,9) unfolding row'_def
proof (induction nodes arbitrary: ls row rule: rev_induct)
  case (snoc nd nodes)
  obtain keys ct where nd: "nd = (keys, ct)" by (metis surj_pair)
  obtain ls' layer where ls: "ls = ls' @ [layer]" "length nodes = length ls'"
    using snoc.prems(1) by (metis append_butlast_last_id length_append_singleton length_0_conv Suc_inject nat.simps(3))
  let ?r = "audit_decode ct 0 row"
  have at: "at_node n N (Suc (length ls')) ct" "holds_layer n N (Suc (length ls')) ct layer"
    using snoc.prems(3) [rule_format, of "length ls'"] ls nd by (simp_all add: nth_append)
  have lay: "length (snd layer) = n * N" "\<forall>x\<in>set (snd layer). length x = 32"
    using snoc.prems(4) ls(1) by (auto simp: case_prod_beta)
  have r: "length ?r = N" "\<forall>x\<in>set ?r. length x = 32"
    using audit_decode_words [OF at(2) lay _ snoc.prems(5,6)] snoc.prems(2) by auto
  have "\<forall>j<length ls'. at_node n N (Suc j) (snd (nodes ! j)) \<and> holds_layer n N (Suc j) (snd (nodes ! j)) (ls' ! j)"
  proof (intro allI impI)
    fix j assume "j < length ls'"
    then show "at_node n N (Suc j) (snd (nodes ! j)) \<and> holds_layer n N (Suc j) (snd (nodes ! j)) (ls' ! j)"
      using snoc.prems(3) [rule_format, of j] ls by (simp add: nth_append)
  qed
  from snoc.IH [OF ls(2) _ this _ r] snoc.prems(2,4) ls(1)
  have ih: "relay_decoded (rev nodes) cardno (concat ?r, int (length ls'))
      = Some (concat (foldr (\<lambda>ct. audit_decode ct 0) (map snd nodes) ?r), 0)"
    "length (foldr (\<lambda>ct. audit_decode ct 0) (map snd nodes) ?r) = N"
    "\<forall>x\<in>set (foldr (\<lambda>ct. audit_decode ct 0) (map snd nodes) ?r). length x = 32" by simp_all
  obtain ct' where "pangea_decoded keys ct (Some (concat row)) cardno (int (Suc (length ls')))
      = Some (ct', [Cmd ''decoded'' (- 1) (concat ?r) (int cardno) (int (length ls'))], 0)"
    using pangea_decoded_relays [OF at(1) snoc.prems(5,6) assms(5-7)] snoc.prems(2) ls(1) by auto
  then show ?case using ih by (simp add: nd ls(1) decoded_msg_def)
qed simp

section \<open>Shown cards\<close>

lemma rank_copy_hole:
  assumes "rank_copy comm k i h = (h', b)" "length h = 7" "5 \<le> n"
  shows "h' ! n = h ! n" "length h' = 7"
proof -
  have "h' ! n = h ! n \<and> length h' = 7" using assms
    by (induction k arbitrary: i h) (auto simp: Let_def split: if_splits)
  then show "h' ! n = h ! n" "length h' = 7" by simp_all
qed

lemma pangea_rank_hole:
  assumes "senderind < length (hands (ct_cards ct))" "length (hands (ct_cards ct) ! senderind) = 7" "5 \<le> n"
  shows "hands (ct_cards (snd (pangea_rank ct senderind))) ! senderind ! n = hands (ct_cards ct) ! senderind ! n"
proof -
  obtain h b where h: "rank_copy (community (hand (ct_pub ct))) 7 0 (hands (ct_cards ct) ! senderind) = (h, b)" by (metis surj_pair)
  show ?thesis using rank_copy_hole [OF h assms(2,3)] assms(1) by (simp add: pangea_rank_def Let_def h)
qed

text \<open>A card beyond the hole cards, once decoded, is written behind the arrays of two.\<close>

lemma pangea_card_overrun:
  assumes "length d = 32 * N_players (ct_pub ct)" "N_players (ct_pub ct) * 2 \<le> cardno"
    and "(cardno * N_players (ct_pub ct) + destplayer) * N_players (ct_pub ct) + N_players (ct_pub ct) \<le> length (audits (ct_priv ct))"
    and "length (bits256s d) = N_players (ct_pub ct)"
    and "0 \<le> fst (cards777_checkcard (seat_privkey keys) (cardpubs (ct_cards ct)) (numcards (ct_cards ct)) (bits256s d ! 0))"
    and "0 < N_players (ct_pub ct)"
  shows "pangea_card keys ct destplayer (Some d) cardno = None"
proof -
  let ?N = "N_players (ct_pub ct)" and ?o = "(cardno * N_players (ct_pub ct) + destplayer) * N_players (ct_pub ct)"
  have s: "rwaudit_save (bits256s d) (audits (ct_priv ct)) cardno destplayer ?N = Some (buf_write ?o (bits256s d) (audits (ct_priv ct)))"
    using assms(3,4) by (simp add: rwaudit_save_def Let_def)
  have l: "rwaudit_load (buf_write ?o (bits256s d) (audits (ct_priv ct))) cardno destplayer ?N = Some (bits256s d)"
    using assms(3,4) by (simp add: rwaudit_load_def Let_def buf_write_def)
  have "2 \<le> cardno div ?N" using assms(2,6) by (metis div_le_mono mult.commute nonzero_mult_div_cancel_left less_numeral_extra(3) mult_2)
  then have "hold_card ct' cardno k = None" if "N_players (ct_pub ct') = ?N" for ct' k
    using that by (simp add: hold_card_def Let_def)
  then show ?thesis using assms(1,5) s l by (auto simp: pangea_card_def Let_def split: prod.splits)
qed

section \<open>Properties\<close>

definition witness_cards :: cardtable where
  "witness_cards = \<lparr>ct_pub = witness_pubdata,
     ct_cards = \<lparr>numcards = 1, cardpubs = [], community256 = replicate 5 [], hand_cards = replicate 9 [[], []],
       othercardpubs = 5 # 4 # replicate 7 0, havemasks = replicate 9 0, encodestarted = 0, hand_sharenrs = replicate 9 [],
       hands = replicate 9 (replicate 7 255), deck_sent = True\<rparr>,
     ct_priv = \<lparr>automuck = 0, autofold = 0, holecards = [[], []], cardis = [0, 1], audits = [], outcards = [], xoverz = [],
       allshares = [], hole = [255, 255]\<rparr>\<rparr>"

text \<open>
  C15. The compressed text of the audits reads back: what \<^verbatim>\<open>pangea_unzbuf\<close> makes of the text of
  \<^verbatim>\<open>pangea_zbuf\<close> starts with the buffer, and is the buffer unless that ends in a zero byte, when up to 15
  zeros that were read behind the buffer can follow.
\<close>

theorem pangea_zbuf_roundtrip:
  assumes "15 \<le> length tail"
  shows "\<exists>z k. pangea_zbuf (data @ tail) (length data) = Some z \<and> pangea_unzbuf z = Some (data @ replicate k 0)
    \<and> k \<le> 15 \<and> (k = 0 \<or> data \<noteq> [] \<and> last data = 0)"
  using zbuf_unzbuf [OF assms, of data] by blast

theorem pangea_zbuf_roundtrip_witness:
  "\<exists>z. pangea_zbuf ([0, 5, 0, 0, 7] @ replicate 15 0) 5 = Some z \<and> pangea_unzbuf z = Some [0, 5, 0, 0, 7]"
proof -
  obtain z k where "pangea_zbuf ([0, 5, 0, 0, 7] @ replicate 15 0) (length [0, 5, 0, 0, 7 :: u8]) = Some z"
    "pangea_unzbuf z = Some ([0, 5, 0, 0, 7] @ replicate k 0)" "k = 0"
    using pangea_zbuf_roundtrip [of "replicate 15 0" "[0, 5, 0, 0, 7]"] by auto
  moreover have "length [0, 5, 0, 0, 7 :: u8] = 5" by simp
  ultimately show ?thesis by (simp only: replicate_0 append_Nil2) blast
qed

text \<open>
  C6. A community card on its way back through the handlers. The players after the host hold the
  layers they added in their turns, none of them with a key of zero. A message \<^verbatim>\<open>decoded\<close> with
  the row of a community card, a card of the final deck and any other words, reaches the last player;
  every player's \<^verbatim>\<open>pangea_decoded\<close> sends the row on to the player before. The host's
  \<^verbatim>\<open>pangea_decoded\<close> accepts the last message and stores a row in its audits that is the
  encryption of a card of the deck to the host followed by the keys, and \<^verbatim>\<open>cards777_validate\<close> on the
  stored row returns the face of that card.
\<close>

theorem audit_row_validates:
  assumes "cards777_initdeck rnds n N playerpubs = Some (msk, pubs, crds, prd)"
    and "n < 64" "\<forall>r\<in>set rnds. length r = 32" "N < 255"
    and "\<forall>(sbytes, rnd, nrbytes, shbytes)\<in>set ps. \<forall>k. length (rnd k) = 32"
    and "encode_all M n N ps crds = Some ls" "Suc (length ls) = N"
    and "\<forall>(encoded, xs)\<in>set ls. replicate 32 0 \<notin> set xs"
    and "length nodes = length ls"
    and "\<forall>j<length ls. at_node n N (Suc j) (snd (nodes ! j)) \<and> holds_layer n N (Suc j) (snd (nodes ! j)) (ls ! j)"
    and "at_node n N 0 host"
    and "N * 2 \<le> cardno" "cardno < N * 2 + 5" "cardno < n"
    and "length rest = length ls" "\<forall>x\<in>set rest. length x = 32"
  defines "v \<equiv> last_deck crds ls ! (cardno * N)"
  shows "\<exists>data host' msgs row priv.
    relay_decoded (rev nodes) cardno (concat (v # rest), int (length ls)) = Some (data, 0)
    \<and> pangea_decoded hostkeys host (Some data) cardno 0 = Some (host', msgs, 0)
    \<and> rwaudit_load (audits (ct_priv host')) cardno 0 N = Some row
    \<and> card_pub priv \<in> set pubs \<and> face priv < n
    \<and> row ! 0 = cards777_initcrypt priv priv (playerpubs ! 0) False
    \<and> cards777_validate priv v row N (playerpubs ! 0) = int (face priv)"
proof -
  have N: "0 < N" using assms(7) by simp
  obtain privs where d: "deck_ok n N crds" using initdeck_cards [OF assms(1-3)] by blast
  note keys = encode_all_keys [OF assms(4) d assms(5,6)]
  have v: "length v = 32"
    using last_deck_ok [OF assms(4) d assms(5,6)] card_index [of cardno n 0 N] assms(14) N
    unfolding v_def deck_ok_def by simp
  obtain c ks where k: "decode_all n N 0 ls v = (c, ks)" by (metis surj_pair)
  have row: "foldr (\<lambda>ct. audit_decode ct 0) (map snd nodes) (v # rest) = c # ks"
    using audit_decode_chain [of "map snd nodes" ls n N 0 rest 0 v c ks] assms(9,10,15) k by simp
  have r: "length (v # rest) = N" "\<forall>x\<in>set (v # rest). length x = 32" using assms(7,15,16) v by simp_all
  from relay_decoded_rows [OF assms(9) _ assms(10) keys assms(12-14) r] assms(7)
  have relay: "relay_decoded (rev nodes) cardno (concat (v # rest), int (length ls)) = Some (concat (c # ks), 0)"
    and rl: "length (c # ks) = N" "\<forall>x\<in>set (c # ks). length x = 32" unfolding row by simp_all
  obtain host' msgs where h: "pangea_decoded hostkeys host (Some (concat (c # ks))) cardno 0 = Some (host', msgs, 0)"
    "rwaudit_load (audits (ct_priv host')) cardno 0 N = Some (c # ks)"
    using pangea_decoded_host [OF assms(11) rl assms(12-14) N] by blast
  have k': "decode_all n N 0 ls (last_deck crds ls ! (cardno * N + 0)) = (c, ks)" using k by (simp add: v_def)
  from deal_opens [OF assms(1-6) assms(14) N assms(8) [folded keys_nonzero_def] k'] assms(7)
  obtain priv where "card_pub priv \<in> set pubs" "face priv < n" "c = cards777_initcrypt priv priv (playerpubs ! 0) False"
    "cards777_validate priv v (c # ks) N (playerpubs ! 0) = int (face priv)" by (auto simp: v_def)
  with relay h show ?thesis by (intro exI [of _ "concat (c # ks)"] exI [of _ host'] exI [of _ msgs] exI [of _ "c # ks"] exI [of _ priv]) simp
qed

text \<open>The host and one player, five cards; the row holds a stale key.\<close>

definition witness_node :: "nat \<Rightarrow> nat \<Rightarrow> bytes list \<times> bytes list \<Rightarrow> cardtable" where
  "witness_node slot i layer = witness_cards\<lparr>
     ct_pub := witness_pubdata\<lparr>table := witness_table\<lparr>myslot := slot, myind := int i\<rparr>\<rparr>,
     ct_cards := (ct_cards witness_cards)\<lparr>numcards := 5\<rparr>,
     ct_priv := (ct_priv witness_cards)\<lparr>audits := replicate 20 (replicate 32 0), outcards := fst layer, xoverz := snd layer\<rparr>\<rparr>"

lemma witness_nodes: "at_node 5 2 0 (witness_node 0 0 layer)" "at_node 5 2 1 (witness_node 2 1 layer)"
  "holds_layer 5 2 1 (witness_node 2 1 layer) layer"
  by (simp_all add: at_node_def holds_layer_def witness_node_def witness_cards_def witness_pubdata_def witness_table_def
      pangea_ind_def pangea_search_def search_from.simps)

theorem audit_row_validates_witness:
  "\<exists>msk pubs crds prd ls data host' msgs row priv.
    cards777_initdeck (map (\<lambda>f. 0 # f # replicate 30 0) [0, 1, 2, 3, 4]) 5 2 [replicate 32 0, replicate 32 1]
      = Some (msk, pubs, crds, prd)
    \<and> encode_all 1 5 2 [(\<lambda>_. 0, \<lambda>_. replicate 32 0, [0], [])] crds = Some ls
    \<and> relay_decoded [(\<lparr>seat_privkey = [], seat_pubs = []\<rparr>, witness_node 2 1 (ls ! 0))] 4
        (concat [last_deck crds ls ! 8, replicate 32 8], 1) = Some (data, 0)
    \<and> pangea_decoded \<lparr>seat_privkey = [], seat_pubs = []\<rparr> (witness_node 0 0 ([], [])) (Some data) 4 0 = Some (host', msgs, 0)
    \<and> rwaudit_load (audits (ct_priv host')) 4 0 2 = Some row
    \<and> card_pub priv \<in> set pubs \<and> face priv < 5
    \<and> row ! 0 = cards777_initcrypt priv priv (replicate 32 0) False
    \<and> cards777_validate priv (last_deck crds ls ! 8) row 2 (replicate 32 0) = int (face priv)"
proof -
  define zero one :: bytes where "zero = replicate 32 0" and "one = replicate 32 1"
  define rnds :: "bytes list" where "rnds = map (\<lambda>f. 0 # f # replicate 30 0) [0, 1, 2, 3, 4]"
  have "face ` set rnds = {0, 1, 2, 3, 4}" by (simp add: rnds_def face_def)
  moreover have "{..<5} = {0, 1, 2, 3, 4 :: nat}" by auto
  ultimately have r: "\<forall>x\<in>set rnds. length x = 32" "{..<5} \<subseteq> face ` set rnds" by (auto simp: rnds_def)
  obtain msk pubs crds prd where i: "cards777_initdeck rnds 5 2 [zero, one] = Some (msk, pubs, crds, prd)"
    using initdeck_completes [of 5 rnds 2 "[zero, one]"] r by auto
  let ?ps = "[(\<lambda>_. 0, \<lambda>_. zero, [0], [])] :: draws list" and ?k = "\<lparr>seat_privkey = [], seat_pubs = []\<rparr>"
  obtain ls where l: "encode_all 1 5 2 ?ps crds = Some ls" "length ls = 1"
    using encode_all_total [of 2 1 5 ?ps crds] by auto
  have nz: "\<forall>(encoded, xs)\<in>set ls. replicate 32 0 \<notin> set xs"
    unfolding keys_nonzero_def [symmetric] by (rule zero_draws_nonzero [OF _ l(1)]) (auto simp: zero_def)
  have nodes: "\<forall>j<length ls. at_node 5 2 (Suc j) (snd ([(?k, witness_node 2 1 (ls ! 0))] ! j))
      \<and> holds_layer 5 2 (Suc j) (snd ([(?k, witness_node 2 1 (ls ! 0))] ! j)) (ls ! j)"
    using witness_nodes l(2) by simp
  have "\<exists>data host' msgs row priv.
      relay_decoded (rev [(?k, witness_node 2 1 (ls ! 0))]) 4 (concat (last_deck crds ls ! (4 * 2) # [replicate 32 8]), int (length ls)) = Some (data, 0)
    \<and> pangea_decoded ?k (witness_node 0 0 ([], [])) (Some data) 4 0 = Some (host', msgs, 0)
    \<and> rwaudit_load (audits (ct_priv host')) 4 0 2 = Some row
    \<and> card_pub priv \<in> set pubs \<and> face priv < 5
    \<and> row ! 0 = cards777_initcrypt priv priv ([zero, one] ! 0) False
    \<and> cards777_validate priv (last_deck crds ls ! (4 * 2)) row 2 ([zero, one] ! 0) = int (face priv)"
    by (rule audit_row_validates [OF i _ r(1) _ _ l(1) _ nz _ nodes]) (use l(2) witness_nodes in \<open>auto simp: zero_def\<close>)
  moreover have "4 * 2 = (8::nat)" "int (length ls) = 1" using l(2) by simp_all
  ultimately show ?thesis using i l(1) unfolding rnds_def zero_def [symmetric] one_def [symmetric]
    by (simp only: rev.simps append_Nil nth_Cons_0) blast
qed

text \<open>
  C39. A hand can get stuck on its way back: when the audits end in a single zero byte and memory
  behind them is zero, the text stands for more bytes than were sent, and \<^verbatim>\<open>pangea_preflop\<close> of the next player
  rejects them by their length and changes nothing.
\<close>

theorem pangea_preflop_stalls:
  assumes "length (d @ [x, 0]) = (2 * N_players (ct_pub ct)) * (N_players (ct_pub ct) * N_players (ct_pub ct) * 32)"
    and "x \<noteq> 0" "14 \<le> length tail"
  shows "\<exists>z r. pangea_zbuf ((d @ [x, 0]) @ 0 # tail) (length (d @ [x, 0])) = Some z \<and> pangea_unzbuf z = Some r
    \<and> pangea_preflop keys ct jdest (Some r) = Some (ct, [], -1)"
proof -
  obtain z k where z: "pangea_zbuf ((d @ [x, 0]) @ 0 # tail) (length (d @ [x, 0])) = Some z"
    "pangea_unzbuf z = Some ((d @ [x, 0]) @ replicate k 0)"
    "k = 0 \<and> d @ [x, 0] \<noteq> [] \<and> last (d @ [x, 0]) = 0 \<and> hd (0 # tail) = 0 \<longrightarrow>
      2 \<le> length (d @ [x, 0]) \<longrightarrow> (d @ [x, 0]) ! (length (d @ [x, 0]) - 2) = 0"
    using zbuf_unzbuf [of "0 # tail" "d @ [x, 0]"] assms(3) by fastforce
  have "(d @ [x, 0]) ! (length (d @ [x, 0]) - 2) = x" by (simp add: nth_append)
  then have "k \<noteq> 0" using z(3) assms(2) by auto
  then have "length ((d @ [x, 0]) @ replicate k 0) \<noteq> (2 * N_players (ct_pub ct)) * (N_players (ct_pub ct) * N_players (ct_pub ct) * 32)"
    unfolding length_append [of "d @ [x, 0]"] assms(1) by simp
  then have "pangea_preflop keys ct jdest (Some ((d @ [x, 0]) @ replicate k 0)) = Some (ct, [], -1)"
    unfolding pangea_preflop_def Let_def option.case by (simp only: if_True not_False_eq_True)
  with z(1,2) show ?thesis by blast
qed

theorem pangea_preflop_stalls_witness:
  "\<exists>z r. pangea_zbuf ((replicate 510 3 @ [1, 0]) @ 0 # replicate 14 0) 512 = Some z \<and> pangea_unzbuf z = Some r
    \<and> pangea_preflop \<lparr>seat_privkey = [], seat_pubs = []\<rparr> witness_cards 1 (Some r) = Some (witness_cards, [], -1)"
  using pangea_preflop_stalls [of "replicate 510 3" 1 witness_cards "replicate 14 0"]
  by (simp add: witness_cards_def witness_pubdata_def)

text \<open>
  C17. The encoding of a deck starts when everybody agrees on it: a report makes the host send the deck on only
  when it was sent out, its product is known, and every player has reported that product; and it is
  sent on once, whatever is reported afterwards.
\<close>

theorem pangea_gotdeck_barrier:
  assumes "pangea_gotdeck now ct prd senderind = (ct', msgs)" "msgs \<noteq> []"
  shows "deck_sent (ct_cards ct) \<and> encodestarted (ct_cards ct) = 0 \<and> checkprod (hand (ct_pub ct)) \<noteq> 0
    \<and> (\<forall>i<N_players (ct_pub ct). othercardpubs (ct_cards ct') ! i = checkprod (hand (ct_pub ct)))
    \<and> (0 < now \<longrightarrow> snd (pangea_gotdeck later ct' prd' sender') = [])"
  using assms by (auto simp: pangea_gotdeck_def pangea_checkstart_def Let_def split: if_splits)

theorem pangea_gotdeck_barrier_witness:
  "othercardpubs (ct_cards (fst (pangea_gotdeck 9 witness_cards 5 1))) ! 0 = 5
    \<and> othercardpubs (ct_cards (fst (pangea_gotdeck 9 witness_cards 5 1))) ! 1 = 5"
proof -
  obtain ct msgs where g: "pangea_gotdeck 9 witness_cards 5 1 = (ct, msgs)" by (metis surj_pair)
  have "snd (pangea_gotdeck 9 witness_cards 5 1) \<noteq> []" by code_simp
  with g have "msgs \<noteq> []" by simp
  from pangea_gotdeck_barrier [OF g this]
  have "\<forall>i<N_players (ct_pub witness_cards). othercardpubs (ct_cards ct) ! i = checkprod (hand (ct_pub witness_cards))" by blast
  moreover have "N_players (ct_pub witness_cards) = 2" "checkprod (hand (ct_pub witness_cards)) = 5"
    by (simp_all add: witness_cards_def witness_pubdata_def witness_hand_def)
  ultimately show ?thesis by (simp only: g fst_conv)
qed

text \<open>
  C40. Shown hole cards are taken on trust: \<^verbatim>\<open>pangea_faceup\<close> enters the second byte of whatever
  256-bit word a player sends as the face of its hole card, without comparing it with the public keys of the
  deck or with the audits.
\<close>

theorem pangea_faceup_unchecked:
  assumes "length d = 32" "0 \<le> turni" "cardno < N_players (ct_pub ct) * 2"
    and "senderind < length (hands (ct_cards ct))" "length (hands (ct_cards ct) ! senderind) = 7"
  shows "snd (snd (pangea_faceup ct (Some d) cardno turni senderind)) = 0
    \<and> hands (ct_cards (fst (pangea_faceup ct (Some d) cardno turni senderind))) ! senderind ! (5 + cardno div N_players (ct_pub ct))
      = unat (d ! 1)"
proof -
  let ?N = "N_players (ct_pub ct)"
  have N: "cardno div ?N < 2" using assms(3) by (simp add: less_mult_imp_div_less mult.commute)
  have n: "N_players (pangea_summary (ct_pub ct) ty a b) = ?N" for ty a b by (simp add: pangea_summary_def)
  show ?thesis using assms N
    by (simp add: pangea_faceup_def Let_def pangea_rank_hole)
qed

theorem pangea_faceup_unchecked_witness:
  "hands (ct_cards (fst (pangea_faceup witness_cards (Some (0 # 12 # replicate 30 0)) 3 1 1))) ! 1 ! 6 = 12"
proof -
  have "3 < N_players (ct_pub witness_cards) * 2" "1 < length (hands (ct_cards witness_cards))"
    "length (hands (ct_cards witness_cards) ! 1) = 7" "N_players (ct_pub witness_cards) = 2"
    by (simp_all add: witness_cards_def witness_pubdata_def)
  then show ?thesis using pangea_faceup_unchecked [of "0 # 12 # replicate 30 0" 1 3 witness_cards 1] by simp
qed

end
