(* ===== verification/PangeaGame.thy ===== *)
theory PangeaGame
  imports PangeaCards
begin

text \<open>
  The card messages as a state machine: \<^verbatim>\<open>pangea_poll\<close>
  (\<^verbatim>\<open>src/plugins/games/pangea/pangea777.c\<close>) takes one message from the queue and calls its handler, in
  whatever order the other players send them. The lemmas hold in every state that a sequence of
  messages can lead to.
\<close>

section \<open>Steps and runs\<close>

text \<open>The guard of \<^verbatim>\<open>pangea_poll\<close>: the sender names a player of the hand, and the receiver plays.\<close>

definition poll_guard :: "cardtable \<Rightarrow> nat \<Rightarrow> bool" where
  "poll_guard ct senderind \<longleftrightarrow> senderind < N_players (ct_pub ct) \<and> 0 \<le> myind (table (ct_pub ct))"

text \<open>
  One message: the data are any bytes, as the buffer holds them when the handler is called; a
  handler that leaves its arrays makes no step.
\<close>

inductive card_step :: "seatkeys \<Rightarrow> cardtable \<Rightarrow> card_msg list \<Rightarrow> cardtable \<Rightarrow> bool" for keys where
  gotdeck: "poll_guard ct s \<Longrightarrow> 0 < now \<Longrightarrow> pangea_gotdeck now ct prd s = (ct', msgs) \<Longrightarrow> card_step keys ct msgs ct'"
| encoded: "poll_guard ct s \<Longrightarrow> pangea_encoded keys dr ct jdest data = Some (ct', msgs, ret) \<Longrightarrow> card_step keys ct msgs ct'"
| final: "poll_guard ct s \<Longrightarrow> pangea_final ct data = (ct', ret) \<Longrightarrow> card_step keys ct [] ct'"
| preflop: "poll_guard ct s \<Longrightarrow> pangea_preflop keys ct jdest data = Some (ct', msgs, ret) \<Longrightarrow> card_step keys ct msgs ct'"
| decoded: "poll_guard ct s \<Longrightarrow> pangea_decoded keys ct data cardno turni = Some (ct', msgs, ret) \<Longrightarrow> card_step keys ct msgs ct'"
| card: "poll_guard ct s \<Longrightarrow> pangea_card keys ct jdest data cardno = Some (ct', msgs, ret) \<Longrightarrow> card_step keys ct msgs ct'"
| facedown: "poll_guard ct s \<Longrightarrow> pangea_facedown ct data cardno s valid = (ct', msgs, ret) \<Longrightarrow> card_step keys ct msgs ct'"
| faceup: "poll_guard ct s \<Longrightarrow> pangea_faceup ct data cardno turni s = (ct', msgs, ret) \<Longrightarrow> card_step keys ct msgs ct'"

text \<open>A run from a state, with the messages sent on the way.\<close>

inductive card_run :: "seatkeys \<Rightarrow> cardtable \<Rightarrow> card_msg list \<Rightarrow> cardtable \<Rightarrow> bool" for keys ct0 where
  start: "card_run keys ct0 [] ct0"
| more: "card_run keys ct0 tr ct \<Longrightarrow> card_step keys ct msgs ct' \<Longrightarrow> card_run keys ct0 (tr @ msgs) ct'"

section \<open>What betting leaves alone\<close>

text \<open>The seats of the table, the number of players, the deck's product and the sizes of the arrays of a hand.\<close>

definition seat_frame :: "pubdata \<Rightarrow> nat \<times> u64 list \<times> u64 list \<times> nat \<times> nat \<times> int \<times> u64 \<times> nat \<times> nat" where
  "seat_frame dp = (N_players dp, addrs (table dp), active (table dp), numactive (table dp), myslot (table dp), myind (table dp),
     checkprod (hand dp), length (community (hand dp)), length (handranks (hand dp)))"

lemma foldl_frame: "(\<And>s x. f (g s x) = f s) \<Longrightarrow> f (foldl g s xs) = f s"
  by (induction xs arbitrary: s) simp_all

lemma seat_frame_fold [simp]: "seat_frame (pangea_fold dp i) = seat_frame dp"
  by (simp add: seat_frame_def pangea_fold_def Let_def pangea_summary_def)

lemma seat_frame_summary [simp]: "seat_frame (pangea_summary dp ty a b) = seat_frame dp"
  by (simp add: seat_frame_def pangea_summary_def)

lemma bet_adjust_seat: "bet_adjust h p bal b a = (h', b', a') \<Longrightarrow> checkprod h' = checkprod h \<and> community h' = community h \<and> handranks h' = handranks h"
  by (auto simp: bet_adjust_def split: if_splits)

lemma bet_raise_seat: "bet_raise h p t b a = (h', a') \<Longrightarrow> checkprod h' = checkprod h \<and> community h' = community h \<and> handranks h' = handranks h"
  by (auto simp: bet_raise_def Let_def split: if_splits prod.splits)

lemma seat_frame_bet [simp]: "seat_frame (fst (pangea_bet dp p b a)) = seat_frame dp"
proof -
  obtain dp' a' where r: "pangea_bet dp p b a = (dp', a')" by (metis surj_pair)
  then have "seat_frame dp' = seat_frame dp"
    by (auto simp: seat_frame_def pangea_bet_def Let_def bet_transfer_def pangea_fold_def pangea_summary_def
        dest!: bet_adjust_seat bet_raise_seat split: if_splits prod.splits)
  with r show ?thesis by simp
qed

lemma seat_frame_antes [simp]: "seat_frame (pangea_checkantes dp) = seat_frame dp"
proof -
  have s: "seat_frame (antes_snapshot dp) = seat_frame dp" for dp
    unfolding antes_snapshot_def Let_def seat_frame_summary by (simp add: seat_frame_def)
  have b: "seat_frame (antes_foldbroke dp) = seat_frame dp" for dp
    unfolding antes_foldbroke_def by (rule foldl_frame) simp
  have c: "seat_frame (antes_collect dp) = seat_frame dp" for dp
    unfolding antes_collect_def by (simp add: foldl_frame [where f = seat_frame])
  have a: "seat_frame (fst (antes_actives dp)) = seat_frame dp" for dp
    unfolding antes_actives_def
    by (rule trans [OF foldl_frame [where f = "\<lambda>p. seat_frame (fst p)"]]) (auto simp: Let_def split: prod.splits)
  have bt: "seat_frame (dp\<lparr>button := x\<rparr>) = seat_frame dp" for dp x by (simp add: seat_frame_def)
  have "seat_frame (pangea_antes dp) = seat_frame dp" for dp
    using a [of "antes_collect (antes_foldbroke (antes_snapshot dp))"]
    by (auto simp: pangea_antes_def Let_def s b c bt split: prod.splits)
  then show ?thesis by (simp add: pangea_checkantes_def)
qed

lemma seat_frame_hand:
  "checkprod h = checkprod (hand dp) \<Longrightarrow> length (community h) = length (community (hand dp)) \<Longrightarrow>
    length (handranks h) = length (handranks (hand dp)) \<Longrightarrow> seat_frame (dp\<lparr>hand := h\<rparr>) = seat_frame dp"
  by (simp add: seat_frame_def)

lemma seat_frame_startbets [simp]: "seat_frame (fst (pangea_startbets dp cardno)) = seat_frame dp"
  unfolding pangea_startbets_def Let_def by (simp add: seat_frame_hand)


section \<open>What the handlers leave alone\<close>

text \<open>The sizes of all arrays of the card state, and what is fixed for a hand.\<close>

definition shape :: "cardtable \<Rightarrow> _" where
  "shape ct = (seat_frame (ct_pub ct),
     (numcards (ct_cards ct), length (cardpubs (ct_cards ct)), length (community256 (ct_cards ct)), map length (hand_cards (ct_cards ct)),
      length (othercardpubs (ct_cards ct)), length (havemasks (ct_cards ct)), length (hand_sharenrs (ct_cards ct)),
      map length (hands (ct_cards ct)), deck_sent (ct_cards ct)),
     (length (holecards (ct_priv ct)), length (cardis (ct_priv ct)), length (hole (ct_priv ct)), length (audits (ct_priv ct))))"

definition card_frame :: "cardtable \<Rightarrow> _" where
  "card_frame ct = (shape ct, encodestarted (ct_cards ct))"

fun is_encoded :: "card_msg \<Rightarrow> bool" where
  "is_encoded (Cmd c d data cardno turni) \<longleftrightarrow> c = ''encoded''"
| "is_encoded (Betting m) \<longleftrightarrow> False"

lemma map_length_update: "length x = length (xs ! i) \<Longrightarrow> map length (xs[i := x]) = map length xs"
  by (metis length_map list_update_beyond list_update_id map_update not_le_imp_less nth_map)

lemma rwaudit_save_length: "rwaudit_save audit auds c d N = Some auds' \<Longrightarrow> length auds' = length auds"
  by (auto simp: rwaudit_save_def Let_def min_def split: if_splits)

lemma audit_rows_length: "audit_rows f N rows auds = Some auds' \<Longrightarrow> length auds' = length auds"
  by (induction f N rows auds rule: audit_rows.induct)
    (auto simp: bind_eq_Some_conv dest: rwaudit_save_length)

lemma card_frame_audits [simp]:
  "length auds = length (audits (ct_priv ct)) \<Longrightarrow> card_frame (upd_priv (\<lambda>p. p\<lparr>audits := auds\<rparr>) ct) = card_frame ct"
  by (simp add: card_frame_def shape_def)

lemma card_frame_pub: "seat_frame dp = seat_frame (ct_pub ct) \<Longrightarrow> card_frame (ct\<lparr>ct_pub := dp\<rparr>) = card_frame ct"
  by (simp add: card_frame_def shape_def)

lemma hold_card_frame: "hold_card ct cardno k = Some ct' \<Longrightarrow> card_frame ct' = card_frame ct"
  by (auto simp: hold_card_def Let_def card_frame_def shape_def map_length_update split: if_splits)

lemma pangea_card_frame:
  "pangea_card keys ct jdest data cardno = Some (ct', msgs, ret) \<Longrightarrow> card_frame ct' = card_frame ct \<and> filter is_encoded msgs = []"
  by (auto simp: pangea_card_def Let_def bind_eq_Some_conv case_prod_beta dest!: rwaudit_save_length hold_card_frame
      split: option.splits if_splits)

lemma pangea_decoded_frame:
  "pangea_decoded keys ct data cardno turni = Some (ct', msgs, ret) \<Longrightarrow> card_frame ct' = card_frame ct \<and> filter is_encoded msgs = []"
  by (auto simp: pangea_decoded_def Let_def bind_eq_Some_conv case_prod_beta card_frame_def shape_def dest!: rwaudit_save_length
      split: option.splits if_splits)

lemma send_cards_frame:
  "send_cards keys jdest cs (ct, ms) = Some (ct', ms') \<Longrightarrow> filter is_encoded ms = [] \<Longrightarrow>
    card_frame ct' = card_frame ct \<and> filter is_encoded ms' = []"
proof (induction cs arbitrary: ct ms)
  case (Cons c cs)
  from Cons.prems(1) obtain d auds where a: "length auds = length (audits (ct_priv ct))"
    and cs: "(\<exists>ct1 m r. pangea_card keys (upd_priv (\<lambda>p. p\<lparr>audits := auds\<rparr>) ct) jdest d c = Some (ct1, m, r)
        \<and> send_cards keys jdest cs (ct1, ms @ m) = Some (ct', ms'))
      \<or> (\<exists>e f g h. send_cards keys jdest cs (upd_priv (\<lambda>p. p\<lparr>audits := auds\<rparr>) ct, ms @ [Cmd ''card'' e f g h]) = Some (ct', ms'))"
    by (auto simp: Let_def bind_eq_Some_conv case_prod_beta dest!: rwaudit_save_length split: if_splits) blast+
  from cs show ?case
  proof (elim disjE exE conjE)
    fix ct1 m r
    assume p: "pangea_card keys (upd_priv (\<lambda>p. p\<lparr>audits := auds\<rparr>) ct) jdest d c = Some (ct1, m, r)"
      and s: "send_cards keys jdest cs (ct1, ms @ m) = Some (ct', ms')"
    from pangea_card_frame [OF p] Cons.IH [OF s] Cons.prems(2) a show ?thesis by simp
  next
    fix e f g h
    assume s: "send_cards keys jdest cs (upd_priv (\<lambda>p. p\<lparr>audits := auds\<rparr>) ct, ms @ [Cmd ''card'' e f g h]) = Some (ct', ms')"
    from Cons.IH [OF s] Cons.prems(2) a show ?thesis by simp
  qed
qed simp


lemma bits256s_length: "length d = 32 * n \<Longrightarrow> length (bits256s d) = n"
proof (induction n arbitrary: d)
  case (Suc n)
  then have "d \<noteq> []" by auto
  with Suc show ?case by (subst bits256s.simps) simp
qed (simp add: bits256s.simps)

lemma pangea_preflop_frame:
  assumes r: "pangea_preflop keys ct jdest data = Some (ct', msgs, ret)"
  shows "card_frame ct' = card_frame ct \<and> filter is_encoded msgs = []"
proof (cases "data = None \<or> length (the data) \<noteq> (2 * N_players (ct_pub ct)) * (N_players (ct_pub ct) * N_players (ct_pub ct) * 32)")
  case True
  then show ?thesis using r by (cases data) (simp_all add: pangea_preflop_def Let_def)
next
  case False
  let ?N = "N_players (ct_pub ct)" and ?auds = "\<lambda>d. buf_write 0 (bits256s d) (audits (ct_priv ct))"
  from False obtain d where d: "data = Some d" "length d = (2 * ?N) * (?N * ?N * 32)" by auto
  have len: "length (bits256s d) = 2 * ?N * (?N * ?N)" using d(2) by (intro bits256s_length) simp
  have fits: "2 * ?N * (?N * ?N) \<le> length (audits (ct_priv ct))"
    using r d by (auto simp: pangea_preflop_def Let_def split: if_splits)
  then have auds: "length (?auds d) = length (audits (ct_priv ct))" using len by simp
  consider auds where "audit_rows (\<lambda>cardno. audit_decode (upd_priv (\<lambda>p. p\<lparr>audits := ?auds d\<rparr>) ct)) ?N
        (List.product [0..<?N * 2] [0..<?N]) (?auds d) = Some auds"
      "ct' = upd_priv (\<lambda>p. p\<lparr>audits := auds\<rparr>) (upd_priv (\<lambda>p. p\<lparr>audits := ?auds d\<rparr>) ct)"
      "\<exists>p q k. msgs = [Cmd ''preflop'' p q k (- 1)]"
    | "send_cards keys jdest [0..<2 * ?N] (upd_priv (\<lambda>p. p\<lparr>audits := ?auds d\<rparr>) ct, []) = Some (ct', msgs)"
    using r d fits by (auto simp: pangea_preflop_def Let_def bind_eq_Some_conv split: if_splits)
  then show ?thesis
  proof cases
    case 1
    then show ?thesis using audit_rows_length [OF 1(1)] auds by auto
  next
    case 2
    then show ?thesis using send_cards_frame [OF 2] auds by simp
  qed
qed

lemma own_ind_frame: "card_frame ct' = card_frame ct \<Longrightarrow> own_ind ct' = own_ind ct"
  by (simp add: card_frame_def shape_def seat_frame_def pangea_ind_def pangea_search_def)

lemma pangea_encoded_frame:
  assumes r: "pangea_encoded keys dr ct jdest data = Some (ct', msgs, ret)"
  shows "card_frame ct' = card_frame ct \<and> (own_ind ct \<le> 0 \<longrightarrow> filter is_encoded msgs = [])"
proof -
  obtain sbytes rnd nrbytes shbytes where dr: "dr = (sbytes, rnd, nrbytes, shbytes)" by (metis prod_cases4)
  show ?thesis using r unfolding dr pangea_encoded_def Let_def prod.case
    by (auto simp: bind_eq_Some_conv dest!: pangea_preflop_frame audit_rows_length split: option.splits if_splits)
      (simp_all add: card_frame_def shape_def seat_frame_def)
qed

lemma pangea_final_frame: "pangea_final ct data = (ct', ret) \<Longrightarrow> card_frame ct' = card_frame ct"
  by (auto simp: pangea_final_def seat_frame_hand intro!: card_frame_pub split: option.splits if_splits)

lemma pangea_startbets_msgs: "filter is_encoded (map Betting ms) = []"
  by (induction ms) simp_all

lemma pangea_facedown_frame:
  "pangea_facedown ct data cardno s valid = (ct', msgs, ret) \<Longrightarrow> card_frame ct' = card_frame ct \<and> filter is_encoded msgs = []"
  by (auto simp: pangea_facedown_def Let_def case_prod_beta pangea_startbets_msgs card_frame_def shape_def split: if_splits)


lemma rank_copy_length: "rank_copy comm k i h = (h', b) \<Longrightarrow> length h' = length h"
  by (induction k arbitrary: i h) (auto simp: Let_def split: if_splits)

lemma pangea_rank_frame: "card_frame (snd (pangea_rank ct s)) = card_frame ct"
proof -
  obtain h b where h: "rank_copy (community (hand (ct_pub ct))) 7 0 (hands (ct_cards ct) ! s) = (h, b)" by (metis surj_pair)
  show ?thesis using rank_copy_length [OF h]
    by (simp add: pangea_rank_def Let_def h card_frame_def shape_def map_length_update seat_frame_def)
qed

lemma pangea_faceup_frame:
  assumes "pangea_faceup ct data cardno turni s = (ct', msgs, ret)"
  shows "card_frame ct' = card_frame ct \<and> filter is_encoded msgs = []"
proof -
  have hs: "map length (foldl (\<lambda>hs i. hs[i := (hs ! i)[k := f]]) xs is) = map length xs" for k f "is" and xs :: "nat list list"
    by (rule foldl_frame) (simp add: map_length_update)
  have comm: "card_frame (upd_cards (\<lambda>h. h\<lparr>hands := foldl (\<lambda>hs i. hs[i := (hs ! i)[k := f]]) (hands h) is,
      community256 := (community256 h)[k := d]\<rparr>) (ct\<lparr>ct_pub := upd_hand (\<lambda>h. h\<lparr>community := (community h)[k := f]\<rparr>)
        (pangea_summary (ct_pub ct) ty a b)\<rparr>)) = card_frame ct" for k f "is" d ty a b
    by (simp add: card_frame_def shape_def hs seat_frame_hand)
  have hole: "card_frame (upd_cards (\<lambda>h. h\<lparr>hand_cards := (hand_cards h)[s := (hand_cards h ! s)[i := d]],
      hands := (hands h)[s := (hands h ! s)[j := f]]\<rparr>) (ct\<lparr>ct_pub := pangea_summary (ct_pub ct) ty a b\<rparr>)) = card_frame ct" for i j d f ty a b
    by (simp add: card_frame_def shape_def map_length_update)
  have sm: "card_frame (ct\<lparr>ct_pub := pangea_summary (ct_pub ct) ty a b\<rparr>) = card_frame ct" for ty a b
    by (rule card_frame_pub) simp
  have sb: "card_frame (ct\<lparr>ct_pub := fst (pangea_startbets (ct_pub ct) n)\<rparr>) = card_frame ct" for n and ct :: cardtable
    by (rule card_frame_pub) simp
  show ?thesis using assms
    by (auto simp: pangea_faceup_def Let_def case_prod_beta pangea_startbets_msgs sb pangea_rank_frame sm
        comm [simplified] hole [simplified] split: option.splits if_splits)
      (simp add: card_frame_def shape_def hs seat_frame_hand)
qed

text \<open>Only a report of the deck starts the encoding.\<close>

lemma pangea_gotdeck_frame:
  assumes "pangea_gotdeck now ct prd s = (ct', msgs)" "0 < now"
  shows "shape ct' = shape ct \<and> (if filter is_encoded msgs = [] then encodestarted (ct_cards ct') = encodestarted (ct_cards ct)
    else length (filter is_encoded msgs) = 1 \<and> encodestarted (ct_cards ct) = 0 \<and> 0 < encodestarted (ct_cards ct'))"
  using assms by (auto simp: pangea_gotdeck_def pangea_checkstart_def Let_def shape_def split: if_splits)

lemma card_step_frame:
  assumes "card_step keys ct msgs ct'" "own_ind ct \<le> 0"
  shows "shape ct' = shape ct \<and> (if filter is_encoded msgs = [] then encodestarted (ct_cards ct') = encodestarted (ct_cards ct)
    else length (filter is_encoded msgs) = 1 \<and> encodestarted (ct_cards ct) = 0 \<and> 0 < encodestarted (ct_cards ct'))"
  using assms
proof (induction rule: card_step.induct)
  case (gotdeck ct s now prd ct' msgs)
  show ?case by (rule pangea_gotdeck_frame [OF gotdeck(3,2)])
next
  case (encoded ct s dr jdest data ct' msgs ret)
  then show ?case using pangea_encoded_frame by (auto simp: card_frame_def)
next
  case (final ct s data ct' ret)
  then show ?case using pangea_final_frame by (auto simp: card_frame_def)
next
  case (preflop ct s jdest data ct' msgs ret)
  then show ?case using pangea_preflop_frame by (auto simp: card_frame_def)
next
  case (decoded ct s data cardno turni ct' msgs ret)
  then show ?case using pangea_decoded_frame by (auto simp: card_frame_def)
next
  case (card ct s jdest data cardno ct' msgs ret)
  then show ?case using pangea_card_frame by (auto simp: card_frame_def)
next
  case (facedown ct s data cardno valid ct' msgs ret)
  then show ?case using pangea_facedown_frame by (auto simp: card_frame_def)
next
  case (faceup ct s data cardno turni ct' msgs ret)
  then show ?case using pangea_faceup_frame by (auto simp: card_frame_def)
qed

section \<open>Properties\<close>

definition witness_host :: cardtable where
  "witness_host = upd_priv (\<lambda>p. p\<lparr>audits := replicate 4 (replicate 32 0)\<rparr>) witness_cards"

lemma witness_host_run: "card_run keys witness_host (snd (pangea_gotdeck 9 witness_host 5 1)) (fst (pangea_gotdeck 9 witness_host 5 1))"
proof -
  have "poll_guard witness_host 1" by code_simp
  then have "card_step keys witness_host (snd (pangea_gotdeck 9 witness_host 5 1)) (fst (pangea_gotdeck 9 witness_host 5 1))"
    by (rule card_step.gotdeck [of _ _ 9]) simp_all
  from card_run.more [OF card_run.start this] show ?thesis by simp
qed

text \<open>
  C16. A deck is encoded once: in every sequence of card messages the host of a hand sends the deck on at most
  once, and the time of the start is recorded exactly when it has.
\<close>

theorem card_run_encodes_once:
  assumes "card_run keys ct0 tr ct" "own_ind ct0 \<le> 0" "encodestarted (ct_cards ct0) = 0"
  shows "length (filter is_encoded tr) \<le> 1 \<and> (filter is_encoded tr \<noteq> [] \<longleftrightarrow> 0 < encodestarted (ct_cards ct)) \<and> own_ind ct = own_ind ct0"
  using assms
proof (induction rule: card_run.induct)
  case (more tr ct msgs ct')
  then have ih: "length (filter is_encoded tr) \<le> 1" "filter is_encoded tr \<noteq> [] \<longleftrightarrow> 0 < encodestarted (ct_cards ct)" "own_ind ct = own_ind ct0"
    by blast+
  then have "own_ind ct \<le> 0" using more.prems by simp
  note st = card_step_frame [OF more.hyps(2) this]
  then have "own_ind ct' = own_ind ct" by (simp add: shape_def seat_frame_def pangea_ind_def pangea_search_def)
  with ih st show ?case by (auto split: if_splits)
qed simp

theorem card_run_encodes_once_witness:
  "length (filter is_encoded (snd (pangea_gotdeck 9 witness_host 5 1))) \<le> 1
    \<and> 0 < encodestarted (ct_cards (fst (pangea_gotdeck 9 witness_host 5 1)))"
proof -
  have h: "own_ind witness_host \<le> 0" "encodestarted (ct_cards witness_host) = 0"
    "filter is_encoded (snd (pangea_gotdeck 9 witness_host 5 1)) \<noteq> []" by code_simp+
  from card_run_encodes_once [OF witness_host_run h(1,2)] h(3) show ?thesis by blast
qed

end
