(* ===== verification/Spec2Isabelle.thy ===== *)
theory Spec2Isabelle
  imports MessageQueue Huffcode Cointx Acct777 PangeaGame
begin

text \<open>
  Verification of the core logic of SuperNET.

  \<^bold>\<open>The program.\<close> SuperNET is a daemon with plugins: a peer-to-peer poker game (Pangea), coin
  gateways, a message bus, price feeds and the utilities they share. This development covers
  the parts that compute rather than communicate:

  \<^item> the poker table: seating, betting, side pots and settlement, the message handlers that
    drive a hand, and the log of a hand that the players compare;
  \<^item> the card layer under it: encrypting, shuffling, layering, dealing and auditing cards, and
    threshold sharing of the keys of players that leave;
  \<^item> the cryptography of the card layer: arithmetic modulo \<open>2 ^ 255 - 19\<close> in two
    representations, the curve function on each, and SHA-256;
  \<^item> the ranking of poker hands;
  \<^item> account keys and signatures, checksums and Bloom filters;
  \<^item> the bit stream with its integer codes and the Huffman coder on top of it;
  \<^item> hexadecimal text, small sets of numbers, and the codec of raw coin transactions;
  \<^item> the message queue between the browser's main thread and the daemon thread.

  \<^bold>\<open>Theories and sources\<close> (paths below \<^verbatim>\<open>src/\<close>; definitions keep the names of the C
  functions, or name the statement block of a function they stand for):

  \<^item> \<open>Prelude\<close>: machine integers, byte buffers, lemma collections.
  \<^item> \<open>MessageQueue\<close>: \<^verbatim>\<open>queue.c\<close>. The ring of slots implements the locale \<open>bounded_fifo\<close>
    and refines a list of bounded length.
  \<^item> \<open>Interpolation\<close>, \<open>GF256\<close>: the field of 256 elements given by the log and exponential tables
    of \<^verbatim>\<open>plugins/utils/libgfshare.c\<close>, and Lagrange interpolation over it.
  \<^item> \<open>Libgfshare\<close>: the sharing itself, \<^verbatim>\<open>gfshare_ctx_*\<close>, \<^verbatim>\<open>calc_shares\<close>, \<^verbatim>\<open>init_sharenrs\<close>.
  \<^item> \<open>Cards777\<close>: \<^verbatim>\<open>plugins/games/cards777.c\<close>, shuffling and key recovery.
  \<^item> \<open>WordBounds\<close>, \<open>Field25519\<close>: bounds of word arithmetic; numbers modulo \<open>2 ^ 255 - 19\<close>, the
    reference ladder, and the locale \<open>field_rep\<close> of a representation by limbs.
  \<^item> \<open>Pocklington\<close>, \<open>Prime25519\<close>: the primality of \<open>2 ^ 255 - 19\<close> by a certificate, and inverses by
    Fermat's theorem.
  \<^item> \<open>CurveLadder\<close>: reciprocal, bytes and ladder over the locale, proved once for both
    implementations (locales \<open>field_recip\<close>, \<open>field_bytes\<close>, \<open>ladder_impl\<close>).
  \<^item> \<open>CurveTorsion\<close>: points of the curve whose doublings never reach the neutral element, so that there
    are layer keys other than zero.
  \<^item> \<open>Curve25519\<close>: \<^verbatim>\<open>plugins/utils/curve25519.c\<close>, five 51-bit limbs in 64-bit words.
  \<^item> \<open>Donna25519\<close>, \<open>DonnaBytes\<close>: \<^verbatim>\<open>plugins/utils/curve25519-donna.c\<close>, ten signed limbs of 26 and 25
    bits, and the constant-time contraction to bytes.
  \<^item> \<open>CurveAgree\<close>: the functions on 32-byte numbers, and the agreement of the two files.
  \<^item> \<open>Sha256\<close>: the hash of \<^verbatim>\<open>plugins/utils/curve25519.c\<close>, \<^verbatim>\<open>sha256_v*\<close> and \<^verbatim>\<open>vcalc_sha256\<close>, and the
    standard as its specification.
  \<^item> \<open>CardCrypt\<close>, \<open>CardDeal\<close>: the rest of \<^verbatim>\<open>plugins/games/cards777.c\<close>: card keys, layers, decks, the
    turn of a player, and a card on its way through all players.
  \<^item> \<open>PangeaTable\<close>: the structures of \<^verbatim>\<open>plugins/games/pangea/pangea777.c\<close> and
    \<^verbatim>\<open>plugins/common/hostnet777.c\<close>, seats and turn order.
  \<^item> \<open>PangeaSummary\<close>: the log of a hand, \<^verbatim>\<open>pangea_summary\<close> and \<^verbatim>\<open>pangea_parsesummary\<close>.
  \<^item> \<open>PangeaBetting\<close>, \<open>PangeaPot\<close>, \<open>PangeaHand\<close>: \<^verbatim>\<open>plugins/games/pangea/pangeafunds.c\<close>: bets and
    antes; side pots, splitting and \<^verbatim>\<open>pangea_finish\<close>; the handlers of the messages of a hand.
    A handler maps the table, the fields of the message, the time and the random draws to the
    new table and the messages it sends.
  \<^item> \<open>PangeaCards\<close>: the card messages of \<^verbatim>\<open>plugins/games/pangea/pangea777.c\<close>: the agreement on a deck,
    its way through the players, the audit of every card, the compressed text the audits travel in,
    and the cards that are shown.
  \<^item> \<open>PangeaGame\<close>: the dispatch of the card messages in \<^verbatim>\<open>pangea_poll\<close> as a step relation, and its runs.
  \<^item> \<open>Poker\<close>: \<^verbatim>\<open>plugins/games/pangea/poker.c\<close>, five and seven card scores and card piles.
  \<^item> \<open>Bits777\<close>, \<open>Acct777\<close>: \<^verbatim>\<open>plugins/utils/bits777.c\<close>, bit arrays, Bloom filter, CRC-32; account keys and
    signatures, \<^verbatim>\<open>acct777_*\<close>.
  \<^item> \<open>Utils777\<close>: \<^verbatim>\<open>plugins/utils/utils777.c\<close>, hexadecimal and base32 text, number sets, fields.
  \<^item> \<open>Huffstream\<close>, \<open>Huffcode\<close>: \<^verbatim>\<open>plugins/utils/huffstream.c\<close>, the bit stream (locale \<open>bit_stream\<close>),
    integer codes, the heap (locale \<open>min_queue\<close>) and the Huffman coder.
  \<^item> \<open>Cointx\<close>: \<^verbatim>\<open>plugins/coins/cointx.c\<close>, encoding and decoding of raw transactions.

  \<^bold>\<open>Conventions.\<close> A C structure is a record, unused fields left out. Amounts of money are integers
  with the wrap-around of \<^verbatim>\<open>int64_t\<close> and \<^verbatim>\<open>uint64_t\<close> written out (\<open>as_s64\<close>, \<open>as_u64\<close>); masks, bytes,
  scores and checksums are words. Buffers are lists of bytes; in the codecs an access outside
  an object is the result \<open>None\<close>, except in the decoder of Huffman codes, where it is \<open>Fault\<close> and
  \<open>None\<close> is a call that does not end. Random numbers, the time and uninitialised memory are
  arguments of the definitions that use them. The account functions of \<open>Acct777\<close> take the vendored SHA-256 of
  \<^verbatim>\<open>plugins/utils/sha256.c\<close> as an argument; the card layer uses the verified one. Where the sources have
  two versions of a function, the one of the 64-bit build is modelled. The log of a hand is the list of the
  bytes written; \<open>summary_array\<close> is the array of 65536 bytes it is kept in and
  \<open>summary_overrun\<close> says that it has been written past its end.

  \<^bold>\<open>What the lemmas show.\<close>

  \<^item> Money: every bet, ante and settlement conserves the total of balances, bets and rakes, as
    long as amounts are not negative and seat and turn numbers agree; a settled hand leaves
    nothing over; side pots are layered correctly; the turn passes to the next player who can
    act; a new hand starts clean; the log of a hand, as long as it fits its array, parses back to the events
    that were logged.
  \<^item> Secrets: a decoding context given \<open>M\<close> shares of an encoding context returns its secret, \<open>M - 1\<close> shares fit every secret equally often.
  \<^item> Curve and hash: limbs never overflow, both implementations compute the same Montgomery
    ladder modulo the prime and return canonical bytes, the reciprocal inverts; the streaming hash is
    SHA-256 however the message is cut; the constants of the standard are computed as cube roots of primes.
  \<^item> Cards: a deck holds every face once; a card that any number of players have shuffled and
    layered with keys other than zero opens to a card of the deck encrypted to its destination, the audit of the keys accepts
    exactly the card that was dealt, the player finds its face, and the keys of a player that has left are
    rebuilt from the shares. The handlers of the players pass the row of a community card on until the
    host stores it, and the stored row is that audit; a deck is encoded only after all players have reported
    it, and once, in every sequence of messages.
  \<^item> Codecs: integer codes, Huffman codes, hexadecimal text and raw transactions round trip,
    and a decoded transaction passes the check of its own re-encoding;
    the heap sort ends and sorts; the CRC is polynomial division and detects bursts; merged Bloom filters
    are the filter of the union.
  \<^item> Queue: the ring accepts, refuses and delivers the messages a list of 256 places would.
  \<^item> Poker hands: the five-card score ranks by category; dealing and shuffling lose no card.
  \<^item> Defects: theorems that end in a failure state what the code does where it departs from its
    intention (action messages with negative amounts, bets filed under the wrong player,
    out-of-bounds accesses, lost set elements, an endless loop, messages of the wrong length, shown
    cards that nobody checks).

  \<^bold>\<open>Bounds and loops.\<close> Loops over arrays are recursions on lists or counters. Side pots use the
  number of players as fuel, which \<open>pangea_sidepots_correct\<close> shows to be enough. The heap sort,
  the merging loop, the walks along a Huffman tree and its decoder are partial functions in
  the option monad; lemmas show that they return where they do, and
  \<open>huff_single_item_hangs\<close> that the decoder of a code for one item does not. The loop that fills a deck reads a
  list of random draws and returns \<open>None\<close> only when a face is missing among them
  (\<open>cards777_initdeck_complete\<close>).

  \<^bold>\<open>Hypotheses.\<close> That two parties compute the same secret from each other's public keys is a
  hypothesis of the theorem on reading a card; it is a property of the curve group, which is not
  developed here. That no layer key is zero is a hypothesis on the random draws in the theorems on dealing;
  \<open>xoverz_zero_draw\<close> shows a draw for which it holds. Lengths, the number of players and the
  randomness are restricted only as far as the C types restrict them.

  \<^bold>\<open>Not modelled.\<close> Sockets, files, JSON, databases and process control (the daemon, the bus, the
  gateways, the exchanges' price feeds) only pass data to libraries; vendored code that the sources
  only call (other hashes and ciphers, the JSON and web libraries) is left out; so are arithmetic on
  doubles, the test drivers of the card layer, the dispatch of the betting messages, and of the Huffman coder the serialised tree
  and the pattern search.
\<close>

end
